(* ===== verification/DD_Prelude.thy ===== *)
theory DD_Prelude
  imports Main "HOL-Library.Word"
begin

section \<open>Shared vocabulary of the development\<close>

text \<open>
  What every component of the native code uses: the ways an XSUB can end, a small
  state-and-outcome combinator, C buffers written at an offset, machine widths, and the
  named theorem collections.

  An XSUB ends in one of four ways. \<open>Ret x\<close> is a normal return. \<open>Croak msg\<close> is Perl's
  \<open>croak()\<close>: control leaves the C function by a long jump, nothing after it runs, and the
  state is what it was at that point (a mutex that was held stays held). \<open>Fault\<close> is
  undefined behaviour of the C code: a null dereference, an access outside an allocation, a
  trapping division. \<open>Diverge\<close> is a loop that never ends.
\<close>

datatype 'a outcome = Ret 'a | Croak string | Fault | Diverge

type_synonym ('s, 'a) xs = "'s \<Rightarrow> 'a outcome \<times> 's"

text \<open>\<open>size_t\<close>, \<open>STRLEN\<close>, \<open>UV\<close> and \<open>unsigned long\<close> of an LP64 build; \<open>IV\<close> is the
  same word read through \<open>sint\<close>.\<close>

type_synonym u64 = "64 word"

definition INT_MAX :: nat where "INT_MAX = 2 ^ 31 - 1"

named_theorems xs_simps \<open>unfolding of the outcome combinators\<close>
named_theorems heap_simps \<open>reads and writes of a node store\<close>
named_theorems inv_intros \<open>preservation of component invariants\<close>

subsection \<open>Outcomes in sequence\<close>

definition xs_return :: "'a \<Rightarrow> ('s, 'a) xs" where
  "xs_return x s = (Ret x, s)"

definition xs_croak :: "string \<Rightarrow> ('s, 'a) xs" where
  "xs_croak msg s = (Croak msg, s)"

definition xs_fault :: "('s, 'a) xs" where
  "xs_fault s = (Fault, s)"

definition xs_diverge :: "('s, 'a) xs" where
  "xs_diverge s = (Diverge, s)"

definition xs_get :: "('s, 's) xs" where
  "xs_get s = (Ret s, s)"

definition xs_modify :: "('s \<Rightarrow> 's) \<Rightarrow> ('s, unit) xs" where
  "xs_modify f s = (Ret (), f s)"

definition xs_bind :: "('s, 'a) xs \<Rightarrow> ('a \<Rightarrow> ('s, 'b) xs) \<Rightarrow> ('s, 'b) xs" where
  "xs_bind m f s =
     (case m s of
        (Ret x, s') \<Rightarrow> f x s'
      | (Croak e, s') \<Rightarrow> (Croak e, s')
      | (Fault, s') \<Rightarrow> (Fault, s')
      | (Diverge, s') \<Rightarrow> (Diverge, s'))"

definition xs_then :: "('s, 'a) xs \<Rightarrow> ('s, 'b) xs \<Rightarrow> ('s, 'b) xs" where
  "xs_then m k = xs_bind m (\<lambda>_. k)"

lemmas xs_defs [xs_simps] =
  xs_return_def xs_croak_def xs_fault_def xs_diverge_def xs_get_def xs_modify_def

lemma xs_bind_Ret [xs_simps]: "m s = (Ret x, s') \<Longrightarrow> xs_bind m f s = f x s'"
  by (simp add: xs_bind_def)

lemma xs_bind_simps [xs_simps]:
  "xs_bind (xs_return x) f s = f x s"
  "xs_bind (xs_croak e) f1 s = (Croak e, s)"
  "xs_bind xs_fault f2 s = (Fault, s)"
  "xs_bind xs_diverge f3 s = (Diverge, s)"
  "xs_bind xs_get f4 t = f4 t t"
  "xs_bind (xs_modify g) f5 s = f5 () (g s)"
  by (simp_all add: xs_bind_def xs_defs)

lemma xs_then_Ret [xs_simps]: "m s = (Ret x, s') \<Longrightarrow> xs_then m k s = k s'"
  by (simp add: xs_then_def xs_bind_def)

lemma xs_then_simps [xs_simps]:
  "xs_then (xs_return x) k s = k s"
  "xs_then (xs_croak e) k s = (Croak e, s)"
  "xs_then xs_fault k s = (Fault, s)"
  "xs_then xs_diverge k s = (Diverge, s)"
  "xs_then (xs_modify g) k s = k (g s)"
  by (simp_all add: xs_then_def xs_bind_def xs_defs)

lemma xs_bind_assoc: "xs_bind (xs_bind m f) g = xs_bind m (\<lambda>x. xs_bind (f x) g)"
  by (rule ext) (simp add: xs_bind_def split: prod.splits outcome.splits)

lemma xs_then_assoc: "xs_then (xs_then m k) l = xs_then m (xs_then k l)"
  by (simp add: xs_then_def xs_bind_assoc)

lemma xs_bind_then: "xs_bind (xs_then m k) f = xs_then m (xs_bind k f)"
  by (simp add: xs_then_def xs_bind_assoc)

subsection \<open>What a call can end in\<close>

text \<open>
  \<open>xs_ok E R res\<close>: the call neither faults nor diverges, a normal return satisfies \<open>R\<close> and
  a croak leaves a state that satisfies \<open>E\<close>. The rules walk a sequence of calls forward.
\<close>

definition xs_ok :: "('s \<Rightarrow> bool) \<Rightarrow> ('a \<Rightarrow> 's \<Rightarrow> bool) \<Rightarrow> 'a outcome \<times> 's \<Rightarrow> bool" where
  "xs_ok E R res =
     (case res of
        (Ret x, s) \<Rightarrow> R x s
      | (Croak m, s) \<Rightarrow> E s
      | (Fault, s) \<Rightarrow> False
      | (Diverge, s) \<Rightarrow> False)"

lemma xs_ok_simps [simp]:
  "xs_ok E R (Ret x, s) = R x s"
  "xs_ok E R (Croak m, s) = E s"
  "\<not> xs_ok E R (Fault, s)"
  "\<not> xs_ok E R (Diverge, s)"
  by (simp_all add: xs_ok_def)

lemma xs_ok_bind:
  assumes "xs_ok E Q (m s)" and "\<And>x s'. Q x s' \<Longrightarrow> xs_ok E R (f x s')"
  shows "xs_ok E R (xs_bind m f s)"
proof -
  obtain out t where "m s = (out, t)" by (cases "m s")
  with assms show ?thesis by (cases out) (simp_all add: xs_bind_def)
qed

lemma xs_ok_then:
  assumes "xs_ok E Q (m s)" and "\<And>x s'. Q x s' \<Longrightarrow> xs_ok E R (k s')"
  shows "xs_ok E R (xs_then m k s)"
  unfolding xs_then_def using assms by (rule xs_ok_bind)

lemma xs_ok_mono:
  assumes "xs_ok E Q res" and "\<And>s. E s \<Longrightarrow> E' s" and "\<And>x s. Q x s \<Longrightarrow> R x s"
  shows "xs_ok E' R res"
proof -
  obtain out t where "res = (out, t)" by (cases res)
  with assms show ?thesis by (cases out) simp_all
qed

lemma xs_ok_Ret: "xs_ok E R (m s) \<Longrightarrow> m s = (Ret x, s') \<Longrightarrow> R x s'"
  by simp

subsection \<open>C buffers\<close>

text \<open>
  An allocation is the list of its bytes. \<open>buf_write buf off bs\<close> is
  \<open>memcpy(buf + off, bs, n)\<close>: \<open>None\<close> when any byte would land outside the allocation.
\<close>

type_synonym buffer = "char list"

definition buf_write :: "buffer \<Rightarrow> u64 \<Rightarrow> char list \<Rightarrow> buffer option" where
  "buf_write buf off bs =
     (if unat off + length bs \<le> length buf
      then Some (take (unat off) buf @ bs @ drop (unat off + length bs) buf)
      else None)"

lemma buf_write_Some:
  assumes "unat off + length bs \<le> length buf"
  obtains buf' where "buf_write buf off bs = Some buf'"
    and "length buf' = length buf"
    and "take (unat off + length bs) buf' = take (unat off) buf @ bs"
  using assms by (simp add: buf_write_def)

lemma length_buf_write: "buf_write buf off bs = Some buf' \<Longrightarrow> length buf' = length buf"
  by (auto simp: buf_write_def split: if_splits)

subsection \<open>Words used as sizes\<close>

lemma unat_add_small:
  fixes a b :: u64
  assumes "unat a + unat b < 2 ^ 64"
  shows "unat (a + b) = unat a + unat b"
  using assms by (simp add: unat_word_ariths)

lemma unat_mult_small:
  fixes a b :: u64
  assumes "unat a * unat b < 2 ^ 64"
  shows "unat (a * b) = unat a * unat b"
  using assms by (simp add: unat_word_ariths)

lemma unat_of_nat_small: "n < 2 ^ 64 \<Longrightarrow> unat (of_nat n :: u64) = n"
  by (simp add: unat_of_nat take_bit_nat_eq_self)

subsection \<open>Lists\<close>

lemma length_concat_map_le:
  assumes "\<And>x. length (f x) \<le> k"
  shows "length (concat (map f xs)) \<le> k * length xs"
proof (induction xs)
  case (Cons x xs)
  with assms [of x] show ?case by simp
qed simp

lemma takeWhile_append_stop: "\<forall>x\<in>set xs. P x \<Longrightarrow> \<not> P y \<Longrightarrow> takeWhile P (xs @ y # ys) = xs"
  by (induction xs) auto

lemma dropWhile_append_stop: "\<forall>x\<in>set xs. P x \<Longrightarrow> \<not> P y \<Longrightarrow> dropWhile P (xs @ y # ys) = y # ys"
  by (induction xs) auto

subsection \<open>Bits of numbers\<close>

lemma or_push:
  fixes a b :: nat
  assumes "b < 2 ^ n"
  shows "or (push_bit n a) b = a * 2 ^ n + b"
proof -
  have b: "take_bit n b = b" using assms by (simp add: take_bit_nat_eq_self)
  have "and (push_bit n a) b = 0"
    by (rule bit_eqI) (use b in \<open>auto simp: bit_simps, metis bit_take_bit_iff not_less\<close>)
  then have "push_bit n a + b = or (push_bit n a) b" by (rule disjunctive_add_eq_or)
  then show ?thesis by (simp add: push_bit_eq_mult)
qed

end
