(* ===== verification/Perl_Value.thy ===== *)
theory Perl_Value
  imports DD_Prelude
begin

section \<open>Perl values as the native code sees them\<close>

text \<open>
  The XSUBs receive Perl scalars (\<open>SV *\<close>) and test them with \<open>SvOK\<close>, \<open>SvROK\<close>,
  \<open>SvIOK\<close>, \<open>SvNOK\<close>, \<open>SvPOK\<close>, \<open>SvUTF8\<close> and \<open>SvTAINTED\<close>. A scalar here is the set of
  slots those flags announce. The interpreter itself is not part of the repository, so what
  it computes is a parameter, the record \<open>perl_rt\<close>: converting a scalar that lacks a slot
  (\<open>sv_2pv\<close>, \<open>sv_2iv\<close>, \<open>sv_2nv\<close>), the C \<open>double\<close> arithmetic on \<open>NV\<close>, whose
  type is the type variable \<open>'nv\<close>, whether the allocator grants a request of a given size
  (\<open>rt_alloc\<close>), the interpreter version, \<open>perl_clone\<close> with its pointer table, and
  \<open>PerlLIO_dup\<close>.
\<close>

record 'nv perl_scalar =
  sv_iv :: "u64 option"
  sv_nv :: "'nv option"
  sv_pv :: "char list option"
  sv_utf8 :: bool
  sv_tainted :: bool

datatype 'nv perl_sv =
    SV_Undef
  | SV_Scalar "'nv perl_scalar"
  | SV_Ref nat

record 'nv perl_rt =
  rt_2pv :: "'nv perl_scalar \<Rightarrow> char list"
  rt_2iv :: "'nv perl_scalar \<Rightarrow> u64"
  rt_2nv :: "'nv perl_scalar \<Rightarrow> 'nv"
  rt_nv_of_iv :: "u64 \<Rightarrow> 'nv"
  rt_iv_of_nv :: "'nv \<Rightarrow> u64"
  rt_nv_add :: "'nv \<Rightarrow> 'nv \<Rightarrow> 'nv"
  rt_nv_sub :: "'nv \<Rightarrow> 'nv \<Rightarrow> 'nv"
  rt_nv_mul :: "'nv \<Rightarrow> 'nv \<Rightarrow> 'nv"
  rt_nv_div :: "'nv \<Rightarrow> 'nv \<Rightarrow> 'nv"
  rt_nv_zero :: "'nv"
  rt_nv_one :: "'nv"
  rt_alloc :: "nat \<Rightarrow> bool"
  rt_version :: nat
  rt_perl_clone :: bool
  rt_clone_lookup :: "nat \<Rightarrow> nat option"
  rt_mutex_init :: bool
  rt_dup :: "int \<Rightarrow> int"

text \<open>The scalars the native code builds with \<open>newSViv\<close>, \<open>newSVnv\<close> and \<open>newSVpvn\<close>.\<close>

definition newSViv :: "u64 \<Rightarrow> 'nv perl_scalar" where
  "newSViv i = \<lparr>sv_iv = Some i, sv_nv = None, sv_pv = None, sv_utf8 = False, sv_tainted = False\<rparr>"

definition newSVnv :: "'nv \<Rightarrow> 'nv perl_scalar" where
  "newSVnv x = \<lparr>sv_iv = None, sv_nv = Some x, sv_pv = None, sv_utf8 = False, sv_tainted = False\<rparr>"

definition newSVpvn :: "char list \<Rightarrow> 'nv perl_scalar" where
  "newSVpvn bs = \<lparr>sv_iv = None, sv_nv = None, sv_pv = Some bs, sv_utf8 = False, sv_tainted = False\<rparr>"

fun SvROK :: "'nv perl_sv \<Rightarrow> bool" where
  "SvROK (SV_Ref _) = True"
| "SvROK _ = False"

fun SvOK :: "'nv perl_sv \<Rightarrow> bool" where
  "SvOK SV_Undef = False"
| "SvOK (SV_Ref _) = True"
| "SvOK (SV_Scalar s) = (sv_iv s \<noteq> None \<or> sv_nv s \<noteq> None \<or> sv_pv s \<noteq> None)"

text \<open>The macros read the slot when its flag is set and call the interpreter otherwise.\<close>

definition SvPV :: "'nv perl_rt \<Rightarrow> 'nv perl_scalar \<Rightarrow> char list" where
  "SvPV rt s = (case sv_pv s of Some bs \<Rightarrow> bs | None \<Rightarrow> rt_2pv rt s)"

definition SvIV :: "'nv perl_rt \<Rightarrow> 'nv perl_scalar \<Rightarrow> u64" where
  "SvIV rt s = (case sv_iv s of Some i \<Rightarrow> i | None \<Rightarrow> rt_2iv rt s)"

definition SvNV :: "'nv perl_rt \<Rightarrow> 'nv perl_scalar \<Rightarrow> 'nv" where
  "SvNV rt s = (case sv_nv s of Some x \<Rightarrow> x | None \<Rightarrow> rt_2nv rt s)"

lemmas newSV_defs = newSViv_def newSVnv_def newSVpvn_def
lemmas Sv_defs = SvPV_def SvIV_def SvNV_def

lemma SvPV_newSVpvn [simp]: "SvPV rt (newSVpvn bs) = bs"
  by (simp add: SvPV_def newSVpvn_def)

lemma SvIV_newSViv [simp]: "SvIV rt (newSViv i) = i"
  by (simp add: SvIV_def newSViv_def)

lemma SvNV_newSVnv [simp]: "SvNV rt (newSVnv x) = x"
  by (simp add: SvNV_def newSVnv_def)

text \<open>
  A concrete runtime whose \<open>NV\<close> is \<open>int\<close>: exact arithmetic, truncating division, decimal
  text left out (every number prints as the empty string). The witnesses run on it.
\<close>

definition int_rt :: "int perl_rt" where
  "int_rt = \<lparr>rt_2pv = (\<lambda>_. []),
     rt_2iv = (\<lambda>s. case sv_nv s of Some x \<Rightarrow> word_of_int x | None \<Rightarrow> 0),
     rt_2nv = (\<lambda>s. case sv_iv s of Some i \<Rightarrow> sint i | None \<Rightarrow> 0),
     rt_nv_of_iv = sint, rt_iv_of_nv = word_of_int,
     rt_nv_add = (+), rt_nv_sub = (-), rt_nv_mul = (*), rt_nv_div = (div),
     rt_nv_zero = 0, rt_nv_one = 1, rt_alloc = (\<lambda>n. n < 2 ^ 40), rt_version = 40,
     rt_perl_clone = True, rt_clone_lookup = Some, rt_mutex_init = True, rt_dup = (\<lambda>fd. fd + 100)\<rparr>"

end
