(* ===== verification/Html_Escape.thy ===== *)
theory Html_Escape
  imports Perl_Value
begin

section \<open>HTML escaping (HtmlEscape.xs)\<close>

text \<open>
  The three XSUBs of package \<open>HtmlEscape\<close>: \<open>_xs_escape_html\<close>, \<open>_xs_escape_html_attr\<close>
  and the span-copying \<open>_xs_escape_html_chunked\<close>. The source text is the byte list that
  \<open>SvPV\<close> returns, the target is the allocation \<open>SvGROW\<close> made, and every \<open>memcpy\<close> into
  it goes through \<open>buf_write\<close>, so an out-of-bounds write would be \<open>Fault\<close>. \<open>written\<close>,
  \<open>length\<close> and \<open>remaining\<close> are \<open>STRLEN\<close> words. The terminating NUL is written too.
\<close>

subsection \<open>The switches\<close>

definition html_switch :: "char \<Rightarrow> char list" where
  "html_switch c =
     (if c = CHR ''&'' then ''&amp;''
      else if c = CHR ''<'' then ''&lt;''
      else if c = CHR ''>'' then ''&gt;''
      else [c])"

definition html_attr_switch :: "char \<Rightarrow> char list" where
  "html_attr_switch c =
     (if c = CHR ''&'' then ''&amp;''
      else if c = CHR ''<'' then ''&lt;''
      else if c = CHR ''>'' then ''&gt;''
      else if c = CHR 0x22 then ''&quot;''
      else if c = CHR 0x27 then ''&#39;''
      else [c])"

subsection \<open>The byte loop\<close>

fun escape_loop :: "(char \<Rightarrow> char list) \<Rightarrow> char list \<Rightarrow> buffer \<Rightarrow> u64 \<Rightarrow> (buffer \<times> u64) option" where
  "escape_loop sw [] target written = Some (target, written)"
| "escape_loop sw (c # source) target written =
     (case buf_write target written (sw c) of
        None \<Rightarrow> None
      | Some target' \<Rightarrow> escape_loop sw source target' (written + of_nat (length (sw c))))"

subsection \<open>The span loop\<close>

text \<open>\<open>memchr\<close> as the offset of the first occurrence.\<close>

fun memchr :: "char list \<Rightarrow> char \<Rightarrow> nat option" where
  "memchr [] c = None"
| "memchr (x # xs) c = (if x = c then Some 0 else map_option Suc (memchr xs c))"

text \<open>The nearest of the three special bytes, with the comparisons of the code.\<close>

definition next_match :: "char list \<Rightarrow> nat option" where
  "next_match cursor =
     (let amp = memchr cursor (CHR ''&'');
          lt = memchr cursor (CHR ''<'');
          gt = memchr cursor (CHR ''>'');
          m1 = (case amp of None \<Rightarrow> lt
                | Some a \<Rightarrow> (case lt of Some l \<Rightarrow> if l < a then lt else amp | None \<Rightarrow> amp));
          m2 = (case m1 of None \<Rightarrow> gt
                | Some m \<Rightarrow> (case gt of Some g \<Rightarrow> if g < m then gt else m1 | None \<Rightarrow> m1))
      in m2)"

lemma memchr_less: "memchr xs c = Some i \<Longrightarrow> i < length xs"
  by (induction xs arbitrary: i) (auto split: if_splits)

lemma next_match_less: "next_match xs = Some i \<Longrightarrow> i < length xs"
  by (auto simp: next_match_def Let_def dest: memchr_less split: option.splits if_splits)

function chunk_loop :: "char list \<Rightarrow> buffer \<Rightarrow> u64 \<Rightarrow> (buffer \<times> u64) option" where
  "chunk_loop cursor target written =
     (if cursor = [] then Some (target, written)
      else case next_match cursor of
        None \<Rightarrow>
          (case buf_write target written cursor of
             None \<Rightarrow> None
           | Some target' \<Rightarrow> Some (target', written + of_nat (length cursor)))
      | Some span \<Rightarrow>
          (case (if span = 0 then Some target else buf_write target written (take span cursor)) of
             None \<Rightarrow> None
           | Some target1 \<Rightarrow>
               (let written1 = written + of_nat span;
                    ent = (if cursor ! span = CHR ''&'' then ''&amp;''
                           else if cursor ! span = CHR ''<'' then ''&lt;'' else ''&gt;'')
                in case buf_write target1 written1 ent of
                     None \<Rightarrow> None
                   | Some target2 \<Rightarrow>
                       chunk_loop (drop (Suc span) cursor) target2
                         (written1 + of_nat (length ent)))))"
  by pat_completeness auto
termination
  by (relation "measure (\<lambda>(cursor, target, written). length cursor)")
     (auto simp: Let_def dest: next_match_less)

declare chunk_loop.simps [simp del]

subsection \<open>The XSUBs\<close>

text \<open>
  \<open>finish_sv\<close> is the common tail: the NUL, \<open>SvCUR_set\<close>, \<open>SvPOK_on\<close> and the two flags.
  \<open>grow\<close> is what \<open>SvGROW\<close> allocates; its bytes are unspecified and here zero.
\<close>

definition finish_sv :: "'nv perl_scalar \<Rightarrow> (buffer \<times> u64) option \<Rightarrow> 'nv perl_scalar outcome" where
  "finish_sv input r =
     (case r of
        None \<Rightarrow> Fault
      | Some (target, written) \<Rightarrow>
          (case buf_write target written [CHR 0x00] of
             None \<Rightarrow> Fault
           | Some target' \<Rightarrow>
               Ret ((newSVpvn (take (unat written) target'))
                      \<lparr>sv_utf8 := sv_utf8 input, sv_tainted := sv_tainted input\<rparr>)))"

definition grow :: "u64 \<Rightarrow> buffer" where
  "grow n = replicate (unat n) (CHR 0x00)"

fun xs_escape_html :: "'nv perl_rt \<Rightarrow> 'nv perl_sv \<Rightarrow> 'nv perl_scalar outcome" where
  "xs_escape_html rt SV_Undef = Ret (newSVpvn [])"
| "xs_escape_html rt (SV_Ref _) = Croak ''Native HTML escaping accepts only scalar values''"
| "xs_escape_html rt (SV_Scalar input) =
     (if \<not> SvOK (SV_Scalar input) then Ret (newSVpvn [])
      else let source = SvPV rt input; len = (of_nat (length source) :: u64) in
        if len > (-1 - 1) div 5 then Croak ''HTML input is too large to escape safely''
        else finish_sv input (escape_loop html_switch source (grow (len * 5 + 1)) 0))"

fun xs_escape_html_attr :: "'nv perl_rt \<Rightarrow> 'nv perl_sv \<Rightarrow> 'nv perl_scalar outcome" where
  "xs_escape_html_attr rt SV_Undef = Ret (newSVpvn [])"
| "xs_escape_html_attr rt (SV_Ref _) =
     Croak ''Native HTML attribute escaping accepts only scalar values''"
| "xs_escape_html_attr rt (SV_Scalar input) =
     (if \<not> SvOK (SV_Scalar input) then Ret (newSVpvn [])
      else let source = SvPV rt input; len = (of_nat (length source) :: u64) in
        if len > (-1 - 1) div 6 then Croak ''HTML attribute input is too large to escape safely''
        else finish_sv input (escape_loop html_attr_switch source (grow (len * 6 + 1)) 0))"

fun xs_escape_html_chunked :: "'nv perl_rt \<Rightarrow> 'nv perl_sv \<Rightarrow> 'nv perl_scalar outcome" where
  "xs_escape_html_chunked rt SV_Undef = Ret (newSVpvn [])"
| "xs_escape_html_chunked rt (SV_Ref _) =
     Croak ''Native HTML escaping accepts only scalar values''"
| "xs_escape_html_chunked rt (SV_Scalar input) =
     (if \<not> SvOK (SV_Scalar input) then Ret (newSVpvn [])
      else let source = SvPV rt input; len = (of_nat (length source) :: u64) in
        if len > (-1 - 1) div 5 then Croak ''HTML input is too large to escape safely''
        else finish_sv input (chunk_loop source (grow (len * 5 + 1)) 0))"

subsection \<open>What one loop writes\<close>

text \<open>
  \<open>wrote buf w out r\<close>: the loop that started at offset \<open>w\<close> of \<open>buf\<close> stayed inside it,
  ended with \<open>out\<close> after the bytes that were there, and advanced the offset by its length.
\<close>

definition wrote :: "buffer \<Rightarrow> u64 \<Rightarrow> char list \<Rightarrow> (buffer \<times> u64) option \<Rightarrow> bool" where
  "wrote buf w out r \<longleftrightarrow>
     (\<exists>buf'. r = Some (buf', w + of_nat (length out)) \<and> length buf' = length buf \<and>
        take (unat w + length out) buf' = take (unat w) buf @ out)"

lemma wrote_nil: "wrote buf w [] (Some (buf, w))"
  by (simp add: wrote_def)

lemma unat_add_of_nat:
  fixes w :: u64
  assumes "unat w + n < 2 ^ 64"
  shows "unat (w + of_nat n) = unat w + n"
  using assms by (simp add: unat_add_small unat_of_nat_small)

lemma wrote_last:
  assumes "buf_write buf w out = Some buf'" and "unat w + length out < 2 ^ 64"
  shows "wrote buf w out (Some (buf', w + of_nat (length out)))"
  using assms by (auto simp: wrote_def buf_write_def split: if_splits)

lemma wrote_step:
  assumes w1: "buf_write buf w bs = Some buf1"
    and small: "unat w + length bs < 2 ^ 64"
    and rest: "wrote buf1 (w + of_nat (length bs)) out r"
  shows "wrote buf w (bs @ out) r"
proof -
  have u: "unat (w + of_nat (length bs)) = unat w + length bs"
    using small by (rule unat_add_of_nat)
  have l: "length buf1 = length buf" and "unat w + length bs \<le> length buf"
    and t: "take (unat w + length bs) buf1 = take (unat w) buf @ bs"
    using w1 by (auto simp: buf_write_def split: if_splits)
  obtain buf' where "r = Some (buf', w + of_nat (length bs) + of_nat (length out))"
    and "length buf' = length buf1"
    and "take (unat w + length bs + length out) buf' = take (unat w + length bs) buf1 @ out"
    using rest u by (auto simp: wrote_def)
  with l t show ?thesis
    by (auto simp: wrote_def add.assoc)
qed

lemma escape_loop_wrote:
  assumes "unat w + length (concat (map sw source)) \<le> length buf" and "length buf < 2 ^ 64"
  shows "wrote buf w (concat (map sw source)) (escape_loop sw source buf w)"
  using assms
proof (induction source arbitrary: buf w)
  case Nil
  show ?case by (simp add: wrote_nil)
next
  case (Cons c source)
  have le: "unat w + length (sw c) \<le> length buf" and small: "unat w + length (sw c) < 2 ^ 64"
    using Cons.prems by auto
  obtain buf1 where b: "buf_write buf w (sw c) = Some buf1" and l: "length buf1 = length buf"
    using buf_write_Some [OF le] by metis
  have "wrote buf1 (w + of_nat (length (sw c))) (concat (map sw source))
      (escape_loop sw source buf1 (w + of_nat (length (sw c))))"
    by (rule Cons.IH) (use Cons.prems l small in \<open>simp_all add: unat_add_of_nat\<close>)
  with b small show ?case
    by (simp add: wrote_step [OF b])
qed

lemma memchr_None: "memchr xs c = None \<longleftrightarrow> c \<notin> set xs"
  by (induction xs) auto

lemma memchr_Some: "memchr xs c = Some i \<Longrightarrow> xs ! i = c \<and> c \<notin> set (take i xs)"
proof (induction xs arbitrary: i)
  case (Cons x xs)
  then show ?case by (cases i) (auto split: if_splits)
qed simp

lemma next_match_None:
  "next_match xs = None \<Longrightarrow> CHR ''&'' \<notin> set xs \<and> CHR ''<'' \<notin> set xs \<and> CHR ''>'' \<notin> set xs"
  by (auto simp: next_match_def Let_def memchr_None split: option.splits if_splits)

lemma memchr_take:
  assumes "memchr xs c = None \<or> memchr xs c = Some j \<and> i \<le> j"
  shows "c \<notin> set (take i xs)"
  using assms
  by (metis memchr_None memchr_Some in_set_takeD set_take_subset_set_take subset_iff)

lemma next_match_Some:
  assumes "next_match xs = Some i"
  shows "i < length xs" and "xs ! i \<in> {CHR ''&'', CHR ''<'', CHR ''>''}"
    and "\<forall>c\<in>set (take i xs). html_switch c = [c]"
proof -
  show "i < length xs" using assms by (rule next_match_less)
  show "xs ! i \<in> {CHR ''&'', CHR ''<'', CHR ''>''}"
    using assms by (auto simp: next_match_def Let_def dest: memchr_Some split: option.splits if_splits)
  have near: "memchr xs c = None \<or> (\<exists>j. memchr xs c = Some j \<and> i \<le> j)"
    if "c \<in> {CHR ''&'', CHR ''<'', CHR ''>''}" for c
    using assms that by (auto simp: next_match_def Let_def split: option.splits if_splits)
  have "c \<notin> set (take i xs)" if "c \<in> {CHR ''&'', CHR ''<'', CHR ''>''}" for c
    using near [OF that] memchr_take by blast
  then show "\<forall>c\<in>set (take i xs). html_switch c = [c]"
    by (auto simp: html_switch_def)
qed

lemma concat_map_plain: "\<forall>c\<in>set xs. sw c = [c] \<Longrightarrow> concat (map sw xs) = xs"
  by (induction xs) auto

lemma html_switch_plain: "c \<notin> {CHR ''&'', CHR ''<'', CHR ''>''} \<Longrightarrow> html_switch c = [c]"
  by (simp add: html_switch_def)

lemma concat_map_split:
  assumes "next_match xs = Some i"
  shows "concat (map html_switch xs) =
    take i xs @ html_switch (xs ! i) @ concat (map html_switch (drop (Suc i) xs))"
proof -
  have "xs = take i xs @ xs ! i # drop (Suc i) xs"
    using next_match_Some(1) [OF assms] by (rule id_take_nth_drop)
  then have "concat (map html_switch xs) =
      concat (map html_switch (take i xs)) @ html_switch (xs ! i) @
      concat (map html_switch (drop (Suc i) xs))"
    by (metis concat.simps(2) concat_append list.simps(9) map_append)
  with concat_map_plain [OF next_match_Some(3) [OF assms]] show ?thesis by simp
qed

lemma chunk_loop_wrote:
  assumes "unat w + length (concat (map html_switch source)) \<le> length buf"
    and "length buf < 2 ^ 64"
  shows "wrote buf w (concat (map html_switch source)) (chunk_loop source buf w)"
  using assms
proof (induction source buf w rule: chunk_loop.induct)
  case (1 cursor target written)
  show ?case
  proof (cases "next_match cursor")
    case None
    then have "concat (map html_switch cursor) = cursor"
      using next_match_None [OF None] by (intro concat_map_plain) (auto simp: html_switch_def)
    with "1.prems" have le: "unat written + length cursor \<le> length target"
      and small: "unat written + length cursor < 2 ^ 64" by simp_all
    obtain target' where "buf_write target written cursor = Some target'"
      using le by (rule buf_write_Some)
    with None wrote_last [OF this small] \<open>concat (map html_switch cursor) = cursor\<close> show ?thesis
      by (auto simp: chunk_loop.simps [of cursor] wrote_nil)
  next
    case (Some i)
    let ?ent = "html_switch (cursor ! i)" and ?rest = "drop (Suc i) cursor"
    let ?out = "concat (map html_switch ?rest)"
    have ne: "cursor \<noteq> []" using next_match_Some(1) [OF Some] by auto
    have split: "concat (map html_switch cursor) = take i cursor @ ?ent @ ?out"
      by (rule concat_map_split [OF Some])
    have len_i: "length (take i cursor) = i" using next_match_Some(1) [OF Some] by simp
    have ent: "(if cursor ! i = CHR ''&'' then ''&amp;''
        else if cursor ! i = CHR ''<'' then ''&lt;'' else ''&gt;'') = ?ent"
      using next_match_Some(2) [OF Some] by (auto simp: html_switch_def)
    have bound: "unat written + i + length ?ent + length ?out \<le> length target"
      using "1.prems"(1) len_i unfolding split by simp
    have u1: "unat (written + of_nat i) = unat written + i"
      using bound "1.prems"(2) by (intro unat_add_of_nat) simp
    have u2: "unat (written + of_nat i + of_nat (length ?ent)) = unat written + i + length ?ent"
      using bound "1.prems"(2) u1 by (subst unat_add_of_nat) simp_all
    obtain t1 where t1: "(if i = 0 then Some target else buf_write target written (take i cursor)) = Some t1"
      and w1: "buf_write target written (take i cursor) = Some t1" and l1: "length t1 = length target"
    proof (cases "i = 0")
      case True
      then show ?thesis using that [of target] bound by (simp add: buf_write_def)
    next
      case False
      have "unat written + length (take i cursor) \<le> length target" using bound len_i by simp
      then show ?thesis by (rule buf_write_Some) (use that False in simp)
    qed
    have "unat (written + of_nat i) + length ?ent \<le> length t1" using bound u1 l1 by simp
    then obtain t2 where w2: "buf_write t1 (written + of_nat i) ?ent = Some t2"
      and l2: "length t2 = length t1" by (rule buf_write_Some)
    have IH: "wrote t2 (written + of_nat i + of_nat (length ?ent)) ?out
        (chunk_loop ?rest t2 (written + of_nat i + of_nat (length ?ent)))"
      by (rule "1.IH" [OF ne Some t1 refl ent [symmetric] w2]) (use bound u2 l1 l2 w2 ent "1.prems"(2) in simp_all)
    have "chunk_loop cursor target written =
        chunk_loop ?rest t2 (written + of_nat i + of_nat (length ?ent))"
      using ne Some t1 w2 ent by (simp add: chunk_loop.simps [of cursor] Let_def)
    moreover have "wrote target written (take i cursor @ ?ent @ ?out) \<dots>"
      by (rule wrote_step [OF w1], use len_i bound "1.prems"(2) in simp, simp only: len_i,
          rule wrote_step [OF w2], use u1 bound "1.prems"(2) in simp, rule IH)
    ultimately show ?thesis using split by simp
  qed
qed

subsection \<open>The escaper contract\<close>

text \<open>
  What the three XSUBs share: a switch whose expansions are at most \<open>k\<close> bytes, and a loop
  that writes the expansion of the source into a buffer with room for it. From this alone
  follows the body of the XSUB: below the code's size limit the allocation
  \<open>length * k + 1\<close> does not wrap, the loop and the final NUL stay inside it, and the result
  is the expansion with the input's flags.
\<close>

locale html_escaper =
  fixes sw :: "char \<Rightarrow> char list"
    and k :: u64
    and loop :: "char list \<Rightarrow> buffer \<Rightarrow> u64 \<Rightarrow> (buffer \<times> u64) option"
  assumes k_small: "0 < unat k \<and> unat k < 2 ^ 32"
    and sw_length: "length (sw c) \<le> unat k"
    and loop_wrote: "unat w + length (concat (map sw source)) \<le> length buf \<Longrightarrow>
      length buf < 2 ^ 64 \<Longrightarrow> wrote buf w (concat (map sw source)) (loop source buf w)"
begin

lemma limit_no_wrap:
  assumes "(of_nat n :: u64) \<le> (-1 - 1) div k" and "n < 2 ^ 64"
  shows "unat ((of_nat n :: u64) * k + 1) = n * unat k + 1" and "n * unat k + 1 < 2 ^ 64"
proof -
  have "(-1 - 1 :: u64) = 18446744073709551614" by simp
  then have "n \<le> (2 ^ 64 - 2) div unat k"
    using assms by (simp add: word_le_nat_alt unat_div unat_of_nat_small)
  then have "n * unat k \<le> 2 ^ 64 - 2"
    using k_small by (simp add: less_eq_div_iff_mult_less_eq)
  then show "n * unat k + 1 < 2 ^ 64" by simp
  then show "unat ((of_nat n :: u64) * k + 1) = n * unat k + 1"
    using assms(2) by (subst unat_add_small; subst unat_mult_small) (simp_all add: unat_of_nat_small)
qed

lemma finish_loop:
  assumes lim: "(of_nat (length source) :: u64) \<le> (-1 - 1) div k" and "length source < 2 ^ 64"
  shows "finish_sv input (loop source (grow (of_nat (length source) * k + 1)) 0) =
    Ret ((newSVpvn (concat (map sw source)))
           \<lparr>sv_utf8 := sv_utf8 input, sv_tainted := sv_tainted input\<rparr>)"
proof -
  let ?buf = "grow (of_nat (length source) * k + 1)" and ?out = "concat (map sw source)"
  have len: "length ?buf = length source * unat k + 1" and small: "length ?buf < 2 ^ 64"
    using limit_no_wrap [OF assms] by (simp_all add: grow_def)
  have "length ?out \<le> unat k * length source"
    by (rule length_concat_map_le) (rule sw_length)
  with len have room: "length ?out < length ?buf" by (simp add: mult.commute)
  then have "wrote ?buf 0 ?out (loop source ?buf 0)"
    using small by (intro loop_wrote) simp_all
  then obtain buf' where r: "loop source ?buf 0 = Some (buf', of_nat (length ?out))"
    and l: "length buf' = length ?buf" and t: "take (length ?out) buf' = ?out"
    by (auto simp: wrote_def)
  have u: "unat (of_nat (length ?out) :: u64) = length ?out"
    using room small by (intro unat_of_nat_small) simp
  have "buf_write buf' (of_nat (length ?out)) [CHR 0x00] \<noteq> None"
    using room l u by (simp add: buf_write_def)
  then obtain buf'' where b: "buf_write buf' (of_nat (length ?out)) [CHR 0x00] = Some buf''"
    and "take (length ?out) buf'' = ?out"
    using t u l room by (auto simp: buf_write_def)
  with r u show ?thesis by (simp add: finish_sv_def)
qed

end

interpretation html_bytes: html_escaper html_switch 5 "escape_loop html_switch"
  by unfold_locales (auto simp: html_switch_def intro: escape_loop_wrote)

interpretation attr_bytes: html_escaper html_attr_switch 6 "escape_loop html_attr_switch"
  by unfold_locales (auto simp: html_attr_switch_def intro: escape_loop_wrote)

interpretation html_chunks: html_escaper html_switch 5 chunk_loop
  by unfold_locales (auto simp: html_switch_def intro: chunk_loop_wrote)

lemmas escaped_bodies = html_bytes.finish_loop attr_bytes.finish_loop html_chunks.finish_loop

subsection \<open>Reading escaped text back\<close>

text \<open>
  \<open>html_decode\<close> is the specification side: replace the five character references, leftmost
  first, and leave every other byte alone.
\<close>

function html_decode :: "char list \<Rightarrow> char list" where
  "html_decode s =
     (if s = [] then []
      else if take 5 s = ''&amp;'' then CHR ''&'' # html_decode (drop 5 s)
      else if take 4 s = ''&lt;'' then CHR ''<'' # html_decode (drop 4 s)
      else if take 4 s = ''&gt;'' then CHR ''>'' # html_decode (drop 4 s)
      else if take 6 s = ''&quot;'' then CHR 0x22 # html_decode (drop 6 s)
      else if take 5 s = ''&#39;'' then CHR 0x27 # html_decode (drop 5 s)
      else hd s # html_decode (tl s))"
  by pat_completeness auto
termination
  by (relation "measure length") (auto simp: length_greater_0_conv [symmetric] simp del: length_greater_0_conv)

declare html_decode.simps [simp del]

lemma html_decode_attr_switch: "html_decode (html_attr_switch c @ rest) = c # html_decode rest"
  by (cases "c = CHR ''&''"; cases "c = CHR ''<''"; cases "c = CHR ''>''"; cases "c = CHR 0x22";
      cases "c = CHR 0x27")
     (simp_all add: html_attr_switch_def html_decode.simps [of "html_attr_switch c @ rest"]
        html_decode.simps [of "CHR ''&'' # _"] html_decode.simps [of "c # rest"])

lemma html_decode_attr: "html_decode (concat (map html_attr_switch s)) = s"
  by (induction s) (simp_all add: html_decode_attr_switch, simp add: html_decode.simps)

lemma attr_switch_safe: "set (html_attr_switch c) \<inter> {CHR ''<'', CHR ''>'', CHR 0x22, CHR 0x27} = {}"
  by (simp add: html_attr_switch_def)

lemma attr_safe: "set (concat (map html_attr_switch s)) \<inter> {CHR ''<'', CHR ''>'', CHR 0x22, CHR 0x27} = {}"
  using attr_switch_safe by (induction s) auto

lemma limit_word_iff:
  assumes "n < 2 ^ 64"
  shows "(of_nat n :: u64) > (-1 - 1) div 5 \<longleftrightarrow> n > (2 ^ 64 - 2) div 5"
    and "(of_nat n :: u64) > (-1 - 1) div 6 \<longleftrightarrow> n > (2 ^ 64 - 2) div 6"
  using assms by (simp_all add: word_less_nat_alt unat_of_nat_small)

subsection \<open>Properties\<close>

text \<open>C4: every defined non-reference scalar is either refused as too large, exactly when it has
  more than (2^64 - 2) div 5 bytes, or its text comes back with each \<open>&\<close>, \<open><\<close>, \<open>>\<close>
  replaced and nothing else changed, UTF-8 and taint flags kept; no write leaves the allocation.
\<close>

theorem escape_html_functional:
  assumes "SvOK (SV_Scalar s)" and "length (SvPV rt s) < 2 ^ 64"
  shows "xs_escape_html rt (SV_Scalar s) =
    (if length (SvPV rt s) > (2 ^ 64 - 2) div 5
     then Croak ''HTML input is too large to escape safely''
     else Ret ((newSVpvn (concat (map html_switch (SvPV rt s))))
            \<lparr>sv_utf8 := sv_utf8 s, sv_tainted := sv_tainted s\<rparr>))"
  using assms html_bytes.finish_loop [of "SvPV rt s" s] limit_word_iff(1) [OF assms(2)]
  by (auto simp: Let_def)

theorem escape_html_functional_witness:
  "xs_escape_html int_rt (SV_Scalar ((newSVpvn ''a<b&c'')\<lparr>sv_utf8 := True\<rparr>)) =
     Ret ((newSVpvn ''a&lt;b&amp;c'')\<lparr>sv_utf8 := True, sv_tainted := False\<rparr>)"
  by (subst escape_html_functional) (simp_all add: newSVpvn_def SvPV_def html_switch_def)

text \<open>C5: the span-copying XSUB and the byte-by-byte XSUB return the same outcome on every
  argument: undefined, reference, too large, or text.
\<close>

theorem chunked_equals_bytewise:
  assumes "\<forall>s. v = SV_Scalar s \<longrightarrow> length (SvPV rt s) < 2 ^ 64"
  shows "xs_escape_html_chunked rt v = xs_escape_html rt v"
proof (cases v)
  case (SV_Scalar s)
  then have "length (SvPV rt s) < 2 ^ 64" using assms by simp
  with SV_Scalar show ?thesis
    using html_bytes.finish_loop [of "SvPV rt s" s] html_chunks.finish_loop [of "SvPV rt s" s]
    by (auto simp: Let_def not_less)
qed simp_all

theorem chunked_equals_bytewise_witness:
  "xs_escape_html_chunked int_rt (SV_Scalar (newSVpvn ''x>y'')) =
   xs_escape_html int_rt (SV_Scalar (newSVpvn ''x>y''))"
  by (rule chunked_equals_bytewise) simp

text \<open>C6: text escaped for a quoted attribute holds no \<open><\<close>, \<open>>\<close>, double or single quote, and
  decoding its character references gives back exactly the input bytes.
\<close>

theorem escape_attr_roundtrip:
  assumes "SvOK (SV_Scalar s)" and "length (SvPV rt s) \<le> (2 ^ 64 - 2) div 6"
  shows "\<exists>out. xs_escape_html_attr rt (SV_Scalar s) =
      Ret ((newSVpvn out)\<lparr>sv_utf8 := sv_utf8 s, sv_tainted := sv_tainted s\<rparr>) \<and>
    html_decode out = SvPV rt s \<and>
    set out \<inter> {CHR ''<'', CHR ''>'', CHR 0x22, CHR 0x27} = {}"
proof -
  have small: "length (SvPV rt s) < 2 ^ 64" using assms(2) by simp
  then show ?thesis
    using assms attr_bytes.finish_loop [of "SvPV rt s" s] limit_word_iff(2) [OF small]
      html_decode_attr attr_safe
    by (intro exI [of _ "concat (map html_attr_switch (SvPV rt s))"]) (auto simp: Let_def)
qed

theorem escape_attr_roundtrip_witness:
  "\<exists>out. xs_escape_html_attr int_rt (SV_Scalar (newSVpvn [CHR 0x22, CHR ''<''])) =
      Ret ((newSVpvn out)\<lparr>sv_utf8 := False, sv_tainted := False\<rparr>) \<and>
    html_decode out = [CHR 0x22, CHR ''<''] \<and>
    set out \<inter> {CHR ''<'', CHR ''>'', CHR 0x22, CHR 0x27} = {}"
  using escape_attr_roundtrip [of "newSVpvn [CHR 0x22, CHR ''<'']" int_rt]
  by (simp add: newSVpvn_def SvPV_def)

end
