(* ===== verification/Shared_Node.thy ===== *)
theory Shared_Node
  imports Perl_Value
begin

section \<open>Nodes of the shared graph (GoRoutine012Native.h)\<close>

text \<open>
  Data shared between goroutines lives in C nodes, one \<open>shared_node\<close> per scalar, array,
  hash, reference or handle, linked by pointers and never freed. A pointer is a natural
  number, 0 is \<open>NULL\<close>, and the store maps the allocated ones to their node. The process-wide
  recursive mutex \<open>shared_mutex\<close> is the depth the calling thread holds it at.
\<close>

type_synonym ptr = nat

datatype shared_type =
    SHARED_UNDEF | SHARED_IV | SHARED_NV | SHARED_PV | SHARED_HASH | SHARED_ARRAY
  | SHARED_SCALARREF | SHARED_OBJECT | SHARED_CODE | SHARED_GLOB | SHARED_IO
  | SHARED_REGEXP | SHARED_FORMAT

text \<open>The code compares enum values (\<open>type >= SHARED_HASH\<close>), so the type carries their order.\<close>

fun shared_type_rank :: "shared_type \<Rightarrow> nat" where
  "shared_type_rank SHARED_UNDEF = 0"
| "shared_type_rank SHARED_IV = 1"
| "shared_type_rank SHARED_NV = 2"
| "shared_type_rank SHARED_PV = 3"
| "shared_type_rank SHARED_HASH = 4"
| "shared_type_rank SHARED_ARRAY = 5"
| "shared_type_rank SHARED_SCALARREF = 6"
| "shared_type_rank SHARED_OBJECT = 7"
| "shared_type_rank SHARED_CODE = 8"
| "shared_type_rank SHARED_GLOB = 9"
| "shared_type_rank SHARED_IO = 10"
| "shared_type_rank SHARED_REGEXP = 11"
| "shared_type_rank SHARED_FORMAT = 12"

lemma shared_type_rank_inj: "shared_type_rank a = shared_type_rank b \<Longrightarrow> a = b"
  by (cases a; cases b) simp_all

instantiation shared_type :: linorder
begin

definition less_eq_shared_type :: "shared_type \<Rightarrow> shared_type \<Rightarrow> bool" where
  "less_eq_shared_type a b \<longleftrightarrow> shared_type_rank a \<le> shared_type_rank b"

definition less_shared_type :: "shared_type \<Rightarrow> shared_type \<Rightarrow> bool" where
  "less_shared_type a b \<longleftrightarrow> shared_type_rank a < shared_type_rank b"

instance
  by standard
    (auto simp: less_eq_shared_type_def less_shared_type_def intro: shared_type_rank_inj)

end

record shared_hash_entry =
  entry_key :: "char list"
  entry_value :: ptr

text \<open>
  \<open>n_items\<close> is the allocation behind \<open>array_items\<close>, all of it, so its tail past
  \<open>array_size\<close> is visible to the model as it is to the code; \<open>n_hash\<close> is the used prefix
  of \<open>hash_entries\<close>, so \<open>hash_count\<close> is its length. \<open>n_nv = None\<close> is the zero that
  \<open>calloc\<close> and the clearing code leave in \<open>nv\<close>.
\<close>

record 'nv shared_node =
  n_type :: shared_type
  n_iv :: u64
  n_nv :: "'nv option"
  n_pv :: "char list option"
  n_pv_utf8 :: bool
  n_class :: "char list option"
  n_hash :: "shared_hash_entry list"
  n_hash_capacity :: u64
  n_items :: "ptr list"
  n_array_size :: nat
  n_array_capacity :: u64
  n_scalarref :: ptr
  n_code :: "nat option"
  n_io_fd :: int
  n_io_mode :: nat
  n_glob_scalar :: ptr
  n_glob_array :: ptr
  n_glob_hash :: ptr
  n_glob_code :: ptr
  n_handle :: "nat option"

record 'nv shared_state =
  sh_heap :: "ptr \<Rightarrow> 'nv shared_node option"
  sh_next :: ptr
  sh_lock :: nat
  sh_closed :: "int list"

definition empty_node :: "'nv shared_node" where
  "empty_node = \<lparr>n_type = SHARED_UNDEF, n_iv = 0, n_nv = None, n_pv = None, n_pv_utf8 = False,
     n_class = None, n_hash = [], n_hash_capacity = 0, n_items = [], n_array_size = 0,
     n_array_capacity = 0, n_scalarref = 0, n_code = None, n_io_fd = -1, n_io_mode = 0,
     n_glob_scalar = 0, n_glob_array = 0, n_glob_hash = 0, n_glob_code = 0, n_handle = None\<rparr>"

subsection \<open>Lock and store\<close>

definition shared_lock :: "('nv shared_state, unit) xs" where
  "shared_lock = xs_modify (\<lambda>s. s\<lparr>sh_lock := sh_lock s + 1\<rparr>)"

definition shared_unlock :: "('nv shared_state, unit) xs" where
  "shared_unlock = xs_modify (\<lambda>s. s\<lparr>sh_lock := sh_lock s - 1\<rparr>)"

definition node_at :: "ptr \<Rightarrow> ('nv shared_state, 'nv shared_node) xs" where
  "node_at p s = (case sh_heap s p of None \<Rightarrow> (Fault, s) | Some n \<Rightarrow> (Ret n, s))"

definition node_set :: "ptr \<Rightarrow> ('nv shared_node \<Rightarrow> 'nv shared_node) \<Rightarrow> ('nv shared_state, unit) xs" where
  "node_set p f s =
     (case sh_heap s p of
        None \<Rightarrow> (Fault, s)
      | Some n \<Rightarrow> (Ret (), s\<lparr>sh_heap := (sh_heap s)(p \<mapsto> f n)\<rparr>))"

definition sizeof_shared_node :: nat where
  "sizeof_shared_node = 168"

definition shared_node_new :: "'nv perl_rt \<Rightarrow> ('nv shared_state, ptr) xs" where
  "shared_node_new rt s =
     (if \<not> rt_alloc rt sizeof_shared_node
      then (Croak ''out of memory allocating shared node'', s)
      else (Ret (sh_next s),
            s\<lparr>sh_heap := (sh_heap s)(sh_next s \<mapsto> empty_node), sh_next := Suc (sh_next s)\<rparr>))"

definition shared_from_uv :: "ptr \<Rightarrow> ('nv shared_state, ptr) xs" where
  "shared_from_uv p =
     (if p = 0 then xs_croak ''invalid shared value handle'' else xs_return p)"

text \<open>
  \<open>shared_node_clear\<close> resets every field; an open descriptor is closed on the way. The
  capacities are reset only together with their allocation, which is when they are not 0.
\<close>

definition shared_node_clear :: "ptr \<Rightarrow> ('nv shared_state, unit) xs" where
  "shared_node_clear p s =
     (case sh_heap s p of
        None \<Rightarrow> (Fault, s)
      | Some n \<Rightarrow>
          (Ret (),
           s\<lparr>sh_heap := (sh_heap s)(p \<mapsto> empty_node),
             sh_closed := (if n_io_fd n \<ge> 0 then sh_closed s @ [n_io_fd n] else sh_closed s)\<rparr>))"

definition shared_set_class :: "'nv perl_rt \<Rightarrow> ptr \<Rightarrow> char list option \<Rightarrow> ('nv shared_state, unit) xs" where
  "shared_set_class rt p name =
     xs_then (node_set p (\<lambda>n. n\<lparr>n_class := None\<rparr>))
       (case name of
          None \<Rightarrow> xs_return ()
        | Some c \<Rightarrow>
            (if c = [] then xs_return ()
             else if \<not> rt_alloc rt (length c + 1)
             then xs_croak ''out of memory storing shared object class''
             else node_set p (\<lambda>n. n\<lparr>n_class := Some c\<rparr>)))"

subsection \<open>Growing the vectors\<close>

text \<open>\<open>while (cap < need) cap *= 2\<close> on \<open>size_t\<close>: \<open>None\<close> when it never ends.\<close>

partial_function (option) grow_cap :: "u64 \<Rightarrow> u64 \<Rightarrow> u64 option" where
  "grow_cap cap need = (if cap < need then grow_cap (cap * 2) need else Some cap)"

text \<open>
  The array allocation has \<open>cap * sizeof(*p)\<close> bytes, computed in \<open>size_t\<close>, and the
  \<open>memset\<close> clears \<open>(cap - array_capacity) * sizeof(*p)\<close> bytes after the old part. When the
  products wrap the allocation is shorter than the capacity says.
\<close>

definition shared_array_reserve :: "'nv perl_rt \<Rightarrow> ptr \<Rightarrow> u64 \<Rightarrow> ('nv shared_state, unit) xs" where
  "shared_array_reserve rt p need =
     xs_bind (node_at p) (\<lambda>n.
       if need > n_array_capacity n then
         (case grow_cap (if n_array_capacity n \<noteq> 0 then n_array_capacity n * 2 else 8) need of
            None \<Rightarrow> xs_diverge
          | Some cap \<Rightarrow>
              (let bytes = unat (cap * 8);
                   cleared = unat ((cap - n_array_capacity n) * 8)
               in if \<not> rt_alloc rt bytes then xs_croak ''out of memory growing shared array''
                  else if unat (n_array_capacity n) * 8 + cleared > bytes then xs_fault
                  else node_set p (\<lambda>n. n\<lparr>
                    n_items := take (unat (n_array_capacity n)) (n_items n) @ replicate (cleared div 8) 0,
                    n_array_capacity := cap\<rparr>)))
       else xs_return ())"

definition shared_hash_reserve :: "'nv perl_rt \<Rightarrow> ptr \<Rightarrow> u64 \<Rightarrow> ('nv shared_state, unit) xs" where
  "shared_hash_reserve rt p need =
     xs_bind (node_at p) (\<lambda>n.
       if need > n_hash_capacity n then
         (case grow_cap (if n_hash_capacity n \<noteq> 0 then n_hash_capacity n * 2 else 8) need of
            None \<Rightarrow> xs_diverge
          | Some cap \<Rightarrow>
              (let bytes = unat (cap * 24);
                   cleared = unat ((cap - n_hash_capacity n) * 24)
               in if \<not> rt_alloc rt bytes then xs_croak ''out of memory growing shared hash''
                  else if unat (n_hash_capacity n) * 24 + cleared > bytes then xs_fault
                  else node_set p (\<lambda>n. n\<lparr>n_hash_capacity := cap\<rparr>)))
       else xs_return ())"

subsection \<open>When the growth loop ends\<close>

lemma grow_cap_spec:
  assumes "grow_cap cap need = Some r"
  shows "need \<le> r \<and> (\<exists>j. r = cap * 2 ^ j)"
proof (rule grow_cap.raw_induct [where P = "\<lambda>cap need r. need \<le> r \<and> (\<exists>j. r = cap * 2 ^ j)", OF _ assms])
  fix f and cap need r :: u64
  assume IH: "\<And>cap need r. f cap need = Some r \<Longrightarrow> need \<le> r \<and> (\<exists>j. r = cap * 2 ^ j)"
    and eq: "(if cap < need then f (cap * 2) need else Some cap) = Some r"
  show "need \<le> r \<and> (\<exists>j. r = cap * 2 ^ j)"
  proof (cases "cap < need")
    case True
    then have "f (cap * 2) need = Some r" using eq by simp
    from IH [OF this] obtain j where "need \<le> r" and "r = cap * 2 * 2 ^ j" by blast
    then have "r = cap * 2 ^ Suc j" by (simp add: mult.assoc)
    with \<open>need \<le> r\<close> show ?thesis by blast
  next
    case False
    with eq show ?thesis by (auto intro: exI [of _ 0])
  qed
qed

text \<open>Below half the address space doubling cannot wrap, so the loop ends soon after \<open>need\<close>.\<close>

lemma grow_cap_ends:
  assumes "0 < unat cap" and "unat need \<le> 2 ^ 63"
  shows "\<exists>r. grow_cap cap need = Some r \<and> need \<le> r \<and> unat r \<le> max (unat cap) (2 * unat need)"
  using assms(1)
proof (induction "unat need - unat cap" arbitrary: cap rule: less_induct)
  case less
  show ?case
  proof (cases "cap < need")
    case True
    then have lt: "unat cap < unat need" by (simp add: word_less_nat_alt)
    then have dbl: "unat (cap * 2) = 2 * unat cap"
      using assms(2) by (subst unat_mult_small) simp_all
    have "unat need - unat (cap * 2) < unat need - unat cap" and "0 < unat (cap * 2)"
      using lt less.prems dbl by simp_all
    then obtain r where "grow_cap (cap * 2) need = Some r" and "need \<le> r"
      and "unat r \<le> max (unat (cap * 2)) (2 * unat need)"
      using less.hyps by blast
    with True dbl lt show ?thesis by (auto simp: grow_cap.simps [of cap])
  next
    case False
    then show ?thesis by (auto simp: grow_cap.simps [of cap] not_less)
  qed
qed

text \<open>Above it the capacities, all powers of two, run through zero and never reach \<open>need\<close>.\<close>

lemma power2_word_le: "(2 ^ n :: u64) \<le> 2 ^ 63"
proof (cases "n < 64")
  case True
  then have "(2::nat) ^ n \<le> 2 ^ 63" by (intro power_increasing) simp_all
  moreover have "unat (2 ^ n :: u64) = 2 ^ n"
    using unat_of_nat_small [OF power_strict_increasing [OF True]] by simp
  ultimately show ?thesis by (simp add: word_le_nat_alt)
next
  case False
  then obtain m where "n = 64 + m" using le_Suc_ex not_less by blast
  then have "(2 ^ n :: u64) = 2 ^ 64 * 2 ^ m" by (simp only: power_add)
  also have "(2 ^ 64 :: u64) = 0" by simp
  finally have "(2 ^ n :: u64) = 0" by simp
  then show ?thesis by (simp only: word_zero_le)
qed

lemma grow_cap_diverges:
  assumes "need > 2 ^ 63"
  shows "grow_cap (2 ^ k) need = None"
proof (rule ccontr)
  assume "grow_cap (2 ^ k) need \<noteq> None"
  then obtain r j where "need \<le> r" and "r = 2 ^ k * 2 ^ j"
    using grow_cap_spec by blast
  then have "need \<le> 2 ^ (k + j)" by (simp add: power_add)
  with power2_word_le [of "k + j"] assms show False by simp
qed

subsection \<open>Well-formed stores\<close>

text \<open>
  The allocation behind a vector has exactly its capacity, the counts stay inside it, and
  every pointer in a node is \<open>NULL\<close> or a node of the store. The bound on the capacities is
  where the size computations of the two reserve functions still fit a word.
\<close>

definition node_wf :: "'nv shared_node \<Rightarrow> bool" where
  "node_wf n \<longleftrightarrow>
     length (n_items n) = unat (n_array_capacity n) \<and> n_array_size n \<le> length (n_items n)
   \<and> length (n_hash n) \<le> unat (n_hash_capacity n)
   \<and> unat (n_array_capacity n) \<le> 2 ^ 59 \<and> unat (n_hash_capacity n) \<le> 2 ^ 59"

definition node_ptrs :: "'nv shared_node \<Rightarrow> ptr set" where
  "node_ptrs n = set (n_items n) \<union> entry_value ` set (n_hash n)
     \<union> {n_scalarref n, n_glob_scalar n, n_glob_array n, n_glob_hash n, n_glob_code n}"

definition heap_wf :: "'nv shared_state \<Rightarrow> bool" where
  "heap_wf s \<longleftrightarrow>
     0 < sh_next s \<and> (\<forall>p. sh_heap s p \<noteq> None \<longleftrightarrow> 0 < p \<and> p < sh_next s)
   \<and> (\<forall>p n. sh_heap s p = Some n \<longrightarrow> node_wf n \<and> (\<forall>q\<in>node_ptrs n. q < sh_next s))"

lemma heap_wfD:
  assumes "heap_wf s" and "sh_heap s p = Some n"
  shows "0 < p" and "p < sh_next s" and "node_wf n" and "\<forall>q\<in>node_ptrs n. q < sh_next s"
  using assms unfolding heap_wf_def by fastforce+

lemma heap_wf_node: "heap_wf s \<Longrightarrow> 0 < p \<Longrightarrow> p < sh_next s \<Longrightarrow> \<exists>n. sh_heap s p = Some n"
  unfolding heap_wf_def by fastforce

lemma heap_wf_set [inv_intros]:
  assumes "heap_wf s" and "sh_heap s p = Some n"
    and "node_wf n'" and "\<forall>q\<in>node_ptrs n'. q < sh_next s"
  shows "heap_wf (s\<lparr>sh_heap := (sh_heap s)(p \<mapsto> n')\<rparr>)"
  using assms by (auto simp: heap_wf_def)

lemma empty_node_wf [simp]: "node_wf empty_node" "node_ptrs empty_node = {0}"
  by (simp_all add: node_wf_def node_ptrs_def empty_node_def)

lemma heap_wf_new [inv_intros]:
  assumes "heap_wf s"
  shows "heap_wf (s\<lparr>sh_heap := (sh_heap s)(sh_next s \<mapsto> empty_node), sh_next := Suc (sh_next s)\<rparr>)"
  using assms by (auto simp: heap_wf_def less_Suc_eq dest: less_imp_not_eq split: if_splits)

lemma heap_wf_cong [simp]:
  "heap_wf (s\<lparr>sh_closed := c\<rparr>) = heap_wf s" "heap_wf (s\<lparr>sh_lock := d\<rparr>) = heap_wf s"
  by (simp_all add: heap_wf_def)

subsection \<open>Reserving\<close>

lemma reserve_cap:
  fixes c need :: u64
  assumes "c < need" and "unat need \<le> 2 ^ 58" and "unat c \<le> 2 ^ 59"
  shows "\<exists>cap. grow_cap (if c \<noteq> 0 then c * 2 else 8) need = Some cap \<and> need \<le> cap \<and> c < cap
      \<and> unat cap \<le> 2 ^ 59"
proof -
  have lt: "unat c < unat need" using assms(1) by (simp add: word_less_nat_alt)
  have init: "0 < unat (if c \<noteq> 0 then c * 2 else 8 :: u64)
      \<and> unat (if c \<noteq> 0 then c * 2 else 8 :: u64) \<le> max 8 (2 * unat need)"
  proof (cases "c = 0")
    case False
    then have "0 < unat c" by (simp add: unat_gt_0)
    moreover have "unat (c * 2) = 2 * unat c"
      using lt assms(2) by (subst unat_mult_small) simp_all
    ultimately show ?thesis using False lt by simp
  qed simp
  then obtain cap where "grow_cap (if c \<noteq> 0 then c * 2 else 8) need = Some cap" and "need \<le> cap"
    and "unat cap \<le> max (unat (if c \<noteq> 0 then c * 2 else 8 :: u64)) (2 * unat need)"
    using grow_cap_ends [of "if c \<noteq> 0 then c * 2 else 8" need] assms(2) by fastforce
  with init assms(1,2) show ?thesis by (auto intro: less_le_trans)
qed

lemma reserve_bytes:
  fixes c cap k :: u64
  assumes "c < cap" and "unat cap \<le> 2 ^ 59" and "unat k \<le> 24"
  shows "unat (cap * k) = unat cap * unat k"
    and "unat ((cap - c) * k) = (unat cap - unat c) * unat k"
proof -
  have le: "m * unat k < 2 ^ 64" if "m \<le> 2 ^ 59" for m
    using mult_le_mono [OF that assms(3)] by simp
  show "unat (cap * k) = unat cap * unat k"
    using le [OF assms(2)] by (rule unat_mult_small)
  have "unat (cap - c) = unat cap - unat c"
    using assms(1) by (simp add: unat_sub)
  moreover have "unat cap - unat c \<le> 2 ^ 59" using assms(2) by simp
  ultimately show "unat ((cap - c) * k) = (unat cap - unat c) * unat k"
    using le by (subst unat_mult_small) simp_all
qed

definition alloc_may_fail :: "'nv perl_rt \<Rightarrow> bool" where
  "alloc_may_fail rt \<longleftrightarrow> (\<exists>b. \<not> rt_alloc rt b)"

lemma alloc_may_failI [intro]: "\<not> rt_alloc rt b \<Longrightarrow> alloc_may_fail rt"
  by (auto simp: alloc_may_fail_def)

definition array_grown :: "'nv shared_node \<Rightarrow> u64 \<Rightarrow> 'nv shared_node \<Rightarrow> bool" where
  "array_grown n need n' \<longleftrightarrow>
     (\<exists>k cap. n' = n\<lparr>n_items := n_items n @ replicate k 0, n_array_capacity := cap\<rparr>)
   \<and> unat need \<le> length (n_items n') \<and> node_wf n'"

lemma shared_array_reserve_ok:
  assumes "sh_heap s p = Some n" and "node_wf n" and "unat need \<le> 2 ^ 58"
  shows "xs_ok (\<lambda>s'. s' = s \<and> alloc_may_fail rt)
           (\<lambda>_ s'. \<exists>n'. s' = s\<lparr>sh_heap := (sh_heap s)(p \<mapsto> n')\<rparr> \<and> array_grown n need n')
           (shared_array_reserve rt p need s)"
proof (cases "n_array_capacity n < need")
  case True
  then obtain cap where cap: "grow_cap (if n_array_capacity n \<noteq> 0 then n_array_capacity n * 2 else 8) need = Some cap"
    and "need \<le> cap" and lt: "n_array_capacity n < cap" and b: "unat cap \<le> 2 ^ 59"
    using reserve_cap assms(2,3) unfolding node_wf_def by blast
  from lt b have bytes: "unat (cap * 8) = unat cap * 8"
    "unat ((cap - n_array_capacity n) * 8) = (unat cap - unat (n_array_capacity n)) * 8"
    using reserve_bytes [of "n_array_capacity n" cap 8] by simp_all
  have le: "unat (n_array_capacity n) \<le> unat cap"
    using lt by (simp add: word_less_nat_alt)
  have "array_grown n need (n\<lparr>n_items := take (unat (n_array_capacity n)) (n_items n)
      @ replicate (unat cap - unat (n_array_capacity n)) 0, n_array_capacity := cap\<rparr>)"
    using assms(2) le b \<open>need \<le> cap\<close>
    by (auto simp: array_grown_def node_wf_def word_le_nat_alt)
  with True cap le assms(1) bytes show ?thesis
    by (auto simp: shared_array_reserve_def xs_simps xs_bind_def node_at_def node_set_def Let_def)
next
  case False
  then have "array_grown n need n"
    using assms(2) by (auto simp: array_grown_def node_wf_def not_less word_le_nat_alt
        intro!: exI [of _ 0] exI [of _ "n_array_capacity n"])
  with False assms(1) show ?thesis
    by (auto simp: shared_array_reserve_def xs_simps xs_bind_def node_at_def map_upd_triv intro!: exI [of _ n])
qed

definition hash_grown :: "'nv shared_node \<Rightarrow> u64 \<Rightarrow> 'nv shared_node \<Rightarrow> bool" where
  "hash_grown n need n' \<longleftrightarrow>
     (\<exists>cap. n' = n\<lparr>n_hash_capacity := cap\<rparr>) \<and> need \<le> n_hash_capacity n' \<and> node_wf n'"

lemma shared_hash_reserve_ok:
  assumes "sh_heap s p = Some n" and "node_wf n" and "unat need \<le> 2 ^ 58"
  shows "xs_ok (\<lambda>s'. s' = s \<and> alloc_may_fail rt)
           (\<lambda>_ s'. \<exists>n'. s' = s\<lparr>sh_heap := (sh_heap s)(p \<mapsto> n')\<rparr> \<and> hash_grown n need n')
           (shared_hash_reserve rt p need s)"
proof (cases "n_hash_capacity n < need")
  case True
  then obtain cap where cap: "grow_cap (if n_hash_capacity n \<noteq> 0 then n_hash_capacity n * 2 else 8) need = Some cap"
    and "need \<le> cap" and lt: "n_hash_capacity n < cap" and b: "unat cap \<le> 2 ^ 59"
    using reserve_cap assms(2,3) unfolding node_wf_def by blast
  from lt b have bytes: "unat (cap * 24) = unat cap * 24"
    "unat ((cap - n_hash_capacity n) * 24) = (unat cap - unat (n_hash_capacity n)) * 24"
    using reserve_bytes [of "n_hash_capacity n" cap 24] by simp_all
  have le: "unat (n_hash_capacity n) \<le> unat cap"
    using lt by (simp add: word_less_nat_alt)
  have "hash_grown n need (n\<lparr>n_hash_capacity := cap\<rparr>)"
    using assms(2) le b \<open>need \<le> cap\<close> by (auto simp: hash_grown_def node_wf_def)
  with True cap le assms(1) bytes show ?thesis
    by (auto simp: shared_hash_reserve_def xs_simps xs_bind_def node_at_def node_set_def Let_def)
next
  case False
  then have "hash_grown n need n"
    using assms(2) by (auto simp: hash_grown_def not_less intro!: exI [of _ "n_hash_capacity n"])
  with False assms(1) show ?thesis
    by (auto simp: shared_hash_reserve_def xs_simps xs_bind_def node_at_def map_upd_triv intro!: exI [of _ n])
qed

end
