(* ===== verification/Shared_Import.thy ===== *)
theory Shared_Import
  imports Shared_Node
begin

section \<open>Importing a Perl value into the shared graph (GoRoutine012Native.h)\<close>

text \<open>
  \<open>share()\<close>, a channel send and every store of a nested value copy a Perl data structure
  into shared nodes. The Perl side is a store of referents: a reference is the identity of
  the thing it refers to, and what it refers to is one of the kinds that \<open>SvTYPE\<close>
  distinguishes. The \<open>import_map\<close> remembers the node of every referent seen so far, so that
  an alias or a cycle of references becomes an alias or a cycle of nodes.
\<close>

subsection \<open>The Perl side\<close>

record perl_io =
  io_type :: char
  io_ifp :: "int option"
  io_ofp :: "int option"

datatype 'nv ref_body =
    Body_Scalar "'nv perl_sv"
  | Body_Array "'nv perl_sv option list"
  | Body_Hash "(char list \<times> 'nv perl_sv) list"
  | Body_Object "'nv perl_sv option list"
  | Body_Code
  | Body_Glob "'nv perl_sv option" "nat option" "nat option" "nat option" "perl_io option"
  | Body_Regexp "char list"
  | Body_IO perl_io
  | Body_Format "char list option" "char list option"
  | Body_Other "char list"

record 'nv referent =
  ref_class :: "char list option"
  ref_body :: "'nv ref_body"

type_synonym 'nv perl_store = "nat \<Rightarrow> 'nv referent option"

subsection \<open>The import map\<close>

record 'nv import_state =
  im_shared :: "'nv shared_state"
  im_map :: "(nat \<times> ptr) list"
  im_capacity :: nat

definition on_shared :: "('nv shared_state, 'a) xs \<Rightarrow> ('nv import_state, 'a) xs" where
  "on_shared m s = (case m (im_shared s) of (out, h) \<Rightarrow> (out, s\<lparr>im_shared := h\<rparr>))"

definition import_map_find :: "nat \<Rightarrow> ('nv import_state, ptr option) xs" where
  "import_map_find r s = (Ret (map_of (im_map s) r), s)"

definition import_map_add :: "'nv perl_rt \<Rightarrow> nat \<Rightarrow> ptr \<Rightarrow> ('nv import_state, unit) xs" where
  "import_map_add rt r n s =
     (if length (im_map s) = im_capacity s then
        (let newcap = (if im_capacity s \<noteq> 0 then im_capacity s * 2 else 16)
         in if \<not> rt_alloc rt (newcap * 8) then (Croak ''out of memory importing shared structure'', s)
            else (Ret (), s\<lparr>im_map := im_map s @ [(r, n)], im_capacity := newcap\<rparr>))
      else (Ret (), s\<lparr>im_map := im_map s @ [(r, n)]\<rparr>))"

subsection \<open>Scalars\<close>

definition store_pv :: "'nv perl_rt \<Rightarrow> ptr \<Rightarrow> string \<Rightarrow> shared_type \<Rightarrow> char list \<Rightarrow> bool
    \<Rightarrow> ('nv shared_state, unit) xs" where
  "store_pv rt p msg ty bs u =
     (if \<not> rt_alloc rt (length bs + 1) then xs_croak msg
      else node_set p (\<lambda>n. n\<lparr>n_type := ty, n_pv := Some bs, n_pv_utf8 := u\<rparr>))"

definition shared_import_scalar :: "'nv perl_rt \<Rightarrow> ptr \<Rightarrow> 'nv perl_sv \<Rightarrow> ('nv shared_state, unit) xs" where
  "shared_import_scalar rt p v =
     xs_then (shared_node_clear p)
       (if \<not> SvOK v then xs_return ()
        else (case v of
            SV_Scalar s \<Rightarrow>
              (if sv_iv s \<noteq> None \<and> sv_nv s = None \<and> sv_pv s = None
               then node_set p (\<lambda>n. n\<lparr>n_type := SHARED_IV, n_iv := SvIV rt s\<rparr>)
               else if sv_nv s \<noteq> None \<and> sv_pv s = None
               then node_set p (\<lambda>n. n\<lparr>n_type := SHARED_NV, n_nv := Some (SvNV rt s)\<rparr>)
               else store_pv rt p ''out of memory storing shared string'' SHARED_PV (SvPV rt s) (sv_utf8 s))
          | _ \<Rightarrow> xs_return ()))"

subsection \<open>Handles, code, regexps, formats\<close>

definition shared_io_mode :: "perl_io option \<Rightarrow> nat" where
  "shared_io_mode io =
     (case io of
        None \<Rightarrow> 2
      | Some i \<Rightarrow>
          (if io_type i = CHR ''<'' then 0
           else if io_type i = CHR ''>'' \<or> io_type i = CHR ''a'' then 1
           else if io_type i = CHR ''+'' then 2
           else if io_ifp i \<noteq> None \<and> io_ofp i = None then 0
           else if io_ofp i \<noteq> None \<and> io_ifp i = None then 1
           else 2))"

definition shared_capture_io :: "'nv perl_rt \<Rightarrow> ptr \<Rightarrow> perl_io option \<Rightarrow> ('nv shared_state, unit) xs" where
  "shared_capture_io rt p io =
     xs_then (node_set p (\<lambda>n. n\<lparr>n_io_fd := -1, n_io_mode := 0\<rparr>))
       (case io of
          None \<Rightarrow> xs_return ()
        | Some i \<Rightarrow>
            (let fp = (case io_ifp i of Some f \<Rightarrow> Some f | None \<Rightarrow> io_ofp i);
                 fd = (case fp of Some f \<Rightarrow> f | None \<Rightarrow> -1)
             in if fd < 0 then xs_return ()
                else xs_then (node_set p (\<lambda>n. n\<lparr>n_io_fd := rt_dup rt fd\<rparr>))
                  (if rt_dup rt fd < 0
                   then xs_croak ''could not duplicate shared filehandle descriptor: ''
                   else node_set p (\<lambda>n. n\<lparr>n_io_mode := shared_io_mode io\<rparr>))))"

text \<open>
  \<open>perl_clone\<close> copies the whole interpreter; \<open>rt_clone_lookup\<close> is what its pointer table
  holds for the reference or else for its referent. The private interpreter of a callback or
  of a handle is named by the identity of that copy.
\<close>

definition sizeof_state :: nat where
  "sizeof_state = 56"

definition freeze_in_clone :: "'nv perl_rt \<Rightarrow> nat \<Rightarrow> string \<Rightarrow> string \<Rightarrow> string
    \<Rightarrow> ('nv shared_state, nat) xs" where
  "freeze_in_clone rt r no_clone no_copy no_memory =
     (if \<not> rt_perl_clone rt then xs_croak no_clone
      else (case rt_clone_lookup rt r of
          None \<Rightarrow> xs_croak no_copy
        | Some frozen \<Rightarrow>
            (if \<not> rt_alloc rt sizeof_state then xs_croak no_memory
             else if \<not> rt_mutex_init rt then xs_croak ''could not initialize shared state mutex''
             else xs_return frozen)))"

definition shared_freeze_handle :: "'nv perl_rt \<Rightarrow> nat \<Rightarrow> ('nv shared_state, nat) xs" where
  "shared_freeze_handle rt r = freeze_in_clone rt r
     ''perl_clone() failed while sharing non-fd filehandle''
     ''could not clone non-fd filehandle into private interpreter''
     ''out of memory allocating shared filehandle state''"

definition shared_import_io :: "'nv perl_rt \<Rightarrow> ptr \<Rightarrow> nat \<Rightarrow> char list option \<Rightarrow> perl_io
    \<Rightarrow> ('nv shared_state, unit) xs" where
  "shared_import_io rt p r cls io =
     xs_then (shared_node_clear p)
    (xs_then (node_set p (\<lambda>n. n\<lparr>n_type := SHARED_IO\<rparr>))
    (xs_then (shared_set_class rt p cls)
    (xs_then (shared_capture_io rt p (Some io))
    (xs_bind (node_at p) (\<lambda>n.
       if n_io_fd n < 0
       then xs_bind (shared_freeze_handle rt r) (\<lambda>h. node_set p (\<lambda>n. n\<lparr>n_handle := Some h\<rparr>))
       else xs_return ())))))"

definition shared_import_regexp :: "'nv perl_rt \<Rightarrow> ptr \<Rightarrow> char list option \<Rightarrow> char list
    \<Rightarrow> ('nv shared_state, unit) xs" where
  "shared_import_regexp rt p cls pv =
     xs_then (shared_node_clear p)
    (xs_then (node_set p (\<lambda>n. n\<lparr>n_type := SHARED_REGEXP\<rparr>))
    (xs_then (shared_set_class rt p cls)
       (store_pv rt p ''out of memory storing shared regexp'' SHARED_REGEXP pv False)))"

definition shared_import_format :: "'nv perl_rt \<Rightarrow> ptr \<Rightarrow> char list option \<Rightarrow> char list option
    \<Rightarrow> ('nv shared_state, unit) xs" where
  "shared_import_format rt p stash name =
     xs_then (shared_node_clear p)
    (xs_then (node_set p (\<lambda>n. n\<lparr>n_type := SHARED_FORMAT\<rparr>))
       (case (stash, name) of
          (Some st, Some nm) \<Rightarrow>
            store_pv rt p ''out of memory storing shared format name'' SHARED_FORMAT (st @ ''::'' @ nm) False
        | _ \<Rightarrow> xs_return ()))"

definition shared_import_code :: "'nv perl_rt \<Rightarrow> ptr \<Rightarrow> nat \<Rightarrow> ('nv shared_state, unit) xs" where
  "shared_import_code rt p r =
     xs_bind (freeze_in_clone rt r
       ''perl_clone() failed while sharing CODE reference''
       ''could not clone CODE reference into shared callback store''
       ''out of memory allocating shared callback state'') (\<lambda>frozen.
     xs_then (shared_node_clear p)
       (node_set p (\<lambda>n. n\<lparr>n_type := SHARED_CODE, n_code := Some frozen\<rparr>)))"

subsection \<open>Containers\<close>

text \<open>
  The loops of \<open>shared_import_value\<close> take the recursive call as an argument. A store into
  the vectors at an index they do not have is a fault.
\<close>

definition array_put :: "ptr \<Rightarrow> nat \<Rightarrow> ptr \<Rightarrow> ('nv shared_state, unit) xs" where
  "array_put p i c = xs_bind (node_at p) (\<lambda>n.
     if i < length (n_items n) then node_set p (\<lambda>n. n\<lparr>n_items := (n_items n)[i := c]\<rparr>)
     else xs_fault)"

definition hash_append :: "ptr \<Rightarrow> char list \<Rightarrow> ptr \<Rightarrow> ('nv shared_state, unit) xs" where
  "hash_append p k c = xs_bind (node_at p) (\<lambda>n.
     if length (n_hash n) < unat (n_hash_capacity n)
     then node_set p (\<lambda>n. n\<lparr>n_hash := n_hash n @ [\<lparr>entry_key = k, entry_value = c\<rparr>]\<rparr>)
     else xs_fault)"

fun import_items :: "('nv perl_sv \<Rightarrow> ('nv import_state, ptr) xs) \<Rightarrow> ptr \<Rightarrow> nat \<Rightarrow> 'nv perl_sv option list
    \<Rightarrow> ('nv import_state, unit) xs" where
  "import_items imp p i [] = xs_return ()"
| "import_items imp p i (None # vs) = import_items imp p (Suc i) vs"
| "import_items imp p i (Some v # vs) =
     xs_bind (imp v) (\<lambda>c. xs_then (on_shared (array_put p i c)) (import_items imp p (Suc i) vs))"

fun import_entries :: "('nv perl_sv \<Rightarrow> ('nv import_state, ptr) xs) \<Rightarrow> 'nv perl_rt \<Rightarrow> ptr
    \<Rightarrow> (char list \<times> 'nv perl_sv) list \<Rightarrow> ('nv import_state, unit) xs" where
  "import_entries imp rt p [] = xs_return ()"
| "import_entries imp rt p ((k, v) # es) =
     xs_bind (on_shared (node_at p)) (\<lambda>n.
     xs_then (on_shared (shared_hash_reserve rt p (of_nat (length (n_hash n)) + 1)))
       (if \<not> rt_alloc rt (length k + 1) then xs_croak ''out of memory storing shared hash key''
        else xs_bind (imp v) (\<lambda>c.
          xs_then (on_shared (hash_append p k c)) (import_entries imp rt p es))))"

definition import_vector :: "('nv perl_sv \<Rightarrow> ('nv import_state, ptr) xs) \<Rightarrow> 'nv perl_rt \<Rightarrow> ptr
    \<Rightarrow> 'nv perl_sv option list \<Rightarrow> ('nv import_state, unit) xs" where
  "import_vector imp rt p vs =
     (if vs = [] then xs_return ()
      else xs_then (on_shared (shared_array_reserve rt p (of_nat (length vs))))
          (xs_then (on_shared (node_set p (\<lambda>n. n\<lparr>n_array_size := length vs\<rparr>)))
            (import_items imp p 0 vs)))"

definition import_slot :: "('nv perl_sv \<Rightarrow> ('nv import_state, ptr) xs) \<Rightarrow> ptr \<Rightarrow> 'nv perl_sv option
    \<Rightarrow> (ptr \<Rightarrow> 'nv shared_node \<Rightarrow> 'nv shared_node) \<Rightarrow> ('nv import_state, unit) xs" where
  "import_slot imp p v upd =
     (case v of
        None \<Rightarrow> xs_return ()
      | Some v \<Rightarrow> xs_bind (imp v) (\<lambda>c. on_shared (node_set p (upd c))))"

definition shared_import_glob :: "('nv perl_sv \<Rightarrow> ('nv import_state, ptr) xs) \<Rightarrow> 'nv perl_rt \<Rightarrow> ptr \<Rightarrow> nat
    \<Rightarrow> char list option \<Rightarrow> 'nv perl_sv option \<Rightarrow> nat option \<Rightarrow> nat option \<Rightarrow> nat option \<Rightarrow> perl_io option
    \<Rightarrow> ('nv import_state, unit) xs" where
  "shared_import_glob imp rt p r cls sv av hv cv io =
     xs_then (on_shared (shared_node_clear p))
    (xs_then (on_shared (node_set p (\<lambda>n. n\<lparr>n_type := SHARED_GLOB\<rparr>)))
    (xs_then (on_shared (shared_set_class rt p cls))
    (xs_then (import_slot imp p sv (\<lambda>c n. n\<lparr>n_glob_scalar := c\<rparr>))
    (xs_then (import_slot imp p (map_option SV_Ref av) (\<lambda>c n. n\<lparr>n_glob_array := c\<rparr>))
    (xs_then (import_slot imp p (map_option SV_Ref hv) (\<lambda>c n. n\<lparr>n_glob_hash := c\<rparr>))
    (xs_then (import_slot imp p (map_option SV_Ref cv) (\<lambda>c n. n\<lparr>n_glob_code := c\<rparr>))
    (xs_then (on_shared (shared_capture_io rt p io))
    (xs_bind (on_shared (node_at p)) (\<lambda>n.
       if io \<noteq> None \<and> n_io_fd n < 0
       then xs_bind (on_shared (shared_freeze_handle rt r)) (\<lambda>h.
              on_shared (node_set p (\<lambda>n. n\<lparr>n_handle := Some h\<rparr>)))
       else xs_return ())))))))))"

subsection \<open>\<open>shared_import_value\<close>\<close>

definition unsupported_reference :: "char list \<Rightarrow> char list option \<Rightarrow> string" where
  "unsupported_reference reftype cls =
     ''share() does not support reference type '' @ reftype
     @ (case cls of Some c \<Rightarrow> '' for object '' @ c | None \<Rightarrow> [])"

fun reference_kind :: "'nv ref_body \<Rightarrow> shared_type" where
  "reference_kind (Body_Hash _) = SHARED_HASH"
| "reference_kind (Body_Array _) = SHARED_ARRAY"
| "reference_kind (Body_Object _) = SHARED_OBJECT"
| "reference_kind (Body_Scalar _) = SHARED_SCALARREF"
| "reference_kind Body_Code = SHARED_CODE"
| "reference_kind (Body_Glob _ _ _ _ _) = SHARED_GLOB"
| "reference_kind (Body_Regexp _) = SHARED_REGEXP"
| "reference_kind (Body_IO _) = SHARED_IO"
| "reference_kind (Body_Format _ _) = SHARED_FORMAT"
| "reference_kind (Body_Other _) = SHARED_UNDEF"

definition import_start :: "'nv perl_rt \<Rightarrow> ptr \<Rightarrow> shared_type \<Rightarrow> char list option \<Rightarrow> ('nv import_state, unit) xs" where
  "import_start rt p ty cls =
     xs_then (on_shared (node_set p (\<lambda>n. n\<lparr>n_type := ty\<rparr>))) (on_shared (shared_set_class rt p cls))"

definition import_body :: "('nv perl_sv \<Rightarrow> ('nv import_state, ptr) xs) \<Rightarrow> 'nv perl_rt \<Rightarrow> ptr \<Rightarrow> nat
    \<Rightarrow> 'nv referent \<Rightarrow> ('nv import_state, unit) xs" where
  "import_body imp rt p r x =
     (let cls = ref_class x; ty = reference_kind (ref_body x)
      in case ref_body x of
        Body_Other reftype \<Rightarrow> xs_croak (unsupported_reference reftype cls)
      | Body_Object fs \<Rightarrow>
          (if rt_version rt < 40 then xs_croak (unsupported_reference ''OBJECT'' cls)
           else xs_then (import_map_add rt r p)
                  (xs_then (import_start rt p ty cls) (import_vector imp rt p fs)))
      | Body_Code \<Rightarrow> xs_then (import_map_add rt r p) (on_shared (shared_import_code rt p r))
      | Body_Glob sv av hv cv io \<Rightarrow>
          xs_then (import_map_add rt r p) (shared_import_glob imp rt p r cls sv av hv cv io)
      | Body_Regexp pv \<Rightarrow> xs_then (import_map_add rt r p) (on_shared (shared_import_regexp rt p cls pv))
      | Body_IO io \<Rightarrow> xs_then (import_map_add rt r p) (on_shared (shared_import_io rt p r cls io))
      | Body_Format stash name \<Rightarrow>
          xs_then (import_map_add rt r p) (on_shared (shared_import_format rt p stash name))
      | Body_Hash es \<Rightarrow>
          xs_then (import_map_add rt r p)
            (xs_then (import_start rt p ty cls) (import_entries imp rt p es))
      | Body_Array vs \<Rightarrow>
          xs_then (import_map_add rt r p)
            (xs_then (import_start rt p ty cls) (import_vector imp rt p vs))
      | Body_Scalar v \<Rightarrow>
          xs_then (import_map_add rt r p)
            (xs_then (import_start rt p ty cls)
              (import_slot imp p (Some v) (\<lambda>c n. n\<lparr>n_scalarref := c\<rparr>))))"

text \<open>What follows the choice of the node; \<open>imp\<close> is the recursive call.\<close>

definition import_at :: "('nv perl_sv \<Rightarrow> ('nv import_state, ptr) xs) \<Rightarrow> 'nv perl_rt \<Rightarrow> 'nv perl_store
    \<Rightarrow> 'nv perl_sv \<Rightarrow> ptr \<Rightarrow> ('nv import_state, ptr) xs" where
  "import_at imp rt P v n =
     (case v of
        SV_Ref r \<Rightarrow>
          xs_bind (import_map_find r) (\<lambda>existing.
            case existing of
              Some m \<Rightarrow> xs_return m
            | None \<Rightarrow>
                xs_then (on_shared (shared_node_clear n))
                  (case P r of
                     None \<Rightarrow> xs_fault
                   | Some x \<Rightarrow> xs_then (import_body imp rt n r x) (xs_return n)))
      | _ \<Rightarrow> xs_then (on_shared (shared_import_scalar rt n v)) (xs_return n))"

text \<open>
  The first argument bounds the depth of the recursion; running out is \<open>Diverge\<close>, and the
  theorems of \<open>Shared_Import_Correct\<close> show that the number of referents is enough.
\<close>

primrec import_value :: "nat \<Rightarrow> 'nv perl_rt \<Rightarrow> 'nv perl_store \<Rightarrow> ptr option \<Rightarrow> 'nv perl_sv
    \<Rightarrow> ('nv import_state, ptr) xs" where
  "import_value 0 rt P pref v = xs_diverge"
| "import_value (Suc fuel) rt P pref v =
     xs_bind (case pref of Some n \<Rightarrow> xs_return n | None \<Rightarrow> on_shared (shared_node_new rt))
       (import_at (import_value fuel rt P None) rt P v)"

definition shared_import_into :: "nat \<Rightarrow> 'nv perl_rt \<Rightarrow> 'nv perl_store \<Rightarrow> ptr \<Rightarrow> 'nv perl_sv
    \<Rightarrow> ('nv shared_state, unit) xs" where
  "shared_import_into fuel rt P dest v h =
     (case import_value fuel rt P (Some dest) v \<lparr>im_shared = h, im_map = [], im_capacity = 0\<rparr> of
        (Ret _, s) \<Rightarrow> (Ret (), im_shared s)
      | (Croak m, s) \<Rightarrow> (Croak m, im_shared s)
      | (Fault, s) \<Rightarrow> (Fault, im_shared s)
      | (Diverge, s) \<Rightarrow> (Diverge, im_shared s))"

end
