(* ===== verification/Shared_Access.thy ===== *)
theory Shared_Access
  imports Shared_Import
begin

section \<open>Reading the shared graph (GoRoutine012.xs)\<close>

text \<open>
  Every \<open>_shared_*\<close> XSUB takes the process-wide lock, turns its handle into a pointer, works
  on the node and drops the lock. \<open>locked\<close> is that frame; its body sees the pointer and the
  node. A body that croaks does so with the lock held unless it dropped it first, which is
  what \<open>unlock_croak\<close> does.
\<close>

definition locked :: "ptr \<Rightarrow> (ptr \<Rightarrow> 'nv shared_node \<Rightarrow> ('nv shared_state, 'a) xs) \<Rightarrow> ('nv shared_state, 'a) xs" where
  "locked h body =
     xs_then shared_lock
       (xs_bind (shared_from_uv h) (\<lambda>p.
        xs_bind (node_at p) (\<lambda>n.
        xs_bind (body p n) (\<lambda>r. xs_then shared_unlock (xs_return r)))))"

definition unlock_croak :: "string \<Rightarrow> ('nv shared_state, 'a) xs" where
  "unlock_croak msg = xs_then shared_unlock (xs_croak msg)"

definition expect_type :: "shared_type \<Rightarrow> string \<Rightarrow> 'nv shared_node \<Rightarrow> ('nv shared_state, 'a) xs
    \<Rightarrow> ('nv shared_state, 'a) xs" where
  "expect_type ty msg n k = (if n_type n \<noteq> ty then unlock_croak msg else k)"

subsection \<open>The readers\<close>

definition shared_node_new_xs :: "'nv perl_rt \<Rightarrow> ('nv shared_state, ptr) xs" where
  "shared_node_new_xs rt =
     xs_then shared_lock (xs_bind (shared_node_new rt) (\<lambda>p. xs_then shared_unlock (xs_return p)))"

fun kind_name :: "shared_type \<Rightarrow> string" where
  "kind_name SHARED_HASH = ''hash''"
| "kind_name SHARED_ARRAY = ''array''"
| "kind_name SHARED_SCALARREF = ''scalarref''"
| "kind_name SHARED_OBJECT = ''object''"
| "kind_name SHARED_CODE = ''code''"
| "kind_name SHARED_GLOB = ''glob''"
| "kind_name SHARED_IO = ''io''"
| "kind_name SHARED_REGEXP = ''regexp''"
| "kind_name SHARED_FORMAT = ''format''"
| "kind_name _ = ''scalar''"

definition shared_node_kind :: "ptr \<Rightarrow> ('nv shared_state, string) xs" where
  "shared_node_kind h = locked h (\<lambda>p n. xs_return (kind_name (n_type n)))"

definition expect_handle :: "'nv shared_node \<Rightarrow> ('nv shared_state, 'a) xs \<Rightarrow> ('nv shared_state, 'a) xs" where
  "expect_handle n k =
     (if n_type n \<noteq> SHARED_GLOB \<and> n_type n \<noteq> SHARED_IO
      then unlock_croak ''shared value is not a GLOB/IO handle'' else k)"

definition shared_handle_fd :: "ptr \<Rightarrow> ('nv shared_state, int) xs" where
  "shared_handle_fd h = locked h (\<lambda>p n. expect_handle n (xs_return (n_io_fd n)))"

definition shared_handle_mode :: "ptr \<Rightarrow> ('nv shared_state, string) xs" where
  "shared_handle_mode h = locked h (\<lambda>p n. expect_handle n
     (xs_return (if n_io_mode n = 0 then ''<&'' else if n_io_mode n = 1 then ''>&'' else ''+<&'')))"

definition shared_glob_slot_ptr :: "ptr \<Rightarrow> string \<Rightarrow> ('nv shared_state, ptr) xs" where
  "shared_glob_slot_ptr h slot = locked h (\<lambda>p n.
     expect_type SHARED_GLOB ''shared value is not a GLOB reference'' n
       (if slot = ''scalar'' then xs_return (n_glob_scalar n)
        else if slot = ''array'' then xs_return (n_glob_array n)
        else if slot = ''hash'' then xs_return (n_glob_hash n)
        else if slot = ''code'' then xs_return (n_glob_code n)
        else unlock_croak (''unknown GLOB slot '' @ slot)))"

definition shared_node_text :: "ptr \<Rightarrow> ('nv shared_state, 'nv perl_scalar option) xs" where
  "shared_node_text h = locked h (\<lambda>p n. xs_return (map_option newSVpvn (n_pv n)))"

definition shared_node_class :: "ptr \<Rightarrow> ('nv shared_state, 'nv perl_scalar option) xs" where
  "shared_node_class h = locked h (\<lambda>p n. xs_return (map_option newSVpvn (n_class n)))"

definition shared_scalarref_ptr :: "ptr \<Rightarrow> ('nv shared_state, ptr) xs" where
  "shared_scalarref_ptr h = locked h (\<lambda>p n.
     expect_type SHARED_SCALARREF ''shared value is not a scalar reference'' n (xs_return (n_scalarref n)))"

subsection \<open>The frame\<close>

text \<open>A handle that is live: not NULL and allocated.\<close>

definition live :: "'nv shared_state \<Rightarrow> ptr \<Rightarrow> 'nv shared_node \<Rightarrow> bool" where
  "live s p n \<longleftrightarrow> 0 < p \<and> sh_heap s p = Some n"

abbreviation held :: "'nv shared_state \<Rightarrow> 'nv shared_state" where
  "held s \<equiv> s\<lparr>sh_lock := Suc (sh_lock s)\<rparr>"

lemma locked_live:
  "live s p n \<Longrightarrow> locked p body s = xs_bind (body p n) (\<lambda>r. xs_then shared_unlock (xs_return r)) (held s)"
  by (simp add: locked_def live_def shared_lock_def shared_from_uv_def node_at_def xs_simps)

lemma locked_null: "locked 0 body s = (Croak ''invalid shared value handle'', held s)"
  by (simp add: locked_def shared_lock_def shared_from_uv_def xs_simps)

lemma locked_Ret:
  assumes "live s p n" and "body p n (held s) = (Ret r, s')"
  shows "locked p body s = (Ret r, s'\<lparr>sh_lock := sh_lock s' - 1\<rparr>)"
  using assms by (simp add: locked_live xs_bind_Ret shared_unlock_def xs_simps)

lemma locked_Croak:
  assumes "live s p n" and "body p n (held s) = (Croak m, s')"
  shows "locked p body s = (Croak m, s')"
  using assms by (simp add: locked_live xs_bind_def)

lemma locked_ok:
  assumes "live s p n"
    and "xs_ok E (\<lambda>r s'. Q r (s'\<lparr>sh_lock := sh_lock s' - 1\<rparr>)) (body p n (held s))"
  shows "xs_ok E Q (locked p body s)"
proof -
  obtain out t where run: "body p n (held s) = (out, t)" by (cases "body p n (held s)")
  with assms show ?thesis
    by (cases out) (simp_all add: locked_live xs_bind_def shared_unlock_def xs_simps)
qed

lemma unlock_croak_held [simp]: "unlock_croak msg (held s) = (Croak msg, s)"
  by (simp add: unlock_croak_def shared_unlock_def xs_simps)

lemma held_heap [simp]:
  "sh_heap (held s) = sh_heap s" "sh_next (held s) = sh_next s" "sh_closed (held s) = sh_closed s"
  by simp_all

end
