(* ===== verification/Shared_Array.thy ===== *)
theory Shared_Array
  imports Shared_Access
begin

section \<open>Shared arrays (GoRoutine012.xs)\<close>

text \<open>
  The array XSUBs. \<open>array_items\<close> is the whole allocation, \<open>array_size\<close> the number of
  elements in use; an element is a node or \<open>NULL\<close>. Indices are \<open>IV\<close>s, so negative ones are
  tested before the cast to \<open>size_t\<close>. An access past the allocation is a fault.
\<close>

definition expect_array :: "'nv shared_node \<Rightarrow> ('nv shared_state, 'a) xs \<Rightarrow> ('nv shared_state, 'a) xs" where
  "expect_array = expect_type SHARED_ARRAY ''shared value is not an array''"

definition item_at :: "'nv shared_node \<Rightarrow> nat \<Rightarrow> ('nv shared_state, ptr) xs" where
  "item_at n i = (if i < length (n_items n) then xs_return (n_items n ! i) else xs_fault)"

definition item_put :: "ptr \<Rightarrow> nat \<Rightarrow> ptr \<Rightarrow> ('nv shared_state, unit) xs" where
  "item_put p i c = xs_bind (node_at p) (\<lambda>n.
     if i < length (n_items n) then node_set p (\<lambda>n. n\<lparr>n_items := (n_items n)[i := c]\<rparr>) else xs_fault)"

subsection \<open>Reading\<close>

definition shared_array_size :: "ptr \<Rightarrow> ('nv shared_state, nat) xs" where
  "shared_array_size h = locked h (\<lambda>p n. expect_array n (xs_return (n_array_size n)))"

definition shared_array_fetch_ptr :: "ptr \<Rightarrow> u64 \<Rightarrow> ('nv shared_state, ptr) xs" where
  "shared_array_fetch_ptr h index = locked h (\<lambda>p n. expect_array n
     (if 0 \<le> sint index \<and> unat index < n_array_size n then item_at n (unat index) else xs_return 0))"

definition shared_array_exists :: "ptr \<Rightarrow> u64 \<Rightarrow> ('nv shared_state, bool) xs" where
  "shared_array_exists h index = locked h (\<lambda>p n. expect_array n
     (if 0 \<le> sint index \<and> unat index < n_array_size n
      then xs_bind (item_at n (unat index)) (\<lambda>c. xs_return (c \<noteq> 0)) else xs_return False))"

subsection \<open>Storing\<close>

definition extend_to :: "ptr \<Rightarrow> u64 \<Rightarrow> ('nv shared_state, unit) xs" where
  "extend_to p index = node_set p (\<lambda>n.
     if n_array_size n \<le> unat index then n\<lparr>n_array_size := unat (index + 1)\<rparr> else n)"

definition shared_array_store :: "nat \<Rightarrow> 'nv perl_rt \<Rightarrow> 'nv perl_store \<Rightarrow> ptr \<Rightarrow> u64 \<Rightarrow> 'nv perl_sv
    \<Rightarrow> ('nv shared_state, unit) xs" where
  "shared_array_store fuel rt P h index v =
     (if sint index < 0 then xs_croak ''negative shared array index not supported for STORE''
      else locked h (\<lambda>p n. expect_array n
        (xs_then (shared_array_reserve rt p (index + 1))
        (xs_then (extend_to p index)
        (xs_bind (node_at p) (\<lambda>n1.
         xs_bind (item_at n1 (unat index)) (\<lambda>c.
         xs_bind (if c = 0
                  then xs_bind (shared_node_new rt) (\<lambda>q. xs_then (item_put p (unat index) q) (xs_return q))
                  else xs_return c) (\<lambda>q.
         shared_import_into fuel rt P q v))))))))"

definition shared_array_store_ptr :: "'nv perl_rt \<Rightarrow> ptr \<Rightarrow> u64 \<Rightarrow> ptr \<Rightarrow> ('nv shared_state, unit) xs" where
  "shared_array_store_ptr rt h index child_ptr =
     (if sint index < 0 then xs_croak ''negative shared array index not supported for STORE''
      else locked h (\<lambda>p n.
        xs_bind (shared_from_uv child_ptr) (\<lambda>child. expect_array n
          (xs_then (shared_array_reserve rt p (index + 1))
          (xs_then (extend_to p index)
            (item_put p (unat index) child))))))"

definition shared_array_delete_ptr :: "ptr \<Rightarrow> u64 \<Rightarrow> ('nv shared_state, ptr) xs" where
  "shared_array_delete_ptr h index = locked h (\<lambda>p n. expect_array n
     (if 0 \<le> sint index \<and> unat index < n_array_size n
      then xs_bind (item_at n (unat index)) (\<lambda>old. xs_then (item_put p (unat index) 0) (xs_return old))
      else xs_return 0))"

subsection \<open>Both ends\<close>

text \<open>
  What push, unshift, pop and shift do to a node with room for one more element, the loops
  that move the elements included: \<open>move_up\<close> is \<open>for (i = size; i > 0; --i) items[i] =
  items[i - 1]\<close> and \<open>move_down\<close> is \<open>for (i = 1; i < size; ++i) items[i - 1] = items[i]\<close>.
\<close>

fun move_up :: "ptr list \<Rightarrow> nat \<Rightarrow> ptr list" where
  "move_up items 0 = items"
| "move_up items (Suc i) = move_up (items[Suc i := items ! i]) i"

fun move_down :: "ptr list \<Rightarrow> nat \<Rightarrow> nat \<Rightarrow> ptr list" where
  "move_down items i 0 = items"
| "move_down items i (Suc k) = move_down (items[i - 1 := items ! i]) (Suc i) k"

definition node_push :: "ptr \<Rightarrow> 'nv shared_node \<Rightarrow> 'nv shared_node" where
  "node_push c n = n\<lparr>n_items := (n_items n)[n_array_size n := c], n_array_size := Suc (n_array_size n)\<rparr>"

definition node_unshift :: "ptr \<Rightarrow> 'nv shared_node \<Rightarrow> 'nv shared_node" where
  "node_unshift c n = n\<lparr>n_items := (move_up (n_items n) (n_array_size n))[0 := c],
     n_array_size := Suc (n_array_size n)\<rparr>"

definition node_pop :: "'nv shared_node \<Rightarrow> 'nv shared_node \<times> ptr" where
  "node_pop n =
     (if n_array_size n > 0
      then (n\<lparr>n_items := (n_items n)[n_array_size n - 1 := 0], n_array_size := n_array_size n - 1\<rparr>,
            n_items n ! (n_array_size n - 1))
      else (n, 0))"

definition node_shift :: "'nv shared_node \<Rightarrow> 'nv shared_node \<times> ptr" where
  "node_shift n =
     (if n_array_size n > 0
      then (n\<lparr>n_items := (move_down (n_items n) 1 (n_array_size n - 1))[n_array_size n - 1 := 0],
              n_array_size := n_array_size n - 1\<rparr>,
            n_items n ! 0)
      else (n, 0))"

text \<open>The writes of push and unshift reach index \<open>array_size\<close>, those of pop and shift stay below.\<close>

definition put_end :: "ptr \<Rightarrow> ('nv shared_node \<Rightarrow> 'nv shared_node) \<Rightarrow> ('nv shared_state, nat) xs" where
  "put_end p f = xs_bind (node_at p) (\<lambda>n.
     if n_array_size n < length (n_items n)
     then xs_then (node_set p f) (xs_return (Suc (n_array_size n))) else xs_fault)"

definition take_end :: "ptr \<Rightarrow> ('nv shared_node \<Rightarrow> 'nv shared_node \<times> ptr) \<Rightarrow> ('nv shared_state, ptr) xs" where
  "take_end p f = xs_bind (node_at p) (\<lambda>n.
     if n_array_size n \<le> length (n_items n)
     then xs_then (node_set p (\<lambda>n. fst (f n))) (xs_return (snd (f n))) else xs_fault)"

definition shared_array_push :: "nat \<Rightarrow> 'nv perl_rt \<Rightarrow> 'nv perl_store \<Rightarrow> ptr \<Rightarrow> 'nv perl_sv \<Rightarrow> ('nv shared_state, nat) xs" where
  "shared_array_push fuel rt P h v = locked h (\<lambda>p n. expect_array n
     (xs_bind (shared_node_new rt) (\<lambda>child.
      xs_then (shared_import_into fuel rt P child v)
     (xs_bind (node_at p) (\<lambda>n1.
      xs_then (shared_array_reserve rt p (of_nat (n_array_size n1) + 1))
        (put_end p (node_push child)))))))"

definition shared_array_push_ptr :: "'nv perl_rt \<Rightarrow> ptr \<Rightarrow> ptr \<Rightarrow> ('nv shared_state, unit) xs" where
  "shared_array_push_ptr rt h child_ptr = locked h (\<lambda>p n.
     xs_bind (shared_from_uv child_ptr) (\<lambda>child. expect_array n
       (xs_then (shared_array_reserve rt p (of_nat (n_array_size n) + 1))
       (xs_then (put_end p (node_push child)) (xs_return ())))))"

definition shared_array_unshift :: "nat \<Rightarrow> 'nv perl_rt \<Rightarrow> 'nv perl_store \<Rightarrow> ptr \<Rightarrow> 'nv perl_sv \<Rightarrow> ('nv shared_state, nat) xs" where
  "shared_array_unshift fuel rt P h v = locked h (\<lambda>p n. expect_array n
     (xs_bind (shared_node_new rt) (\<lambda>child.
      xs_then (shared_import_into fuel rt P child v)
     (xs_bind (node_at p) (\<lambda>n1.
      xs_then (shared_array_reserve rt p (of_nat (n_array_size n1) + 1))
        (put_end p (node_unshift child)))))))"

definition shared_array_unshift_ptr :: "'nv perl_rt \<Rightarrow> ptr \<Rightarrow> ptr \<Rightarrow> ('nv shared_state, unit) xs" where
  "shared_array_unshift_ptr rt h child_ptr = locked h (\<lambda>p n.
     xs_bind (shared_from_uv child_ptr) (\<lambda>child. expect_array n
       (xs_then (shared_array_reserve rt p (of_nat (n_array_size n) + 1))
       (xs_then (put_end p (node_unshift child)) (xs_return ())))))"

definition shared_array_pop_ptr :: "ptr \<Rightarrow> ('nv shared_state, ptr) xs" where
  "shared_array_pop_ptr h = locked h (\<lambda>p n. expect_array n (take_end p node_pop))"

definition shared_array_shift_ptr :: "ptr \<Rightarrow> ('nv shared_state, ptr) xs" where
  "shared_array_shift_ptr h = locked h (\<lambda>p n. expect_array n (take_end p node_shift))"

subsection \<open>Clearing and resizing\<close>

definition shared_array_clear :: "ptr \<Rightarrow> ('nv shared_state, unit) xs" where
  "shared_array_clear h = locked h (\<lambda>p n. expect_array n
     (node_set p (\<lambda>n. n\<lparr>n_items := replicate (length (n_items n)) 0, n_array_size := 0\<rparr>)))"

text \<open>
  Growing nulls the new elements one by one; shrinking only lowers \<open>array_size\<close>.
\<close>

fun null_from :: "ptr list \<Rightarrow> nat \<Rightarrow> nat \<Rightarrow> ptr list" where
  "null_from items i 0 = items"
| "null_from items i (Suc k) = null_from (items[i := 0]) (Suc i) k"

definition shared_array_resize :: "'nv perl_rt \<Rightarrow> ptr \<Rightarrow> u64 \<Rightarrow> ('nv shared_state, unit) xs" where
  "shared_array_resize rt h new_size = locked h (\<lambda>p n. expect_array n
     (xs_then (shared_array_reserve rt p new_size)
     (xs_bind (node_at p) (\<lambda>n1.
        if unat new_size > n_array_size n1 \<and> unat new_size > length (n_items n1) then xs_fault
        else node_set p (\<lambda>n. n\<lparr>
          n_items := (if unat new_size > n_array_size n
                      then null_from (n_items n) (n_array_size n) (unat new_size - n_array_size n)
                      else n_items n),
          n_array_size := unat new_size\<rparr>)))))"

subsection \<open>The loops as list operations\<close>

text \<open>The elements in use.\<close>

definition arr :: "'nv shared_node \<Rightarrow> ptr list" where
  "arr n = take (n_array_size n) (n_items n)"

lemma length_move_up [simp]: "length (move_up items i) = length items"
  by (induction items i rule: move_up.induct) simp_all

lemma nth_move_up:
  "i < length items \<Longrightarrow> j < length items
    \<Longrightarrow> move_up items i ! j = (if 0 < j \<and> j \<le> i then items ! (j - 1) else items ! j)"
proof (induction items i arbitrary: j rule: move_up.induct)
  case (2 items i)
  then show ?case by (cases "j = Suc i") (auto simp: nth_list_update not_le less_Suc_eq)
qed auto

lemma length_move_down [simp]: "length (move_down items i k) = length items"
  by (induction items i k rule: move_down.induct) simp_all

lemma nth_move_down:
  "0 < i \<Longrightarrow> i + k \<le> length items \<Longrightarrow> j < length items
    \<Longrightarrow> move_down items i k ! j = (if i \<le> Suc j \<and> Suc j < i + k then items ! Suc j else items ! j)"
proof (induction items i k arbitrary: j rule: move_down.induct)
  case (2 items i k)
  then have "move_down items i (Suc k) ! j
      = (if Suc i \<le> Suc j \<and> Suc j < Suc i + k then items[i - 1 := items ! i] ! Suc j else items[i - 1 := items ! i] ! j)"
    by simp
  then show ?case using "2.prems" by (auto simp: nth_list_update)
qed simp

lemma length_null_from [simp]: "length (null_from items i k) = length items"
  by (induction items i k rule: null_from.induct) simp_all

lemma nth_null_from:
  "j < length items \<Longrightarrow> null_from items i k ! j = (if i \<le> j \<and> j < i + k then 0 else items ! j)"
  by (induction items i k rule: null_from.induct) (auto simp: nth_list_update)

lemma length_arr: "n_array_size n \<le> length (n_items n) \<Longrightarrow> length (arr n) = n_array_size n"
  by (simp add: arr_def)

lemma arr_push: "n_array_size n < length (n_items n) \<Longrightarrow> arr (node_push c n) = arr n @ [c]"
  by (simp add: arr_def node_push_def take_Suc_conv_app_nth)

lemma arr_unshift:
  assumes "n_array_size n < length (n_items n)"
  shows "arr (node_unshift c n) = c # arr n"
proof (rule nth_equalityI)
  fix j
  assume "j < length (arr (node_unshift c n))"
  moreover have "0 < length (n_items n)" using assms by (cases "n_items n") auto
  ultimately show "arr (node_unshift c n) ! j = (c # arr n) ! j"
    using assms by (cases j) (auto simp: arr_def node_unshift_def nth_move_up)
qed (use assms in \<open>simp add: arr_def node_unshift_def\<close>)

lemma arr_pop:
  assumes "n_array_size n \<le> length (n_items n)"
  shows "arr (fst (node_pop n)) = butlast (arr n)"
    and "snd (node_pop n) = (if arr n = [] then 0 else last (arr n))"
  using assms by (auto simp: arr_def node_pop_def butlast_take last_conv_nth min_def)

lemma arr_shift:
  assumes "n_array_size n \<le> length (n_items n)"
  shows "arr (fst (node_shift n)) = tl (arr n)"
    and "snd (node_shift n) = (if arr n = [] then 0 else hd (arr n))"
proof -
  show "arr (fst (node_shift n)) = tl (arr n)"
  proof (rule nth_equalityI)
    fix j
    assume "j < length (arr (fst (node_shift n)))"
    with assms show "arr (fst (node_shift n)) ! j = tl (arr n) ! j"
      by (auto simp: arr_def node_shift_def nth_tl nth_move_down split: if_splits)
  qed (use assms in \<open>auto simp: arr_def node_shift_def\<close>)
  show "snd (node_shift n) = (if arr n = [] then 0 else hd (arr n))"
    using assms by (auto simp: arr_def node_shift_def hd_conv_nth)
qed

subsection \<open>The contract of an array with two open ends\<close>

text \<open>
  What Perl's array operations ask of the representation: the four end operations act on the
  contents as on a list, as long as there is room. A run of operations then acts as the same
  run on a list, and what was pushed comes back in order from the other end.
\<close>

datatype 'v end_op = Push 'v | Unshift 'v | Pop | Shift

fun list_op :: "'v \<Rightarrow> 'v end_op \<Rightarrow> 'v list \<Rightarrow> 'v list \<times> 'v" where
  "list_op nul (Push v) xs = (xs @ [v], v)"
| "list_op nul (Unshift v) xs = (v # xs, v)"
| "list_op nul Pop xs = (butlast xs, if xs = [] then nul else last xs)"
| "list_op nul Shift xs = (tl xs, if xs = [] then nul else hd xs)"

fun list_run :: "'v \<Rightarrow> 'v end_op list \<Rightarrow> 'v list \<Rightarrow> 'v list \<times> 'v list" where
  "list_run nul [] xs = (xs, [])"
| "list_run nul (a # as) xs =
     (case list_op nul a xs of (ys, v) \<Rightarrow> (case list_run nul as ys of (zs, vs) \<Rightarrow> (zs, v # vs)))"

lemma list_run_append:
  "list_run nul (as @ bs) xs =
     (case list_run nul as xs of (ys, vs) \<Rightarrow> (case list_run nul bs ys of (zs, ws) \<Rightarrow> (zs, vs @ ws)))"
  by (induction as arbitrary: xs) (auto split: prod.splits)

lemma list_run_pushes: "list_run nul (map Push vs) xs = (xs @ vs, vs)"
  by (induction vs arbitrary: xs) auto

lemma list_run_shifts: "list_run nul (replicate (length xs) Shift) (xs @ ys) = (ys, xs)"
  by (induction xs) auto

locale flex_array =
  fixes contents :: "'s \<Rightarrow> 'v list" and room :: "'s \<Rightarrow> nat" and ok :: "'s \<Rightarrow> bool"
    and push :: "'v \<Rightarrow> 's \<Rightarrow> 's" and unshift :: "'v \<Rightarrow> 's \<Rightarrow> 's"
    and pop :: "'s \<Rightarrow> 's \<times> 'v" and shift :: "'s \<Rightarrow> 's \<times> 'v" and nul :: 'v
  assumes push_law: "ok s \<Longrightarrow> 0 < room s \<Longrightarrow>
        contents (push v s) = contents s @ [v] \<and> ok (push v s) \<and> room s = Suc (room (push v s))"
    and unshift_law: "ok s \<Longrightarrow> 0 < room s \<Longrightarrow>
        contents (unshift v s) = v # contents s \<and> ok (unshift v s) \<and> room s = Suc (room (unshift v s))"
    and pop_law: "ok s \<Longrightarrow> contents (fst (pop s)) = butlast (contents s)
        \<and> snd (pop s) = (if contents s = [] then nul else last (contents s))
        \<and> ok (fst (pop s)) \<and> room s \<le> room (fst (pop s))"
    and shift_law: "ok s \<Longrightarrow> contents (fst (shift s)) = tl (contents s)
        \<and> snd (shift s) = (if contents s = [] then nul else hd (contents s))
        \<and> ok (fst (shift s)) \<and> room s \<le> room (fst (shift s))"
begin

fun op_step :: "'v end_op \<Rightarrow> 's \<Rightarrow> 's \<times> 'v" where
  "op_step (Push v) s = (push v s, v)"
| "op_step (Unshift v) s = (unshift v s, v)"
| "op_step Pop s = pop s"
| "op_step Shift s = shift s"

fun op_run :: "'v end_op list \<Rightarrow> 's \<Rightarrow> 's \<times> 'v list" where
  "op_run [] s = (s, [])"
| "op_run (a # as) s = (case op_step a s of (t, v) \<Rightarrow> (case op_run as t of (u, vs) \<Rightarrow> (u, v # vs)))"

lemma op_step_refines:
  assumes "ok s" and "0 < room s"
  shows "list_op nul a (contents s) = (contents (fst (op_step a s)), snd (op_step a s))"
    and "ok (fst (op_step a s))" and "room s - 1 \<le> room (fst (op_step a s))"
proof -
  note laws = push_law [OF assms] unshift_law [OF assms] pop_law [OF assms(1)] shift_law [OF assms(1)]
  show "list_op nul a (contents s) = (contents (fst (op_step a s)), snd (op_step a s))"
    by (cases a) (simp_all add: laws)
  show "ok (fst (op_step a s))" by (cases a) (simp_all add: laws)
  show "room s - 1 \<le> room (fst (op_step a s))"
  proof (cases a)
    case (Push v) then show ?thesis using laws(1) [of v] by simp
  next
    case (Unshift v) then show ?thesis using laws(2) [of v] by simp
  next
    case Pop then show ?thesis using laws(3) by auto
  next
    case Shift then show ?thesis using laws(4) by auto
  qed
qed

lemma op_run_refines:
  "ok s \<Longrightarrow> length as \<le> room s \<Longrightarrow>
     list_run nul as (contents s) = (contents (fst (op_run as s)), snd (op_run as s)) \<and> ok (fst (op_run as s))"
proof (induction as arbitrary: s)
  case (Cons a as)
  then have pos: "0 < room s" by simp
  note step = op_step_refines [OF Cons.prems(1) pos, of a]
  have "length as \<le> room (fst (op_step a s))" using Cons.prems(2) step(3) by simp
  from Cons.IH [OF step(2) this] step(1) show ?case by (auto split: prod.splits)
qed simp

lemma pushed_comes_back:
  assumes "ok s" and "contents s = []" and "2 * length vs \<le> room s"
  shows "snd (op_run (map Push vs @ replicate (length vs) Shift) s) = vs @ vs"
proof -
  have "length (map Push vs @ replicate (length vs) Shift) \<le> room s" using assms(3) by simp
  from op_run_refines [OF assms(1) this] assms(2) list_run_shifts [of nul vs "[]"]
  show ?thesis by (simp add: list_run_append list_run_pushes)
qed

end

definition array_ok :: "'nv shared_node \<Rightarrow> bool" where
  "array_ok n \<longleftrightarrow> n_array_size n \<le> length (n_items n)"

definition array_room :: "'nv shared_node \<Rightarrow> nat" where
  "array_room n = length (n_items n) - n_array_size n"

interpretation node_array: flex_array arr array_room array_ok node_push node_unshift node_pop node_shift 0
proof (unfold_locales, goal_cases)
  case (1 s v)
  then show ?case by (auto simp: array_ok_def array_room_def arr_push) (simp_all add: node_push_def)
next
  case (2 s v)
  then show ?case by (auto simp: array_ok_def array_room_def arr_unshift) (simp_all add: node_unshift_def)
next
  case (3 s)
  then show ?case by (auto simp: array_ok_def array_room_def arr_pop) (auto simp: node_pop_def)
next
  case (4 s)
  then show ?case by (auto simp: array_ok_def array_room_def arr_shift) (auto simp: node_shift_def)
qed

subsection \<open>The XSUBs on a live array\<close>

abbreviation with_array :: "'nv shared_state \<Rightarrow> ptr \<Rightarrow> 'nv shared_node \<Rightarrow> 'nv shared_state" where
  "with_array s p n \<equiv> s\<lparr>sh_heap := (sh_heap s)(p \<mapsto> n)\<rparr>"

definition live_array :: "'nv shared_state \<Rightarrow> ptr \<Rightarrow> 'nv shared_node \<Rightarrow> bool" where
  "live_array s p n \<longleftrightarrow> heap_wf s \<and> live s p n \<and> n_type n = SHARED_ARRAY"

lemma live_arrayD:
  assumes "live_array s p n"
  shows "live s p n" and "node_wf n" and "array_ok n" and "set (n_items n) \<subseteq> {..<sh_next s}"
    and "heap_wf s" and "n_type n = SHARED_ARRAY"
  using assms heap_wfD(3,4) [of s p n]
  by (auto simp: live_array_def live_def array_ok_def node_wf_def node_ptrs_def)

text \<open>A rewrite of the items that stays inside the allocation keeps the store well formed.\<close>

lemma live_array_update:
  assumes "live_array s p n" and "length items = length (n_items n)" and "set items \<subseteq> {..<sh_next s}"
    and "k \<le> length items"
  shows "live_array (with_array s p (n\<lparr>n_items := items, n_array_size := k\<rparr>)) p (n\<lparr>n_items := items, n_array_size := k\<rparr>)"
proof -
  note d = live_arrayD [OF assms(1)]
  have "\<forall>q\<in>node_ptrs n. q < sh_next s"
    using heap_wfD(4) [OF d(5), of p n] d(1) by (simp add: live_def)
  then have "heap_wf (with_array s p (n\<lparr>n_items := items, n_array_size := k\<rparr>))"
    using d assms(2-4) by (intro heap_wf_set [of s p n]) (auto simp: live_def node_wf_def node_ptrs_def)
  then show ?thesis using d by (simp add: live_array_def live_def)
qed

lemma live_array_grown:
  assumes "live_array s p n" and "array_grown n need n'"
  shows "live_array (with_array s p n') p n'" and "arr n' = arr n"
    and "unat need \<le> length (n_items n')" and "n_array_size n' = n_array_size n"
proof -
  note d = live_arrayD [OF assms(1)]
  obtain k cap where n': "n' = n\<lparr>n_items := n_items n @ replicate k 0, n_array_capacity := cap\<rparr>"
    and need: "unat need \<le> length (n_items n')" and wf: "node_wf n'"
    using assms(2) by (auto simp: array_grown_def)
  have "\<forall>q\<in>node_ptrs n. q < sh_next s" and "0 < sh_next s"
    using heap_wfD(4) [OF d(5), of p n] d(1,5) by (simp_all add: live_def heap_wf_def)
  then have "heap_wf (with_array s p n')"
    using d wf by (intro heap_wf_set [of s p n]) (auto simp: live_def n' node_ptrs_def)
  then show "live_array (with_array s p n') p n'" using d by (simp add: live_array_def live_def n')
  show "arr n' = arr n" using d(3) by (simp add: arr_def n' array_ok_def)
  show "unat need \<le> length (n_items n')" and "n_array_size n' = n_array_size n"
    using need by (simp_all add: n')
qed

lemma live_array_held [simp]: "live_array (held s) p n = live_array s p n"
  by (simp add: live_array_def live_def)

lemma expect_array_live [simp]: "live_array s p n \<Longrightarrow> expect_array n k = k"
  by (simp add: live_array_def expect_array_def expect_type_def)

lemma with_array_held [simp]: "with_array (held s) p n = held (with_array s p n)"
  by simp

text \<open>Reserving, as a step in front of the rest of a body.\<close>

lemma array_reserve_then:
  assumes "live_array s p n" and "unat need \<le> 2 ^ 58"
    and "\<And>s'. s' = s \<and> alloc_may_fail rt \<Longrightarrow> E s'"
    and "\<And>n'. live_array (with_array s p n') p n' \<Longrightarrow> arr n' = arr n \<Longrightarrow> unat need \<le> length (n_items n')
         \<Longrightarrow> n_array_size n' = n_array_size n \<Longrightarrow> array_grown n need n' \<Longrightarrow> xs_ok E R (k (with_array s p n'))"
  shows "xs_ok E R (xs_then (shared_array_reserve rt p need) k s)"
proof (rule xs_ok_then)
  note d = live_arrayD [OF assms(1)]
  show "xs_ok E (\<lambda>_ s'. \<exists>n'. s' = with_array s p n' \<and> array_grown n need n') (shared_array_reserve rt p need s)"
    by (rule xs_ok_mono [OF shared_array_reserve_ok [OF _ d(2) assms(2)]])
      (use d(1) assms(3) in \<open>auto simp: live_def\<close>)
qed (use live_array_grown [OF assms(1)] assms(4) in blast)

text \<open>The successor of the size, as the argument of the reserve.\<close>

lemma size_plus_one:
  assumes "n_array_size n < 2 ^ 58"
  shows "unat (of_nat (n_array_size n) + 1 :: u64) = Suc (n_array_size n)"
  using assms unat_of_nat_small [of "Suc (n_array_size n)"] by (simp add: add.commute)

lemma put_end_run:
  assumes "sh_heap s p = Some n" and "n_array_size n < length (n_items n)"
  shows "put_end p f s = (Ret (Suc (n_array_size n)), with_array s p (f n))"
  using assms by (simp add: put_end_def node_at_def node_set_def xs_simps xs_bind_def xs_then_def)

lemma take_end_run:
  assumes "live_array s p n"
  shows "take_end p f s = (Ret (snd (f n)), with_array s p (fst (f n)))"
  using live_arrayD [OF assms]
  by (simp add: take_end_def node_at_def node_set_def xs_simps xs_bind_def xs_then_def live_def array_ok_def)

text \<open>The four node operations keep an array live.\<close>

lemma set_move_up:
  assumes "i < length items"
  shows "set (move_up items i) \<subseteq> set items"
proof
  fix x
  assume "x \<in> set (move_up items i)"
  then obtain j where "j < length items" and "x = move_up items i ! j"
    by (auto simp: in_set_conv_nth)
  with assms show "x \<in> set items" by (auto simp: nth_move_up split: if_splits)
qed

lemma set_move_down:
  assumes "0 < i" and "i + k \<le> length items"
  shows "set (move_down items i k) \<subseteq> set items"
proof
  fix x
  assume "x \<in> set (move_down items i k)"
  then obtain j where "j < length items" and "x = move_down items i k ! j"
    by (auto simp: in_set_conv_nth)
  with assms show "x \<in> set items" by (auto simp: nth_move_down split: if_splits)
qed

lemma live_put:
  assumes "live_array s p n" and "n_array_size n < length (n_items n)" and "c < sh_next s"
  shows "live_array (with_array s p (node_push c n)) p (node_push c n)"
    and "live_array (with_array s p (node_unshift c n)) p (node_unshift c n)"
proof -
  note d = live_arrayD [OF assms(1)]
  show "live_array (with_array s p (node_push c n)) p (node_push c n)"
    unfolding node_push_def using assms d(4)
    by (intro live_array_update) (auto dest: subsetD [OF set_update_subset_insert])
  show "live_array (with_array s p (node_unshift c n)) p (node_unshift c n)"
    unfolding node_unshift_def using assms d(4) set_move_up [OF assms(2)]
    by (intro live_array_update) (auto dest!: subsetD [OF set_update_subset_insert])
qed

lemma live_take:
  assumes "live_array s p n"
  shows "live_array (with_array s p (fst (node_pop n))) p (fst (node_pop n))"
    and "live_array (with_array s p (fst (node_shift n))) p (fst (node_shift n))"
proof -
  note d = live_arrayD [OF assms]
  have pos: "0 < sh_next s" using d(5) by (simp add: heap_wf_def)
  have same: "live_array (with_array s p n) p n"
    using assms d(1) by (simp add: live_array_def live_def map_upd_triv)
  show "live_array (with_array s p (fst (node_pop n))) p (fst (node_pop n))"
  proof (cases "n_array_size n > 0")
    case True
    then show ?thesis unfolding node_pop_def using assms d(3,4) pos
      by (auto simp: array_ok_def intro!: live_array_update dest!: subsetD [OF set_update_subset_insert])
  qed (use same in \<open>simp add: node_pop_def\<close>)
  show "live_array (with_array s p (fst (node_shift n))) p (fst (node_shift n))"
  proof (cases "n_array_size n > 0")
    case True
    then have "set (move_down (n_items n) 1 (n_array_size n - 1)) \<subseteq> set (n_items n)"
      using d(3) by (intro set_move_down) (simp_all add: array_ok_def)
    with True show ?thesis unfolding node_shift_def using assms d(3,4) pos
      by (auto simp: array_ok_def intro!: live_array_update dest!: subsetD [OF set_update_subset_insert])
  qed (use same in \<open>simp add: node_shift_def\<close>)
qed

subsection \<open>What lies past the size\<close>

text \<open>
  An array that has never been shrunk has only \<open>NULL\<close> past its size; then extending it fills
  the gap with empty elements, as Perl does.
\<close>

definition tail_null :: "'nv shared_node \<Rightarrow> bool" where
  "tail_null n \<longleftrightarrow> (\<forall>j. n_array_size n \<le> j \<longrightarrow> j < length (n_items n) \<longrightarrow> n_items n ! j = 0)"

lemma tail_null_ends:
  assumes "array_ok n" and "tail_null n"
  shows "n_array_size n < length (n_items n) \<Longrightarrow> tail_null (node_push c n)"
    and "n_array_size n < length (n_items n) \<Longrightarrow> tail_null (node_unshift c n)"
    and "tail_null (fst (node_pop n))" and "tail_null (fst (node_shift n))"
  using assms
  by (auto simp: tail_null_def array_ok_def node_push_def node_unshift_def node_pop_def node_shift_def
      nth_list_update nth_move_up nth_move_down)

lemma tail_null_grown:
  assumes "array_grown n need n'" and "array_ok n" and "tail_null n"
  shows "tail_null n'"
  using assms by (auto simp: tail_null_def array_grown_def array_ok_def nth_append)

lemma array_eq_take_grown:
  "array_grown n need n' \<Longrightarrow> i < length (n_items n) \<Longrightarrow> n_items n' ! i = n_items n ! i"
  by (auto simp: array_grown_def nth_append)

subsection \<open>Stores at an index\<close>

definition array_stored :: "nat \<Rightarrow> ptr \<Rightarrow> 'nv shared_node \<Rightarrow> 'nv shared_node" where
  "array_stored i c n = n\<lparr>n_items := (n_items n)[i := c], n_array_size := max (Suc i) (n_array_size n)\<rparr>"

lemma store_ptr_run:
  assumes "live_array s p n" and "i < 2 ^ 58" and "0 < c" and "c < sh_next s"
  shows "xs_ok (\<lambda>s'. alloc_may_fail rt \<and> s' = held s)
     (\<lambda>_ s'. \<exists>m. array_grown n (of_nat i + 1) m \<and> s' = with_array s p (array_stored i c m)
           \<and> live_array s' p (array_stored i c m))
     (shared_array_store_ptr rt p (of_nat i) c s)"
proof -
  note d = live_arrayD [OF assms(1)]
  have idx: "unat (of_nat i :: u64) = i" and idx1: "unat (of_nat i + 1 :: u64) = Suc i"
    using assms(2) unat_of_nat_small [of i] unat_of_nat_small [of "Suc i"] by (simp_all add: add.commute)
  have pos: "0 \<le> sint (of_nat i :: u64)"
    using assms(2) by (simp add: signed_of_nat signed_take_bit_int_eq_self)
  let ?body = "xs_bind (shared_from_uv c) (\<lambda>child. expect_array n
          (xs_then (shared_array_reserve rt p (of_nat i + 1))
          (xs_then (extend_to p (of_nat i)) (item_put p (unat (of_nat i :: u64)) child))))"
  let ?R = "\<lambda>_ s'. \<exists>m. array_grown n (of_nat i + 1) m \<and> s' = with_array s p (array_stored i c m)
           \<and> live_array s' p (array_stored i c m)"
  have "xs_ok (\<lambda>s'. alloc_may_fail rt \<and> s' = held s) (\<lambda>r s'. ?R r (s'\<lparr>sh_lock := sh_lock s' - 1\<rparr>)) (?body (held s))"
  proof -
    have "xs_ok (\<lambda>s'. alloc_may_fail rt \<and> s' = held s) (\<lambda>r s'. ?R r (s'\<lparr>sh_lock := sh_lock s' - 1\<rparr>))
       (xs_then (shared_array_reserve rt p (of_nat i + 1))
          (xs_then (extend_to p (of_nat i)) (item_put p i c)) (held s))"
    proof (rule array_reserve_then)
      show "live_array (held s) p n" using assms(1) by simp
      show "unat (of_nat i + 1 :: u64) \<le> 2 ^ 58" using assms(2) idx1 by simp
      fix m
      assume l: "live_array (with_array (held s) p m) p m" and len: "unat (of_nat i + 1 :: u64) \<le> length (n_items m)"
        and sz: "n_array_size m = n_array_size n" and g: "array_grown n (of_nat i + 1) m"
      have lm: "live_array (with_array s p m) p m" using l by (simp only: with_array_held live_array_held)
      have st: "(if n_array_size m \<le> i then m\<lparr>n_array_size := Suc i\<rparr> else m)\<lparr>n_items := (n_items m)[i := c]\<rparr>
          = array_stored i c m"
        by (simp add: array_stored_def max_def)
      have "live_array (with_array (with_array s p m) p (array_stored i c m)) p (array_stored i c m)"
        unfolding array_stored_def using len idx1 live_arrayD [OF lm] assms(4)
        by (intro live_array_update [OF lm]) (auto simp: array_ok_def dest: subsetD [OF set_update_subset_insert])
      with g have "?R () (with_array s p (array_stored i c m))" by auto
      moreover have "xs_then (extend_to p (of_nat i)) (item_put p i c) (with_array (held s) p m)
          = (Ret (), with_array (held s) p (array_stored i c m))"
        using len idx idx1 st
        by (cases "n_array_size m \<le> i")
          (simp_all add: xs_then_def xs_bind_def extend_to_def item_put_def node_at_def node_set_def)
      ultimately show "xs_ok (\<lambda>s'. alloc_may_fail rt \<and> s' = held s) (\<lambda>r s'. ?R r (s'\<lparr>sh_lock := sh_lock s' - 1\<rparr>))
        (xs_then (extend_to p (of_nat i)) (item_put p i c) (with_array (held s) p m))"
        by simp
    qed simp
    with assms idx show ?thesis
      by (simp add: shared_from_uv_def xs_bind_simps expect_array_live [OF assms(1)])
  qed
  then show ?thesis
    using pos unfolding shared_array_store_ptr_def by (simp only: linorder_not_le [symmetric] if_not_P not_not) (rule locked_ok [OF d(1)])
qed

lemma arr_stored:
  assumes "array_grown n (of_nat i + 1) m" and "array_ok n" and "tail_null n" and "i < 2 ^ 58"
  shows "arr (array_stored i c m) = (arr n @ replicate (Suc i - n_array_size n) 0)[i := c]"
    and "tail_null (array_stored i c m)"
proof -
  have idx1: "unat (of_nat i + 1 :: u64) = Suc i"
    using assms(4) unat_of_nat_small [of "Suc i"] by (simp add: add.commute)
  obtain k where items: "n_items m = n_items n @ replicate k 0" and sz: "n_array_size m = n_array_size n"
    and len: "Suc i \<le> length (n_items m)"
    using assms(1) idx1 by (auto simp: array_grown_def)
  have tm: "tail_null m" using tail_null_grown [OF assms(1-3)] .
  show "arr (array_stored i c m) = (arr n @ replicate (Suc i - n_array_size n) 0)[i := c]"
  proof (rule nth_equalityI)
    show "length (arr (array_stored i c m)) = length ((arr n @ replicate (Suc i - n_array_size n) 0)[i := c])"
      using len sz assms(2) items by (auto simp: arr_def array_stored_def array_ok_def)
    fix j
    assume "j < length (arr (array_stored i c m))"
    with len sz assms(2,3) tm items show "arr (array_stored i c m) ! j
        = (arr n @ replicate (Suc i - n_array_size n) 0)[i := c] ! j"
      by (auto simp: arr_def array_stored_def array_ok_def tail_null_def nth_list_update nth_append)
  qed
  show "tail_null (array_stored i c m)"
    using tm sz by (auto simp: tail_null_def array_stored_def)
qed

lemma arr_resized:
  assumes "live_array s p n" and "new_size \<le> 2 ^ 58" and "\<not> alloc_may_fail rt"
  shows "\<exists>n'. shared_array_resize rt p (of_nat new_size) s = (Ret (), with_array s p n')
     \<and> live_array (with_array s p n') p n'
     \<and> arr n' = (if new_size \<le> n_array_size n then take new_size (arr n)
                else arr n @ replicate (new_size - n_array_size n) 0)
     \<and> (\<forall>j < length (n_items n). n_array_size n \<le> j \<or> n_items n' ! j = n_items n ! j)
     \<and> length (n_items n) \<le> length (n_items n') \<and> n_array_size n' = new_size"
proof -
  note d = live_arrayD [OF assms(1)]
  have sz: "unat (of_nat new_size :: u64) = new_size"
    using assms(2) by (intro unat_of_nat_small) simp
  let ?f = "\<lambda>n :: 'a shared_node. n\<lparr>n_items := (if new_size > n_array_size n
        then null_from (n_items n) (n_array_size n) (new_size - n_array_size n) else n_items n),
      n_array_size := new_size\<rparr>"
  have "xs_ok (\<lambda>_. False) (\<lambda>_ s'. \<exists>m. array_grown n (of_nat new_size) m \<and> s' = with_array s p (?f m)
      \<and> live_array s' p (?f m)) (shared_array_resize rt p (of_nat new_size) s)"
    unfolding shared_array_resize_def
  proof (rule locked_ok [OF d(1)], simp only: expect_array_live [OF assms(1)], rule array_reserve_then)
    show "live_array (held s) p n" using assms(1) by simp
    fix m
    assume l: "live_array (with_array (held s) p m) p m" and g: "array_grown n (of_nat new_size) m"
      and len: "unat (of_nat new_size :: u64) \<le> length (n_items m)"
    have lm: "live_array (with_array s p m) p m" using l by (simp only: with_array_held live_array_held)
    note dm = live_arrayD [OF lm]
    have pos: "0 < sh_next s" using d(5) by (simp add: heap_wf_def)
    have sub: "set (null_from (n_items m) (n_array_size m) (new_size - n_array_size m)) \<subseteq> {..<sh_next s}"
    proof
      fix x
      assume "x \<in> set (null_from (n_items m) (n_array_size m) (new_size - n_array_size m))"
      then obtain j where "j < length (n_items m)"
        and "x = null_from (n_items m) (n_array_size m) (new_size - n_array_size m) ! j"
        by (auto simp: in_set_conv_nth)
      moreover from this have "n_items m ! j < sh_next s" using dm(4) nth_mem by auto
      ultimately show "x \<in> {..<sh_next s}" using pos by (simp add: nth_null_from)
    qed
    have "live_array (with_array (with_array s p m) p (?f m)) p (?f m)"
      using sub dm len sz by (intro live_array_update [OF lm]) auto
    with g len sz l show "xs_ok (\<lambda>_. False) (\<lambda>r s'. \<exists>m. array_grown n (of_nat new_size) m
        \<and> s'\<lparr>sh_lock := sh_lock s' - 1\<rparr> = with_array s p (?f m) \<and> live_array (s'\<lparr>sh_lock := sh_lock s' - 1\<rparr>) p (?f m))
      (xs_bind (node_at p) (\<lambda>n1. if unat (of_nat new_size :: u64) > n_array_size n1
          \<and> unat (of_nat new_size :: u64) > length (n_items n1) then xs_fault
        else node_set p (\<lambda>n. n\<lparr>n_items := (if unat (of_nat new_size :: u64) > n_array_size n
             then null_from (n_items n) (n_array_size n) (unat (of_nat new_size :: u64) - n_array_size n) else n_items n),
             n_array_size := unat (of_nat new_size :: u64)\<rparr>)) (with_array (held s) p m))"
      by (auto simp: xs_bind_def node_at_def node_set_def intro!: exI [of _ m])
  qed (use assms sz in auto)
  then obtain m where m: "array_grown n (of_nat new_size) m" "live_array (with_array s p (?f m)) p (?f m)"
    and run: "shared_array_resize rt p (of_nat new_size) s = (Ret (), with_array s p (?f m))"
    by (cases "shared_array_resize rt p (of_nat new_size) s"; cases "fst (shared_array_resize rt p (of_nat new_size) s)") auto
  obtain k where items: "n_items m = n_items n @ replicate k 0" and msz: "n_array_size m = n_array_size n"
    and len: "new_size \<le> length (n_items m)"
    using m(1) sz by (auto simp: array_grown_def)
  have "arr (?f m) = (if new_size \<le> n_array_size n then take new_size (arr n)
      else arr n @ replicate (new_size - n_array_size n) 0)" (is "_ = ?new")
  proof (rule nth_equalityI)
    show len': "length (arr (?f m)) = length ?new"
      using items msz len d(3) by (simp add: arr_def array_ok_def)
    fix j
    assume "j < length (arr (?f m))"
    then have "j < new_size" and "j < length (n_items m)" using len by (simp_all add: arr_def)
    with items msz d(3) show "arr (?f m) ! j = ?new ! j"
      by (auto simp: arr_def array_ok_def nth_append nth_null_from)
  qed
  with m(2) run items msz show ?thesis
    by (intro exI [of _ "?f m"]) (auto simp: nth_null_from nth_append)
qed

lemma put_ptr_run:
  assumes "live_array s p n" and "n_array_size n < 2 ^ 58" and "0 < c" and "c < sh_next s"
    and "\<And>s m. live_array s p m \<Longrightarrow> n_array_size m < length (n_items m) \<Longrightarrow> c < sh_next s
          \<Longrightarrow> live_array (with_array s p (g c m)) p (g c m)"
  shows "xs_ok (\<lambda>s'. alloc_may_fail rt \<and> s' = held s)
     (\<lambda>_ s'. \<exists>m. array_grown n (of_nat (n_array_size n) + 1) m \<and> arr m = arr n \<and> array_ok m
           \<and> n_array_size m < length (n_items m) \<and> s' = with_array s p (g c m) \<and> live_array s' p (g c m))
     (locked p (\<lambda>p n. xs_bind (shared_from_uv c) (\<lambda>child. expect_array n
       (xs_then (shared_array_reserve rt p (of_nat (n_array_size n) + 1))
       (xs_then (put_end p (g child)) (xs_return ()))))) s)"
proof (rule locked_ok)
  note d = live_arrayD [OF assms(1)]
  show "live s p n" by (rule d)
  note one = size_plus_one [OF assms(2)]
  have "xs_ok (\<lambda>s'. alloc_may_fail rt \<and> s' = held s)
     (\<lambda>r s'. \<exists>m. array_grown n (of_nat (n_array_size n) + 1) m \<and> arr m = arr n \<and> array_ok m
           \<and> n_array_size m < length (n_items m)
           \<and> s'\<lparr>sh_lock := sh_lock s' - 1\<rparr> = with_array s p (g c m) \<and> live_array (s'\<lparr>sh_lock := sh_lock s' - 1\<rparr>) p (g c m))
     (xs_then (shared_array_reserve rt p (of_nat (n_array_size n) + 1))
       (xs_then (put_end p (g c)) (xs_return ())) (held s))"
  proof (rule array_reserve_then)
    show "live_array (held s) p n" using assms(1) by simp
    show "unat (of_nat (n_array_size n) + 1 :: u64) \<le> 2 ^ 58" using one assms(2) by simp
    fix m
    assume l: "live_array (with_array (held s) p m) p m" and a: "arr m = arr n"
      and len: "unat (of_nat (n_array_size n) + 1 :: u64) \<le> length (n_items m)"
      and sz: "n_array_size m = n_array_size n" and gr: "array_grown n (of_nat (n_array_size n) + 1) m"
    have lm: "live_array (with_array s p m) p m" using l by (simp only: with_array_held live_array_held)
    have room: "n_array_size m < length (n_items m)" using len sz one by simp
    have "live_array (with_array (with_array s p m) p (g c m)) p (g c m)"
      using assms(4) by (intro assms(5) [OF lm room]) simp
    with gr a room live_arrayD(3) [OF lm]
    show "xs_ok (\<lambda>s'. alloc_may_fail rt \<and> s' = held s)
     (\<lambda>r s'. \<exists>m. array_grown n (of_nat (n_array_size n) + 1) m \<and> arr m = arr n \<and> array_ok m
           \<and> n_array_size m < length (n_items m)
           \<and> s'\<lparr>sh_lock := sh_lock s' - 1\<rparr> = with_array s p (g c m) \<and> live_array (s'\<lparr>sh_lock := sh_lock s' - 1\<rparr>) p (g c m))
     (xs_then (put_end p (g c)) (xs_return ()) (with_array (held s) p m))"
      by (subst xs_then_Ret [OF put_end_run]) (auto simp: xs_return_def intro!: exI [of _ m])
  qed simp
  with assms(1,3) show "xs_ok (\<lambda>s'. alloc_may_fail rt \<and> s' = held s)
     (\<lambda>r s'. \<exists>m. array_grown n (of_nat (n_array_size n) + 1) m \<and> arr m = arr n \<and> array_ok m
           \<and> n_array_size m < length (n_items m)
           \<and> s'\<lparr>sh_lock := sh_lock s' - 1\<rparr> = with_array s p (g c m) \<and> live_array (s'\<lparr>sh_lock := sh_lock s' - 1\<rparr>) p (g c m))
     (xs_bind (shared_from_uv c) (\<lambda>child. expect_array n
       (xs_then (shared_array_reserve rt p (of_nat (n_array_size n) + 1))
       (xs_then (put_end p (g child)) (xs_return ())))) (held s))"
    by (simp add: shared_from_uv_def xs_bind_simps)
qed

lemma take_ptr_run:
  assumes "live_array s p n"
  shows "locked p (\<lambda>p n. expect_array n (take_end p f)) s = (Ret (snd (f n)), with_array s p (fst (f n)))"
proof (rule trans [OF locked_Ret])
  show "live s p n" using live_arrayD [OF assms] by simp
  have "live_array (held s) p n" using assms by simp
  from take_end_run [OF this] show "expect_array n (take_end p f) (held s)
      = (Ret (snd (f n)), with_array (held s) p (fst (f n)))"
    using assms by simp
qed simp

subsection \<open>A small array\<close>

definition two_items :: "int shared_node" where
  "two_items = empty_node\<lparr>n_type := SHARED_ARRAY, n_items := [2, 3, 0, 0, 0, 0, 0, 0], n_array_size := 2,
     n_array_capacity := 8\<rparr>"

definition small_heap :: "int shared_state" where
  "small_heap = \<lparr>sh_heap = [1 \<mapsto> two_items, 2 \<mapsto> empty_node, 3 \<mapsto> empty_node, 4 \<mapsto> empty_node],
     sh_next = 5, sh_lock = 0, sh_closed = []\<rparr>"

lemma two_items_live: "live_array small_heap 1 two_items"
proof -
  have "node_wf two_items" and "\<forall>q\<in>node_ptrs two_items. q < 5"
    by (simp_all add: two_items_def node_wf_def node_ptrs_def empty_node_def)
  then show ?thesis
    by (auto simp: live_array_def live_def heap_wf_def small_heap_def)
      (simp add: two_items_def)
qed

lemma small_heap_next: "sh_next small_heap = 5"
  by (simp add: small_heap_def)

lemma two_items_arr: "arr two_items = [2, 3]" "tail_null two_items" "n_array_size two_items = 2"
  by (auto simp: arr_def tail_null_def two_items_def less_Suc_eq numeral_eq_Suc)

lemma extended_items: "([2, 3] @ replicate (Suc 4 - 2) 0)[4 := 4] = [2, 3, 0, 0, 4 :: nat]"
  by (simp add: numeral_eq_Suc)

lemma arr_two:
  assumes "live_array s p n" and "arr n = [a, b]"
  shows "n_array_size n = 2" and "2 \<le> length (n_items n)" and "n_items n ! 0 = a"
proof -
  have ok: "n_array_size n \<le> length (n_items n)" using live_arrayD(3) [OF assms(1)] by (simp add: array_ok_def)
  then show size: "n_array_size n = 2" using length_arr [of n] assms(2) by simp
  then show "2 \<le> length (n_items n)" using ok by simp
  have "arr n ! 0 = n_items n ! 0" using size by (simp add: arr_def)
  then show "n_items n ! 0 = a" using assms(2) by simp
qed

section \<open>Properties\<close>

text \<open>C11: on a live shared array, push and unshift of an existing node put it at the end or at
  the front and pop and shift take the last or first element away and return it (a null handle
  from an empty array); everything else in the store and the lock are as before. An allocation
  failure while growing is the only way to croak, and it leaves the array unchanged but the
  process-wide lock held.\<close>

theorem shared_array_ends:
  assumes "live_array s p n" and "n_array_size n < 2 ^ 58" and "0 < c" and "c < sh_next s"
  shows "xs_ok (\<lambda>s'. alloc_may_fail rt \<and> s' = held s)
       (\<lambda>_ s'. \<exists>n'. s' = with_array s p n' \<and> live_array s' p n' \<and> arr n' = arr n @ [c])
       (shared_array_push_ptr rt p c s)
   \<and> xs_ok (\<lambda>s'. alloc_may_fail rt \<and> s' = held s)
       (\<lambda>_ s'. \<exists>n'. s' = with_array s p n' \<and> live_array s' p n' \<and> arr n' = c # arr n)
       (shared_array_unshift_ptr rt p c s)
   \<and> (\<exists>n'. shared_array_pop_ptr p s = (Ret (if arr n = [] then 0 else last (arr n)), with_array s p n')
       \<and> live_array (with_array s p n') p n' \<and> arr n' = butlast (arr n))
   \<and> (\<exists>n'. shared_array_shift_ptr p s = (Ret (if arr n = [] then 0 else hd (arr n)), with_array s p n')
       \<and> live_array (with_array s p n') p n' \<and> arr n' = tl (arr n))"
proof (intro conjI)
  note ok = live_arrayD(3) [OF assms(1)]
  show "xs_ok (\<lambda>s'. alloc_may_fail rt \<and> s' = held s)
       (\<lambda>_ s'. \<exists>n'. s' = with_array s p n' \<and> live_array s' p n' \<and> arr n' = arr n @ [c])
       (shared_array_push_ptr rt p c s)"
    unfolding shared_array_push_ptr_def
    by (rule xs_ok_mono, rule put_ptr_run [where g = node_push, OF assms live_put(1)]) (auto simp: arr_push)
  show "xs_ok (\<lambda>s'. alloc_may_fail rt \<and> s' = held s)
       (\<lambda>_ s'. \<exists>n'. s' = with_array s p n' \<and> live_array s' p n' \<and> arr n' = c # arr n)
       (shared_array_unshift_ptr rt p c s)"
    unfolding shared_array_unshift_ptr_def
    by (rule xs_ok_mono, rule put_ptr_run [where g = node_unshift, OF assms live_put(2)]) (auto simp: arr_unshift)
  show "\<exists>n'. shared_array_pop_ptr p s = (Ret (if arr n = [] then 0 else last (arr n)), with_array s p n')
       \<and> live_array (with_array s p n') p n' \<and> arr n' = butlast (arr n)"
    using take_ptr_run [OF assms(1), of node_pop] live_take(1) [OF assms(1)] node_array.pop_law [OF ok]
    by (auto simp: shared_array_pop_ptr_def)
  show "\<exists>n'. shared_array_shift_ptr p s = (Ret (if arr n = [] then 0 else hd (arr n)), with_array s p n')
       \<and> live_array (with_array s p n') p n' \<and> arr n' = tl (arr n)"
    using take_ptr_run [OF assms(1), of node_shift] live_take(2) [OF assms(1)] node_array.shift_law [OF ok]
    by (auto simp: shared_array_shift_ptr_def)
qed

theorem shared_array_ends_witness:
  "\<exists>n'. shared_array_pop_ptr 1 small_heap = (Ret 3, with_array small_heap 1 n')
     \<and> live_array (with_array small_heap 1 n') 1 n' \<and> arr n' = [2]"
  using shared_array_ends [OF two_items_live, of 4] by (simp add: two_items_arr small_heap_def)



text \<open>shrinking an array only lowers its size: the cut elements stay in the allocation, and a
  later store past the new size brings them back. An array of two elements resized to none and
  then given an element at index 1 has its old first element at index 0 again, where Perl has an
  empty element.\<close>

theorem shared_array_shrink_keeps_elements:
  assumes "live_array s p n" and "arr n = [a, b]" and "0 < c" and "c < sh_next s" and "\<not> alloc_may_fail rt"
  shows "\<exists>n1 n2. shared_array_resize rt p 0 s = (Ret (), with_array s p n1) \<and> arr n1 = []
     \<and> shared_array_store_ptr rt p 1 c (with_array s p n1) = (Ret (), with_array (with_array s p n1) p n2)
     \<and> arr n2 = [a, c]"
proof -
  note size = arr_two [OF assms(1,2)]
  obtain n1 where run1: "shared_array_resize rt p 0 s = (Ret (), with_array s p n1)"
    and l1: "live_array (with_array s p n1) p n1" and "arr n1 = []" and "n_array_size n1 = 0"
    and keep: "n_items n1 ! 0 = a" and len: "2 \<le> length (n_items n1)"
    using arr_resized [OF assms(1) _ assms(5), of 0] size by fastforce
  obtain out s' where run2: "shared_array_store_ptr rt p (of_nat 1) c (with_array s p n1) = (out, s')"
    by (cases "shared_array_store_ptr rt p (of_nat 1) c (with_array s p n1)")
  with store_ptr_run [OF l1, of 1 c rt] assms(3-5) obtain m where "out = Ret ()"
    and g: "array_grown n1 (of_nat 1 + 1) m" and s': "s' = with_array (with_array s p n1) p (array_stored 1 c m)"
    by (cases out) auto
  have "0 < length (n_items n1)" using len by linarith
  then have "n_items m ! 0 = a" using array_eq_take_grown [OF g] keep by simp
  moreover have "2 \<le> length (n_items m)" and "n_array_size m = 0"
    using len g \<open>n_array_size n1 = 0\<close> by (auto simp: array_grown_def)
  ultimately have "arr (array_stored 1 c m) = [a, c]"
    by (cases "n_items m"; cases "tl (n_items m)") (auto simp: arr_def array_stored_def)
  with run1 run2 \<open>arr n1 = []\<close> \<open>out = Ret ()\<close> s' show ?thesis by auto
qed

theorem shared_array_shrink_keeps_elements_witness:
  "\<exists>n1 n2. shared_array_resize (int_rt\<lparr>rt_alloc := (\<lambda>_. True)\<rparr>) 1 0 small_heap = (Ret (), with_array small_heap 1 n1)
     \<and> arr n1 = []
     \<and> shared_array_store_ptr (int_rt\<lparr>rt_alloc := (\<lambda>_. True)\<rparr>) 1 1 4 (with_array small_heap 1 n1)
         = (Ret (), with_array (with_array small_heap 1 n1) 1 n2)
     \<and> arr n2 = [2, 4]"
  by (rule shared_array_shrink_keeps_elements [OF two_items_live two_items_arr(1)])
    (simp_all add: small_heap_def alloc_may_fail_def)

end
