(* ===== verification/Shared_Hash.thy ===== *)
theory Shared_Hash
  imports Shared_Access
begin

section \<open>Shared hashes (GoRoutine012Native.h, GoRoutine012.xs)\<close>

text \<open>
  A shared hash is a vector of entries searched linearly. \<open>shared_hash_find\<close> compares the
  length and the bytes of the key and croaks on a node that is not a hash; its callers have
  the process-wide lock by then. The key is the byte string \<open>SvPV\<close> returned.
\<close>

subsection \<open>The vector of entries\<close>

text \<open>The loop of \<open>shared_hash_find\<close>, from entry \<open>i\<close> on.\<close>

fun find_from :: "nat \<Rightarrow> shared_hash_entry list \<Rightarrow> char list \<Rightarrow> nat option" where
  "find_from i [] key = None"
| "find_from i (e # es) key = (if entry_key e = key then Some i else find_from (Suc i) es key)"

text \<open>The loop of the delete: entry \<open>i\<close> moves to \<open>i - 1\<close>, up to the last, and the count drops.\<close>

fun close_gap :: "shared_hash_entry list \<Rightarrow> nat \<Rightarrow> nat \<Rightarrow> shared_hash_entry list" where
  "close_gap es i 0 = es"
| "close_gap es i (Suc k) = close_gap (es[i - 1 := es ! i]) (Suc i) k"

definition entries_put :: "char list \<Rightarrow> ptr \<Rightarrow> shared_hash_entry list \<Rightarrow> shared_hash_entry list" where
  "entries_put key c es =
     (case find_from 0 es key of
        Some i \<Rightarrow> es[i := (es ! i)\<lparr>entry_value := c\<rparr>]
      | None \<Rightarrow> es @ [\<lparr>entry_key = key, entry_value = c\<rparr>])"

definition entries_delete :: "char list \<Rightarrow> shared_hash_entry list \<Rightarrow> shared_hash_entry list" where
  "entries_delete key es =
     (case find_from 0 es key of
        Some i \<Rightarrow> take (length es - 1) (close_gap es (Suc i) (length es - Suc i))
      | None \<Rightarrow> es)"

definition entries_get :: "shared_hash_entry list \<Rightarrow> char list \<Rightarrow> ptr option" where
  "entries_get es key = map_option (\<lambda>i. entry_value (es ! i)) (find_from 0 es key)"

subsection \<open>The operations on a node\<close>

definition shared_hash_find :: "ptr \<Rightarrow> char list \<Rightarrow> ('nv shared_state, nat option) xs" where
  "shared_hash_find p key = xs_bind (node_at p) (\<lambda>n.
     if n_type n \<noteq> SHARED_HASH then xs_croak ''shared value is not a hash''
     else xs_return (find_from 0 (n_hash n) key))"

definition shared_hash_get_node :: "ptr \<Rightarrow> char list \<Rightarrow> ('nv shared_state, ptr) xs" where
  "shared_hash_get_node p key = xs_bind (shared_hash_find p key) (\<lambda>idx.
     case idx of
       None \<Rightarrow> xs_return 0
     | Some i \<Rightarrow> xs_bind (node_at p) (\<lambda>n. xs_return (entry_value (n_hash n ! i))))"

text \<open>
  The new entry is counted before its key is allocated, so a failure in between leaves an
  entry with a null key. The model gives it the empty key and no value, the zeros of a slot
  that was never used.
\<close>

definition entry_append :: "'nv perl_rt \<Rightarrow> ptr \<Rightarrow> char list \<Rightarrow> ('nv shared_state, ptr) xs
    \<Rightarrow> ('nv shared_state, ptr) xs \<Rightarrow> ('nv shared_state, ptr) xs" where
  "entry_append rt p key no_memory value =
     xs_bind (node_at p) (\<lambda>n.
     xs_then (shared_hash_reserve rt p (of_nat (length (n_hash n)) + 1))
    (xs_then (node_set p (\<lambda>n. n\<lparr>n_hash := n_hash n @ [\<lparr>entry_key = [], entry_value = 0\<rparr>]\<rparr>))
       (if \<not> rt_alloc rt (length key + 1) then no_memory
        else xs_then (node_set p (\<lambda>n. n\<lparr>n_hash := (n_hash n)[length (n_hash n) - 1 :=
                 (n_hash n ! (length (n_hash n) - 1))\<lparr>entry_key := key\<rparr>]\<rparr>))
            (xs_bind value (\<lambda>c.
             xs_then (node_set p (\<lambda>n. n\<lparr>n_hash := (n_hash n)[length (n_hash n) - 1 :=
                 (n_hash n ! (length (n_hash n) - 1))\<lparr>entry_value := c\<rparr>]\<rparr>)) (xs_return c))))))"

definition shared_hash_ensure_node :: "'nv perl_rt \<Rightarrow> ptr \<Rightarrow> char list \<Rightarrow> ('nv shared_state, ptr) xs" where
  "shared_hash_ensure_node rt p key = xs_bind (shared_hash_find p key) (\<lambda>idx.
     case idx of
       Some i \<Rightarrow> xs_bind (node_at p) (\<lambda>n. xs_return (entry_value (n_hash n ! i)))
     | None \<Rightarrow> entry_append rt p key (xs_croak ''out of memory storing shared hash key'') (shared_node_new rt))"

subsection \<open>The XSUBs\<close>

definition shared_hash_fetch_ptr :: "ptr \<Rightarrow> char list \<Rightarrow> ('nv shared_state, ptr) xs" where
  "shared_hash_fetch_ptr h key = locked h (\<lambda>p n. shared_hash_get_node p key)"

definition shared_hash_exists :: "ptr \<Rightarrow> char list \<Rightarrow> ('nv shared_state, bool) xs" where
  "shared_hash_exists h key = locked h (\<lambda>p n.
     xs_bind (shared_hash_get_node p key) (\<lambda>c. xs_return (c \<noteq> 0)))"

definition shared_hash_store :: "nat \<Rightarrow> 'nv perl_rt \<Rightarrow> 'nv perl_store \<Rightarrow> ptr \<Rightarrow> char list \<Rightarrow> 'nv perl_sv
    \<Rightarrow> ('nv shared_state, unit) xs" where
  "shared_hash_store fuel rt P h key v = locked h (\<lambda>p n.
     xs_bind (shared_hash_ensure_node rt p key) (\<lambda>child. shared_import_into fuel rt P child v))"

definition shared_hash_store_ptr :: "'nv perl_rt \<Rightarrow> ptr \<Rightarrow> char list \<Rightarrow> ptr \<Rightarrow> ('nv shared_state, unit) xs" where
  "shared_hash_store_ptr rt h key child_ptr = locked h (\<lambda>p n.
     xs_bind (shared_from_uv child_ptr) (\<lambda>child.
     xs_bind (shared_hash_find p key) (\<lambda>idx.
       case idx of
         Some i \<Rightarrow> node_set p (\<lambda>n. n\<lparr>n_hash := (n_hash n)[i := (n_hash n ! i)\<lparr>entry_value := child\<rparr>]\<rparr>)
       | None \<Rightarrow> xs_then (entry_append rt p key
             (unlock_croak ''out of memory storing shared hash key'') (xs_return child)) (xs_return ()))))"

definition shared_hash_delete_ptr :: "ptr \<Rightarrow> char list \<Rightarrow> ('nv shared_state, ptr) xs" where
  "shared_hash_delete_ptr h key = locked h (\<lambda>p n.
     xs_bind (shared_hash_find p key) (\<lambda>idx.
       case idx of
         Some i \<Rightarrow> xs_then (node_set p (\<lambda>n. n\<lparr>n_hash :=
             take (length (n_hash n) - 1) (close_gap (n_hash n) (Suc i) (length (n_hash n) - Suc i))\<rparr>))
             (xs_return (entry_value (n_hash n ! i)))
       | None \<Rightarrow> xs_return 0))"

definition expect_hash :: "'nv shared_node \<Rightarrow> ('nv shared_state, 'a) xs \<Rightarrow> ('nv shared_state, 'a) xs" where
  "expect_hash = expect_type SHARED_HASH ''shared value is not a hash''"

definition shared_hash_clear :: "ptr \<Rightarrow> ('nv shared_state, unit) xs" where
  "shared_hash_clear h = locked h (\<lambda>p n. expect_hash n
     (node_set p (\<lambda>n. n\<lparr>n_hash := [], n_hash_capacity := 0\<rparr>)))"

definition shared_hash_count :: "ptr \<Rightarrow> ('nv shared_state, nat) xs" where
  "shared_hash_count h = locked h (\<lambda>p n. expect_hash n (xs_return (length (n_hash n))))"

definition shared_hash_keys :: "ptr \<Rightarrow> ('nv shared_state, char list list) xs" where
  "shared_hash_keys h = locked h (\<lambda>p n. expect_hash n (xs_return (map entry_key (n_hash n))))"

subsection \<open>The vector as a map\<close>

lemma find_from_shift: "find_from (Suc i) es key = map_option Suc (find_from i es key)"
  by (induction i es key rule: find_from.induct) simp_all

lemma find_from_Some: "find_from 0 es key = Some i \<Longrightarrow> i < length es \<and> entry_key (es ! i) = key"
  by (induction es arbitrary: i) (auto simp: find_from_shift split: if_splits)

lemma entries_get_simps [simp]:
  "entries_get [] key = None"
  "entries_get (e # es) key = (if entry_key e = key then Some (entry_value e) else entries_get es key)"
  by (simp_all add: entries_get_def find_from_shift option.map_comp comp_def)

lemma entries_put_simps [simp]:
  "entries_put key c [] = [\<lparr>entry_key = key, entry_value = c\<rparr>]"
  "entries_put key c (e # es) =
     (if entry_key e = key then e\<lparr>entry_value := c\<rparr> # es else e # entries_put key c es)"
  by (simp_all add: entries_put_def find_from_shift split: option.splits)

lemma length_close_gap [simp]: "length (close_gap es i k) = length es"
  by (induction es i k rule: close_gap.induct) simp_all

lemma nth_close_gap:
  "0 < i \<Longrightarrow> i + k \<le> length es \<Longrightarrow> j < length es
    \<Longrightarrow> close_gap es i k ! j = (if i \<le> Suc j \<and> Suc j < i + k then es ! Suc j else es ! j)"
proof (induction es i k arbitrary: j rule: close_gap.induct)
  case (2 es i k)
  then have "close_gap es i (Suc k) ! j
      = (if Suc i \<le> Suc j \<and> Suc j < Suc i + k then es[i - 1 := es ! i] ! Suc j else es[i - 1 := es ! i] ! j)"
    by simp
  then show ?case using "2.prems" by (auto simp: nth_list_update)
qed auto

lemma close_gap_drop:
  assumes "i < length es"
  shows "take (length es - 1) (close_gap es (Suc i) (length es - Suc i)) = take i es @ drop (Suc i) es"
proof (rule nth_equalityI)
  fix j
  assume "j < length (take (length es - 1) (close_gap es (Suc i) (length es - Suc i)))"
  then have "j < length es - 1" by simp
  with assms show "take (length es - 1) (close_gap es (Suc i) (length es - Suc i)) ! j
      = (take i es @ drop (Suc i) es) ! j"
    by (auto simp: nth_close_gap nth_append)
qed (use assms in auto)

lemma entries_delete_eq:
  "entries_delete key es = (case find_from 0 es key of Some i \<Rightarrow> take i es @ drop (Suc i) es | None \<Rightarrow> es)"
proof (cases "find_from 0 es key")
  case (Some i)
  then have "i < length es" using find_from_Some by blast
  from close_gap_drop [OF this] Some show ?thesis by (simp add: entries_delete_def)
qed (simp add: entries_delete_def)

lemma entries_delete_simps [simp]:
  "entries_delete key [] = []"
  "entries_delete key (e # es) = (if entry_key e = key then es else e # entries_delete key es)"
  by (simp_all add: entries_delete_eq find_from_shift split: option.splits)

lemma entries_get_None: "entries_get es key = None \<longleftrightarrow> key \<notin> entry_key ` set es"
  by (induction es) auto

lemma keys_put: "entry_key ` set (entries_put key c es) = insert key (entry_key ` set es)"
  by (induction es) auto

lemma distinct_put: "distinct (map entry_key es) \<Longrightarrow> distinct (map entry_key (entries_put key c es))"
proof (induction es)
  case (Cons e es)
  then show ?case using keys_put [of key c es] by (auto simp: image_iff)
qed simp

lemma get_put: "entries_get (entries_put key c es) = (entries_get es)(key \<mapsto> c)"
  by (rule ext, induction es) auto

lemma keys_delete: "set (entries_delete key es) \<subseteq> set es"
  by (induction es) auto

lemma distinct_delete: "distinct (map entry_key es) \<Longrightarrow> distinct (map entry_key (entries_delete key es))"
  using keys_delete by (induction es) fastforce+

lemma get_delete:
  "distinct (map entry_key es) \<Longrightarrow> entries_get (entries_delete key es) = (entries_get es)(key := None)"
proof (induction es)
  case (Cons e es)
  show ?case
  proof (rule ext)
    fix k
    have "entry_key e = key \<Longrightarrow> entries_get es key = None" using Cons.prems by (auto simp: entries_get_None)
    with Cons show "entries_get (entries_delete key (e # es)) k = ((entries_get (e # es))(key := None)) k"
      by auto
  qed
qed (simp add: fun_eq_iff)

lemma keys_of_get: "entry_key ` set es = dom (entries_get es)"
proof (rule set_eqI)
  fix k
  show "k \<in> entry_key ` set es \<longleftrightarrow> k \<in> dom (entries_get es)"
    using entries_get_None [of es k] by (simp add: domIff)
qed

subsection \<open>The contract of a keyed table\<close>

text \<open>
  What the callers of the hash operations rely on: store, fetch and delete are the update, the
  application and the removal of a finite map, and the key list enumerates its domain once.
  Any run of stores and deletes then acts on the table as it acts on the map.
\<close>

datatype ('k, 'v) table_op = Put 'k 'v | Del 'k

fun map_op :: "('k, 'v) table_op \<Rightarrow> ('k \<Rightarrow> 'v option) \<Rightarrow> ('k \<Rightarrow> 'v option)" where
  "map_op (Put k v) m = m(k \<mapsto> v)"
| "map_op (Del k) m = m(k := None)"

locale keyed_table =
  fixes get :: "'t \<Rightarrow> 'k \<Rightarrow> 'v option" and put :: "'k \<Rightarrow> 'v \<Rightarrow> 't \<Rightarrow> 't"
    and del :: "'k \<Rightarrow> 't \<Rightarrow> 't" and keys :: "'t \<Rightarrow> 'k list" and wf :: "'t \<Rightarrow> bool"
  assumes put_law: "wf t \<Longrightarrow> wf (put k v t) \<and> get (put k v t) = (get t)(k \<mapsto> v)"
    and del_law: "wf t \<Longrightarrow> wf (del k t) \<and> get (del k t) = (get t)(k := None)"
    and keys_law: "wf t \<Longrightarrow> distinct (keys t) \<and> set (keys t) = dom (get t)"
begin

fun table_op :: "('k, 'v) table_op \<Rightarrow> 't \<Rightarrow> 't" where
  "table_op (Put k v) t = put k v t"
| "table_op (Del k) t = del k t"

lemma run_refines: "wf t \<Longrightarrow> wf (fold table_op ops t) \<and> get (fold table_op ops t) = fold map_op ops (get t)"
proof (induction ops arbitrary: t)
  case (Cons a ops)
  have "wf (table_op a t) \<and> get (table_op a t) = map_op a (get t)"
    using put_law [OF Cons.prems] del_law [OF Cons.prems] by (cases a) simp_all
  with Cons.IH [of "table_op a t"] show ?case by simp
qed simp

lemma count_keys: "wf t \<Longrightarrow> length (keys t) = card (dom (get t))"
  using keys_law [of t] distinct_card [of "keys t"] by simp

lemma put_then_get: "wf t \<Longrightarrow> get (put k v t) k' = (if k' = k then Some v else get t k')"
  by (simp add: put_law)

lemma del_then_get: "wf t \<Longrightarrow> get (del k t) k' = (if k' = k then None else get t k')"
  by (simp add: del_law)

lemma count_after_put: "wf t \<Longrightarrow> get t k = None \<Longrightarrow> length (keys (put k v t)) = Suc (length (keys t))"
proof -
  assume t: "wf t" and new: "get t k = None"
  have "finite (dom (get t))" using keys_law [OF t] by (metis List.finite_set)
  moreover have "k \<notin> dom (get t)" using new by blast
  ultimately show ?thesis using t put_law [OF t] by (simp add: count_keys)
qed

end

interpretation node_table: keyed_table entries_get entries_put entries_delete "map entry_key"
  "\<lambda>es. distinct (map entry_key es)"
  by unfold_locales
    (simp_all add: get_put distinct_put get_delete distinct_delete keys_of_get [symmetric])

subsection \<open>The XSUBs on a live hash\<close>

definition live_hash :: "'nv shared_state \<Rightarrow> ptr \<Rightarrow> 'nv shared_node \<Rightarrow> bool" where
  "live_hash s p n \<longleftrightarrow> heap_wf s \<and> live s p n \<and> n_type n = SHARED_HASH \<and> distinct (map entry_key (n_hash n))"

abbreviation with_hash :: "'nv shared_state \<Rightarrow> ptr \<Rightarrow> 'nv shared_node \<Rightarrow> 'nv shared_state" where
  "with_hash s p n \<equiv> s\<lparr>sh_heap := (sh_heap s)(p \<mapsto> n)\<rparr>"

lemma live_hash_held [simp]: "live_hash (held s) p n = live_hash s p n"
  by (simp add: live_hash_def live_def)

lemma live_hashD:
  assumes "live_hash s p n"
  shows "live s p n" and "sh_heap s p = Some n" and "n_type n = SHARED_HASH" and "node_wf n"
    and "\<forall>e\<in>set (n_hash n). entry_value e < sh_next s" and "distinct (map entry_key (n_hash n))"
  using assms heap_wfD(3,4) [of s p n] by (auto simp: live_hash_def live_def node_ptrs_def)

lemma live_hash_update:
  assumes "live_hash s p n" and "\<forall>e\<in>set es. entry_value e < sh_next s" and "distinct (map entry_key es)"
    and "length es \<le> unat cap" and "unat cap \<le> 2 ^ 59"
  shows "live_hash (with_hash s p (n\<lparr>n_hash_capacity := cap, n_hash := es\<rparr>)) p (n\<lparr>n_hash_capacity := cap, n_hash := es\<rparr>)"
proof -
  note d = live_hashD [OF assms(1)]
  have h: "heap_wf s" using assms(1) by (simp add: live_hash_def)
  have "\<forall>q\<in>node_ptrs n. q < sh_next s" using heap_wfD(4) [OF h d(2)] .
  then have "heap_wf (with_hash s p (n\<lparr>n_hash_capacity := cap, n_hash := es\<rparr>))"
    using d assms(2,4,5) by (intro heap_wf_set [OF h d(2)]) (auto simp: node_wf_def node_ptrs_def)
  then show ?thesis using d assms(3) by (simp add: live_hash_def live_def)
qed

lemma hash_find_run: "live_hash s p n \<Longrightarrow> shared_hash_find p key s = (Ret (find_from 0 (n_hash n) key), s)"
  using live_hashD(2,3) [of s p n] by (simp add: shared_hash_find_def xs_bind_def node_at_def xs_return_def)

lemma hash_get_run:
  assumes "live_hash s p n"
  shows "shared_hash_get_node p key s
    = (Ret (case entries_get (n_hash n) key of Some c \<Rightarrow> c | None \<Rightarrow> 0), s)"
  using live_hashD(2) [OF assms]
  by (simp add: shared_hash_get_node_def hash_find_run [OF assms] entries_get_def
      node_at_def xs_bind_def xs_return_def split: option.split)

text \<open>Appending an entry whose value is already there.\<close>

lemma entry_append_run:
  assumes "live_hash s p n" and "length (n_hash n) < 2 ^ 58" and "find_from 0 (n_hash n) key = None"
    and "c < sh_next s"
    and "\<And>s' n'. hash_grown n (of_nat (length (n_hash n)) + 1) n' \<Longrightarrow>
       s' = with_hash s p (n'\<lparr>n_hash := n_hash n @ [\<lparr>entry_key = [], entry_value = 0\<rparr>]\<rparr>) \<Longrightarrow> alloc_may_fail rt
       \<Longrightarrow> xs_ok E Q (nomem s')"
    and "alloc_may_fail rt \<Longrightarrow> E s"
    and "\<And>s' n'. s' = with_hash s p n' \<Longrightarrow> live_hash s' p n' \<Longrightarrow> n_hash n' = entries_put key c (n_hash n)
       \<Longrightarrow> Q c s'"
  shows "xs_ok E Q (entry_append rt p key nomem (xs_return c) s)"
proof -
  note d = live_hashD [OF assms(1)]
  have one: "unat (of_nat (length (n_hash n)) + 1 :: u64) = Suc (length (n_hash n))"
    using assms(2) unat_of_nat_small [of "Suc (length (n_hash n))"] by (simp add: add.commute)
  let ?es = "n_hash n @ [\<lparr>entry_key = key, entry_value = c\<rparr>]"
  have put: "entries_put key c (n_hash n) = ?es" using assms(3) by (simp add: entries_put_def)
  have "xs_ok E Q (xs_then (shared_hash_reserve rt p (of_nat (length (n_hash n)) + 1))
    (xs_then (node_set p (\<lambda>n. n\<lparr>n_hash := n_hash n @ [\<lparr>entry_key = [], entry_value = 0\<rparr>]\<rparr>))
       (if \<not> rt_alloc rt (length key + 1) then nomem
        else xs_then (node_set p (\<lambda>n. n\<lparr>n_hash := (n_hash n)[length (n_hash n) - 1 :=
                 (n_hash n ! (length (n_hash n) - 1))\<lparr>entry_key := key\<rparr>]\<rparr>))
            (xs_bind (xs_return c) (\<lambda>c.
             xs_then (node_set p (\<lambda>n. n\<lparr>n_hash := (n_hash n)[length (n_hash n) - 1 :=
                 (n_hash n ! (length (n_hash n) - 1))\<lparr>entry_value := c\<rparr>]\<rparr>)) (xs_return c))))) s)"
  proof (rule xs_ok_then)
    show "xs_ok E (\<lambda>_ s'. \<exists>n'. s' = with_hash s p n' \<and> hash_grown n (of_nat (length (n_hash n)) + 1) n')
       (shared_hash_reserve rt p (of_nat (length (n_hash n)) + 1) s)"
      using assms(2,6) one by (intro xs_ok_mono [OF shared_hash_reserve_ok [OF d(2,4)]]) auto
    fix s1
    assume "\<exists>n'. s1 = with_hash s p n' \<and> hash_grown n (of_nat (length (n_hash n)) + 1) n'"
    then obtain n1 where s1: "s1 = with_hash s p n1" and g: "hash_grown n (of_nat (length (n_hash n)) + 1) n1" by blast
    obtain cap where n1: "n1 = n\<lparr>n_hash_capacity := cap\<rparr>" and cap: "Suc (length (n_hash n)) \<le> unat cap" "unat cap \<le> 2 ^ 59"
      using g one by (auto simp: hash_grown_def node_wf_def word_le_nat_alt)
    have "live_hash (with_hash s p (n\<lparr>n_hash_capacity := cap, n_hash := ?es\<rparr>)) p (n\<lparr>n_hash_capacity := cap, n_hash := ?es\<rparr>)"
      using d(5,6) distinct_put [OF d(6), of key c] assms(4) cap put by (intro live_hash_update [OF assms(1)]) auto
    then have "Q c (with_hash s p (n\<lparr>n_hash_capacity := cap, n_hash := ?es\<rparr>))"
      by (rule assms(7) [OF refl]) (simp add: put)
    then show "xs_ok E Q (xs_then (node_set p (\<lambda>n. n\<lparr>n_hash := n_hash n @ [\<lparr>entry_key = [], entry_value = 0\<rparr>]\<rparr>))
       (if \<not> rt_alloc rt (length key + 1) then nomem
        else xs_then (node_set p (\<lambda>n. n\<lparr>n_hash := (n_hash n)[length (n_hash n) - 1 :=
                 (n_hash n ! (length (n_hash n) - 1))\<lparr>entry_key := key\<rparr>]\<rparr>))
            (xs_bind (xs_return c) (\<lambda>c.
             xs_then (node_set p (\<lambda>n. n\<lparr>n_hash := (n_hash n)[length (n_hash n) - 1 :=
                 (n_hash n ! (length (n_hash n) - 1))\<lparr>entry_value := c\<rparr>]\<rparr>)) (xs_return c)))) s1)"
      using assms(5) [OF g, of "with_hash s p (n1\<lparr>n_hash := n_hash n @ [\<lparr>entry_key = [], entry_value = 0\<rparr>]\<rparr>)"]
      by (simp add: s1 n1 xs_then_def xs_bind_def xs_return_def node_set_def alloc_may_failI)
  qed
  then show ?thesis using d(2) by (simp add: entry_append_def xs_bind_def node_at_def)
qed

lemma live_hash_put_existing:
  assumes "live_hash s p n" and "find_from 0 (n_hash n) key = Some i" and "c < sh_next s"
  shows "live_hash (with_hash s p (n\<lparr>n_hash := entries_put key c (n_hash n)\<rparr>)) p (n\<lparr>n_hash := entries_put key c (n_hash n)\<rparr>)"
proof -
  note d = live_hashD [OF assms(1)]
  have "length (entries_put key c (n_hash n)) = length (n_hash n)"
    using assms(2) by (simp add: entries_put_def)
  moreover have "\<forall>e\<in>set (entries_put key c (n_hash n)). entry_value e < sh_next s"
    using d(5) assms(2,3) by (auto simp: entries_put_def dest!: subsetD [OF set_update_subset_insert])
  ultimately have "live_hash (with_hash s p (n\<lparr>n_hash_capacity := n_hash_capacity n, n_hash := entries_put key c (n_hash n)\<rparr>)) p
      (n\<lparr>n_hash_capacity := n_hash_capacity n, n_hash := entries_put key c (n_hash n)\<rparr>)"
    using d(4,6) distinct_put by (intro live_hash_update [OF assms(1)]) (auto simp: node_wf_def)
  then show ?thesis by simp
qed

lemma live_hash_delete:
  assumes "live_hash s p n"
  shows "live_hash (with_hash s p (n\<lparr>n_hash := entries_delete key (n_hash n)\<rparr>)) p (n\<lparr>n_hash := entries_delete key (n_hash n)\<rparr>)"
proof -
  note d = live_hashD [OF assms]
  have "length (entries_delete key (n_hash n)) \<le> length (n_hash n)"
    by (auto simp: entries_delete_eq split: option.split)
  then have "live_hash (with_hash s p (n\<lparr>n_hash_capacity := n_hash_capacity n, n_hash := entries_delete key (n_hash n)\<rparr>)) p
      (n\<lparr>n_hash_capacity := n_hash_capacity n, n_hash := entries_delete key (n_hash n)\<rparr>)"
    using d(4-6) keys_delete distinct_delete
    by (intro live_hash_update [OF assms]) (fastforce simp: node_wf_def)+
  then show ?thesis by simp
qed

lemma store_ptr_refines:
  assumes "live_hash s p n" and "length (n_hash n) < 2 ^ 58" and "0 < c" and "c < sh_next s"
  shows "xs_ok (\<lambda>_. alloc_may_fail rt)
     (\<lambda>_ s'. \<exists>n'. s' = with_hash s p n' \<and> live_hash s' p n' \<and> n_hash n' = entries_put key c (n_hash n))
     (shared_hash_store_ptr rt p key c s)"
  unfolding shared_hash_store_ptr_def
proof (rule locked_ok)
  note d = live_hashD [OF assms(1)]
  show "live s p n" by (rule d)
  have lh: "live_hash (held s) p n" using assms(1) by simp
  let ?R = "\<lambda>(_ :: unit) s'. \<exists>n'. s'\<lparr>sh_lock := sh_lock s' - 1\<rparr> = with_hash s p n'
      \<and> live_hash (s'\<lparr>sh_lock := sh_lock s' - 1\<rparr>) p n' \<and> n_hash n' = entries_put key c (n_hash n)"
  have ended: "?R u (with_hash (held s) p n')"
    if "live_hash (with_hash (held s) p n') p n'" and "n_hash n' = entries_put key c (n_hash n)" for u n'
  proof -
    have "live_hash (with_hash s p n') p n'" using that(1) by (simp add: live_hash_def live_def heap_wf_def)
    with that(2) show ?thesis by (auto intro!: exI [of _ n'])
  qed
  have "xs_ok (\<lambda>_. alloc_may_fail rt) ?R
    (case find_from 0 (n_hash n) key of
       Some i \<Rightarrow> node_set p (\<lambda>n. n\<lparr>n_hash := (n_hash n)[i := (n_hash n ! i)\<lparr>entry_value := c\<rparr>]\<rparr>) (held s)
     | None \<Rightarrow> xs_then (entry_append rt p key
             (unlock_croak ''out of memory storing shared hash key'') (xs_return c)) (xs_return ()) (held s))"
  proof (cases "find_from 0 (n_hash n) key")
    case (Some i)
    then have "node_set p (\<lambda>n. n\<lparr>n_hash := (n_hash n)[i := (n_hash n ! i)\<lparr>entry_value := c\<rparr>]\<rparr>) (held s)
        = (Ret (), with_hash (held s) p (n\<lparr>n_hash := entries_put key c (n_hash n)\<rparr>))"
      using d(2) by (simp add: node_set_def entries_put_def)
    moreover have "live_hash (with_hash (held s) p (n\<lparr>n_hash := entries_put key c (n_hash n)\<rparr>)) p
        (n\<lparr>n_hash := entries_put key c (n_hash n)\<rparr>)"
      using live_hash_put_existing [OF lh Some] assms(4) by simp
    ultimately show ?thesis using ended Some by simp
  next
    case None
    have "xs_ok (\<lambda>_. alloc_may_fail rt) ?R (xs_then (entry_append rt p key
             (unlock_croak ''out of memory storing shared hash key'') (xs_return c)) (xs_return ()) (held s))"
    proof (rule xs_ok_then)
      show "xs_ok (\<lambda>_. alloc_may_fail rt) (\<lambda>_. ?R ())
        (entry_append rt p key (unlock_croak ''out of memory storing shared hash key'') (xs_return c) (held s))"
        using lh assms(2) None
        by (rule entry_append_run) (use assms(4) ended in \<open>auto simp: unlock_croak_def shared_unlock_def xs_simps\<close>)
    qed (simp add: xs_return_def)
    with None show ?thesis by simp
  qed
  then show "xs_ok (\<lambda>_. alloc_may_fail rt) ?R
    (xs_bind (shared_from_uv c) (\<lambda>child. xs_bind (shared_hash_find p key) (\<lambda>idx.
       case idx of
         None \<Rightarrow> xs_then (entry_append rt p key
             (unlock_croak ''out of memory storing shared hash key'') (xs_return child)) (xs_return ())
       | Some i \<Rightarrow> node_set p (\<lambda>n. n\<lparr>n_hash := (n_hash n)[i := (n_hash n ! i)\<lparr>entry_value := child\<rparr>]\<rparr>))) (held s))"
    using assms(3) hash_find_run [OF lh]
    by (auto simp: shared_from_uv_def xs_return_def xs_bind_def split: option.splits)
qed

lemma fetch_run:
  assumes "live_hash s p n"
  shows "shared_hash_fetch_ptr p key s = (Ret (case entries_get (n_hash n) key of Some c \<Rightarrow> c | None \<Rightarrow> 0), s)"
proof -
  have "live_hash (held s) p n" using assms by simp
  note run = hash_get_run [OF this, of key]
  show ?thesis unfolding shared_hash_fetch_ptr_def
    by (rule trans [OF locked_Ret [OF live_hashD(1) [OF assms]]], rule run) simp
qed

lemma delete_run:
  assumes "live_hash s p n"
  shows "shared_hash_delete_ptr p key s
    = (Ret (case entries_get (n_hash n) key of Some c \<Rightarrow> c | None \<Rightarrow> 0),
       with_hash s p (n\<lparr>n_hash := entries_delete key (n_hash n)\<rparr>))"
proof -
  have "live_hash (held s) p n" using assms by simp
  from hash_find_run [OF this] live_hashD(2) [OF assms]
  have run: "xs_bind (shared_hash_find p key) (\<lambda>idx.
       case idx of
         Some i \<Rightarrow> xs_then (node_set p (\<lambda>n. n\<lparr>n_hash :=
             take (length (n_hash n) - 1) (close_gap (n_hash n) (Suc i) (length (n_hash n) - Suc i))\<rparr>))
             (xs_return (entry_value (n_hash n ! i)))
       | None \<Rightarrow> xs_return 0) (held s)
    = (Ret (case entries_get (n_hash n) key of Some c \<Rightarrow> c | None \<Rightarrow> 0),
       with_hash (held s) p (n\<lparr>n_hash := entries_delete key (n_hash n)\<rparr>))"
    by (auto simp: xs_bind_def xs_then_def node_set_def xs_return_def entries_get_def entries_delete_def
        map_upd_triv split: option.split)
  show ?thesis unfolding shared_hash_delete_ptr_def
    by (rule trans [OF locked_Ret [OF live_hashD(1) [OF assms]]], rule run) simp
qed

subsection \<open>A small hash\<close>

definition small_hash :: "int shared_node" where
  "small_hash = empty_node\<lparr>n_type := SHARED_HASH,
     n_hash := [\<lparr>entry_key = ''a'', entry_value = 2\<rparr>, \<lparr>entry_key = ''b'', entry_value = 3\<rparr>],
     n_hash_capacity := 8\<rparr>"

definition hash_heap :: "int shared_state" where
  "hash_heap = \<lparr>sh_heap = [1 \<mapsto> small_hash, 2 \<mapsto> empty_node, 3 \<mapsto> empty_node, 4 \<mapsto> empty_node],
     sh_next = 5, sh_lock = 0, sh_closed = []\<rparr>"

lemma small_hash_live: "live_hash hash_heap 1 small_hash"
proof -
  have "node_wf small_hash" and "\<forall>q\<in>node_ptrs small_hash. q < 5"
    by (simp_all add: small_hash_def node_wf_def node_ptrs_def empty_node_def)
  then show ?thesis
    by (auto simp: live_hash_def live_def heap_wf_def hash_heap_def) (simp_all add: small_hash_def)
qed

lemma small_hash_facts: "length (n_hash small_hash) = 2" "sh_next hash_heap = 5"
  "entries_get (n_hash small_hash) = [''a'' \<mapsto> 2, ''b'' \<mapsto> 3]"
  by (auto simp: small_hash_def hash_heap_def fun_eq_iff)

section \<open>Properties\<close>



text \<open>C14: on a live node that is not a hash, the keyed XSUBs croak with the process-wide lock
  still held, while the count, the key list and the clear drop it before they croak: after a
  fetch, an existence test, a store or a delete with such a handle, no other thread can take
  the lock again.\<close>

theorem shared_hash_croak_keeps_lock:
  assumes "live s p n" and "n_type n \<noteq> SHARED_HASH"
  shows "shared_hash_fetch_ptr p key s = (Croak ''shared value is not a hash'', held s)
   \<and> shared_hash_exists p key s = (Croak ''shared value is not a hash'', held s)
   \<and> shared_hash_delete_ptr p key s = (Croak ''shared value is not a hash'', held s)
   \<and> shared_hash_store fuel rt P p key v s = (Croak ''shared value is not a hash'', held s)
   \<and> shared_hash_count p s = (Croak ''shared value is not a hash'', s)
   \<and> shared_hash_keys p s = (Croak ''shared value is not a hash'', s)
   \<and> shared_hash_clear p s = (Croak ''shared value is not a hash'', s)"
proof -
  have find: "shared_hash_find p key (held s) = (Croak ''shared value is not a hash'', held s)"
    using assms by (simp add: shared_hash_find_def xs_bind_def node_at_def xs_croak_def live_def)
  have early: "expect_hash n k (held s) = (Croak ''shared value is not a hash'', s)" for k :: "('a shared_state, 'z) xs"
    using assms(2) by (simp add: expect_hash_def expect_type_def)
  show ?thesis
    by (simp add: shared_hash_fetch_ptr_def shared_hash_exists_def shared_hash_delete_ptr_def shared_hash_store_def
        shared_hash_count_def shared_hash_keys_def shared_hash_clear_def shared_hash_get_node_def
        shared_hash_ensure_node_def locked_live [OF assms(1)] xs_bind_def find early)
qed

theorem shared_hash_croak_keeps_lock_witness:
  "shared_hash_fetch_ptr 2 ''a'' hash_heap = (Croak ''shared value is not a hash'', held hash_heap)
   \<and> shared_hash_count 2 hash_heap = (Croak ''shared value is not a hash'', hash_heap)"
  using shared_hash_croak_keeps_lock [of hash_heap 2 empty_node "''a''" 0 int_rt Map.empty SV_Undef]
  by (simp add: live_def hash_heap_def empty_node_def)

end
