(* ===== verification/Shared_Graph.thy ===== *)
theory Shared_Graph
  imports Shared_Import
begin

section \<open>What an imported graph represents\<close>

text \<open>
  The specification of \<open>shared_import_value\<close>: the node of every referent reached has the kind,
  the class and the contents of the referent, and a reference inside it points to the one
  node the import map gives its target, so aliases and cycles are kept. The proof walks the
  code with a relation between the states before and after each call.
\<close>

abbreviation im_heap :: "'nv import_state \<Rightarrow> ptr \<Rightarrow> 'nv shared_node option" where
  "im_heap s \<equiv> sh_heap (im_shared s)"

abbreviation im_next :: "'nv import_state \<Rightarrow> ptr" where
  "im_next s \<equiv> sh_next (im_shared s)"

abbreviation im_nodes :: "'nv import_state \<Rightarrow> ptr set" where
  "im_nodes s \<equiv> snd ` set (im_map s)"

subsection \<open>Values and nodes\<close>

fun scalar_node :: "'nv perl_rt \<Rightarrow> 'nv perl_sv \<Rightarrow> 'nv shared_node" where
  "scalar_node rt (SV_Scalar s) =
     (if sv_iv s = None \<and> sv_nv s = None \<and> sv_pv s = None then empty_node
      else if sv_nv s = None \<and> sv_pv s = None
      then empty_node\<lparr>n_type := SHARED_IV, n_iv := SvIV rt s\<rparr>
      else if sv_pv s = None
      then empty_node\<lparr>n_type := SHARED_NV, n_nv := Some (SvNV rt s)\<rparr>
      else empty_node\<lparr>n_type := SHARED_PV, n_pv := Some (SvPV rt s), n_pv_utf8 := sv_utf8 s\<rparr>)"
| "scalar_node rt _ = empty_node"

definition sv_rep :: "'nv perl_rt \<Rightarrow> 'nv import_state \<Rightarrow> 'nv perl_sv \<Rightarrow> ptr \<Rightarrow> bool" where
  "sv_rep rt s v p =
     (case v of
        SV_Ref r \<Rightarrow> map_of (im_map s) r = Some p
      | _ \<Rightarrow> p \<notin> im_nodes s \<and> im_heap s p = Some (scalar_node rt v))"

fun slot_rep :: "('nv perl_sv \<Rightarrow> ptr \<Rightarrow> bool) \<Rightarrow> 'nv perl_sv option \<Rightarrow> ptr \<Rightarrow> bool" where
  "slot_rep R None p \<longleftrightarrow> p = 0"
| "slot_rep R (Some v) p \<longleftrightarrow> R v p"

definition entry_rep :: "('nv perl_sv \<Rightarrow> ptr \<Rightarrow> bool) \<Rightarrow> char list \<times> 'nv perl_sv \<Rightarrow> shared_hash_entry \<Rightarrow> bool" where
  "entry_rep R kv e \<longleftrightarrow> entry_key e = fst kv \<and> R (snd kv) (entry_value e)"

definition vector_rep :: "('nv perl_sv \<Rightarrow> ptr \<Rightarrow> bool) \<Rightarrow> 'nv perl_sv option list \<Rightarrow> 'nv shared_node \<Rightarrow> bool" where
  "vector_rep R vs n \<longleftrightarrow>
     n_array_size n = length vs \<and> list_all2 (slot_rep R) vs (take (length vs) (n_items n))"

definition io_source :: "perl_io \<Rightarrow> int" where
  "io_source i = (case io_ifp i of Some f \<Rightarrow> f | None \<Rightarrow> (case io_ofp i of Some f \<Rightarrow> f | None \<Rightarrow> -1))"

definition io_rep :: "'nv perl_rt \<Rightarrow> nat \<Rightarrow> perl_io option \<Rightarrow> 'nv shared_node \<Rightarrow> bool" where
  "io_rep rt r io n =
     (case io of
        None \<Rightarrow> n_io_fd n = -1 \<and> n_handle n = None
      | Some i \<Rightarrow>
          (if io_source i < 0 then n_io_fd n = -1 \<and> n_handle n = rt_clone_lookup rt r
           else n_io_fd n = rt_dup rt (io_source i) \<and> n_io_mode n = shared_io_mode io \<and> n_handle n = None))"

fun body_rep :: "'nv perl_rt \<Rightarrow> ('nv perl_sv \<Rightarrow> ptr \<Rightarrow> bool) \<Rightarrow> nat \<Rightarrow> 'nv ref_body \<Rightarrow> 'nv shared_node \<Rightarrow> bool" where
  "body_rep rt R r (Body_Hash es) n \<longleftrightarrow> list_all2 (entry_rep R) es (n_hash n)"
| "body_rep rt R r (Body_Array vs) n \<longleftrightarrow> vector_rep R vs n"
| "body_rep rt R r (Body_Object vs) n \<longleftrightarrow> vector_rep R vs n"
| "body_rep rt R r (Body_Scalar v) n \<longleftrightarrow> R v (n_scalarref n)"
| "body_rep rt R r Body_Code n \<longleftrightarrow> 
     (\<exists>frozen. n_code n = Some frozen \<and> rt_clone_lookup rt r = Some frozen)"
| "body_rep rt R r (Body_Glob sv av hv cv io) n \<longleftrightarrow>
     slot_rep R sv (n_glob_scalar n) \<and> slot_rep R (map_option SV_Ref av) (n_glob_array n)
   \<and> slot_rep R (map_option SV_Ref hv) (n_glob_hash n) \<and> slot_rep R (map_option SV_Ref cv) (n_glob_code n)
   \<and> io_rep rt r io n"
| "body_rep rt R r (Body_Regexp pv) n \<longleftrightarrow> n_pv n = Some pv"
| "body_rep rt R r (Body_IO io) n \<longleftrightarrow> io_rep rt r (Some io) n"
| "body_rep rt R r (Body_Format (Some st) (Some nm)) n \<longleftrightarrow> n_pv n = Some (st @ ''::'' @ nm)"
| "body_rep rt R r (Body_Format _ _) n \<longleftrightarrow> n_pv n = None"
| "body_rep rt R r (Body_Other _) n \<longleftrightarrow> False"

text \<open>A blessed \<open>CODE\<close> reference and a format lose their class; every other kind keeps it.\<close>

definition node_class :: "char list option \<Rightarrow> char list option" where
  "node_class cls = (case cls of Some c \<Rightarrow> if c = [] then None else Some c | None \<Rightarrow> None)"

fun kept_class :: "'nv referent \<Rightarrow> char list option" where
  "kept_class x =
     (case ref_body x of Body_Code \<Rightarrow> None | Body_Format _ _ \<Rightarrow> None | _ \<Rightarrow> node_class (ref_class x))"

definition node_rep :: "'nv perl_rt \<Rightarrow> ('nv perl_sv \<Rightarrow> ptr \<Rightarrow> bool) \<Rightarrow> nat \<Rightarrow> 'nv referent
    \<Rightarrow> 'nv shared_node \<Rightarrow> bool" where
  "node_rep rt R r x n \<longleftrightarrow>
     n_type n = reference_kind (ref_body x) \<and> n_class n = kept_class x \<and> body_rep rt R r (ref_body x) n"

lemma slot_rep_mono: "(\<And>v p. R v p \<Longrightarrow> R' v p) \<Longrightarrow> slot_rep R v p \<Longrightarrow> slot_rep R' v p"
  by (cases v) auto

lemma body_rep_mono:
  assumes "\<And>v p. R v p \<Longrightarrow> R' v p" and "body_rep rt R r b n"
  shows "body_rep rt R' r b n"
  using assms(2)
proof (cases rule: body_rep.cases [of "(rt, R, r, b, n)"])
  case (1 rt R r es n)
  with assms show ?thesis
    by (auto simp: entry_rep_def intro: list_all2_mono)
next
  case (2 rt R r vs n)
  with assms show ?thesis
    by (auto simp: vector_rep_def intro: list_all2_mono slot_rep_mono)
next
  case (3 rt R r vs n)
  with assms show ?thesis
    by (auto simp: vector_rep_def intro: list_all2_mono slot_rep_mono)
qed (use assms in \<open>auto intro: slot_rep_mono\<close>)

lemma node_rep_mono:
  "(\<And>v p. R v p \<Longrightarrow> R' v p) \<Longrightarrow> node_rep rt R r x n \<Longrightarrow> node_rep rt R' r x n"
  by (auto simp: node_rep_def intro: body_rep_mono)

subsection \<open>Hypotheses on the Perl side\<close>

definition sv_closed :: "'nv perl_store \<Rightarrow> 'nv perl_sv \<Rightarrow> bool" where
  "sv_closed P v \<longleftrightarrow> (\<forall>r. v = SV_Ref r \<longrightarrow> P r \<noteq> None)"

fun body_svs :: "'nv ref_body \<Rightarrow> 'nv perl_sv list" where
  "body_svs (Body_Hash es) = List.map snd es"
| "body_svs (Body_Array vs) = List.map_filter id vs"
| "body_svs (Body_Object vs) = List.map_filter id vs"
| "body_svs (Body_Scalar v) = [v]"
| "body_svs (Body_Glob sv av hv cv io) =
     List.map_filter id [sv, map_option SV_Ref av, map_option SV_Ref hv, map_option SV_Ref cv]"
| "body_svs _ = []"

fun body_length :: "'nv ref_body \<Rightarrow> nat" where
  "body_length (Body_Hash es) = length es"
| "body_length (Body_Array vs) = length vs"
| "body_length (Body_Object vs) = length vs"
| "body_length _ = 0"

text \<open>No dangling reference, finitely many referents, containers no larger than an address space holds.\<close>

definition store_ok :: "'nv perl_store \<Rightarrow> bool" where
  "store_ok P \<longleftrightarrow> finite (dom P)
     \<and> (\<forall>r x. P r = Some x \<longrightarrow> list_all (sv_closed P) (body_svs (ref_body x)) \<and> body_length (ref_body x) \<le> 2 ^ 58)"

text \<open>When nothing outside the code refuses a request, an import has no reason to croak.\<close>

fun body_supported :: "'nv perl_rt \<Rightarrow> 'nv ref_body \<Rightarrow> bool" where
  "body_supported rt (Body_Other _) = False"
| "body_supported rt (Body_Object _) = (40 \<le> rt_version rt)"
| "body_supported rt (Body_IO io) = (0 \<le> io_source io \<longrightarrow> 0 \<le> rt_dup rt (io_source io))"
| "body_supported rt (Body_Glob _ _ _ _ (Some io)) = (0 \<le> io_source io \<longrightarrow> 0 \<le> rt_dup rt (io_source io))"
| "body_supported rt _ = True"

definition smooth :: "'nv perl_rt \<Rightarrow> 'nv perl_store \<Rightarrow> bool" where
  "smooth rt P \<longleftrightarrow> \<not> alloc_may_fail rt \<and> rt_perl_clone rt \<and> rt_mutex_init rt
     \<and> (\<forall>r x. P r = Some x \<longrightarrow> rt_clone_lookup rt r \<noteq> None \<and> body_supported rt (ref_body x))"

subsection \<open>The relation between the states of an import\<close>

definition same_old :: "ptr set \<Rightarrow> 'nv import_state \<Rightarrow> 'nv import_state \<Rightarrow> bool" where
  "same_old W s s' \<longleftrightarrow>
     im_next s \<le> im_next s' \<and> sh_lock (im_shared s') = sh_lock (im_shared s)
   \<and> (\<forall>q < im_next s. q \<notin> W \<longrightarrow> im_heap s' q = im_heap s q)"

definition im_wf :: "'nv perl_store \<Rightarrow> 'nv import_state \<Rightarrow> bool" where
  "im_wf P s \<longleftrightarrow> heap_wf (im_shared s) \<and> distinct (map fst (im_map s)) \<and> distinct (map snd (im_map s))
     \<and> (\<forall>(r, p) \<in> set (im_map s). P r \<noteq> None \<and> 0 < p \<and> p < im_next s)"

definition drawn :: "'nv perl_rt \<Rightarrow> 'nv perl_store \<Rightarrow> 'nv import_state \<Rightarrow> nat \<times> ptr \<Rightarrow> bool" where
  "drawn rt P s rp \<longleftrightarrow>
     (\<exists>x n. P (fst rp) = Some x \<and> im_heap s (snd rp) = Some n \<and> node_rep rt (sv_rep rt s) (fst rp) x n)"

definition ext :: "'nv perl_rt \<Rightarrow> 'nv perl_store \<Rightarrow> ptr set \<Rightarrow> 'nv import_state \<Rightarrow> 'nv import_state \<Rightarrow> bool" where
  "ext rt P W s s' \<longleftrightarrow> same_old W s s' \<and> im_wf P s'
     \<and> (\<exists>new. im_map s' = im_map s @ new \<and> (\<forall>rp\<in>set new. im_next s \<le> snd rp \<and> drawn rt P s' rp))"

definition run_ok :: "'nv perl_rt \<Rightarrow> 'nv perl_store \<Rightarrow> ptr set \<Rightarrow> 'nv import_state
    \<Rightarrow> ('a \<Rightarrow> 'nv import_state \<Rightarrow> bool) \<Rightarrow> 'a outcome \<times> 'nv import_state \<Rightarrow> bool" where
  "run_ok rt P W s Q = xs_ok (\<lambda>s'. \<not> smooth rt P \<and> same_old W s s') (\<lambda>x s'. ext rt P W s s' \<and> Q x s')"

lemma same_old_refl [simp]: "same_old W s s"
  by (simp add: same_old_def)

lemma same_old_trans:
  assumes "same_old W s s'" and "same_old W' s' s''" and "W' \<inter> {..<im_next s} \<subseteq> W"
  shows "same_old W s s''"
  unfolding same_old_def
proof (intro conjI allI impI)
  fix q
  assume q: "q < im_next s" "q \<notin> W"
  then have "q < im_next s'" and "q \<notin> W'"
    using assms unfolding same_old_def by auto
  with q assms(1,2) show "im_heap s'' q = im_heap s q"
    unfolding same_old_def by simp
qed (use assms in \<open>auto simp: same_old_def\<close>)

lemma ext_refl [simp]: "im_wf P s \<Longrightarrow> ext rt P W s s"
  by (simp add: ext_def)

text \<open>What a value is represented by survives every later step.\<close>

lemma im_wf_dom: "im_wf P s \<Longrightarrow> im_heap s p = Some n \<Longrightarrow> p < im_next s"
  by (rule heap_wfD(2)) (simp add: im_wf_def)

lemma im_nodes_bound: "im_wf P s \<Longrightarrow> p \<in> im_nodes s \<Longrightarrow> 0 < p \<and> p < im_next s"
  unfolding im_wf_def by (elim conjE imageE) auto

lemma sv_rep_ext:
  assumes "ext rt P W s s'" and "im_wf P s" and "W \<subseteq> im_nodes s" and "sv_rep rt s v p"
  shows "sv_rep rt s' v p"
proof -
  obtain new where new: "im_map s' = im_map s @ new" "\<forall>rp\<in>set new. im_next s \<le> snd rp"
    using assms(1) unfolding ext_def by blast
  show ?thesis
  proof (cases "\<exists>r. v = SV_Ref r")
    case True
    with assms(4) new(1) show ?thesis by (auto simp: sv_rep_def map_add_def)
  next
    case False
    then have p: "p \<notin> im_nodes s" "im_heap s p = Some (scalar_node rt v)"
      using assms(4) by (cases v; simp add: sv_rep_def)+
    then have lt: "p < im_next s" using im_wf_dom assms(2) by blast
    have "p \<notin> snd ` set new" using new(2) lt by (auto simp: image_iff)
    then have "p \<notin> im_nodes s'" using new(1) p(1) by (simp add: image_Un)
    moreover have "im_heap s' p = im_heap s p"
      using assms(1,3) lt p(1) unfolding ext_def same_old_def by blast
    ultimately show ?thesis using p(2) False by (cases v; simp add: sv_rep_def)
  qed
qed

lemma drawn_ext:
  assumes "ext rt P W s s'" and "im_wf P s" and "W \<subseteq> im_nodes s" and "drawn rt P s rp" and "snd rp \<notin> W"
  shows "drawn rt P s' rp"
proof -
  obtain x n where x: "P (fst rp) = Some x" "im_heap s (snd rp) = Some n"
    and rep: "node_rep rt (sv_rep rt s) (fst rp) x n"
    using assms(4) unfolding drawn_def by blast
  have "im_heap s' (snd rp) = Some n"
    using assms(1,5) x(2) im_wf_dom [OF assms(2) x(2)] unfolding ext_def same_old_def by auto
  moreover have "node_rep rt (sv_rep rt s') (fst rp) x n"
    using sv_rep_ext [OF assms(1-3)] rep by (rule node_rep_mono)
  ultimately show ?thesis using x(1) unfolding drawn_def by blast
qed

lemma ext_trans:
  assumes "ext rt P W s s'" and "ext rt P W s' s''" and "W \<subseteq> im_nodes s" and "im_wf P s"
  shows "ext rt P W s s''"
proof -
  have lt: "\<And>p. p \<in> W \<Longrightarrow> p < im_next s"
    using assms(3) im_nodes_bound [OF assms(4)] by blast
  obtain new where new: "im_map s' = im_map s @ new"
    "\<forall>rp\<in>set new. im_next s \<le> snd rp \<and> drawn rt P s' rp"
    using assms(1) unfolding ext_def by blast
  obtain new' where new': "im_map s'' = im_map s' @ new'"
    "\<forall>rp\<in>set new'. im_next s' \<le> snd rp \<and> drawn rt P s'' rp"
    using assms(2) unfolding ext_def by blast
  have wf': "im_wf P s'" and sub: "W \<subseteq> im_nodes s'"
    using assms(1,3) new(1) unfolding ext_def by auto
  have "drawn rt P s'' rp" if "rp \<in> set new" for rp
    using drawn_ext [OF assms(2) wf' sub] new(2) that lt by fastforce
  moreover have "im_next s \<le> im_next s'" using assms(1) by (simp add: ext_def same_old_def)
  ultimately have "\<forall>rp\<in>set (new @ new'). im_next s \<le> snd rp \<and> drawn rt P s'' rp"
    using new(2) new'(2) by fastforce
  moreover have "same_old W s s''"
    using assms(1,2) same_old_trans unfolding ext_def by blast
  ultimately show ?thesis
    using assms(2) new(1) new'(1) unfolding ext_def by (metis append.assoc)
qed

lemma ext_weaken: "ext rt P {} s s' \<Longrightarrow> ext rt P W s s'"
  by (auto simp: ext_def same_old_def)

subsection \<open>Running in sequence\<close>

lemma run_ok_bind:
  assumes "run_ok rt P W s Q (m s)" and "W \<subseteq> im_nodes s" and "im_wf P s"
    and "\<And>x s'. ext rt P W s s' \<Longrightarrow> Q x s' \<Longrightarrow> run_ok rt P W s' R (f x s')"
  shows "run_ok rt P W s R (xs_bind m f s)"
  unfolding run_ok_def
proof (rule xs_ok_bind [where m = m and s = s])
  show "xs_ok (\<lambda>s'. \<not> smooth rt P \<and> same_old W s s') (\<lambda>x s'. ext rt P W s s' \<and> Q x s') (m s)"
    using assms(1) by (simp add: run_ok_def)
next
  fix x s'
  assume "ext rt P W s s' \<and> Q x s'"
  then have e: "ext rt P W s s'" and run: "run_ok rt P W s' R (f x s')"
    using assms(4) by simp_all
  have "same_old W s s'" using e by (simp add: ext_def)
  then have old: "same_old W s s''" if "same_old W s' s''" for s''
    using that by (rule same_old_trans) simp
  show "xs_ok (\<lambda>s'. \<not> smooth rt P \<and> same_old W s s') (\<lambda>x s'. ext rt P W s s' \<and> R x s') (f x s')"
    using run [unfolded run_ok_def]
    by (rule xs_ok_mono) (simp_all add: old ext_trans [OF e _ assms(2,3)])
qed

lemma run_ok_then:
  assumes "run_ok rt P W s Q (m s)" and "W \<subseteq> im_nodes s" and "im_wf P s"
    and "\<And>x s'. ext rt P W s s' \<Longrightarrow> Q x s' \<Longrightarrow> run_ok rt P W s' R (k s')"
  shows "run_ok rt P W s R (xs_then m k s)"
  unfolding xs_then_def using assms by (rule run_ok_bind)

lemma run_ok_mono:
  "run_ok rt P W s Q res \<Longrightarrow> (\<And>x s'. ext rt P W s s' \<Longrightarrow> Q x s' \<Longrightarrow> R x s') \<Longrightarrow> run_ok rt P W s R res"
  unfolding run_ok_def by (erule xs_ok_mono) auto

lemma run_ok_return: "im_wf P s \<Longrightarrow> Q x s \<Longrightarrow> run_ok rt P W s Q (xs_return x s)"
  by (simp add: run_ok_def xs_return_def)

lemma run_ok_weaken:
  assumes "run_ok rt P {} s Q res"
  shows "run_ok rt P W s Q res"
  using assms unfolding run_ok_def
  by (rule xs_ok_mono) (auto simp: ext_weaken same_old_def)

lemma ext_dest:
  assumes "ext rt P W s s'" and "W \<subseteq> im_nodes s"
  shows "W \<subseteq> im_nodes s'" and "im_wf P s'" and "im_next s \<le> im_next s'"
  using assms by (auto simp: ext_def same_old_def image_Un)

lemma ext_fst_subset: "ext rt P W s s' \<Longrightarrow> fst ` set (im_map s) \<subseteq> fst ` set (im_map s')"
  by (auto simp: ext_def)

subsection \<open>Steps that write the node under construction\<close>

text \<open>\<open>holds_node p n s\<close>: the node being filled is in the map and reads \<open>n\<close>.\<close>

definition holds_node :: "'nv perl_store \<Rightarrow> ptr \<Rightarrow> 'nv shared_node \<Rightarrow> 'nv import_state \<Rightarrow> bool" where
  "holds_node P p n s \<longleftrightarrow> im_wf P s \<and> p \<in> im_nodes s \<and> im_heap s p = Some n"

definition fits :: "'nv import_state \<Rightarrow> 'nv shared_node \<Rightarrow> bool" where
  "fits s n \<longleftrightarrow> node_wf n \<and> (\<forall>q\<in>node_ptrs n. q < im_next s)"

lemma holds_node_fits: "holds_node P p n s \<Longrightarrow> fits s n"
proof -
  assume "holds_node P p n s"
  then have "heap_wf (im_shared s)" and "im_heap s p = Some n"
    by (simp_all add: holds_node_def im_wf_def)
  from heap_wfD(3,4) [OF this] show "fits s n" by (simp add: fits_def)
qed

lemma holds_node_ext:
  assumes "ext rt P {} s s'" and "holds_node P p n s"
  shows "holds_node P p n s'"
proof -
  have "p < im_next s" using assms(2) im_wf_dom [of P s p n] by (simp add: holds_node_def)
  with assms show ?thesis by (auto simp: holds_node_def ext_def same_old_def)
qed

definition with_node :: "'nv import_state \<Rightarrow> ptr \<Rightarrow> 'nv shared_node \<Rightarrow> 'nv import_state" where
  "with_node s p n = s\<lparr>im_shared := (im_shared s)\<lparr>sh_heap := (im_heap s)(p \<mapsto> n)\<rparr>\<rparr>"

lemma with_node_simps [simp]:
  "im_heap (with_node s p n) = (im_heap s)(p \<mapsto> n)" "im_map (with_node s p n) = im_map s"
  "im_next (with_node s p n) = im_next s" "sh_lock (im_shared (with_node s p n)) = sh_lock (im_shared s)"
  by (simp_all add: with_node_def)

lemma holds_with_node:
  assumes "holds_node P p n s" and "fits s n'"
  shows "ext rt P {p} s (with_node s p n')" and "holds_node P p n' (with_node s p n')"
proof -
  have "heap_wf (im_shared (with_node s p n'))"
    using assms unfolding with_node_def holds_node_def fits_def im_wf_def
    by (auto intro: heap_wf_set)
  then show "ext rt P {p} s (with_node s p n')" and "holds_node P p n' (with_node s p n')"
    using assms by (auto simp: holds_node_def ext_def same_old_def im_wf_def)
qed

lemma run_set:
  assumes "holds_node P p n s" and "fits s (f n)"
  shows "run_ok rt P {p} s (\<lambda>_ s'. holds_node P p (f n) s') (on_shared (node_set p f) s)"
proof -
  have "on_shared (node_set p f) s = (Ret (), with_node s p (f n))"
    using assms(1) by (simp add: on_shared_def node_set_def holds_node_def with_node_def)
  then show ?thesis using holds_with_node [OF assms] by (simp add: run_ok_def)
qed

lemma run_get:
  assumes "holds_node P p n s"
  shows "run_ok rt P W s (\<lambda>x s'. x = n \<and> s' = s) (on_shared (node_at p) s)"
  using assms by (simp add: run_ok_def on_shared_def node_at_def holds_node_def)

lemma run_croak:
  assumes "\<not> smooth rt P"
  shows "run_ok rt P W s Q (on_shared (xs_croak msg) s)" and "run_ok rt P W s Q (xs_croak msg s)"
  using assms by (simp_all add: run_ok_def on_shared_def xs_croak_def)

lemma run_on_return: "im_wf P s \<Longrightarrow> Q x s \<Longrightarrow> run_ok rt P W s Q (on_shared (xs_return x) s)"
  by (simp add: run_ok_def on_shared_def xs_return_def)

lemma on_shared_then: "on_shared (xs_then m k) = xs_then (on_shared m) (on_shared k)"
  by (rule ext) (auto simp: on_shared_def xs_then_def xs_bind_def split: prod.splits outcome.splits)

lemma on_shared_bind: "on_shared (xs_bind m f) = xs_bind (on_shared m) (\<lambda>x. on_shared (f x))"
  by (rule ext) (auto simp: on_shared_def xs_bind_def split: prod.splits outcome.splits)

lemma smooth_alloc: "\<not> rt_alloc rt b \<Longrightarrow> \<not> smooth rt P"
  by (auto simp: smooth_def)

end
