(* ===== verification/Shared_Import_Correct.thy ===== *)
theory Shared_Import_Correct
  imports Shared_Graph
begin

section \<open>\<open>shared_import_value\<close> builds the graph of the value\<close>

text \<open>
  Each part of the import is run with the relation of \<open>Shared_Graph\<close>: first the steps that
  fill one node, then the loops over a container, then the whole function by induction on
  its depth. The properties at the end say that an import ends, when it can only succeed,
  and what the nodes it leaves represent.
\<close>

subsection \<open>Filling one node\<close>

lemma fits_update [simp]:
  "fits s (n\<lparr>n_type := ty\<rparr>) = fits s n" "fits s (n\<lparr>n_class := c\<rparr>) = fits s n"
  "fits s (n\<lparr>n_iv := i\<rparr>) = fits s n" "fits s (n\<lparr>n_nv := x\<rparr>) = fits s n"
  "fits s (n\<lparr>n_pv := b\<rparr>) = fits s n" "fits s (n\<lparr>n_pv_utf8 := u\<rparr>) = fits s n"
  "fits s (n\<lparr>n_code := h\<rparr>) = fits s n" "fits s (n\<lparr>n_handle := h\<rparr>) = fits s n"
  "fits s (n\<lparr>n_io_fd := fd\<rparr>) = fits s n" "fits s (n\<lparr>n_io_mode := m\<rparr>) = fits s n"
  by (simp_all add: fits_def node_wf_def node_ptrs_def)

lemma fits_link [simp]:
  assumes "fits s n" and "c < im_next s"
  shows "fits s (n\<lparr>n_scalarref := c\<rparr>)" and "fits s (n\<lparr>n_glob_scalar := c\<rparr>)"
    and "fits s (n\<lparr>n_glob_array := c\<rparr>)" and "fits s (n\<lparr>n_glob_hash := c\<rparr>)"
    and "fits s (n\<lparr>n_glob_code := c\<rparr>)"
  using assms by (simp_all add: fits_def node_wf_def node_ptrs_def)

lemma run_seq:
  assumes "run_ok rt P {p} s (\<lambda>_ s'. holds_node P p n1 s') (m s)" and "holds_node P p n s"
    and "\<And>s'. ext rt P {p} s s' \<Longrightarrow> holds_node P p n1 s' \<Longrightarrow> run_ok rt P {p} s' R (k s')"
  shows "run_ok rt P {p} s R (xs_then m k s)"
  using assms(1) by (rule run_ok_then) (use assms(2,3) in \<open>simp_all add: holds_node_def\<close>)

lemma run_clear:
  assumes "holds_node P p n s"
  shows "run_ok rt P {p} s (\<lambda>_ s'. holds_node P p empty_node s') (on_shared (shared_node_clear p) s)"
proof -
  have "fits s empty_node" using assms by (auto simp: fits_def holds_node_def im_wf_def heap_wf_def)
  note new = holds_with_node [OF assms this]
  obtain c where "on_shared (shared_node_clear p) s
      = (Ret (), (with_node s p empty_node)\<lparr>im_shared := im_shared (with_node s p empty_node)\<lparr>sh_closed := c\<rparr>\<rparr>)"
    (is "_ = (Ret (), ?t)")
    using assms by (simp add: on_shared_def shared_node_clear_def holds_node_def with_node_def)
  moreover have "ext rt P {p} s ?t" and "holds_node P p empty_node ?t"
    using new assms by (auto simp: ext_def holds_node_def same_old_def im_wf_def)
  ultimately show ?thesis by (simp add: run_ok_def)
qed

lemma run_class:
  assumes "holds_node P p n s"
  shows "run_ok rt P {p} s (\<lambda>_ s'. holds_node P p (n\<lparr>n_class := node_class cls\<rparr>) s')
           (on_shared (shared_set_class rt p cls) s)"
  unfolding shared_set_class_def on_shared_then
proof (rule run_seq [where ?n1.0 = "n\<lparr>n_class := None\<rparr>", OF _ assms])
  show "run_ok rt P {p} s (\<lambda>_ s'. holds_node P p (n\<lparr>n_class := None\<rparr>) s')
     (on_shared (node_set p (\<lambda>n. n\<lparr>n_class := None\<rparr>)) s)"
    using assms by (rule run_set) (simp add: holds_node_fits [OF assms])
next
  fix s'
  assume h: "holds_node P p (n\<lparr>n_class := None\<rparr>) s'"
  have wf: "im_wf P s'" using h by (simp add: holds_node_def)
  show "run_ok rt P {p} s' (\<lambda>_ s'. holds_node P p (n\<lparr>n_class := node_class cls\<rparr>) s')
     (on_shared (case cls of None \<Rightarrow> xs_return ()
        | Some c \<Rightarrow> if c = [] then xs_return ()
            else if \<not> rt_alloc rt (length c + 1) then xs_croak ''out of memory storing shared object class''
            else node_set p (\<lambda>n. n\<lparr>n_class := Some c\<rparr>)) s')"
  proof (cases "cls = None \<or> cls = Some []")
    case True
    then show ?thesis using h wf
      by (auto simp: node_class_def run_ok_def on_shared_def xs_return_def)
  next
    case False
    then obtain c where c: "cls = Some c" "c \<noteq> []" by (cases cls) auto
    show ?thesis
    proof (cases "rt_alloc rt (length c + 1)")
      case True
      with c show ?thesis
        using run_set [OF h, of "\<lambda>n. n\<lparr>n_class := Some c\<rparr>"] holds_node_fits [OF h]
        by (simp add: node_class_def)
    next
      case False
      with c show ?thesis by (simp add: run_croak smooth_alloc)
    qed
  qed
qed

lemma run_store_pv:
  assumes "holds_node P p n s"
  shows "run_ok rt P {p} s (\<lambda>_ s'. holds_node P p (n\<lparr>n_type := ty, n_pv := Some bs, n_pv_utf8 := u\<rparr>) s')
           (on_shared (store_pv rt p msg ty bs u) s)"
proof (cases "rt_alloc rt (length bs + 1)")
  case True
  then show ?thesis
    using run_set [OF assms, of "\<lambda>n. n\<lparr>n_type := ty, n_pv := Some bs, n_pv_utf8 := u\<rparr>"] holds_node_fits [OF assms]
    by (simp add: store_pv_def)
next
  case False
  then show ?thesis by (simp add: store_pv_def run_croak smooth_alloc)
qed

lemma run_freeze:
  assumes "im_wf P s" and "P r = Some x"
  shows "run_ok rt P W s (\<lambda>h s'. rt_clone_lookup rt r = Some h \<and> s' = s)
           (on_shared (freeze_in_clone rt r a b c) s)"
proof (cases "rt_clone_lookup rt r")
  case None
  then have "\<not> smooth rt P" using assms(2) by (auto simp: smooth_def)
  with None assms show ?thesis
    by (auto simp: freeze_in_clone_def run_croak)
next
  case (Some h)
  with assms show ?thesis
    by (auto simp: freeze_in_clone_def smooth_alloc intro!: run_croak run_on_return) (simp_all add: smooth_def)
qed

lemma run_start:
  assumes "holds_node P p n s"
  shows "run_ok rt P {p} s (\<lambda>_ s'. holds_node P p (n\<lparr>n_type := ty, n_class := node_class cls\<rparr>) s')
           (import_start rt p ty cls s)"
  unfolding import_start_def
proof (rule run_seq [where ?n1.0 = "n\<lparr>n_type := ty\<rparr>", OF _ assms])
  show "run_ok rt P {p} s (\<lambda>_ s'. holds_node P p (n\<lparr>n_type := ty\<rparr>) s')
     (on_shared (node_set p (\<lambda>n. n\<lparr>n_type := ty\<rparr>)) s)"
    using assms by (rule run_set) (simp add: holds_node_fits [OF assms])
qed (drule run_class, simp)

text \<open>
  The descriptor part of a handle: the node afterwards has the fields \<open>io_rep\<close> asks for,
  up to the private copy that a handle without a descriptor gets next.
\<close>

definition captured :: "'nv perl_rt \<Rightarrow> perl_io option \<Rightarrow> 'nv shared_node \<Rightarrow> 'nv shared_node" where
  "captured rt io n =
     (case io of
        None \<Rightarrow> n\<lparr>n_io_fd := -1, n_io_mode := 0\<rparr>
      | Some i \<Rightarrow>
          (if io_source i < 0 then n\<lparr>n_io_fd := -1, n_io_mode := 0\<rparr>
           else n\<lparr>n_io_fd := rt_dup rt (io_source i), n_io_mode := shared_io_mode io\<rparr>))"

lemma io_source_eq:
  "(case (case io_ifp i of Some f \<Rightarrow> Some f | None \<Rightarrow> io_ofp i) of Some f \<Rightarrow> f | None \<Rightarrow> -1) = io_source i"
  by (simp add: io_source_def split: option.splits)

lemma run_capture:
  assumes "holds_node P p n s" and "P r = Some x"
    and "\<And>i. io = Some i \<Longrightarrow> body_supported rt (ref_body x) \<Longrightarrow> 0 \<le> io_source i \<Longrightarrow> 0 \<le> rt_dup rt (io_source i)"
  shows "run_ok rt P {p} s (\<lambda>_ s'. holds_node P p (captured rt io n) s' \<and>
             (\<forall>i. io = Some i \<longrightarrow> 0 \<le> io_source i \<longrightarrow> 0 \<le> rt_dup rt (io_source i)))
           (on_shared (shared_capture_io rt p io) s)"
    (is "run_ok _ _ _ _ ?Q _")
  unfolding shared_capture_io_def on_shared_then
proof (rule run_seq [where ?n1.0 = "n\<lparr>n_io_fd := -1, n_io_mode := 0\<rparr>", OF _ assms(1)])
  show "run_ok rt P {p} s (\<lambda>_ s'. holds_node P p (n\<lparr>n_io_fd := -1, n_io_mode := 0\<rparr>) s')
     (on_shared (node_set p (\<lambda>n. n\<lparr>n_io_fd := -1, n_io_mode := 0\<rparr>)) s)"
    using assms(1) by (rule run_set) (simp add: holds_node_fits [OF assms(1)])
next
  fix s1
  assume h1: "holds_node P p (n\<lparr>n_io_fd := -1, n_io_mode := 0\<rparr>) s1"
  have wf1: "im_wf P s1" using h1 by (simp add: holds_node_def)
  show "run_ok rt P {p} s1 ?Q (on_shared (case io of None \<Rightarrow> xs_return () | Some i \<Rightarrow>
       let fp = (case io_ifp i of Some f \<Rightarrow> Some f | None \<Rightarrow> io_ofp i);
           fd = (case fp of Some f \<Rightarrow> f | None \<Rightarrow> -1)
       in if fd < 0 then xs_return ()
          else xs_then (node_set p (\<lambda>n. n\<lparr>n_io_fd := rt_dup rt fd\<rparr>))
            (if rt_dup rt fd < 0
             then xs_croak ''could not duplicate shared filehandle descriptor: ''
             else node_set p (\<lambda>n. n\<lparr>n_io_mode := shared_io_mode io\<rparr>))) s1)"
  proof (cases "\<exists>i. io = Some i \<and> 0 \<le> io_source i")
    case False
    then show ?thesis using h1 wf1
      by (auto simp: captured_def io_source_eq intro!: run_on_return split: option.splits)
  next
    case True
    then obtain i where i: "io = Some i" "0 \<le> io_source i" by blast
    let ?fd = "rt_dup rt (io_source i)"
    let ?n2 = "n\<lparr>n_io_mode := 0, n_io_fd := ?fd\<rparr>"
    have "run_ok rt P {p} s1 ?Q (xs_then (on_shared (node_set p (\<lambda>n. n\<lparr>n_io_fd := ?fd\<rparr>)))
       (on_shared (if ?fd < 0 then xs_croak ''could not duplicate shared filehandle descriptor: ''
             else node_set p (\<lambda>n. n\<lparr>n_io_mode := shared_io_mode io\<rparr>))) s1)"
    proof (rule run_seq [where ?n1.0 = ?n2, OF _ h1])
      have "run_ok rt P {p} s1 (\<lambda>_ s'. holds_node P p ((\<lambda>n. n\<lparr>n_io_fd := ?fd\<rparr>) (n\<lparr>n_io_fd := -1, n_io_mode := 0\<rparr>)) s')
         (on_shared (node_set p (\<lambda>n. n\<lparr>n_io_fd := ?fd\<rparr>)) s1)"
        using h1 by (rule run_set) (use holds_node_fits [OF h1] in simp)
      then show "run_ok rt P {p} s1 (\<lambda>_ s'. holds_node P p ?n2 s')
         (on_shared (node_set p (\<lambda>n. n\<lparr>n_io_fd := ?fd\<rparr>)) s1)" by simp
    next
      fix s2
      assume h2: "holds_node P p ?n2 s2"
      show "run_ok rt P {p} s2 ?Q (on_shared (if ?fd < 0
          then xs_croak ''could not duplicate shared filehandle descriptor: ''
          else node_set p (\<lambda>n. n\<lparr>n_io_mode := shared_io_mode io\<rparr>)) s2)"
      proof (cases "?fd < 0")
        case True
        then have "\<not> smooth rt P" using assms(2,3) i by (force simp: smooth_def)
        with True show ?thesis by (simp add: run_croak)
      next
        case False
        have "run_ok rt P {p} s2 (\<lambda>_ s'. holds_node P p ((\<lambda>n. n\<lparr>n_io_mode := shared_io_mode io\<rparr>) ?n2) s')
           (on_shared (node_set p (\<lambda>n. n\<lparr>n_io_mode := shared_io_mode io\<rparr>)) s2)"
          using h2 by (rule run_set) (use holds_node_fits [OF h2] in simp)
        with False i show ?thesis by (simp add: captured_def)
      qed
    qed
    with i show ?thesis by (simp add: io_source_eq on_shared_then Let_def)
  qed
qed

lemma run_handle:
  assumes "holds_node P p n s" and "P r = Some x"
  shows "run_ok rt P {p} s (\<lambda>_ s'. \<exists>h. rt_clone_lookup rt r = Some h \<and> holds_node P p (n\<lparr>n_handle := Some h\<rparr>) s')
           (xs_bind (on_shared (shared_freeze_handle rt r)) (\<lambda>h. on_shared (node_set p (\<lambda>n. n\<lparr>n_handle := Some h\<rparr>))) s)"
proof (rule run_ok_bind)
  show "run_ok rt P {p} s (\<lambda>h s'. rt_clone_lookup rt r = Some h \<and> s' = s) (on_shared (shared_freeze_handle rt r) s)"
    unfolding shared_freeze_handle_def using assms by (auto simp: holds_node_def intro: run_freeze)
  fix h s'
  assume "rt_clone_lookup rt r = Some h \<and> s' = s"
  moreover have "run_ok rt P {p} s (\<lambda>_ s'. holds_node P p (n\<lparr>n_handle := Some h\<rparr>) s')
      (on_shared (node_set p (\<lambda>n. n\<lparr>n_handle := Some h\<rparr>)) s)"
    using assms(1) by (rule run_set) (simp add: holds_node_fits [OF assms(1)])
  ultimately show "run_ok rt P {p} s' (\<lambda>_ s'. \<exists>h. rt_clone_lookup rt r = Some h \<and> holds_node P p (n\<lparr>n_handle := Some h\<rparr>) s')
      (on_shared (node_set p (\<lambda>n. n\<lparr>n_handle := Some h\<rparr>)) s')"
    by (auto intro: run_ok_mono)
qed (use assms(1) in \<open>simp_all add: holds_node_def\<close>)

subsection \<open>Bodies without children\<close>

text \<open>What a body leaves: its node, filled as the referent asks.\<close>

definition body_done :: "'nv perl_rt \<Rightarrow> 'nv perl_store \<Rightarrow> nat \<Rightarrow> 'nv referent \<Rightarrow> ptr
    \<Rightarrow> unit \<Rightarrow> 'nv import_state \<Rightarrow> bool" where
  "body_done rt P r x p u s \<longleftrightarrow> (\<exists>n. holds_node P p n s \<and> node_rep rt (sv_rep rt s) r x n)"

lemma body_doneI: "holds_node P p n s \<Longrightarrow> node_rep rt (sv_rep rt s) r x n \<Longrightarrow> body_done rt P r x p u s"
  by (auto simp: body_done_def)

lemma empty_node_simps [simp]:
  "n_type empty_node = SHARED_UNDEF" "n_pv empty_node = None" "n_class empty_node = None"
  "n_hash empty_node = []" "n_items empty_node = []" "n_array_size empty_node = 0"
  "n_scalarref empty_node = 0" "n_code empty_node = None" "n_io_fd empty_node = -1"
  "n_glob_scalar empty_node = 0" "n_glob_array empty_node = 0" "n_glob_hash empty_node = 0"
  "n_glob_code empty_node = 0" "n_handle empty_node = None" "n_array_capacity empty_node = 0"
  "n_hash_capacity empty_node = 0"
  by (simp_all add: empty_node_def)

text \<open>The steps in front of a continuation.\<close>

lemma then_clear:
  assumes "holds_node P p n s"
    and "\<And>s'. ext rt P {p} s s' \<Longrightarrow> holds_node P p empty_node s' \<Longrightarrow> run_ok rt P {p} s' R (k s')"
  shows "run_ok rt P {p} s R (xs_then (on_shared (shared_node_clear p)) k s)"
proof (rule run_seq)
  show "run_ok rt P {p} s (\<lambda>_ s'. holds_node P p empty_node s') (on_shared (shared_node_clear p) s)"
    using assms(1) by (rule run_clear)
qed (use assms in auto)

lemma then_set:
  assumes "holds_node P p n s" and "fits s (f n)"
    and "\<And>s'. ext rt P {p} s s' \<Longrightarrow> holds_node P p (f n) s' \<Longrightarrow> run_ok rt P {p} s' R (k s')"
  shows "run_ok rt P {p} s R (xs_then (on_shared (node_set p f)) k s)"
proof (rule run_seq)
  show "run_ok rt P {p} s (\<lambda>_ s'. holds_node P p (f n) s') (on_shared (node_set p f) s)"
    using assms(1,2) by (rule run_set)
qed (use assms in auto)

lemma then_class:
  assumes "holds_node P p n s"
    and "\<And>s'. ext rt P {p} s s' \<Longrightarrow> holds_node P p (n\<lparr>n_class := node_class cls\<rparr>) s' \<Longrightarrow> run_ok rt P {p} s' R (k s')"
  shows "run_ok rt P {p} s R (xs_then (on_shared (shared_set_class rt p cls)) k s)"
proof (rule run_seq)
  show "run_ok rt P {p} s (\<lambda>_ s'. holds_node P p (n\<lparr>n_class := node_class cls\<rparr>) s')
    (on_shared (shared_set_class rt p cls) s)"
    using assms(1) by (rule run_class)
qed (use assms in auto)

lemma then_start:
  assumes "holds_node P p n s"
    and "\<And>s'. ext rt P {p} s s' \<Longrightarrow> holds_node P p (n\<lparr>n_type := ty, n_class := node_class cls\<rparr>) s'
        \<Longrightarrow> run_ok rt P {p} s' R (k s')"
  shows "run_ok rt P {p} s R (xs_then (import_start rt p ty cls) k s)"
proof (rule run_seq)
  show "run_ok rt P {p} s (\<lambda>_ s'. holds_node P p (n\<lparr>n_type := ty, n_class := node_class cls\<rparr>) s')
    (import_start rt p ty cls s)"
    using assms(1) by (rule run_start)
qed (use assms in auto)

lemma last_store_pv:
  assumes "holds_node P p n s"
    and "\<And>s'. holds_node P p (n\<lparr>n_type := ty, n_pv := Some bs, n_pv_utf8 := u\<rparr>) s' \<Longrightarrow> Q () s'"
  shows "run_ok rt P {p} s Q (on_shared (store_pv rt p msg ty bs u) s)"
  using run_store_pv [OF assms(1)] by (rule run_ok_mono) (simp add: assms(2))

lemma last_set:
  assumes "holds_node P p n s" and "fits s (f n)" and "\<And>s'. holds_node P p (f n) s' \<Longrightarrow> Q () s'"
  shows "run_ok rt P {p} s Q (on_shared (node_set p f) s)"
  using run_set [where f = f, OF assms(1,2)] by (rule run_ok_mono) (simp add: assms(3))

lemma import_regexp_ok:
  assumes "holds_node P p n s" and "ref_body x = Body_Regexp pv"
  shows "run_ok rt P {p} s (body_done rt P r x p) (on_shared (shared_import_regexp rt p (ref_class x) pv) s)"
  unfolding shared_import_regexp_def on_shared_then
  by (rule then_clear [OF assms(1)], rule then_set, assumption, simp add: holds_node_fits,
      rule then_class, assumption, rule last_store_pv, assumption,
      rule body_doneI, assumption, simp add: node_rep_def assms(2))

lemma import_format_ok:
  assumes "holds_node P p n s" and "ref_body x = Body_Format st nm"
  shows "run_ok rt P {p} s (body_done rt P r x p) (on_shared (shared_import_format rt p st nm) s)"
  unfolding shared_import_format_def on_shared_then
proof (rule then_clear [OF assms(1)], rule then_set, assumption)
  fix s1
  assume h1: "holds_node P p (empty_node\<lparr>n_type := SHARED_FORMAT\<rparr>) s1"
  then have wf: "im_wf P s1" by (simp add: holds_node_def)
  show "run_ok rt P {p} s1 (body_done rt P r x p)
     (on_shared (case (st, nm) of (Some st, Some nm) \<Rightarrow>
         store_pv rt p ''out of memory storing shared format name'' SHARED_FORMAT (st @ ''::'' @ nm) False
       | _ \<Rightarrow> xs_return ()) s1)"
  proof (cases "st = None \<or> nm = None")
    case True
    have "body_done rt P r x p () s1"
      using h1 True by (cases st; cases nm) (auto intro!: body_doneI simp: node_rep_def assms(2))
    with True wf show ?thesis by (cases st; cases nm) (auto intro: run_on_return)
  next
    case False
    then obtain a b where ab: "st = Some a" "nm = Some b" by auto
    have "run_ok rt P {p} s1 (body_done rt P r x p)
      (on_shared (store_pv rt p ''out of memory storing shared format name'' SHARED_FORMAT (a @ ''::'' @ b) False) s1)"
      by (rule last_store_pv [OF h1], rule body_doneI, assumption, simp add: node_rep_def assms(2) ab)
    with ab show ?thesis by simp
  qed
qed (simp add: holds_node_fits)

lemma import_code_ok:
  assumes "holds_node P p n s" and "ref_body x = Body_Code" and "P r = Some x"
  shows "run_ok rt P {p} s (body_done rt P r x p) (on_shared (shared_import_code rt p r) s)"
  unfolding shared_import_code_def on_shared_bind on_shared_then
proof (rule run_ok_bind)
  show "run_ok rt P {p} s (\<lambda>h s'. rt_clone_lookup rt r = Some h \<and> s' = s)
     (on_shared (freeze_in_clone rt r ''perl_clone() failed while sharing CODE reference''
       ''could not clone CODE reference into shared callback store''
       ''out of memory allocating shared callback state'') s)"
    using assms by (intro run_freeze) (simp_all add: holds_node_def)
  fix h s'
  assume eq: "rt_clone_lookup rt r = Some h \<and> s' = s"
  have "run_ok rt P {p} s (body_done rt P r x p) (xs_then (on_shared (shared_node_clear p))
      (on_shared (node_set p (\<lambda>n. n\<lparr>n_type := SHARED_CODE, n_code := Some h\<rparr>))) s)"
    by (rule then_clear [OF assms(1)], rule last_set, assumption, simp add: holds_node_fits,
        rule body_doneI, assumption, simp add: node_rep_def assms(2) eq)
  with eq show "run_ok rt P {p} s' (body_done rt P r x p) (xs_then (on_shared (shared_node_clear p))
      (on_shared (node_set p (\<lambda>n. n\<lparr>n_type := SHARED_CODE, n_code := Some h\<rparr>))) s')" by simp
qed (use assms(1) in \<open>simp_all add: holds_node_def\<close>)

text \<open>The end of a handle's import, common to \<open>IO\<close> and \<open>GLOB\<close>.\<close>

lemma captured_simps [simp]:
  "n_type (captured rt io n) = n_type n" "n_class (captured rt io n) = n_class n"
  "n_glob_scalar (captured rt io n) = n_glob_scalar n" "n_glob_array (captured rt io n) = n_glob_array n"
  "n_glob_hash (captured rt io n) = n_glob_hash n" "n_glob_code (captured rt io n) = n_glob_code n"
  "n_handle (captured rt io n) = n_handle n"
  by (simp_all add: captured_def split: option.splits)

lemma run_handle_tail:
  assumes "holds_node P p (captured rt io n) s"
    and "\<forall>i. io = Some i \<longrightarrow> 0 \<le> io_source i \<longrightarrow> 0 \<le> rt_dup rt (io_source i)"
    and "P r = Some x" and "n_handle n = None"
    and "\<And>n' s'. ext rt P {p} s s' \<Longrightarrow> holds_node P p n' s' \<Longrightarrow> io_rep rt r io n'
           \<Longrightarrow> \<exists>h. n' = (captured rt io n)\<lparr>n_handle := h\<rparr> \<Longrightarrow> Q () s'"
  shows "run_ok rt P {p} s Q
     (xs_bind (on_shared (node_at p)) (\<lambda>n.
        if io \<noteq> None \<and> n_io_fd n < 0
        then xs_bind (on_shared (shared_freeze_handle rt r)) (\<lambda>h. on_shared (node_set p (\<lambda>n. n\<lparr>n_handle := Some h\<rparr>)))
        else xs_return ()) s)"
proof (rule run_ok_bind)
  show "run_ok rt P {p} s (\<lambda>y s'. y = captured rt io n \<and> s' = s) (on_shared (node_at p) s)"
    using assms(1) by (rule run_get)
  fix y s'
  assume y: "y = captured rt io n \<and> s' = s"
  have wf: "im_wf P s" using assms(1) by (simp add: holds_node_def)
  have "run_ok rt P {p} s Q ((if io \<noteq> None \<and> n_io_fd (captured rt io n) < 0
     then xs_bind (on_shared (shared_freeze_handle rt r)) (\<lambda>h. on_shared (node_set p (\<lambda>n. n\<lparr>n_handle := Some h\<rparr>)))
     else xs_return ()) s)"
  proof (cases "io \<noteq> None \<and> n_io_fd (captured rt io n) < 0")
    case True
    then obtain i where "io = Some i" and "io_source i < 0"
      using assms(2) by (fastforce simp: captured_def split: if_splits)
    then have "Q () s'" if "ext rt P {p} s s'" "rt_clone_lookup rt r = Some h"
      "holds_node P p ((captured rt io n)\<lparr>n_handle := Some h\<rparr>) s'" for h s'
      using that by (intro assms(5)) (auto simp: io_rep_def captured_def)
    then have "run_ok rt P {p} s Q (xs_bind (on_shared (shared_freeze_handle rt r)) (\<lambda>h. on_shared (node_set p (\<lambda>n. n\<lparr>n_handle := Some h\<rparr>))) s)"
      by (rule_tac run_ok_mono [OF run_handle [where P = P and r = r and x = x, OF assms(1,3)]]) auto
    with True show ?thesis by simp
  next
    case False
    have "io_rep rt r io (captured rt io n)"
      using False assms(4) by (cases io) (auto simp: io_rep_def captured_def)
    moreover have "\<exists>h. captured rt io n = (captured rt io n)\<lparr>n_handle := h\<rparr>"
      by (rule exI [of _ "n_handle (captured rt io n)"]) simp
    ultimately have "Q () s" by (rule assms(5) [OF ext_refl [OF wf] assms(1)])
    with False wf show ?thesis by (auto intro: run_ok_return)
  qed
  with y show "run_ok rt P {p} s' Q ((if io \<noteq> None \<and> n_io_fd y < 0
     then xs_bind (on_shared (shared_freeze_handle rt r)) (\<lambda>h. on_shared (node_set p (\<lambda>n. n\<lparr>n_handle := Some h\<rparr>)))
     else xs_return ()) s')" by simp
qed (use assms(1) in \<open>simp_all add: holds_node_def\<close>)

lemma then_capture:
  assumes "holds_node P p n s" and "P r = Some x"
    and "\<And>i. io = Some i \<Longrightarrow> body_supported rt (ref_body x) \<Longrightarrow> 0 \<le> io_source i \<Longrightarrow> 0 \<le> rt_dup rt (io_source i)"
    and "\<And>s'. ext rt P {p} s s' \<Longrightarrow> holds_node P p (captured rt io n) s'
        \<Longrightarrow> \<forall>i. io = Some i \<longrightarrow> 0 \<le> io_source i \<longrightarrow> 0 \<le> rt_dup rt (io_source i) \<Longrightarrow> run_ok rt P {p} s' R (k s')"
  shows "run_ok rt P {p} s R (xs_then (on_shared (shared_capture_io rt p io)) k s)"
proof (rule run_ok_then)
  show "run_ok rt P {p} s (\<lambda>_ s'. holds_node P p (captured rt io n) s' \<and>
             (\<forall>i. io = Some i \<longrightarrow> 0 \<le> io_source i \<longrightarrow> 0 \<le> rt_dup rt (io_source i)))
           (on_shared (shared_capture_io rt p io) s)"
    using assms(1-3) by (rule run_capture)
qed (use assms in \<open>auto simp: holds_node_def\<close>)

lemma import_io_ok:
  assumes "holds_node P p n s" and "ref_body x = Body_IO io" and "P r = Some x"
  shows "run_ok rt P {p} s (body_done rt P r x p) (on_shared (shared_import_io rt p r (ref_class x) io) s)"
  unfolding shared_import_io_def on_shared_then on_shared_bind
proof (rule then_clear [OF assms(1)], rule then_set, assumption, simp add: holds_node_fits,
       rule then_class, assumption, rule then_capture [where P = P and r = r and x = x, OF _ assms(3)], assumption)
  fix s1
  let ?n = "empty_node\<lparr>n_type := SHARED_IO, n_class := node_class (ref_class x)\<rparr>"
  assume "holds_node P p (captured rt (Some io) ?n) s1"
    and "\<forall>i. Some io = Some i \<longrightarrow> 0 \<le> io_source i \<longrightarrow> 0 \<le> rt_dup rt (io_source i)"
  then have run: "run_ok rt P {p} s1 (body_done rt P r x p)
     (xs_bind (on_shared (node_at p)) (\<lambda>n.
        if Some io \<noteq> None \<and> n_io_fd n < 0
        then xs_bind (on_shared (shared_freeze_handle rt r)) (\<lambda>h. on_shared (node_set p (\<lambda>n. n\<lparr>n_handle := Some h\<rparr>)))
        else xs_return ()) s1)"
    by (rule run_handle_tail [where P = P and r = r and x = x, OF _ _ assms(3)])
      (auto intro!: body_doneI simp: node_rep_def assms(2))
  have eq: "(\<lambda>n. on_shared (if n_io_fd n < 0
      then xs_bind (shared_freeze_handle rt r) (\<lambda>h. node_set p (\<lambda>n. n\<lparr>n_handle := Some h\<rparr>)) else xs_return ()))
    = (\<lambda>n. if Some io \<noteq> None \<and> n_io_fd n < 0
        then xs_bind (on_shared (shared_freeze_handle rt r)) (\<lambda>h. on_shared (node_set p (\<lambda>n. n\<lparr>n_handle := Some h\<rparr>)))
        else xs_return ())"
    by (auto simp: on_shared_bind fun_eq_iff) (simp add: on_shared_def xs_return_def)
  show "run_ok rt P {p} s1 (body_done rt P r x p)
     (xs_bind (on_shared (node_at p)) (\<lambda>n. on_shared (if n_io_fd n < 0
      then xs_bind (shared_freeze_handle rt r) (\<lambda>h. node_set p (\<lambda>n. n\<lparr>n_handle := Some h\<rparr>)) else xs_return ())) s1)"
    unfolding eq by (rule run)
qed (simp add: assms(2))

subsection \<open>Children\<close>

definition unvisited :: "'nv perl_store \<Rightarrow> 'nv import_state \<Rightarrow> nat set" where
  "unvisited P s = dom P - fst ` set (im_map s)"

text \<open>What the loops ask of the recursive call.\<close>

definition child_ok :: "'nv perl_rt \<Rightarrow> 'nv perl_store \<Rightarrow> nat \<Rightarrow> ('nv perl_sv \<Rightarrow> ('nv import_state, ptr) xs) \<Rightarrow> bool" where
  "child_ok rt P fuel imp \<longleftrightarrow> finite (dom P) \<and>
     (\<forall>s v. im_wf P s \<longrightarrow> sv_closed P v \<longrightarrow> card (unvisited P s) < fuel \<longrightarrow>
        run_ok rt P {} s (\<lambda>c s'. sv_rep rt s' v c \<and> c < im_next s') (imp v s))"

lemma unvisited_ext:
  assumes "finite (dom P)" and "ext rt P W s s'"
  shows "card (unvisited P s') \<le> card (unvisited P s)"
  using assms(1) ext_fst_subset [OF assms(2)] by (intro card_mono) (auto simp: unvisited_def)

lemma run_child:
  assumes "child_ok rt P fuel imp" and "holds_node P p n s" and "sv_closed P v" and "card (unvisited P s) < fuel"
    and "\<And>c s'. ext rt P {p} s s' \<Longrightarrow> holds_node P p n s' \<Longrightarrow> sv_rep rt s' v c \<Longrightarrow> c < im_next s'
        \<Longrightarrow> card (unvisited P s') < fuel \<Longrightarrow> run_ok rt P {p} s' R (f c s')"
  shows "run_ok rt P {p} s R (xs_bind (imp v) f s)"
proof -
  have child: "run_ok rt P {} s (\<lambda>c s'. sv_rep rt s' v c \<and> c < im_next s') (imp v s)"
    using assms(1-4) by (simp add: child_ok_def holds_node_def)
  have "run_ok rt P {} s (\<lambda>c s'. sv_rep rt s' v c \<and> c < im_next s' \<and> holds_node P p n s') (imp v s)"
    using child by (rule run_ok_mono) (use assms(2) holds_node_ext in blast)
  note run_ok_weaken [OF this, of "{p}"]
  then show ?thesis
  proof (rule run_ok_bind)
    fix c s'
    assume e: "ext rt P {p} s s'" and q: "sv_rep rt s' v c \<and> c < im_next s' \<and> holds_node P p n s'"
    have "card (unvisited P s') < fuel"
      using unvisited_ext [OF _ e] assms(1,4) by (fastforce simp: child_ok_def)
    with e q show "run_ok rt P {p} s' R (f c s')" by (simp add: assms(5))
  qed (use assms(2) in \<open>simp_all add: holds_node_def\<close>)
qed

lemma sv_rep_later:
  assumes "ext rt P {p} s s'" and "holds_node P p n s" and "sv_rep rt s v c"
  shows "sv_rep rt s' v c"
  using assms(2) by (intro sv_rep_ext [OF assms(1) _ _ assms(3)]) (simp_all add: holds_node_def)

subsection \<open>Vectors\<close>

lemma fits_items:
  "fits s n \<Longrightarrow> length cs = length (n_items n) \<Longrightarrow> set cs \<subseteq> {..<im_next s} \<Longrightarrow> fits s (n\<lparr>n_items := cs\<rparr>)"
  by (auto simp: fits_def node_wf_def node_ptrs_def)

lemma fits_items_set: "fits s n \<Longrightarrow> set (n_items n) \<subseteq> {..<im_next s}"
  by (auto simp: fits_def node_ptrs_def)

lemma run_put:
  assumes "holds_node P p n s" and "n_items n = pre @ q # rest" and "c < im_next s"
    and "\<And>s'. ext rt P {p} s s' \<Longrightarrow> holds_node P p (n\<lparr>n_items := pre @ c # rest\<rparr>) s' \<Longrightarrow> run_ok rt P {p} s' R (k s')"
  shows "run_ok rt P {p} s R (xs_then (on_shared (array_put p (length pre) c)) k s)"
proof -
  have "fits s (n\<lparr>n_items := pre @ c # rest\<rparr>)"
    using holds_node_fits [OF assms(1)] fits_items_set [of s n] assms(2,3) by (intro fits_items) auto
  with assms(2) have f: "fits s ((\<lambda>n. n\<lparr>n_items := (n_items n)[length pre := c]\<rparr>) n)" by simp
  have "on_shared (array_put p (length pre) c) s
      = on_shared (node_set p (\<lambda>n. n\<lparr>n_items := (n_items n)[length pre := c]\<rparr>)) s"
    using assms(1,2) by (simp add: on_shared_def array_put_def xs_bind_def node_at_def holds_node_def)
  moreover have "run_ok rt P {p} s R (xs_then (on_shared (node_set p (\<lambda>n. n\<lparr>n_items := (n_items n)[length pre := c]\<rparr>))) k s)"
    using assms(1) f by (rule then_set) (use assms(2,4) in simp)
  ultimately show ?thesis by (simp add: xs_then_def xs_bind_def)
qed

lemma import_items_ok:
  assumes "child_ok rt P fuel imp"
  shows "holds_node P p n s \<Longrightarrow> n_items n = pre @ replicate (length vs + k) 0
    \<Longrightarrow> list_all (sv_closed P) (List.map_filter id vs) \<Longrightarrow> card (unvisited P s) < fuel
    \<Longrightarrow> run_ok rt P {p} s (\<lambda>_ s'. \<exists>cs. holds_node P p (n\<lparr>n_items := pre @ cs @ replicate k 0\<rparr>) s'
             \<and> list_all2 (slot_rep (sv_rep rt s')) vs cs) (import_items imp p (length pre) vs s)"
proof (induction vs arbitrary: n s pre)
  case Nil
  then have "n\<lparr>n_items := pre @ [] @ replicate k 0\<rparr> = n" by (cases n) simp
  with Nil(1) have "holds_node P p (n\<lparr>n_items := pre @ [] @ replicate k 0\<rparr>) s" by (simp only:)
  with Nil show ?case by (auto intro!: run_ok_return simp: holds_node_def)
next
  case (Cons v vs)
  show ?case
  proof (cases v)
    case None
    have "run_ok rt P {p} s (\<lambda>_ s'. \<exists>cs. holds_node P p (n\<lparr>n_items := (pre @ [0]) @ cs @ replicate k 0\<rparr>) s'
             \<and> list_all2 (slot_rep (sv_rep rt s')) vs cs) (import_items imp p (length (pre @ [0])) vs s)"
      using Cons.prems None by (intro Cons.IH) (simp_all add: List.map_filter_def)
    then show ?thesis using None
      by (auto elim!: run_ok_mono) (metis append_Cons list_all2_Cons slot_rep.simps(1))
  next
    case (Some w)
    have "run_ok rt P {p} s (\<lambda>_ s'. \<exists>cs. holds_node P p (n\<lparr>n_items := pre @ cs @ replicate k 0\<rparr>) s'
             \<and> list_all2 (slot_rep (sv_rep rt s')) (v # vs) cs)
       (xs_bind (imp w) (\<lambda>c. xs_then (on_shared (array_put p (length pre) c)) (import_items imp p (Suc (length pre)) vs)) s)"
    proof (rule run_child [OF assms Cons.prems(1)])
      show "sv_closed P w" and "card (unvisited P s) < fuel"
        using Cons.prems Some by (simp_all add: List.map_filter_def)
      fix c s1
      assume h1: "holds_node P p n s1" and rep: "sv_rep rt s1 w c" and c: "c < im_next s1"
        and lt: "card (unvisited P s1) < fuel"
      show "run_ok rt P {p} s1 (\<lambda>_ s'. \<exists>cs. holds_node P p (n\<lparr>n_items := pre @ cs @ replicate k 0\<rparr>) s'
             \<and> list_all2 (slot_rep (sv_rep rt s')) (v # vs) cs)
        (xs_then (on_shared (array_put p (length pre) c)) (import_items imp p (Suc (length pre)) vs) s1)"
      proof (rule run_put [OF h1 _ c])
        show "n_items n = pre @ 0 # replicate (length vs + k) 0" using Cons.prems(2) by simp
        fix s2
        assume e2: "ext rt P {p} s1 s2"
          and h2: "holds_node P p (n\<lparr>n_items := pre @ c # replicate (length vs + k) 0\<rparr>) s2"
        have "card (unvisited P s2) < fuel"
          using unvisited_ext [OF _ e2] assms lt by (fastforce simp: child_ok_def)
        then have "run_ok rt P {p} s2 (\<lambda>_ s'. \<exists>cs. holds_node P p (n\<lparr>n_items := (pre @ [c]) @ cs @ replicate k 0\<rparr>) s'
             \<and> list_all2 (slot_rep (sv_rep rt s')) vs cs) (import_items imp p (length (pre @ [c])) vs s2)"
          using Cons.IH [OF h2, of "pre @ [c]"] Cons.prems(3) Some by (simp add: List.map_filter_def)
        then show "run_ok rt P {p} s2 (\<lambda>_ s'. \<exists>cs. holds_node P p (n\<lparr>n_items := pre @ cs @ replicate k 0\<rparr>) s'
             \<and> list_all2 (slot_rep (sv_rep rt s')) (v # vs) cs) (import_items imp p (Suc (length pre)) vs s2)"
          using sv_rep_later [OF _ h2] sv_rep_later [OF e2 h1 rep] Some
          by (auto elim!: run_ok_mono) (metis append_Cons list_all2_Cons slot_rep.simps(2))
      qed
    qed
    with Some show ?thesis by simp
  qed
qed

text \<open>A step of the shared store that only rewrites the node, or croaks for want of memory.\<close>

lemma then_step:
  assumes "holds_node P p n s"
    and "xs_ok (\<lambda>t. t = im_shared s \<and> alloc_may_fail rt)
      (\<lambda>_ t. \<exists>n'. t = (im_shared s)\<lparr>sh_heap := (im_heap s)(p \<mapsto> n')\<rparr> \<and> G n') (m (im_shared s))"
    and "\<And>n'. G n' \<Longrightarrow> fits s n'"
    and "\<And>n' s'. ext rt P {p} s s' \<Longrightarrow> holds_node P p n' s' \<Longrightarrow> G n' \<Longrightarrow> run_ok rt P {p} s' R (k s')"
  shows "run_ok rt P {p} s R (xs_then (on_shared m) k s)"
proof (rule run_ok_then)
  obtain out t where m: "m (im_shared s) = (out, t)" by (cases "m (im_shared s)")
  have "ext rt P {p} s (s\<lparr>im_shared := t\<rparr>) \<and> (\<exists>n'. holds_node P p n' (s\<lparr>im_shared := t\<rparr>) \<and> G n')"
    if "t = (im_shared s)\<lparr>sh_heap := (im_heap s)(p \<mapsto> n')\<rparr>" and "G n'" for n'
    using holds_with_node [OF assms(1) assms(3) [OF that(2)]] that by (auto simp: with_node_def)
  with m assms(2) show "run_ok rt P {p} s (\<lambda>_ s'. \<exists>n'. holds_node P p n' s' \<and> G n') (on_shared m s)"
    by (cases out) (auto simp: run_ok_def on_shared_def smooth_def)
qed (use assms(1,4) in \<open>auto simp: holds_node_def\<close>)

lemma fits_next_pos: "holds_node P p n s \<Longrightarrow> 0 < im_next s"
  by (simp add: holds_node_def im_wf_def heap_wf_def)

lemma run_reserve:
  assumes "holds_node P p n s" and "unat need \<le> 2 ^ 58"
    and "\<And>n' s'. ext rt P {p} s s' \<Longrightarrow> holds_node P p n' s' \<Longrightarrow> array_grown n need n' \<Longrightarrow> run_ok rt P {p} s' R (k s')"
  shows "run_ok rt P {p} s R (xs_then (on_shared (shared_array_reserve rt p need)) k s)"
proof (rule then_step [OF assms(1)])
  note f = holds_node_fits [OF assms(1)]
  show "xs_ok (\<lambda>t. t = im_shared s \<and> alloc_may_fail rt)
      (\<lambda>_ t. \<exists>n'. t = (im_shared s)\<lparr>sh_heap := (im_heap s)(p \<mapsto> n')\<rparr> \<and> array_grown n need n')
      (shared_array_reserve rt p need (im_shared s))"
    using f assms(1,2) by (intro shared_array_reserve_ok) (simp_all add: fits_def holds_node_def)
  show "fits s n'" if "array_grown n need n'" for n'
    using that f fits_next_pos [OF assms(1)] by (auto simp: array_grown_def fits_def node_ptrs_def)
qed (rule assms(3))

lemma import_vector_ok:
  assumes "child_ok rt P fuel imp" and "holds_node P p n s"
    and "n_items n = []" and "n_array_size n = 0"
    and "list_all (sv_closed P) (List.map_filter id vs)" and "length vs \<le> 2 ^ 58"
    and "card (unvisited P s) < fuel"
    and "\<And>n' s'. holds_node P p n' s' \<Longrightarrow> vector_rep (sv_rep rt s') vs n' \<Longrightarrow> n_type n' = n_type n
      \<Longrightarrow> n_class n' = n_class n \<Longrightarrow> Q () s'"
  shows "run_ok rt P {p} s Q (import_vector imp rt p vs s)"
proof (cases "vs = []")
  case True
  with assms(2-4,8) show ?thesis
    by (auto simp: import_vector_def vector_rep_def holds_node_def intro!: run_ok_return)
next
  case False
  have len: "unat (of_nat (length vs) :: u64) = length vs"
    using assms(6) by (intro unat_of_nat_small) simp
  have "run_ok rt P {p} s Q (xs_then (on_shared (shared_array_reserve rt p (of_nat (length vs))))
          (xs_then (on_shared (node_set p (\<lambda>n. n\<lparr>n_array_size := length vs\<rparr>)))
            (import_items imp p 0 vs)) s)"
  proof (rule run_reserve [OF assms(2)])
    show "unat (of_nat (length vs) :: u64) \<le> 2 ^ 58" using assms(6) len by simp
    fix n1 s1
    assume e1: "ext rt P {p} s s1" and h1: "holds_node P p n1 s1"
      and g: "array_grown n (of_nat (length vs)) n1"
    obtain k where items: "n_items n1 = replicate (length vs + k) 0"
      using g assms(3) len by (auto simp: array_grown_def) (metis le_Suc_ex)
    have same: "n_type n1 = n_type n" "n_class n1 = n_class n"
      using g by (auto simp: array_grown_def)
    have "fits s1 (n1\<lparr>n_array_size := length vs\<rparr>)"
      using holds_node_fits [OF h1] items by (simp add: fits_def node_wf_def node_ptrs_def)
    with h1 show "run_ok rt P {p} s1 Q (xs_then (on_shared (node_set p (\<lambda>n. n\<lparr>n_array_size := length vs\<rparr>)))
            (import_items imp p 0 vs) s1)"
    proof (rule then_set)
      fix s2
      assume e2: "ext rt P {p} s1 s2" and h2: "holds_node P p (n1\<lparr>n_array_size := length vs\<rparr>) s2"
      have "card (unvisited P s2) < fuel"
        using unvisited_ext [OF _ e2] unvisited_ext [OF _ e1] assms(1,7) by (fastforce simp: child_ok_def)
      then have "run_ok rt P {p} s2 (\<lambda>_ s'. \<exists>cs. holds_node P p (n1\<lparr>n_array_size := length vs, n_items := [] @ cs @ replicate k 0\<rparr>) s'
             \<and> list_all2 (slot_rep (sv_rep rt s')) vs cs) (import_items imp p (length ([] :: ptr list)) vs s2)"
        using items assms(5) by (intro import_items_ok [OF assms(1) h2]) simp_all
      then show "run_ok rt P {p} s2 Q (import_items imp p 0 vs s2)"
        by (auto elim!: run_ok_mono intro!: assms(8) simp: vector_rep_def same list_all2_lengthD)
    qed
  qed
  with False show ?thesis by (simp add: import_vector_def)
qed

subsection \<open>Hashes\<close>

lemma run_hash_reserve:
  assumes "holds_node P p n s" and "unat need \<le> 2 ^ 58"
    and "\<And>n' s'. ext rt P {p} s s' \<Longrightarrow> holds_node P p n' s' \<Longrightarrow> hash_grown n need n' \<Longrightarrow> run_ok rt P {p} s' R (k s')"
  shows "run_ok rt P {p} s R (xs_then (on_shared (shared_hash_reserve rt p need)) k s)"
proof (rule then_step [OF assms(1)])
  note f = holds_node_fits [OF assms(1)]
  show "xs_ok (\<lambda>t. t = im_shared s \<and> alloc_may_fail rt)
      (\<lambda>_ t. \<exists>n'. t = (im_shared s)\<lparr>sh_heap := (im_heap s)(p \<mapsto> n')\<rparr> \<and> hash_grown n need n')
      (shared_hash_reserve rt p need (im_shared s))"
    using f assms(1,2) by (intro shared_hash_reserve_ok) (simp_all add: fits_def holds_node_def)
  show "fits s n'" if "hash_grown n need n'" for n'
    using that f by (auto simp: hash_grown_def fits_def node_ptrs_def)
qed (rule assms(3))

lemma run_append:
  assumes "holds_node P p n s" and "length (n_hash n) < unat (n_hash_capacity n)" and "c < im_next s"
    and "\<And>s'. ext rt P {p} s s' \<Longrightarrow> holds_node P p (n\<lparr>n_hash := n_hash n @ [\<lparr>entry_key = key, entry_value = c\<rparr>]\<rparr>) s'
        \<Longrightarrow> run_ok rt P {p} s' R (k s')"
  shows "run_ok rt P {p} s R (xs_then (on_shared (hash_append p key c)) k s)"
proof -
  let ?f = "\<lambda>n :: 'a shared_node. n\<lparr>n_hash := n_hash n @ [\<lparr>entry_key = key, entry_value = c\<rparr>]\<rparr>"
  have f: "fits s (?f n)"
    using holds_node_fits [OF assms(1)] assms(2,3) by (auto simp: fits_def node_wf_def node_ptrs_def)
  have "on_shared (hash_append p key c) s = on_shared (node_set p ?f) s"
    using assms(1,2) by (simp add: on_shared_def hash_append_def xs_bind_def node_at_def holds_node_def)
  moreover have "run_ok rt P {p} s R (xs_then (on_shared (node_set p ?f)) k s)"
    using assms(1) f by (rule then_set) (rule assms(4))
  ultimately show ?thesis by (simp add: xs_then_def xs_bind_def)
qed

lemma import_entries_ok:
  assumes "child_ok rt P fuel imp"
  shows "holds_node P p n s \<Longrightarrow> length (n_hash n) + length es \<le> 2 ^ 58
    \<Longrightarrow> list_all (sv_closed P) (List.map snd es) \<Longrightarrow> card (unvisited P s) < fuel
    \<Longrightarrow> run_ok rt P {p} s (\<lambda>_ s'. \<exists>n' hs. holds_node P p n' s' \<and> n_hash n' = n_hash n @ hs
             \<and> n_type n' = n_type n \<and> n_class n' = n_class n
             \<and> list_all2 (entry_rep (sv_rep rt s')) es hs) (import_entries imp rt p es s)"
proof (induction es arbitrary: n s)
  case Nil
  then show ?case by (auto intro!: run_ok_return simp: holds_node_def)
next
  case (Cons kv es)
  obtain key v where kv: "kv = (key, v)" by (cases kv)
  let ?Q = "\<lambda>(_::unit) s'. \<exists>n' hs. holds_node P p n' s' \<and> n_hash n' = n_hash n @ hs
             \<and> n_type n' = n_type n \<and> n_class n' = n_class n
             \<and> list_all2 (entry_rep (sv_rep rt s')) (kv # es) hs"
  let ?k = "xs_bind (imp v) (\<lambda>c. xs_then (on_shared (hash_append p key c)) (import_entries imp rt p es))"
  have wf: "im_wf P s" and pm: "{p} \<subseteq> im_nodes s" using Cons.prems(1) by (simp_all add: holds_node_def)
  have fin: "finite (dom P)" using assms by (simp add: child_ok_def)
  have len: "unat (of_nat (length (n_hash n)) + 1 :: u64) = Suc (length (n_hash n))"
    using Cons.prems(2) unat_of_nat_small [of "Suc (length (n_hash n))"] by (simp add: add.commute)
  have "run_ok rt P {p} s ?Q (xs_then (on_shared (shared_hash_reserve rt p (of_nat (length (n_hash n)) + 1)))
     (if \<not> rt_alloc rt (length key + 1) then xs_croak ''out of memory storing shared hash key'' else ?k) s)"
  proof (rule run_hash_reserve [OF Cons.prems(1)])
    show "unat (of_nat (length (n_hash n)) + 1 :: u64) \<le> 2 ^ 58" using Cons.prems(2) len by simp
    fix n1 s1
    assume e1: "ext rt P {p} s s1" and h1: "holds_node P p n1 s1"
      and g: "hash_grown n (of_nat (length (n_hash n)) + 1) n1"
    have n1: "n_hash n1 = n_hash n" "n_type n1 = n_type n" "n_class n1 = n_class n"
      "length (n_hash n1) < unat (n_hash_capacity n1)"
      using g len by (auto simp: hash_grown_def word_le_nat_alt)
    have lt: "card (unvisited P s1) < fuel"
      using unvisited_ext [OF fin e1] Cons.prems(4) by simp
    have "run_ok rt P {p} s1 ?Q (?k s1)"
    proof (rule run_child [OF assms h1 _ lt])
      show "sv_closed P v" using Cons.prems(3) kv by simp
      fix c s2
      assume h2: "holds_node P p n1 s2" and rep: "sv_rep rt s2 v c" and c: "c < im_next s2"
        and lt2: "card (unvisited P s2) < fuel"
      show "run_ok rt P {p} s2 ?Q (xs_then (on_shared (hash_append p key c)) (import_entries imp rt p es) s2)"
      proof (rule run_append [OF h2 n1(4) c])
        fix s3
        let ?n3 = "n1\<lparr>n_hash := n_hash n1 @ [\<lparr>entry_key = key, entry_value = c\<rparr>]\<rparr>"
        assume e3: "ext rt P {p} s2 s3" and h3: "holds_node P p ?n3 s3"
        have rep3: "sv_rep rt s3 v c" using sv_rep_later [OF e3 h2 rep] .
        have "run_ok rt P {p} s3 (\<lambda>_ s'. \<exists>n' hs. holds_node P p n' s' \<and> n_hash n' = n_hash ?n3 @ hs
             \<and> n_type n' = n_type ?n3 \<and> n_class n' = n_class ?n3
             \<and> list_all2 (entry_rep (sv_rep rt s')) es hs) (import_entries imp rt p es s3)"
          using h3 unvisited_ext [OF fin e3] lt2 Cons.prems(2,3) n1 by (intro Cons.IH) simp_all
        then show "run_ok rt P {p} s3 ?Q (import_entries imp rt p es s3)"
        proof (rule run_ok_mono, elim exE conjE)
          fix s' n' hs
          assume e: "ext rt P {p} s3 s'" and h': "holds_node P p n' s'" and "n_hash n' = n_hash ?n3 @ hs"
            and "n_type n' = n_type ?n3" "n_class n' = n_class ?n3"
            and l: "list_all2 (entry_rep (sv_rep rt s')) es hs"
          moreover have "entry_rep (sv_rep rt s') kv \<lparr>entry_key = key, entry_value = c\<rparr>"
            using sv_rep_later [OF e h3 rep3] by (simp add: entry_rep_def kv)
          ultimately show "\<exists>n' hs. holds_node P p n' s' \<and> n_hash n' = n_hash n @ hs
             \<and> n_type n' = n_type n \<and> n_class n' = n_class n
             \<and> list_all2 (entry_rep (sv_rep rt s')) (kv # es) hs"
            using n1 by (intro exI [of _ n'] exI [of _ "\<lparr>entry_key = key, entry_value = c\<rparr> # hs"]) simp
        qed
      qed
    qed
    then show "run_ok rt P {p} s1 ?Q
       ((if \<not> rt_alloc rt (length key + 1) then xs_croak ''out of memory storing shared hash key'' else ?k) s1)"
      by (simp add: run_croak smooth_alloc)
  qed
  with kv wf pm run_get [OF Cons.prems(1)] show ?case
    by (auto intro!: run_ok_bind)
qed

subsection \<open>Slots\<close>

lemma slot_rep_later:
  "ext rt P {p} s s' \<Longrightarrow> holds_node P p n s \<Longrightarrow> slot_rep (sv_rep rt s) v c \<Longrightarrow> slot_rep (sv_rep rt s') v c"
  by (rule slot_rep_mono [of "sv_rep rt s"]) (rule sv_rep_later)

lemma run_slot:
  assumes "child_ok rt P fuel imp" and "holds_node P p n s" and "list_all (sv_closed P) (List.map_filter id [v])"
    and "card (unvisited P s) < fuel" and "upd 0 n = n"
    and "\<And>c s'. c < im_next s' \<Longrightarrow> fits s' n \<Longrightarrow> fits s' (upd c n)"
    and "\<And>c s'. ext rt P {p} s s' \<Longrightarrow> holds_node P p (upd c n) s' \<Longrightarrow> slot_rep (sv_rep rt s') v c
        \<Longrightarrow> card (unvisited P s') < fuel \<Longrightarrow> Q () s'"
  shows "run_ok rt P {p} s Q (import_slot imp p v upd s)"
proof (cases v)
  case None
  have wf: "im_wf P s" using assms(2) by (simp add: holds_node_def)
  have "Q () s" by (rule assms(7) [of s 0]) (use assms(2,4,5) wf None in simp_all)
  with None wf show ?thesis by (simp add: import_slot_def run_ok_return)
next
  case (Some w)
  have fin: "finite (dom P)" using assms(1) by (simp add: child_ok_def)
  have "run_ok rt P {p} s Q (xs_bind (imp w) (\<lambda>c. on_shared (node_set p (upd c))) s)"
  proof (rule run_child [OF assms(1,2) _ assms(4)])
    show "sv_closed P w" using assms(3) Some by (simp add: List.map_filter_def)
    fix c s1
    assume e1: "ext rt P {p} s s1" and h1: "holds_node P p n s1" and rep: "sv_rep rt s1 w c"
      and c: "c < im_next s1" and lt: "card (unvisited P s1) < fuel"
    have "run_ok rt P {p} s1 (\<lambda>_ s'. holds_node P p (upd c n) s') (on_shared (node_set p (upd c)) s1)"
      using h1 by (rule run_set) (rule assms(6) [OF c holds_node_fits [OF h1]])
    then show "run_ok rt P {p} s1 Q (on_shared (node_set p (upd c)) s1)"
    proof (rule run_ok_mono)
      fix u :: unit and s2
      assume e2: "ext rt P {p} s1 s2" and h2: "holds_node P p (upd c n) s2"
      have "ext rt P {p} s s2"
        using ext_trans [OF e1 e2] assms(2) by (simp add: holds_node_def)
      then have "Q () s2"
        by (rule assms(7) [OF _ h2])
          (use sv_rep_later [OF e2 h1 rep] unvisited_ext [OF fin e2] lt Some in auto)
      then show "Q u s2" by simp
    qed
  qed
  with Some show ?thesis by (simp add: import_slot_def)
qed

text \<open>The slots filled so far stay filled.\<close>

definition slots_rep :: "'nv perl_rt \<Rightarrow> 'nv import_state \<Rightarrow> ('nv perl_sv option \<times> ptr) list \<Rightarrow> bool" where
  "slots_rep rt s K \<longleftrightarrow> list_all (\<lambda>(v, c). slot_rep (sv_rep rt s) v c) K"

lemma slots_rep_later:
  "ext rt P {p} s s' \<Longrightarrow> holds_node P p n s \<Longrightarrow> slots_rep rt s K \<Longrightarrow> slots_rep rt s' K"
  unfolding slots_rep_def list_all_iff by (auto intro: slot_rep_later)

lemma then_slot:
  assumes "child_ok rt P fuel imp" and "holds_node P p n s" and "slots_rep rt s K"
    and "card (unvisited P s) < fuel" and "list_all (sv_closed P) (List.map_filter id [v])" and "upd 0 n = n"
    and "\<And>c s'. c < im_next s' \<Longrightarrow> fits s' n \<Longrightarrow> fits s' (upd c n)"
    and "\<And>c s'. holds_node P p (upd c n) s' \<Longrightarrow> slots_rep rt s' ((v, c) # K)
        \<Longrightarrow> card (unvisited P s') < fuel \<Longrightarrow> run_ok rt P {p} s' R (k s')"
  shows "run_ok rt P {p} s R (xs_then (import_slot imp p v upd) k s)"
proof (rule run_ok_then)
  show "run_ok rt P {p} s (\<lambda>_ s'. \<exists>c. ext rt P {p} s s' \<and> holds_node P p (upd c n) s'
      \<and> slot_rep (sv_rep rt s') v c \<and> card (unvisited P s') < fuel) (import_slot imp p v upd s)"
    using assms(1,2,5,4,6,7) by (rule run_slot) auto
  fix s'
  assume "\<exists>c. ext rt P {p} s s' \<and> holds_node P p (upd c n) s'
      \<and> slot_rep (sv_rep rt s') v c \<and> card (unvisited P s') < fuel"
  then show "run_ok rt P {p} s' R (k s')"
    using slots_rep_later [OF _ assms(2,3)] by (auto simp: slots_rep_def intro: assms(8))
qed (use assms(2) in \<open>auto simp: holds_node_def\<close>)

lemma import_glob_ok:
  assumes "child_ok rt P fuel imp" and "holds_node P p n s" and "ref_body x = Body_Glob sv av hv cv io"
    and "P r = Some x" and "card (unvisited P s) < fuel"
    and "list_all (sv_closed P) (body_svs (ref_body x))"
  shows "run_ok rt P {p} s (body_done rt P r x p)
     (shared_import_glob imp rt p r (ref_class x) sv av hv cv io s)"
proof -
  have fin: "finite (dom P)" using assms(1) by (simp add: child_ok_def)
  have closed: "list_all (sv_closed P) (List.map_filter id [sv])"
    "list_all (sv_closed P) (List.map_filter id [map_option SV_Ref av])"
    "list_all (sv_closed P) (List.map_filter id [map_option SV_Ref hv])"
    "list_all (sv_closed P) (List.map_filter id [map_option SV_Ref cv])"
    using assms(3,6) by (auto simp: List.map_filter_def split: option.splits if_splits)
  have count: "card (unvisited P s3) < fuel"
    if "ext rt P {p} s s1" "ext rt P {p} s1 s2" "ext rt P {p} s2 s3" for s1 s2 s3
    using unvisited_ext [OF fin that(1)] unvisited_ext [OF fin that(2)] unvisited_ext [OF fin that(3)] assms(5)
    by simp
  have dup: "0 \<le> rt_dup rt (io_source i)"
    if "io = Some i" "body_supported rt (ref_body x)" "0 \<le> io_source i" for i
    using that assms(3) by simp
  have finish: "body_done rt P r x p () s3"
    if "holds_node P p n' s3" "io_rep rt r io n'" "\<exists>h. n' = (captured rt io m)\<lparr>n_handle := h\<rparr>"
      and "m = empty_node\<lparr>n_type := SHARED_GLOB, n_class := node_class (ref_class x), n_glob_scalar := a,
             n_glob_array := b, n_glob_hash := c, n_glob_code := d\<rparr>"
      and "slots_rep rt s1 [(map_option SV_Ref cv, d), (map_option SV_Ref hv, c), (map_option SV_Ref av, b), (sv, a)]"
      and "ext rt P {p} s1 s2" "ext rt P {p} s2 s3" "holds_node P p m1 s1" "holds_node P p m2 s2"
    for n' m m1 m2 a b c d s1 s2 s3
    using slots_rep_later [OF that(7,9) slots_rep_later [OF that(6,8,5)]] that(1-4)
    by (auto intro!: body_doneI simp: node_rep_def assms(3) slots_rep_def)
  show ?thesis
    unfolding shared_import_glob_def
    apply (rule then_clear [OF assms(2)])
    apply (rule then_set, assumption, simp add: holds_node_fits)
    apply (rule then_class, assumption)
    apply (rule then_slot [where K = "[]", OF assms(1)], assumption, simp add: slots_rep_def,
        (erule (2) count), rule closed, simp add: empty_node_def, simp)
    apply (rule then_slot [OF assms(1)], assumption, assumption, assumption, rule closed, simp add: empty_node_def, simp)
    apply (rule then_slot [OF assms(1)], assumption, assumption, assumption, rule closed, simp add: empty_node_def, simp)
    apply (rule then_slot [OF assms(1)], assumption, assumption, assumption, rule closed, simp add: empty_node_def, simp)
    apply (rule then_capture [where P = P and r = r and x = x, OF _ assms(4)], assumption, rule dup, assumption+)
    apply (rule run_handle_tail [where P = P and r = r and x = x, OF _ _ assms(4)], assumption, assumption, simp)
    apply (rule finish, assumption, assumption, assumption, rule refl, assumption, assumption, assumption, assumption, assumption)
    done
qed

subsection \<open>One referent\<close>

text \<open>The part of \<open>import_body\<close> after the referent has entered the map.\<close>

fun import_tail :: "('nv perl_sv \<Rightarrow> ('nv import_state, ptr) xs) \<Rightarrow> 'nv perl_rt \<Rightarrow> ptr \<Rightarrow> nat
    \<Rightarrow> char list option \<Rightarrow> 'nv ref_body \<Rightarrow> ('nv import_state, unit) xs" where
  "import_tail imp rt p r cls (Body_Object fs) =
     xs_then (import_start rt p SHARED_OBJECT cls) (import_vector imp rt p fs)"
| "import_tail imp rt p r cls (Body_Array vs) =
     xs_then (import_start rt p SHARED_ARRAY cls) (import_vector imp rt p vs)"
| "import_tail imp rt p r cls (Body_Hash es) =
     xs_then (import_start rt p SHARED_HASH cls) (import_entries imp rt p es)"
| "import_tail imp rt p r cls (Body_Scalar v) =
     xs_then (import_start rt p SHARED_SCALARREF cls) (import_slot imp p (Some v) (\<lambda>c n. n\<lparr>n_scalarref := c\<rparr>))"
| "import_tail imp rt p r cls Body_Code = on_shared (shared_import_code rt p r)"
| "import_tail imp rt p r cls (Body_Glob sv av hv cv io) = shared_import_glob imp rt p r cls sv av hv cv io"
| "import_tail imp rt p r cls (Body_Regexp pv) = on_shared (shared_import_regexp rt p cls pv)"
| "import_tail imp rt p r cls (Body_IO io) = on_shared (shared_import_io rt p r cls io)"
| "import_tail imp rt p r cls (Body_Format st nm) = on_shared (shared_import_format rt p st nm)"
| "import_tail imp rt p r cls (Body_Other _) = xs_return ()"

lemma import_body_cases:
  "(\<exists>msg. import_body imp rt p r x = xs_croak msg \<and> \<not> body_supported rt (ref_body x))
   \<or> ((\<forall>t. ref_body x \<noteq> Body_Other t)
      \<and> import_body imp rt p r x = xs_then (import_map_add rt r p) (import_tail imp rt p r (ref_class x) (ref_body x)))"
  by (cases "ref_body x") (auto simp: import_body_def Let_def)

lemma import_tail_ok:
  assumes "child_ok rt P fuel imp" and "holds_node P p empty_node s" and "P r = Some x"
    and "card (unvisited P s) < fuel" and "store_ok P" and "\<And>t. ref_body x \<noteq> Body_Other t"
  shows "run_ok rt P {p} s (body_done rt P r x p) (import_tail imp rt p r (ref_class x) (ref_body x) s)"
proof -
  have fin: "finite (dom P)" using assms(1) by (simp add: child_ok_def)
  have closed: "list_all (sv_closed P) (body_svs (ref_body x))" and len: "body_length (ref_body x) \<le> 2 ^ 58"
    using assms(3,5) by (auto simp: store_ok_def)
  have lt: "card (unvisited P s') < fuel" if "ext rt P {p} s s'" for s'
    using unvisited_ext [OF fin that] assms(4) by simp
  let ?n = "\<lambda>ty. empty_node\<lparr>n_type := ty, n_class := node_class (ref_class x)\<rparr>"
  show ?thesis
  proof (cases "ref_body x")
    case (Body_Object fs)
    have "run_ok rt P {p} s' (body_done rt P r x p) (import_vector imp rt p fs s')"
      if "ext rt P {p} s s'" and "holds_node P p (?n SHARED_OBJECT) s'" for s'
      by (rule import_vector_ok [OF assms(1) that(2) _ _ _ _ lt [OF that(1)]])
        (use closed len Body_Object in \<open>auto intro!: body_doneI simp: node_rep_def\<close>)
    then show ?thesis by (auto simp: Body_Object intro: then_start [OF assms(2)])
  next
    case (Body_Array vs)
    have "run_ok rt P {p} s' (body_done rt P r x p) (import_vector imp rt p vs s')"
      if "ext rt P {p} s s'" and "holds_node P p (?n SHARED_ARRAY) s'" for s'
      by (rule import_vector_ok [OF assms(1) that(2) _ _ _ _ lt [OF that(1)]])
        (use closed len Body_Array in \<open>auto intro!: body_doneI simp: node_rep_def\<close>)
    then show ?thesis by (auto simp: Body_Array intro: then_start [OF assms(2)])
  next
    case (Body_Hash es)
    have "run_ok rt P {p} s' (body_done rt P r x p) (import_entries imp rt p es s')"
      if "ext rt P {p} s s'" and "holds_node P p (?n SHARED_HASH) s'" for s'
      by (rule run_ok_mono, rule import_entries_ok [OF assms(1) that(2) _ _ lt [OF that(1)]])
        (use closed len Body_Hash in \<open>auto intro!: body_doneI simp: node_rep_def\<close>)
    then show ?thesis by (auto simp: Body_Hash intro: then_start [OF assms(2)])
  next
    case (Body_Scalar v)
    have null: "(?n SHARED_SCALARREF)\<lparr>n_scalarref := 0\<rparr> = ?n SHARED_SCALARREF"
      by (simp add: empty_node_def)
    have "run_ok rt P {p} s' (body_done rt P r x p) (import_slot imp p (Some v) (\<lambda>c n. n\<lparr>n_scalarref := c\<rparr>) s')"
      if "ext rt P {p} s s'" and "holds_node P p (?n SHARED_SCALARREF) s'" for s'
      by (rule run_slot [OF assms(1) that(2) _ lt [OF that(1)]])
        (use closed Body_Scalar null in \<open>auto intro!: body_doneI simp: node_rep_def List.map_filter_def\<close>)
    then show ?thesis by (auto simp: Body_Scalar intro: then_start [OF assms(2)])
  next
    case Body_Code
    with assms show ?thesis by (auto intro: import_code_ok)
  next
    case (Body_Glob sv av hv cv io)
    with assms closed show ?thesis by (auto intro: import_glob_ok)
  next
    case (Body_Regexp pv)
    with assms show ?thesis by (auto intro: import_regexp_ok)
  next
    case (Body_IO io)
    with assms show ?thesis by (auto intro: import_io_ok)
  next
    case (Body_Format st nm)
    with assms show ?thesis by (auto intro: import_format_ok)
  qed (use assms(6) in simp)
qed

lemma import_body_ok:
  assumes "child_ok rt P fuel imp" and "store_ok P" and "P r = Some x"
    and "im_wf P s" and "im_heap s p = Some empty_node" and "p \<notin> im_nodes s"
    and "r \<notin> fst ` set (im_map s)" and "card (unvisited P s) \<le> fuel"
  shows "xs_ok (\<lambda>s'. \<not> smooth rt P \<and> same_old {p} s s')
     (\<lambda>_ s'. same_old {p} s s' \<and> im_wf P s' \<and> drawn rt P s' (r, p)
        \<and> (\<exists>new. im_map s' = im_map s @ (r, p) # new \<and> (\<forall>rp\<in>set new. im_next s \<le> snd rp \<and> drawn rt P s' rp)))
     (import_body imp rt p r x s)"
  using import_body_cases [of imp rt p r x]
proof (elim disjE exE conjE)
  fix msg
  assume "import_body imp rt p r x = xs_croak msg" and "\<not> body_supported rt (ref_body x)"
  then show ?thesis using assms(3) by (auto simp: xs_croak_def smooth_def)
next
  assume body: "import_body imp rt p r x = xs_then (import_map_add rt r p) (import_tail imp rt p r (ref_class x) (ref_body x))"
    and sup: "\<forall>t. ref_body x \<noteq> Body_Other t"
  have fin: "finite (dom P)" using assms(1) by (simp add: child_ok_def)
  let ?added = "\<lambda>s1. holds_node P p empty_node s1 \<and> im_map s1 = im_map s @ [(r, p)] \<and> im_shared s1 = im_shared s"
  have pos: "0 < p" "p < im_next s"
    using assms(4,5) heap_wfD(1,2) [of "im_shared s" p empty_node] by (simp_all add: im_wf_def)
  show ?thesis unfolding body
  proof (rule xs_ok_then [where Q = "\<lambda>_. ?added"])
    have "?added (s\<lparr>im_map := im_map s @ [(r, p)], im_capacity := c\<rparr>)" for c
      using assms(3-7) pos by (auto simp: holds_node_def im_wf_def)
    moreover have "?added (s\<lparr>im_map := im_map s @ [(r, p)]\<rparr>)"
      using assms(3-7) pos by (auto simp: holds_node_def im_wf_def)
    ultimately show "xs_ok (\<lambda>s'. \<not> smooth rt P \<and> same_old {p} s s') (\<lambda>_. ?added) (import_map_add rt r p s)"
      by (auto simp: import_map_add_def Let_def smooth_alloc)
    fix s1
    assume s1: "?added s1"
    have "unvisited P s1 = unvisited P s - {r}" using s1 by (auto simp: unvisited_def)
    moreover have "r \<in> unvisited P s" using assms(3,7) by (auto simp: unvisited_def)
    moreover have "finite (unvisited P s)" using fin by (simp add: unvisited_def)
    ultimately have "card (unvisited P s1) < fuel"
      using assms(8) by (metis card_Diff1_less less_le_trans)
    then have "run_ok rt P {p} s1 (body_done rt P r x p) (import_tail imp rt p r (ref_class x) (ref_body x) s1)"
      using s1 assms(1-3) sup by (intro import_tail_ok) auto
    then show "xs_ok (\<lambda>s'. \<not> smooth rt P \<and> same_old {p} s s')
     (\<lambda>_ s'. same_old {p} s s' \<and> im_wf P s' \<and> drawn rt P s' (r, p)
        \<and> (\<exists>new. im_map s' = im_map s @ (r, p) # new \<and> (\<forall>rp\<in>set new. im_next s \<le> snd rp \<and> drawn rt P s' rp)))
     (import_tail imp rt p r (ref_class x) (ref_body x) s1)"
      unfolding run_ok_def
      by (rule xs_ok_mono)
        (use s1 assms(3) in \<open>auto simp: same_old_def ext_def body_done_def drawn_def holds_node_def\<close>)
  qed
qed

subsection \<open>The whole value\<close>

definition placed :: "'nv perl_rt \<Rightarrow> 'nv perl_store \<Rightarrow> 'nv import_state \<Rightarrow> ptr \<Rightarrow> 'nv perl_sv
    \<Rightarrow> ptr \<Rightarrow> 'nv import_state \<Rightarrow> bool" where
  "placed rt P s p v c s' \<longleftrightarrow>
     same_old {p} s s' \<and> im_wf P s' \<and> sv_rep rt s' v c \<and> c < im_next s'
   \<and> (\<exists>new. im_map s' = im_map s @ new \<and> (\<forall>rp\<in>set new. (snd rp = p \<or> im_next s \<le> snd rp) \<and> drawn rt P s' rp))"

lemma shared_import_scalar_ok:
  assumes "sh_heap h p = Some n" and "\<not> SvROK v"
  shows "xs_ok (\<lambda>t. alloc_may_fail rt \<and> sh_next t = sh_next h \<and> sh_lock t = sh_lock h \<and> (\<exists>n'. sh_heap t = (sh_heap h)(p \<mapsto> n')))
     (\<lambda>_ t. sh_next t = sh_next h \<and> sh_lock t = sh_lock h \<and> sh_heap t = (sh_heap h)(p \<mapsto> scalar_node rt v))
     (shared_import_scalar rt p v h)"
proof (cases v)
  case (SV_Scalar x)
  with assms show ?thesis
    by (cases "sv_iv x"; cases "sv_nv x"; cases "sv_pv x")
      (auto simp: shared_import_scalar_def shared_node_clear_def node_set_def store_pv_def xs_simps)
qed (use assms in \<open>simp_all add: shared_import_scalar_def shared_node_clear_def xs_simps\<close>)

lemma scalar_node_fits: "0 < im_next s \<Longrightarrow> fits s (scalar_node rt v)"
  by (cases v) (simp_all add: fits_def node_wf_def node_ptrs_def empty_node_def)

lemma import_at_ok:
  assumes "child_ok rt P fuel imp" and "store_ok P" and "sv_closed P v"
    and "im_wf P s" and "im_heap s p = Some n" and "p \<notin> im_nodes s" and "card (unvisited P s) \<le> fuel"
  shows "xs_ok (\<lambda>s'. \<not> smooth rt P \<and> same_old {p} s s') (placed rt P s p v) (import_at imp rt P v p s)"
proof (cases v)
  case (SV_Ref r)
  show ?thesis
  proof (cases "map_of (im_map s) r")
    case (Some m)
    then have "m \<in> im_nodes s" by (force dest: map_of_SomeD)
    then have "m < im_next s" using im_nodes_bound [OF assms(4)] by blast
    with Some assms(4) have "placed rt P s p v m s"
      by (simp add: placed_def sv_rep_def SV_Ref)
    with Some show ?thesis
      by (simp add: import_at_def SV_Ref import_map_find_def xs_bind_def xs_return_def)
  next
    case None
    then have r: "r \<notin> fst ` set (im_map s)" by (simp add: map_of_eq_None_iff)
    obtain x where x: "P r = Some x" using assms(3) SV_Ref by (auto simp: sv_closed_def)
    obtain c where clear: "on_shared (shared_node_clear p) s
      = (Ret (), s\<lparr>im_shared := (im_shared s)\<lparr>sh_heap := (im_heap s)(p \<mapsto> empty_node), sh_closed := c\<rparr>\<rparr>)"
      (is "_ = (Ret (), ?s1)")
      using assms(5) by (simp add: on_shared_def shared_node_clear_def)
    have h: "heap_wf (im_shared s)" using assms(4) by (simp add: im_wf_def)
    have "heap_wf ((im_shared s)\<lparr>sh_heap := (im_heap s)(p \<mapsto> empty_node)\<rparr>)"
      using h assms(5) by (rule heap_wf_set) (use h in \<open>simp_all add: heap_wf_def\<close>)
    then have wf1: "im_wf P ?s1"
      using assms(4) by (simp add: im_wf_def)
    have "unvisited P ?s1 = unvisited P s" by (simp add: unvisited_def)
    then have body: "xs_ok (\<lambda>s'. \<not> smooth rt P \<and> same_old {p} ?s1 s')
     (\<lambda>_ s'. same_old {p} ?s1 s' \<and> im_wf P s' \<and> drawn rt P s' (r, p)
        \<and> (\<exists>new. im_map s' = im_map ?s1 @ (r, p) # new \<and> (\<forall>rp\<in>set new. im_next ?s1 \<le> snd rp \<and> drawn rt P s' rp)))
     (import_body imp rt p r x ?s1)"
      using assms(1,2,6,7) x wf1 r by (intro import_body_ok) simp_all
    have "xs_ok (\<lambda>s'. \<not> smooth rt P \<and> same_old {p} s s') (placed rt P s p v)
      (xs_then (import_body imp rt p r x) (xs_return p) ?s1)"
    proof (rule xs_ok_then)
      show "xs_ok (\<lambda>s'. \<not> smooth rt P \<and> same_old {p} s s') (\<lambda>_ s'. placed rt P s p v p s')
        (import_body imp rt p r x ?s1)"
        using body
      proof (rule xs_ok_mono)
        fix u :: unit and s'
        assume "same_old {p} ?s1 s' \<and> im_wf P s' \<and> drawn rt P s' (r, p)
          \<and> (\<exists>new. im_map s' = im_map ?s1 @ (r, p) # new \<and> (\<forall>rp\<in>set new. im_next ?s1 \<le> snd rp \<and> drawn rt P s' rp))"
        then obtain new where o: "same_old {p} ?s1 s'" and w: "im_wf P s'" and d: "drawn rt P s' (r, p)"
          and new: "im_map s' = im_map s @ (r, p) # new" "\<forall>rp\<in>set new. im_next s \<le> snd rp \<and> drawn rt P s' rp"
          by auto
        have "p < im_next s'" using im_nodes_bound [OF w, of p] new(1) by simp
        moreover have "map_of (im_map s') r = Some p"
          using None new(1) by (simp add: map_add_def)
        moreover have "same_old {p} s s'" using o by (simp add: same_old_def)
        ultimately show "placed rt P s p v p s'"
          using w d new by (auto simp: placed_def sv_rep_def SV_Ref intro!: exI [of _ "(r, p) # new"])
      qed (simp add: same_old_def)
    qed (simp add: xs_return_def)
    with None x clear show ?thesis
      by (simp add: import_at_def SV_Ref import_map_find_def xs_bind_Ret xs_then_Ret)
  qed
next
  have not_ref: "import_at imp rt P v p s = xs_then (on_shared (shared_import_scalar rt p v)) (xs_return p) s"
    if "\<not> SvROK v"
    using that by (cases v) (simp_all add: import_at_def)
  have scalar: ?thesis if nr: "\<not> SvROK v"
    unfolding not_ref [OF nr]
  proof (rule xs_ok_then)
    have h: "heap_wf (im_shared s)" using assms(4) by (simp add: im_wf_def)
    then have "p < im_next s" using assms(5) by (rule heap_wfD)
    have placed: "placed rt P s p v p (s\<lparr>im_shared := t\<rparr>)"
      if t: "sh_next t = im_next s" "sh_lock t = sh_lock (im_shared s)" "sh_heap t = (im_heap s)(p \<mapsto> scalar_node rt v)" for t
    proof -
      have "fits s (scalar_node rt v)" using h by (intro scalar_node_fits) (simp add: heap_wf_def)
      then have "heap_wf ((im_shared s)\<lparr>sh_heap := sh_heap t\<rparr>)"
        unfolding t(3) using h assms(5) by (intro heap_wf_set) (simp_all add: fits_def)
      then have "heap_wf t" using t by (simp add: heap_wf_def)
      then have "im_wf P (s\<lparr>im_shared := t\<rparr>)" using assms(4) t(1) by (simp add: im_wf_def)
      moreover have "sv_rep rt (s\<lparr>im_shared := t\<rparr>) v p"
        using nr assms(6) t(3) by (cases v) (simp_all add: sv_rep_def)
      ultimately show ?thesis
        using t \<open>p < im_next s\<close> by (simp add: placed_def same_old_def)
    qed
    obtain out t where run: "shared_import_scalar rt p v (im_shared s) = (out, t)"
      by (cases "shared_import_scalar rt p v (im_shared s)")
    show "xs_ok (\<lambda>s'. \<not> smooth rt P \<and> same_old {p} s s') (\<lambda>_ s'. placed rt P s p v p s')
       (on_shared (shared_import_scalar rt p v) s)"
      using shared_import_scalar_ok [OF assms(5) nr, of rt] placed [of t]
      by (cases out) (auto simp: on_shared_def run smooth_def same_old_def)
  qed (simp add: xs_return_def)
  { case SV_Undef then show ?thesis using scalar by simp
  next case (SV_Scalar x2) then show ?thesis using scalar by simp }
qed

lemma import_value_child_ok:
  assumes "store_ok P"
  shows "child_ok rt P fuel (import_value fuel rt P None)"
proof (induction fuel)
  case 0
  then show ?case using assms by (simp add: child_ok_def store_ok_def)
next
  case (Suc fuel)
  show ?case unfolding child_ok_def
  proof (intro conjI allI impI)
    show "finite (dom P)" using assms by (simp add: store_ok_def)
    fix s v
    assume wf: "im_wf P s" and v: "sv_closed P v" and "card (unvisited P s) < Suc fuel"
    then have c: "card (unvisited P s) \<le> fuel" by simp
    let ?p = "im_next s"
    let ?s1 = "s\<lparr>im_shared := (im_shared s)\<lparr>sh_heap := (im_heap s)(?p \<mapsto> empty_node), sh_next := Suc ?p\<rparr>\<rparr>"
    have wf1: "im_wf P ?s1" using wf heap_wf_new [of "im_shared s"] by (fastforce simp: im_wf_def)
    have new: "?p \<notin> im_nodes s" using im_nodes_bound [OF wf, of ?p] by blast
    have u: "unvisited P ?s1 = unvisited P s" by (simp add: unvisited_def)
    have run: "xs_ok (\<lambda>s'. \<not> smooth rt P \<and> same_old {?p} ?s1 s') (placed rt P ?s1 ?p v)
        (import_at (import_value fuel rt P None) rt P v ?p ?s1)"
      using wf1 new c u by (intro import_at_ok [OF Suc assms v, where n = empty_node]) simp_all
    have old: "same_old {} s s'" if "same_old {?p} ?s1 s'" for s'
      using that by (auto simp: same_old_def)
    have "xs_ok (\<lambda>s'. \<not> smooth rt P \<and> same_old {} s s') (\<lambda>c s'. ext rt P {} s s' \<and> sv_rep rt s' v c \<and> c < im_next s')
        (import_at (import_value fuel rt P None) rt P v ?p ?s1)"
      using run by (rule xs_ok_mono) (use old in \<open>fastforce simp: placed_def ext_def\<close>)+
    then show "run_ok rt P {} s (\<lambda>c s'. sv_rep rt s' v c \<and> c < im_next s') (import_value (Suc fuel) rt P None v s)"
      by (simp add: run_ok_def xs_bind_def on_shared_def shared_node_new_def smooth_alloc)
  qed
qed

subsection \<open>What an import leaves\<close>

text \<open>
  \<open>graph_of rt P s v p\<close>: \<open>p\<close> represents the value, every referent in the map has the node
  that the map gives it, filled as the referent asks, no referent has two nodes and no node
  stands for two referents.
\<close>

definition graph_of :: "'nv perl_rt \<Rightarrow> 'nv perl_store \<Rightarrow> 'nv import_state \<Rightarrow> 'nv perl_sv \<Rightarrow> ptr \<Rightarrow> bool" where
  "graph_of rt P s v p \<longleftrightarrow>
     sv_rep rt s v p \<and> distinct (map fst (im_map s)) \<and> distinct (map snd (im_map s))
   \<and> (\<forall>rp\<in>set (im_map s). drawn rt P s rp)"

definition import_start_state :: "'nv shared_state \<Rightarrow> 'nv import_state" where
  "import_start_state h = \<lparr>im_shared = h, im_map = [], im_capacity = 0\<rparr>"

inductive reaches :: "'nv perl_store \<Rightarrow> 'nv perl_sv \<Rightarrow> nat \<Rightarrow> bool" for P v where
  reaches_here: "v = SV_Ref r \<Longrightarrow> reaches P v r"
| reaches_step: "reaches P v r \<Longrightarrow> P r = Some x \<Longrightarrow> SV_Ref r' \<in> set (body_svs (ref_body x)) \<Longrightarrow> reaches P v r'"

lemma slot_rep_children: "list_all2 (slot_rep R) vs cs \<Longrightarrow> w \<in> set (List.map_filter id vs) \<Longrightarrow> \<exists>c. R w c"
  by (induction rule: list_all2_induct) (auto simp: List.map_filter_def split: option.splits if_splits)

lemma entry_rep_children: "list_all2 (entry_rep R) es hs \<Longrightarrow> w \<in> set (List.map snd es) \<Longrightarrow> \<exists>c. R w c"
  by (induction rule: list_all2_induct) (auto simp: entry_rep_def)

lemma body_rep_children:
  assumes "body_rep rt R r b n" and "w \<in> set (body_svs b)"
  shows "\<exists>c. R w c"
proof (cases b)
  case (Body_Hash es)
  with assms entry_rep_children [of R es "n_hash n" w] show ?thesis by simp
next
  case (Body_Array vs)
  with assms slot_rep_children [of R vs _ w] show ?thesis by (auto simp: vector_rep_def)
next
  case (Body_Object vs)
  with assms slot_rep_children [of R vs _ w] show ?thesis by (auto simp: vector_rep_def)
next
  case (Body_Glob sv av hv cv io)
  with assms show ?thesis by (auto simp: List.map_filter_def split: option.splits if_splits)
qed (use assms in auto)

lemma graph_of_reaches:
  assumes "graph_of rt P s v p" and "reaches P v r"
  shows "\<exists>q. map_of (im_map s) r = Some q \<and> drawn rt P s (r, q)"
  using assms(2)
proof induction
  case (reaches_here r)
  then have "map_of (im_map s) r = Some p" using assms(1) by (simp add: graph_of_def sv_rep_def)
  then show ?case using assms(1) by (auto simp: graph_of_def dest: map_of_SomeD)
next
  case (reaches_step r x r')
  then obtain q n where "im_heap s q = Some n" and "body_rep rt (sv_rep rt s) r (ref_body x) n"
    by (auto simp: drawn_def node_rep_def)
  then obtain c where "sv_rep rt s (SV_Ref r') c"
    using body_rep_children reaches_step.hyps(3) by blast
  then have "map_of (im_map s) r' = Some c" by (simp add: sv_rep_def)
  then show ?case using assms(1) by (auto simp: graph_of_def dest: map_of_SomeD)
qed

lemma import_value_pref_ok:
  assumes "store_ok P" and "sv_closed P v" and "heap_wf h" and "sh_heap h d = Some n" and "card (dom P) < fuel"
  shows "xs_ok (\<lambda>s'. \<not> smooth rt P \<and> same_old {d} (import_start_state h) s')
     (placed rt P (import_start_state h) d v) (import_value fuel rt P (Some d) v (import_start_state h))"
proof -
  obtain k where fuel: "fuel = Suc k" using assms(5) by (cases fuel) auto
  have "im_wf P (import_start_state h)" and "unvisited P (import_start_state h) = dom P"
    using assms(3) by (simp_all add: im_wf_def import_start_state_def unvisited_def)
  then have "xs_ok (\<lambda>s'. \<not> smooth rt P \<and> same_old {d} (import_start_state h) s')
     (placed rt P (import_start_state h) d v) (import_at (import_value k rt P None) rt P v d (import_start_state h))"
    using import_value_child_ok [OF assms(1), of rt k] assms(1-4) assms(5) [unfolded fuel less_Suc_eq_le]
    by (intro import_at_ok [where n = n]) (simp_all add: import_start_state_def)
  then show ?thesis by (simp add: fuel xs_bind_simps)
qed

lemma ext_start_graph:
  assumes "ext rt P {} (import_start_state h) s'" and "sv_rep rt s' v p"
  shows "graph_of rt P s' v p \<and> heap_wf (im_shared s') \<and> sh_lock (im_shared s') = sh_lock h
     \<and> (\<forall>q < sh_next h. im_heap s' q = sh_heap h q)"
  using assms by (auto simp: ext_def im_wf_def same_old_def graph_of_def import_start_state_def)

lemma import_value_graph:
  assumes "store_ok P" and "sv_closed P v" and "heap_wf h" and "card (dom P) < fuel"
  shows "xs_ok (\<lambda>s'. \<not> smooth rt P \<and> sh_lock (im_shared s') = sh_lock h
           \<and> (\<forall>q < sh_next h. im_heap s' q = sh_heap h q))
     (\<lambda>p s'. graph_of rt P s' v p \<and> heap_wf (im_shared s') \<and> sh_lock (im_shared s') = sh_lock h
           \<and> (\<forall>q < sh_next h. im_heap s' q = sh_heap h q))
     (import_value fuel rt P None v (import_start_state h))"
proof -
  have "im_wf P (import_start_state h)" and "unvisited P (import_start_state h) = dom P"
    using assms(3) by (simp_all add: im_wf_def import_start_state_def unvisited_def)
  then have "run_ok rt P {} (import_start_state h) (\<lambda>c s'. sv_rep rt s' v c \<and> c < im_next s')
      (import_value fuel rt P None v (import_start_state h))"
    using import_value_child_ok [OF assms(1), of rt fuel] assms(2,4) by (simp add: child_ok_def)
  then show ?thesis unfolding run_ok_def
  proof (rule xs_ok_mono)
    fix p s'
    assume "ext rt P {} (import_start_state h) s' \<and> sv_rep rt s' v p \<and> p < im_next s'"
    then show "graph_of rt P s' v p \<and> heap_wf (im_shared s') \<and> sh_lock (im_shared s') = sh_lock h
           \<and> (\<forall>q < sh_next h. im_heap s' q = sh_heap h q)"
      using ext_start_graph by blast
  qed (simp add: same_old_def import_start_state_def)
qed

subsection \<open>Two small Perl stores\<close>

text \<open>\<open>my $a = [undef, $a]\<close>-like: an array whose second element refers to the array itself.\<close>

definition cyclic_store :: "int perl_store" where
  "cyclic_store = [0 \<mapsto> \<lparr>ref_class = None, ref_body = Body_Array [Some SV_Undef, Some (SV_Ref 0)]\<rparr>]"

definition empty_shared :: "'nv shared_state" where
  "empty_shared = \<lparr>sh_heap = (\<lambda>_. None), sh_next = 1, sh_lock = 0, sh_closed = []\<rparr>"

definition roomy_rt :: "int perl_rt" where
  "roomy_rt = int_rt\<lparr>rt_alloc := (\<lambda>_. True)\<rparr>"

lemma cyclic_store_ok: "store_ok cyclic_store" "sv_closed cyclic_store (SV_Ref 0)" "card (dom cyclic_store) = 1"
  by (simp_all add: store_ok_def cyclic_store_def sv_closed_def List.map_filter_def)

lemma empty_shared_wf: "heap_wf empty_shared"
  by (auto simp: heap_wf_def empty_shared_def)

lemma cyclic_smooth: "smooth roomy_rt cyclic_store"
  by (auto simp: smooth_def roomy_rt_def int_rt_def alloc_may_fail_def cyclic_store_def)

section \<open>Properties\<close>

text \<open>C1: importing any closed Perl value into a well-formed shared store never reaches
  undefined behaviour and never runs out of depth once the bound exceeds the number of
  referents. When it returns, the node it returns represents the value with all its aliases
  and cycles: every referent met has exactly one node, no node stands for two referents, and
  each is filled as its kind asks. The nodes that existed before are untouched, the lock is
  as it was, and the store stays well formed. It croaks only when the allocator, the
  interpreter clone, a descriptor or the kind of a referent refuses, and even then no older
  node has changed.\<close>

theorem shared_import_value_graph:
  assumes "store_ok P" and "sv_closed P v" and "heap_wf h" and "card (dom P) < fuel"
  shows "xs_ok (\<lambda>s'. \<not> smooth rt P \<and> sh_lock (im_shared s') = sh_lock h
           \<and> (\<forall>q < sh_next h. im_heap s' q = sh_heap h q))
     (\<lambda>p s'. graph_of rt P s' v p \<and> heap_wf (im_shared s') \<and> sh_lock (im_shared s') = sh_lock h
           \<and> (\<forall>q < sh_next h. im_heap s' q = sh_heap h q))
     (import_value fuel rt P None v (import_start_state h))"
  using assms by (rule import_value_graph)

theorem shared_import_value_graph_witness:
  "xs_ok (\<lambda>s'. \<not> smooth roomy_rt cyclic_store \<and> sh_lock (im_shared s') = sh_lock (empty_shared :: int shared_state)
           \<and> (\<forall>q < sh_next (empty_shared :: int shared_state). im_heap s' q = sh_heap empty_shared q))
     (\<lambda>p s'. graph_of roomy_rt cyclic_store s' (SV_Ref 0) p \<and> heap_wf (im_shared s')
           \<and> sh_lock (im_shared s') = sh_lock (empty_shared :: int shared_state)
           \<and> (\<forall>q < sh_next (empty_shared :: int shared_state). im_heap s' q = sh_heap empty_shared q))
     (import_value 2 roomy_rt cyclic_store None (SV_Ref 0) (import_start_state empty_shared))"
  by (rule shared_import_value_graph) (simp_all add: cyclic_store_ok empty_shared_wf)

text \<open>C2: when nothing outside the code refuses a request, sharing a value succeeds, and every
  referent that can be reached from the value through arrays, hashes, objects, scalar
  references and glob slots has a node of its own that represents it.\<close>

theorem shared_import_value_complete:
  assumes "store_ok P" and "sv_closed P v" and "heap_wf h" and "card (dom P) < fuel" and "smooth rt P"
  shows "\<exists>p s'. import_value fuel rt P None v (import_start_state h) = (Ret p, s')
     \<and> (\<forall>r. reaches P v r \<longrightarrow> (\<exists>q. map_of (im_map s') r = Some q \<and> drawn rt P s' (r, q)))"
proof -
  let ?res = "import_value fuel rt P None v (import_start_state h)"
  have run: "xs_ok (\<lambda>_. False) (\<lambda>p s'. graph_of rt P s' v p) ?res"
    using import_value_graph [OF assms(1-4), of rt] by (rule xs_ok_mono) (use assms(5) in simp_all)
  obtain out s' where res: "?res = (out, s')" by (cases ?res)
  with run obtain p where "out = Ret p" and "graph_of rt P s' v p" by (cases out) auto
  with res graph_of_reaches show ?thesis by blast
qed

theorem shared_import_value_complete_witness:
  "\<exists>p s'. import_value 2 roomy_rt cyclic_store None (SV_Ref 0) (import_start_state empty_shared) = (Ret p, s')
     \<and> (\<forall>r. reaches cyclic_store (SV_Ref 0) r \<longrightarrow>
          (\<exists>q. map_of (im_map s') r = Some q \<and> drawn roomy_rt cyclic_store s' (r, q)))"
  by (rule shared_import_value_complete) (simp_all add: cyclic_store_ok empty_shared_wf cyclic_smooth)

text \<open>C3: storing a value into an existing node (\<open>shared_import_into\<close>) changes no other node
  that existed before, keeps the lock and the store well formed, and croaks only for a
  reason outside the code.\<close>

theorem shared_import_into_frame:
  assumes "store_ok P" and "sv_closed P v" and "heap_wf h" and "sh_heap h d = Some n" and "card (dom P) < fuel"
  shows "xs_ok (\<lambda>h'. \<not> smooth rt P \<and> sh_lock h' = sh_lock h \<and> (\<forall>q < sh_next h. q \<noteq> d \<longrightarrow> sh_heap h' q = sh_heap h q))
     (\<lambda>_ h'. heap_wf h' \<and> sh_lock h' = sh_lock h \<and> (\<forall>q < sh_next h. q \<noteq> d \<longrightarrow> sh_heap h' q = sh_heap h q))
     (shared_import_into fuel rt P d v h)"
proof -
  obtain out s' where run: "import_value fuel rt P (Some d) v (import_start_state h) = (out, s')"
    by (cases "import_value fuel rt P (Some d) v (import_start_state h)")
  then show ?thesis
    using import_value_pref_ok [OF assms(1-4) assms(5), of rt]
    by (cases out) (simp_all add: shared_import_into_def placed_def same_old_def im_wf_def import_start_state_def)
qed

theorem shared_import_into_frame_witness:
  "xs_ok (\<lambda>h'. \<not> smooth roomy_rt cyclic_store \<and> sh_lock h' = 0 \<and> (\<forall>q<2. q \<noteq> 1 \<longrightarrow> sh_heap h' q = None))
     (\<lambda>_ h'. heap_wf h' \<and> sh_lock h' = 0 \<and> (\<forall>q<2. q \<noteq> 1 \<longrightarrow> sh_heap h' q = None))
     (shared_import_into 2 roomy_rt cyclic_store 1 (SV_Ref 0)
        (empty_shared\<lparr>sh_heap := [1 \<mapsto> empty_node], sh_next := 2\<rparr>))"
proof -
  let ?h = "(empty_shared :: int shared_state)\<lparr>sh_heap := [1 \<mapsto> empty_node], sh_next := 2\<rparr>"
  have "heap_wf ?h" by (auto simp: heap_wf_def)
  then show ?thesis
    using shared_import_into_frame [of cyclic_store "SV_Ref 0" ?h 1 empty_node 2 roomy_rt]
    by (simp add: cyclic_store_ok empty_shared_def)
qed

end
