(* ===== verification/Shared_Scalar.thy ===== *)
theory Shared_Scalar
  imports Shared_Access "HOL-Library.Signed_Division"
begin

section \<open>Shared scalars (GoRoutine012Native.h, GoRoutine012.xs)\<close>

text \<open>
  Reading a scalar node back as a Perl value, writing one, and \<open>shared_apply\<close>, which performs
  an overloaded operator in place under the lock. \<open>IV\<close> arithmetic is on 64-bit words read
  signed; the increment of the largest \<open>IV\<close>, the decrement of the smallest and the
  remainder of the smallest by -1 are undefined in C, so they are faults. \<open>NV\<close> arithmetic
  is the interpreter's \<open>double\<close>, a parameter.
\<close>

subsection \<open>Reading\<close>

definition undef_scalar :: "'nv perl_scalar" where
  "undef_scalar = \<lparr>sv_iv = None, sv_nv = None, sv_pv = None, sv_utf8 = False, sv_tainted = False\<rparr>"

fun copy_scalar :: "'nv perl_rt \<Rightarrow> 'nv shared_node \<Rightarrow> 'nv perl_scalar option" where
  "copy_scalar rt n =
     (if n_type n = SHARED_IV then Some (newSViv (n_iv n))
      else if n_type n = SHARED_NV then Some (newSVnv (case n_nv n of Some x \<Rightarrow> x | None \<Rightarrow> rt_nv_zero rt))
      else if n_type n = SHARED_PV
      then Some ((newSVpvn (case n_pv n of Some bs \<Rightarrow> bs | None \<Rightarrow> []))\<lparr>sv_utf8 := n_pv_utf8 n\<rparr>)
      else if n_type n = SHARED_UNDEF then Some undef_scalar
      else None)"

definition shared_copy_scalar :: "'nv perl_rt \<Rightarrow> 'nv shared_node \<Rightarrow> ('nv shared_state, 'nv perl_scalar) xs" where
  "shared_copy_scalar rt n =
     (case copy_scalar rt n of
        Some s \<Rightarrow> xs_return s
      | None \<Rightarrow> xs_croak ''shared value is a reference/container, not a scalar'')"

definition shared_as_nv :: "'nv perl_rt \<Rightarrow> 'nv shared_node \<Rightarrow> ('nv shared_state, 'nv) xs" where
  "shared_as_nv rt n = xs_bind (shared_copy_scalar rt n) (\<lambda>s. xs_return (SvNV rt s))"

definition shared_as_iv :: "'nv perl_rt \<Rightarrow> 'nv shared_node \<Rightarrow> ('nv shared_state, u64) xs" where
  "shared_as_iv rt n = xs_bind (shared_copy_scalar rt n) (\<lambda>s. xs_return (SvIV rt s))"

definition shared_scalar_get :: "'nv perl_rt \<Rightarrow> ptr \<Rightarrow> ('nv shared_state, 'nv perl_scalar) xs" where
  "shared_scalar_get rt h = locked h (\<lambda>p n. shared_copy_scalar rt n)"

subsection \<open>Writing\<close>

definition shared_store_iv :: "ptr \<Rightarrow> u64 \<Rightarrow> ('nv shared_state, unit) xs" where
  "shared_store_iv p v = xs_then (shared_node_clear p)
     (node_set p (\<lambda>n. n\<lparr>n_type := SHARED_IV, n_iv := v\<rparr>))"

definition shared_store_nv :: "ptr \<Rightarrow> 'nv \<Rightarrow> ('nv shared_state, unit) xs" where
  "shared_store_nv p v = xs_then (shared_node_clear p)
     (node_set p (\<lambda>n. n\<lparr>n_type := SHARED_NV, n_nv := Some v\<rparr>))"

definition shared_node_set :: "nat \<Rightarrow> 'nv perl_rt \<Rightarrow> 'nv perl_store \<Rightarrow> ptr \<Rightarrow> 'nv perl_sv \<Rightarrow> bool
    \<Rightarrow> ('nv shared_state, unit) xs" where
  "shared_node_set fuel rt P h v utf8 = locked h (\<lambda>p n.
     xs_then (shared_import_into fuel rt P p v)
     (xs_bind (node_at p) (\<lambda>n1.
       if utf8 \<and> \<not> SvROK v \<and> n_type n1 = SHARED_PV
       then node_set p (\<lambda>n. n\<lparr>n_pv_utf8 := True\<rparr>) else xs_return ())))"

subsection \<open>Operators\<close>

definition shared_concat :: "'nv perl_rt \<Rightarrow> ptr \<Rightarrow> 'nv perl_scalar \<Rightarrow> bool \<Rightarrow> ('nv shared_state, unit) xs" where
  "shared_concat rt p arg reverse =
     xs_bind (node_at p) (\<lambda>n.
     xs_bind (shared_copy_scalar rt n) (\<lambda>left.
       let lp = SvPV rt left; rp = SvPV rt arg;
           utf8 = (sv_utf8 left \<or> sv_utf8 arg);
           buf = (if reverse then rp @ lp else lp @ rp)
       in if \<not> rt_alloc rt (length buf + 1) then xs_croak ''out of memory concatenating shared scalar''
          else xs_then (shared_node_clear p)
                 (node_set p (\<lambda>n. n\<lparr>n_type := SHARED_PV, n_pv := Some buf, n_pv_utf8 := utf8\<rparr>))))"

definition iv_max :: int where "iv_max = 2 ^ 63 - 1"
definition iv_min :: int where "iv_min = - (2 ^ 63)"

text \<open>C's \<open>%\<close> truncates towards zero; the quotient of the smallest \<open>IV\<close> by -1 overflows.\<close>

definition iv_rem :: "u64 \<Rightarrow> u64 \<Rightarrow> u64 option" where
  "iv_rem a b =
     (if sint b = 0 \<or> (sint a = iv_min \<and> sint b = -1) then None
      else Some (word_of_int (sint a smod sint b)))"

definition apply_step :: "'nv perl_rt \<Rightarrow> ptr \<Rightarrow> (u64 \<Rightarrow> u64 option) \<Rightarrow> ('nv \<Rightarrow> 'nv) \<Rightarrow> ('nv shared_state, unit) xs" where
  "apply_step rt p on_iv on_nv =
     xs_bind (node_at p) (\<lambda>n.
       if n_type n = SHARED_IV
       then (case on_iv (n_iv n) of Some v \<Rightarrow> node_set p (\<lambda>n. n\<lparr>n_iv := v\<rparr>) | None \<Rightarrow> xs_fault)
       else xs_bind (shared_as_nv rt n) (\<lambda>x. shared_store_nv p (on_nv x)))"

definition apply_mod :: "'nv perl_rt \<Rightarrow> ptr \<Rightarrow> 'nv perl_scalar \<Rightarrow> bool \<Rightarrow> ('nv shared_state, unit) xs" where
  "apply_mod rt p arg reverse =
     xs_bind (node_at p) (\<lambda>n.
     xs_bind (shared_as_iv rt n) (\<lambda>left_iv.
       let right_iv = SvIV rt arg
       in if (\<not> reverse \<and> right_iv = 0) \<or> (reverse \<and> left_iv = 0) then xs_croak ''Illegal modulus zero''
          else (case (if reverse then iv_rem right_iv left_iv else iv_rem left_iv right_iv) of
                  Some v \<Rightarrow> shared_store_iv p v | None \<Rightarrow> xs_fault)))"

definition nv_op :: "'nv perl_rt \<Rightarrow> string \<Rightarrow> ('nv \<Rightarrow> 'nv \<Rightarrow> 'nv) option" where
  "nv_op rt op =
     (if op = ''add'' then Some (rt_nv_add rt) else if op = ''sub'' then Some (rt_nv_sub rt)
      else if op = ''mul'' then Some (rt_nv_mul rt) else if op = ''div'' then Some (rt_nv_div rt) else None)"

definition apply_nv :: "'nv perl_rt \<Rightarrow> ptr \<Rightarrow> string \<Rightarrow> 'nv perl_scalar \<Rightarrow> bool \<Rightarrow> ('nv shared_state, unit) xs" where
  "apply_nv rt p op arg reverse =
     xs_bind (node_at p) (\<lambda>n.
     xs_bind (shared_as_nv rt n) (\<lambda>left_nv.
       let right_nv = SvNV rt arg
       in case nv_op rt op of
            None \<Rightarrow> xs_croak (''unknown shared scalar operation '' @ op)
          | Some f \<Rightarrow>
              (if op = ''div'' \<and> ((\<not> reverse \<and> right_nv = rt_nv_zero rt) \<or> (reverse \<and> left_nv = rt_nv_zero rt))
               then xs_croak ''Illegal division by zero''
               else let out_nv = (if reverse then f right_nv left_nv else f left_nv right_nv)
                    in if op \<noteq> ''div'' \<and> n_type n = SHARED_IV
                          \<and> sv_iv arg \<noteq> None \<and> sv_nv arg = None \<and> sv_pv arg = None
                       then shared_store_iv p (rt_iv_of_nv rt out_nv)
                       else shared_store_nv p out_nv)))"

definition shared_apply :: "'nv perl_rt \<Rightarrow> ptr \<Rightarrow> string \<Rightarrow> 'nv perl_scalar \<Rightarrow> bool \<Rightarrow> ('nv shared_state, unit) xs" where
  "shared_apply rt p op arg reverse =
     xs_bind (node_at p) (\<lambda>n.
       if n_type n \<ge> SHARED_HASH then xs_croak ''numeric/string operation attempted on shared reference''
       else if op = ''inc''
       then apply_step rt p (\<lambda>v. if sint v = iv_max then None else Some (v + 1)) (\<lambda>x. rt_nv_add rt x (rt_nv_one rt))
       else if op = ''dec''
       then apply_step rt p (\<lambda>v. if sint v = iv_min then None else Some (v - 1)) (\<lambda>x. rt_nv_sub rt x (rt_nv_one rt))
       else if op = ''concat'' then shared_concat rt p arg reverse
       else if op = ''mod'' then apply_mod rt p arg reverse
       else apply_nv rt p op arg reverse)"

definition shared_scalar_apply :: "'nv perl_rt \<Rightarrow> ptr \<Rightarrow> string \<Rightarrow> 'nv perl_scalar \<Rightarrow> bool
    \<Rightarrow> ('nv shared_state, unit) xs" where
  "shared_scalar_apply rt h op arg reverse = locked h (\<lambda>p n. shared_apply rt p op arg reverse)"

subsection \<open>What a scalar becomes\<close>

text \<open>
  The value that comes back from a shared scalar: an integer or a number when that is the only
  slot that counts, else the bytes with their flag. The numeric side of a dual-valued scalar is
  dropped.
\<close>

definition shared_view :: "'nv perl_scalar \<Rightarrow> 'nv perl_scalar" where
  "shared_view s =
     (case sv_pv s of
        Some bs \<Rightarrow> (newSVpvn bs)\<lparr>sv_utf8 := sv_utf8 s\<rparr>
      | None \<Rightarrow> (case sv_nv s of
            Some x \<Rightarrow> newSVnv x
          | None \<Rightarrow> (case sv_iv s of Some i \<Rightarrow> newSViv i | None \<Rightarrow> undef_scalar)))"

fun imported_scalar :: "'nv perl_scalar \<Rightarrow> 'nv shared_node" where
  "imported_scalar s =
     (case sv_pv s of
        Some bs \<Rightarrow> empty_node\<lparr>n_type := SHARED_PV, n_pv := Some bs, n_pv_utf8 := sv_utf8 s\<rparr>
      | None \<Rightarrow> (case sv_nv s of
            Some x \<Rightarrow> empty_node\<lparr>n_type := SHARED_NV, n_nv := Some x\<rparr>
          | None \<Rightarrow> (case sv_iv s of
                Some i \<Rightarrow> empty_node\<lparr>n_type := SHARED_IV, n_iv := i\<rparr>
              | None \<Rightarrow> empty_node)))"

lemma copy_imported: "copy_scalar rt (imported_scalar s) = Some (shared_view s)"
  by (simp add: shared_view_def empty_node_def split: option.split)

text \<open>The state after one node was rewritten.\<close>

definition rewrote :: "ptr \<Rightarrow> 'nv shared_node \<Rightarrow> 'nv shared_state \<Rightarrow> 'nv shared_state \<Rightarrow> bool" where
  "rewrote p n s s' \<longleftrightarrow>
     sh_heap s' = (sh_heap s)(p \<mapsto> n) \<and> sh_next s' = sh_next s \<and> sh_lock s' = sh_lock s"

lemma import_scalar_run:
  assumes "sh_heap s p = Some n" and "\<not> alloc_may_fail rt"
  shows "\<exists>s'. shared_import_scalar rt p (SV_Scalar x) s = (Ret (), s') \<and> rewrote p (imported_scalar x) s s'"
  using assms
  by (cases "sv_iv x"; cases "sv_nv x"; cases "sv_pv x")
    (simp_all add: shared_import_scalar_def shared_node_clear_def node_set_def store_pv_def xs_simps SvPV_def
      SvIV_def SvNV_def alloc_may_fail_def rewrote_def)

lemma import_into_scalar:
  assumes "sh_heap s p = Some n" and "\<not> alloc_may_fail rt" and "0 < fuel"
  shows "\<exists>s'. shared_import_into fuel rt P p (SV_Scalar x) s = (Ret (), s') \<and> rewrote p (imported_scalar x) s s'"
proof -
  obtain k where fuel: "fuel = Suc k" using assms(3) by (cases fuel) auto
  obtain s' where "shared_import_scalar rt p (SV_Scalar x) s = (Ret (), s')" and "rewrote p (imported_scalar x) s s'"
    using import_scalar_run [OF assms(1,2)] by blast
  then show ?thesis unfolding fuel
    by (simp add: shared_import_into_def import_at_def on_shared_def xs_return_def xs_bind_def xs_then_def
        del: imported_scalar.simps)
qed

subsection \<open>Operators on an integer node\<close>

definition live_iv :: "'nv shared_state \<Rightarrow> ptr \<Rightarrow> u64 \<Rightarrow> bool" where
  "live_iv s p v \<longleftrightarrow> (\<exists>n. live s p n \<and> n_type n = SHARED_IV \<and> n_iv n = v)"

definition same_others :: "ptr \<Rightarrow> 'nv shared_state \<Rightarrow> 'nv shared_state \<Rightarrow> bool" where
  "same_others p s s' \<longleftrightarrow> (\<forall>q. q \<noteq> p \<longrightarrow> sh_heap s' q = sh_heap s q)
     \<and> sh_next s' = sh_next s \<and> sh_lock s' = sh_lock s"

lemma same_others_trans: "same_others p s t \<Longrightarrow> same_others p t u \<Longrightarrow> same_others p s u"
  by (simp add: same_others_def)

lemma SHARED_IV_less [simp]: "\<not> SHARED_HASH \<le> SHARED_IV"
  by (simp add: less_eq_shared_type_def)

lemma apply_inc_run:
  assumes "live_iv s p v" and "sint v < iv_max"
  shows "\<exists>s'. shared_scalar_apply rt p ''inc'' arg reverse s = (Ret (), s')
     \<and> live_iv s' p (v + 1) \<and> same_others p s s'"
proof -
  obtain n where n: "live s p n" "n_type n = SHARED_IV" "n_iv n = v"
    using assms(1) by (auto simp: live_iv_def)
  then have "shared_scalar_apply rt p ''inc'' arg reverse s
      = (Ret (), s\<lparr>sh_heap := (sh_heap s)(p \<mapsto> n\<lparr>n_iv := v + 1\<rparr>)\<rparr>)"
    using assms(2)
    by (simp add: shared_scalar_apply_def locked_live shared_apply_def apply_step_def node_at_def node_set_def
        live_def xs_bind_def xs_then_def shared_unlock_def xs_modify_def xs_return_def)
  with n show ?thesis by (auto simp: live_iv_def live_def same_others_def)
qed

lemma sint_bounds: "- (2 ^ 63) \<le> sint (v :: u64)" "sint v < 2 ^ 63"
  using sint_greater_eq [of v] sint_less [of v] by simp_all

lemma sint_of_int: "- (2 ^ 63) \<le> i \<Longrightarrow> i < 2 ^ 63 \<Longrightarrow> sint (word_of_int i :: u64) = i"
  by (simp add: signed_of_int signed_take_bit_int_eq_self)

lemma sint_plus_one:
  assumes "sint v < iv_max"
  shows "sint (v + 1 :: u64) = sint v + 1"
proof -
  have "v + 1 = word_of_int (sint v + 1)" by simp
  moreover have "sint (word_of_int (sint v + 1) :: u64) = sint v + 1"
    using sint_bounds [of v] assms by (intro sint_of_int) (simp_all add: iv_max_def)
  ultimately show ?thesis by simp
qed

lemma iv_rem_value:
  assumes "sint b \<noteq> 0" and "\<not> (sint a = iv_min \<and> sint b = -1)"
  shows "\<exists>r. iv_rem a b = Some r \<and> sint r = sint a smod sint b"
proof -
  have "\<bar>sint a smod sint b\<bar> < \<bar>sint b\<bar>" using smod_int_range [OF assms(1), of "sint a"] by auto
  moreover have "\<bar>sint b\<bar> \<le> 2 ^ 63" using sint_bounds [of b] by (simp add: abs_if)
  ultimately have "sint (word_of_int (sint a smod sint b) :: u64) = sint a smod sint b"
    by (intro sint_of_int) simp_all
  with assms show ?thesis by (auto simp: iv_rem_def)
qed

lemma apply_mod_run:
  assumes "live_iv s p a" and "sv_iv arg = Some b" and "sint b \<noteq> 0" and "\<not> (sint a = iv_min \<and> sint b = -1)"
  shows "\<exists>s' r. shared_scalar_apply rt p ''mod'' arg False s = (Ret (), s')
     \<and> live_iv s' p r \<and> sint r = sint a smod sint b \<and> same_others p s s'"
proof -
  obtain n where n: "live s p n" "n_type n = SHARED_IV" "n_iv n = a"
    using assms(1) by (auto simp: live_iv_def)
  obtain r where r: "iv_rem a b = Some r" "sint r = sint a smod sint b"
    using iv_rem_value [OF assms(3,4)] by blast
  have b: "b \<noteq> 0" using assms(3) by auto
  have iv: "shared_as_iv rt n t = (Ret a, t)" for t
    using n(2,3) by (simp add: shared_as_iv_def shared_copy_scalar_def xs_bind_def xs_return_def)
  have "shared_scalar_apply rt p ''mod'' arg False s
      = (case xs_then (shared_node_clear p) (node_set p (\<lambda>n. n\<lparr>n_type := SHARED_IV, n_iv := r\<rparr>)) (held s) of
           (out, t) \<Rightarrow> (out, t\<lparr>sh_lock := sh_lock t - 1\<rparr>))"
    using n r(1) b assms(2)
    by (simp add: shared_scalar_apply_def locked_live shared_apply_def apply_mod_def node_at_def iv
        live_def xs_bind_def xs_then_def shared_unlock_def xs_modify_def xs_return_def SvIV_def Let_def
        shared_store_iv_def node_set_def shared_node_clear_def)
  then have "shared_scalar_apply rt p ''mod'' arg False s
      = (Ret (), s\<lparr>sh_heap := (sh_heap s)(p \<mapsto> empty_node\<lparr>n_type := SHARED_IV, n_iv := r\<rparr>),
           sh_closed := (if n_io_fd n \<ge> 0 then sh_closed s @ [n_io_fd n] else sh_closed s)\<rparr>)"
    using n(1) by (simp add: live_def xs_then_def xs_bind_def node_set_def shared_node_clear_def)
  with n(1) r(2) show ?thesis
    by (auto simp: live_iv_def live_def same_others_def empty_node_def)
qed

text \<open>As many increments in a row.\<close>

primrec inc_times :: "'nv perl_rt \<Rightarrow> ptr \<Rightarrow> 'nv perl_scalar \<Rightarrow> nat \<Rightarrow> ('nv shared_state, unit) xs" where
  "inc_times rt p arg 0 = xs_return ()"
| "inc_times rt p arg (Suc k) = xs_then (inc_times rt p arg k) (shared_scalar_apply rt p ''inc'' arg False)"

subsection \<open>A small scalar\<close>

definition scalar_heap :: "int shared_state" where
  "scalar_heap = \<lparr>sh_heap = [1 \<mapsto> empty_node\<lparr>n_type := SHARED_IV, n_iv := word_of_int (-7)\<rparr>], sh_next = 2,
     sh_lock = 0, sh_closed = []\<rparr>"

definition plain_rt :: "int perl_rt" where
  "plain_rt = int_rt\<lparr>rt_alloc := (\<lambda>_. True)\<rparr>"

lemma scalar_heap_live: "live_iv scalar_heap 1 (word_of_int (-7))"
  by (simp add: live_iv_def live_def scalar_heap_def empty_node_def)

section \<open>Properties\<close>



text \<open>Increments of a shared integer are exact: as many calls as fit below the largest \<open>IV\<close> add
  their number to it, each drops the lock, and no other node changes.\<close>

theorem shared_inc_counts:
  assumes "live_iv s p v" and "sint v + int k \<le> iv_max"
  shows "\<exists>s' w. inc_times rt p arg k s = (Ret (), s')
     \<and> live_iv s' p w \<and> sint w = sint v + int k \<and> same_others p s s'"
  using assms
proof (induction k)
  case 0
  then show ?case by (auto simp: same_others_def xs_return_def)
next
  case (Suc k)
  then obtain s' w where run: "inc_times rt p arg k s = (Ret (), s')"
    and w: "live_iv s' p w" "sint w = sint v + int k" "same_others p s s'"
    by auto
  have less: "sint w < iv_max" using w(2) Suc.prems(2) by simp
  from apply_inc_run [OF w(1) this, of rt arg False] obtain s''
    where step: "shared_scalar_apply rt p ''inc'' arg False s' = (Ret (), s'')"
      and "live_iv s'' p (w + 1)" and "same_others p s' s''" by blast
  moreover have "sint (w + 1) = sint v + int (Suc k)" using w(2) sint_plus_one [OF less] by simp
  ultimately show ?case
    using w(3) by (auto simp: run xs_then_def xs_bind_def intro: same_others_trans)
qed

text \<open>the modulus of a shared integer by an integer is C's remainder, with the sign of the
  left operand. It is the value of Perl's operator, which has the sign of the right operand,
  exactly when the signs agree or the division is exact; otherwise it is smaller by the right
  operand.\<close>

theorem shared_mod_truncates:
  assumes "live_iv s p a" and "sv_iv arg = Some b" and "sint b \<noteq> 0" and "\<not> (sint a = iv_min \<and> sint b = -1)"
  shows "\<exists>s' r. shared_scalar_apply rt p ''mod'' arg False s = (Ret (), s')
     \<and> live_iv s' p r \<and> same_others p s s' \<and> sint r = sint a smod sint b
     \<and> sint r = sint a mod sint b - (if sgn (sint a) \<noteq> sgn (sint b) \<and> \<not> sint b dvd sint a then sint b else 0)"
  using apply_mod_run [OF assms, of rt] by (auto simp: signed_modulo_int_eq_modulo_int)

theorem shared_mod_truncates_witness:
  "\<exists>s' r. shared_scalar_apply plain_rt 1 ''mod'' (newSViv 3) False scalar_heap = (Ret (), s')
     \<and> live_iv s' 1 r \<and> sint r = -1 \<and> (-7 :: int) mod 3 = 2"
proof -
  have "sint (word_of_int (-7) :: u64) = -7" "sint (3 :: u64) = 3" by (rule sint_of_int, simp_all)
  moreover have "(-7 :: int) smod 3 = -1" by (simp add: signed_modulo_int_eq_modulo_int)
  ultimately show ?thesis
    using shared_mod_truncates [OF scalar_heap_live, of "newSViv 3" 3 plain_rt]
    by (auto simp: newSViv_def iv_min_def)
qed

end
