(* ===== verification/Menu_Json.thy ===== *)
theory Menu_Json
  imports DD_Prelude "HOL-Library.Char_ord"
begin

section \<open>The JSON parser and printer of the menu helper (native/system_menu_helper_linux.c)\<close>

text \<open>
  The helper reads one JSON command per line and prints click events. The parser's pointer
  \<open>ps->p\<close> is the suffix of the line that is left, and \<open>ps->error\<close> a flag; like the code, a failed
  array or object is still returned as a value with the flag set, and only \<open>j_parse\<close>
  looks at the flag. A string literal is collected into a buffer with a capacity; a store
  outside it is the result \<open>Str_Fault\<close>. Strings are the buffers' bytes; the code reads them as C
  strings, up to the first zero byte.
\<close>

unbundle bit_operations_syntax

datatype jvalue = J_Null | J_Bool bool | J_String string | J_Array "jvalue list" | J_Object "(string \<times> jvalue) list"

definition NUL :: char where "NUL = CHR 0x00"
definition BSL :: char where "BSL = CHR 0x5C"
definition QUO :: char where "QUO = CHR 0x22"

definition c_str :: "string \<Rightarrow> string" where
  "c_str s = takeWhile (\<lambda>c. c \<noteq> NUL) s"

subsection \<open>Characters\<close>

definition is_space :: "char \<Rightarrow> bool" where
  "is_space c \<longleftrightarrow> of_char c = (32 :: nat) \<or> of_char c = (9 :: nat) \<or> of_char c = (13 :: nat) \<or> of_char c = (10 :: nat)"

definition j_skip :: "string \<Rightarrow> string" where
  "j_skip s = dropWhile is_space s"

definition hexval :: "char \<Rightarrow> nat option" where
  "hexval c = (let n = of_char c :: nat in
     if 48 \<le> n \<and> n \<le> 57 then Some (n - 48)
     else if 97 \<le> n \<and> n \<le> 102 then Some (10 + n - 97)
     else if 65 \<le> n \<and> n \<le> 70 then Some (10 + n - 65)
     else None)"

definition utf8_bytes :: "nat \<Rightarrow> string" where
  "utf8_bytes cp =
     (if cp \<le> 0x7F then [char_of cp]
      else if cp \<le> 0x7FF
      then [char_of (0xC0 OR drop_bit 6 cp), char_of (0x80 OR (cp AND 0x3F))]
      else if cp \<le> 0xFFFF
      then [char_of (0xE0 OR drop_bit 12 cp), char_of (0x80 OR (drop_bit 6 cp AND 0x3F)), char_of (0x80 OR (cp AND 0x3F))]
      else [char_of (0xF0 OR drop_bit 18 cp), char_of (0x80 OR (drop_bit 12 cp AND 0x3F)),
            char_of (0x80 OR (drop_bit 6 cp AND 0x3F)), char_of (0x80 OR (cp AND 0x3F))])"

subsection \<open>String literals\<close>

text \<open>The doubling loops; a capacity of 0 would never grow.\<close>

fun grow_buf :: "nat \<Rightarrow> nat \<Rightarrow> nat \<Rightarrow> nat" where
  "grow_buf 0 need cap = cap"
| "grow_buf (Suc fuel) need cap = (if need > cap then grow_buf fuel need (cap * 2) else cap)"

definition store_bytes :: "string \<Rightarrow> nat \<Rightarrow> string \<Rightarrow> string option" where
  "store_bytes buf cap bs = (if length buf + length bs + 1 \<le> cap then Some (buf @ bs) else None)"

definition append_utf8 :: "string \<Rightarrow> nat \<Rightarrow> nat \<Rightarrow> (string \<times> nat) option" where
  "append_utf8 buf cap cp =
     (let out = utf8_bytes cp; need = length buf + length out + 1; cap1 = grow_buf need need cap
      in map_option (\<lambda>b. (b, cap1)) (store_bytes buf cap1 out))"

definition append_byte :: "string \<Rightarrow> nat \<Rightarrow> char \<Rightarrow> (string \<times> nat) option" where
  "append_byte buf cap c =
     (let cap1 = (if length buf + 2 > cap then cap * 2 else cap)
      in map_option (\<lambda>b. (b, cap1)) (store_bytes buf cap1 [c]))"

datatype escape = Esc_Byte char | Esc_Code nat | Esc_Bad

definition hex4 :: "string \<Rightarrow> nat option" where
  "hex4 s = (case s of
       a # b # c # d # _ \<Rightarrow>
         (case (hexval a, hexval b, hexval c, hexval d) of
            (Some h0, Some h1, Some h2, Some h3) \<Rightarrow>
              Some (push_bit 12 h0 OR push_bit 8 h1 OR push_bit 4 h2 OR h3)
          | _ \<Rightarrow> None)
     | _ \<Rightarrow> None)"

text \<open>After \<open>\u\<close>: the code point, the surrogate pair when a low one follows.\<close>

definition j_unicode :: "string \<Rightarrow> escape \<times> string" where
  "j_unicode s =
     (case hex4 s of
        None \<Rightarrow> (Esc_Bad, s)
      | Some cp \<Rightarrow>
          (let r = drop 4 s in
           if cp \<ge> 0xD800 \<and> cp \<le> 0xDBFF \<and> length r \<ge> 6 \<and> r ! 0 = BSL \<and> r ! 1 = CHR ''u''
           then (case hex4 (drop 2 r) of
                   Some low \<Rightarrow>
                     (if low \<ge> 0xDC00 \<and> low \<le> 0xDFFF
                      then (Esc_Code (0x10000 + push_bit 10 (cp - 0xD800) + (low - 0xDC00)), drop 6 r)
                      else (Esc_Code cp, r))
                 | None \<Rightarrow> (Esc_Code cp, r))
           else (Esc_Code cp, r)))"

text \<open>After a backslash.\<close>

definition j_escape :: "string \<Rightarrow> escape \<times> string" where
  "j_escape s =
     (case s of
        [] \<Rightarrow> (Esc_Bad, [])
      | e # r \<Rightarrow>
          (if e = QUO \<or> e = BSL \<or> e = CHR ''/'' then (Esc_Byte e, r)
           else if e = CHR ''b'' then (Esc_Byte CHR 0x08, r)
           else if e = CHR ''f'' then (Esc_Byte CHR 0x0C, r)
           else if e = CHR ''n'' then (Esc_Byte CHR 0x0A, r)
           else if e = CHR ''r'' then (Esc_Byte CHR 0x0D, r)
           else if e = CHR ''t'' then (Esc_Byte CHR 0x09, r)
           else if e = CHR ''u'' then j_unicode r
           else (Esc_Bad, r)))"

lemma j_unicode_shorter: "length (snd (j_unicode s)) \<le> length s"
  by (auto simp: j_unicode_def Let_def split: option.splits)

lemma j_escape_shorter: "length (snd (j_escape s)) \<le> length s"
  using j_unicode_shorter by (auto simp: j_escape_def le_SucI split: list.splits)

lemma j_escape_length: "j_escape r = (e, r1) \<Longrightarrow> length r1 \<le> length r"
  using j_escape_shorter [of r] by simp

datatype str_res = Str_Ok string string | Str_Bad string | Str_Fault

function j_string_loop :: "string \<Rightarrow> nat \<Rightarrow> string \<Rightarrow> str_res" where
  "j_string_loop buf cap s =
     (case s of
        [] \<Rightarrow> Str_Bad []
      | c # r \<Rightarrow>
          (if c = QUO then Str_Ok buf r
           else if c = BSL then
             (case j_escape r of
                (Esc_Bad, r1) \<Rightarrow> Str_Bad r1
              | (Esc_Code cp, r1) \<Rightarrow>
                  (case append_utf8 buf cap cp of None \<Rightarrow> Str_Fault | Some (b, cap1) \<Rightarrow> j_string_loop b cap1 r1)
              | (Esc_Byte e, r1) \<Rightarrow>
                  (case append_byte buf cap e of None \<Rightarrow> Str_Fault | Some (b, cap1) \<Rightarrow> j_string_loop b cap1 r1))
           else (case append_byte buf cap c of None \<Rightarrow> Str_Fault | Some (b, cap1) \<Rightarrow> j_string_loop b cap1 r)))"
  by pat_completeness auto
termination
  by (relation "measure (\<lambda>(buf, cap, s). length s)") (auto dest: j_escape_length [OF sym] simp: less_Suc_eq_le)

declare j_string_loop.simps [simp del]

text \<open>\<open>j_string\<close>: \<open>NULL\<close> without an error at the end or without an opening quote.\<close>

datatype str_out = Out_Str string | Out_Null | Out_Fault

definition j_string :: "string \<Rightarrow> bool \<Rightarrow> str_out \<times> string \<times> bool" where
  "j_string s err =
     (case s of
        c # r \<Rightarrow>
          (if c = QUO then
             (case j_string_loop [] 64 r of
                Str_Ok buf r1 \<Rightarrow> (Out_Str buf, r1, err)
              | Str_Bad r1 \<Rightarrow> (Out_Null, r1, True)
              | Str_Fault \<Rightarrow> (Out_Fault, r, True))
           else (Out_Null, s, err))
      | [] \<Rightarrow> (Out_Null, s, err))"

subsection \<open>Values\<close>

text \<open>
  \<open>j_value\<close>, \<open>j_array\<close> and \<open>j_object\<close> call each other; the definitions recurse on fuel, and
  \<open>Val_Deep\<close> is running out of it. \<open>j_parse\<close> gives twice the length of the line, which is
  enough for every line. The flag is \<open>ps->error\<close>.
\<close>

datatype val_out = Val jvalue | Val_Null | Val_Deep | Val_Fault

function (sequential) j_value :: "nat \<Rightarrow> string \<Rightarrow> bool \<Rightarrow> val_out \<times> string \<times> bool"
  and j_array_loop :: "nat \<Rightarrow> jvalue list \<Rightarrow> string \<Rightarrow> bool \<Rightarrow> val_out \<times> string \<times> bool"
  and j_object_loop :: "nat \<Rightarrow> (string \<times> jvalue) list \<Rightarrow> string \<Rightarrow> bool \<Rightarrow> val_out \<times> string \<times> bool" where
  "j_value 0 s err = (Val_Deep, s, err)"
| "j_value (Suc n) s0 err =
     (let s = j_skip s0 in
      case s of
        [] \<Rightarrow> (Val_Null, s, err)
      | c # r \<Rightarrow>
          if c = CHR ''{'' then
            (case j_skip r of
               d # r1 \<Rightarrow> if d = CHR ''}'' then (Val (J_Object []), r1, err) else j_object_loop n [] (j_skip r) err
             | [] \<Rightarrow> (Val (J_Object []), [], True))
          else if c = CHR ''['' then
            (case j_skip r of
               d # r1 \<Rightarrow> if d = CHR '']'' then (Val (J_Array []), r1, err) else j_array_loop n [] (j_skip r) err
             | [] \<Rightarrow> (Val (J_Array []), [], True))
          else if c = QUO then
            (case j_string s err of
               (Out_Str t, r1, e1) \<Rightarrow> (Val (J_String t), r1, e1)
             | (Out_Null, r1, e1) \<Rightarrow> (Val_Null, r1, e1)
             | (Out_Fault, r1, e1) \<Rightarrow> (Val_Fault, r1, e1))
          else if take 4 s = ''true'' then (Val (J_Bool True), drop 4 s, err)
          else if take 5 s = ''false'' then (Val (J_Bool False), drop 5 s, err)
          else if take 4 s = ''null'' then (Val J_Null, drop 4 s, err)
          else (Val_Null, s, True))"
| "j_array_loop 0 items s err = (Val_Deep, s, err)"
| "j_array_loop (Suc n) items s err =
     (if s = [] then (Val (J_Array items), s, True)
      else case j_value n s err of
        (Val v, r, e) \<Rightarrow>
          (case j_skip r of
             c # r1 \<Rightarrow>
               if c = CHR '','' then j_array_loop n (items @ [v]) (j_skip r1) e
               else if c = CHR '']'' then (Val (J_Array (items @ [v])), r1, e)
               else (Val (J_Array (items @ [v])), c # r1, True)
           | [] \<Rightarrow> (Val (J_Array (items @ [v])), [], True))
      | (Val_Null, r, e) \<Rightarrow> (Val (J_Array items), r, True)
      | (bad, r, e) \<Rightarrow> (bad, r, e))"
| "j_object_loop 0 pairs s err = (Val_Deep, s, err)"
| "j_object_loop (Suc n) pairs s err =
     (if s = [] then (Val (J_Object pairs), s, True)
      else case j_string (j_skip s) err of
        (Out_Fault, r, e) \<Rightarrow> (Val_Fault, r, e)
      | (Out_Null, r, e) \<Rightarrow> (Val (J_Object pairs), r, True)
      | (Out_Str key, r, e) \<Rightarrow>
          (case j_skip r of
             c # r1 \<Rightarrow>
               if c \<noteq> CHR '':'' then (Val (J_Object pairs), c # r1, True)
               else (case j_value n (j_skip r1) e of
                  (Val v, r2, e2) \<Rightarrow>
                    (case j_skip r2 of
                       d # r3 \<Rightarrow>
                         if d = CHR '','' then j_object_loop n (pairs @ [(key, v)]) r3 e2
                         else if d = CHR ''}'' then (Val (J_Object (pairs @ [(key, v)])), r3, e2)
                         else (Val (J_Object (pairs @ [(key, v)])), d # r3, True)
                     | [] \<Rightarrow> (Val (J_Object (pairs @ [(key, v)])), [], True))
                | (Val_Null, r2, e2) \<Rightarrow> (Val (J_Object pairs), r2, True)
                | (bad, r2, e2) \<Rightarrow> (bad, r2, e2))
           | [] \<Rightarrow> (Val (J_Object pairs), [], True)))"
  by pat_completeness auto
termination
  by (relation "measure (\<lambda>x. case x of Inl (n, _) \<Rightarrow> n | Inr (Inl (n, _)) \<Rightarrow> n | Inr (Inr (n, _)) \<Rightarrow> n)") auto

text \<open>\<open>j_parse\<close>, with enough fuel for the line.\<close>

datatype parse_out = Parsed jvalue | Not_Parsed | Parse_Deep | Parse_Fault

definition j_parse_with :: "nat \<Rightarrow> string \<Rightarrow> parse_out" where
  "j_parse_with fuel s =
     (case j_value fuel s False of
        (Val v, r, e) \<Rightarrow> if j_skip r \<noteq> [] \<or> e then Not_Parsed else Parsed v
      | (Val_Null, r, e) \<Rightarrow> Not_Parsed
      | (Val_Deep, r, e) \<Rightarrow> Parse_Deep
      | (Val_Fault, r, e) \<Rightarrow> Parse_Fault)"

definition j_parse :: "string \<Rightarrow> parse_out" where
  "j_parse line = j_parse_with (2 * length (c_str line) + 1) (c_str line)"

fun lookup_key :: "string \<Rightarrow> (string \<times> jvalue) list \<Rightarrow> jvalue option" where
  "lookup_key key [] = None"
| "lookup_key key ((k, v) # ps) = (if c_str k = c_str key then Some v else lookup_key key ps)"

fun j_get :: "jvalue \<Rightarrow> string \<Rightarrow> jvalue option" where
  "j_get (J_Object pairs) key = lookup_key key pairs"
| "j_get _ key = None"

definition j_get_string :: "jvalue \<Rightarrow> string \<Rightarrow> string option" where
  "j_get_string obj key = (case j_get obj key of Some (J_String s) \<Rightarrow> Some (c_str s) | _ \<Rightarrow> None)"

definition j_get_bool :: "jvalue \<Rightarrow> string \<Rightarrow> bool \<Rightarrow> bool" where
  "j_get_bool obj key def = (case j_get obj key of Some (J_Bool b) \<Rightarrow> b | _ \<Rightarrow> def)"

subsection \<open>Output\<close>

text \<open>What \<open>write\<close> answers: how many bytes it took, interrupted, or an error.\<close>

datatype write_answer = W_Took nat | W_Eintr | W_Err

fun write_all_fd :: "write_answer list \<Rightarrow> string \<Rightarrow> string \<times> bool \<times> write_answer list" where
  "write_all_fd ws [] = ([], True, ws)"
| "write_all_fd [] (c # buf) = ([], False, [])"
| "write_all_fd (W_Eintr # ws) (c # buf) = write_all_fd ws (c # buf)"
| "write_all_fd (W_Err # ws) (c # buf) = ([], False, ws)"
| "write_all_fd (W_Took n # ws) (c # buf) =
     (if n = 0 then ([], False, ws)
      else let (out, ok, ws1) = write_all_fd ws (drop n (c # buf)) in (take n (c # buf) @ out, ok, ws1))"

definition hex_digit :: "nat \<Rightarrow> char" where
  "hex_digit n = (if n < 10 then char_of (48 + n) else char_of (87 + n))"

definition emit_char :: "char \<Rightarrow> string" where
  "emit_char c =
     (let n = of_char c :: nat in
      if c = QUO then [BSL, QUO]
      else if c = BSL then [BSL, BSL]
      else if n = 10 then [BSL, CHR ''n'']
      else if n = 13 then [BSL, CHR ''r'']
      else if n = 9 then [BSL, CHR ''t'']
      else if n < 32 then [BSL, CHR ''u'', CHR ''0'', CHR ''0'', hex_digit (n div 16), hex_digit (n mod 16)]
      else [c])"

text \<open>The pieces written, one \<open>write_all_fd\<close> each; failures are ignored.\<close>

definition emit_json_string :: "string \<Rightarrow> string list" where
  "emit_json_string s = [[QUO]] @ map emit_char (c_str s) @ [[QUO]]"

definition emit_click_line :: "string \<Rightarrow> string list" where
  "emit_click_line name = [CHR ''{'' # QUO # ''event'' @ [QUO, CHR '':'', QUO] @ ''click'' @ [QUO, CHR '','', QUO] @ ''name'' @ [QUO, CHR '':'']]
     @ emit_json_string name @ [[CHR ''}'', char_of (10 :: nat)]]"

fun write_pieces :: "write_answer list \<Rightarrow> string list \<Rightarrow> string \<times> write_answer list" where
  "write_pieces ws [] = ([], ws)"
| "write_pieces ws (p # ps) =
     (let (out, ok, ws1) = write_all_fd ws p; (outs, ws2) = write_pieces ws1 ps in (out @ outs, ws2))"

subsection \<open>Memory and termination\<close>

lemma grow_buf_enough: "0 < cap \<Longrightarrow> need \<le> cap + fuel \<Longrightarrow> need \<le> grow_buf fuel need cap"
  by (induction fuel arbitrary: cap) simp_all

lemma grow_buf_ge: "cap \<le> grow_buf fuel need cap"
proof (induction fuel arbitrary: cap)
  case (Suc fuel)
  from Suc [of "cap * 2"] show ?case by simp
qed simp

lemma append_utf8_fits:
  assumes "0 < cap"
  obtains cap1 where "append_utf8 buf cap cp = Some (buf @ utf8_bytes cp, cap1)" and "cap \<le> cap1"
    and "length (buf @ utf8_bytes cp) < cap1"
  using assms grow_buf_enough [of cap "length buf + length (utf8_bytes cp) + 1" "length buf + length (utf8_bytes cp) + 1"]
    grow_buf_ge [of cap "length buf + length (utf8_bytes cp) + 1" "length buf + length (utf8_bytes cp) + 1"]
  by (simp add: append_utf8_def store_bytes_def Let_def)

lemma append_byte_fits:
  assumes "length buf < cap"
  obtains cap1 where "append_byte buf cap c = Some (buf @ [c], cap1)" and "cap \<le> cap1" and "length (buf @ [c]) < cap1"
  using assms by (simp add: append_byte_def store_bytes_def Let_def split: if_splits)

lemma BSL_QUO [simp]: "BSL \<noteq> QUO" "QUO \<noteq> BSL"
  by (simp_all add: BSL_def QUO_def)

lemma j_string_loop_end [simp]: "j_string_loop buf cap (QUO # r) = Str_Ok buf r" "j_string_loop buf cap [] = Str_Bad []"
  by (simp_all add: j_string_loop.simps)

lemma j_string_loop_plain:
  assumes "length buf < cap" and "c \<noteq> QUO" "c \<noteq> BSL"
  obtains cap1 where "length (buf @ [c]) < cap1" and "j_string_loop buf cap (c # r) = j_string_loop (buf @ [c]) cap1 r"
proof -
  obtain cap1 where "append_byte buf cap c = Some (buf @ [c], cap1)" "length (buf @ [c]) < cap1"
    using assms(1) by (rule append_byte_fits)
  then show thesis using assms(2,3) by (intro that) (simp_all add: j_string_loop.simps)
qed

lemma j_string_loop_byte:
  assumes "length buf < cap" and "j_escape r = (Esc_Byte c, r1)"
  obtains cap1 where "length (buf @ [c]) < cap1" and "j_string_loop buf cap (BSL # r) = j_string_loop (buf @ [c]) cap1 r1"
proof -
  obtain cap1 where "append_byte buf cap c = Some (buf @ [c], cap1)" "length (buf @ [c]) < cap1"
    using assms(1) by (rule append_byte_fits)
  then show thesis using assms(2) by (intro that) (simp_all add: j_string_loop.simps)
qed

lemma j_string_loop_code:
  assumes "length buf < cap" and "j_escape r = (Esc_Code cp, r1)"
  obtains cap1 where "length (buf @ utf8_bytes cp) < cap1"
    and "j_string_loop buf cap (BSL # r) = j_string_loop (buf @ utf8_bytes cp) cap1 r1"
proof -
  have "0 < cap" using assms(1) by simp
  then obtain cap1 where "append_utf8 buf cap cp = Some (buf @ utf8_bytes cp, cap1)" "length (buf @ utf8_bytes cp) < cap1"
    by (rule append_utf8_fits)
  then show thesis using assms(2) by (intro that) (simp_all add: j_string_loop.simps)
qed

definition str_fine :: "string \<Rightarrow> str_res \<Rightarrow> bool" where
  "str_fine s res = (case res of Str_Fault \<Rightarrow> False | Str_Ok t r \<Rightarrow> length r < length s | Str_Bad r \<Rightarrow> length r \<le> length s)"

lemma str_fine_mono: "str_fine s1 res \<Longrightarrow> length s1 \<le> length s \<Longrightarrow> str_fine s res"
  by (auto simp: str_fine_def split: str_res.splits)

lemma j_string_loop_safe:
  assumes "length buf < cap"
  shows "str_fine s (j_string_loop buf cap s)"
  using assms
proof (induction s arbitrary: buf cap rule: length_induct)
  case (1 s)
  note IH = 1(1) [rule_format]
  show ?case
  proof (cases s)
    case (Cons c r)
    consider "c = QUO" | (plain) "c \<noteq> QUO" "c \<noteq> BSL" | (esc) "c = BSL" by blast
    then show ?thesis
    proof cases
      case plain
      obtain cap1 where "length (buf @ [c]) < cap1" "j_string_loop buf cap (c # r) = j_string_loop (buf @ [c]) cap1 r"
        using 1(2) plain by (rule j_string_loop_plain)
      then show ?thesis using IH [of r "buf @ [c]" cap1] Cons by (auto elim: str_fine_mono)
    next
      case esc
      obtain e r1 where e: "j_escape r = (e, r1)" by (cases "j_escape r")
      note less = j_escape_length [OF e]
      show ?thesis
      proof (cases e)
        case (Esc_Byte b)
        obtain cap1 where "length (buf @ [b]) < cap1" "j_string_loop buf cap (BSL # r) = j_string_loop (buf @ [b]) cap1 r1"
          using 1(2) e [unfolded Esc_Byte] by (rule j_string_loop_byte)
        then show ?thesis using IH [of r1 "buf @ [b]" cap1] Cons esc less by (auto elim: str_fine_mono)
      next
        case (Esc_Code cp)
        obtain cap1 where "length (buf @ utf8_bytes cp) < cap1"
          "j_string_loop buf cap (BSL # r) = j_string_loop (buf @ utf8_bytes cp) cap1 r1"
          using 1(2) e [unfolded Esc_Code] by (rule j_string_loop_code)
        then show ?thesis using IH [of r1 "buf @ utf8_bytes cp" cap1] Cons esc less by (auto elim: str_fine_mono)
      next
        case Esc_Bad
        then show ?thesis using e Cons esc less by (simp add: j_string_loop.simps str_fine_def)
      qed
    qed (simp add: Cons str_fine_def)
  qed (simp add: str_fine_def)
qed

lemma j_string_safe:
  "j_string s err = (out, r, e) \<Longrightarrow> out \<noteq> Out_Fault \<and> (\<forall>t. out = Out_Str t \<longrightarrow> length r < length s) \<and> length r \<le> length s"
  using j_string_loop_safe [of "[]" 64 "tl s"]
  by (cases s) (auto simp: j_string_def str_fine_def split: if_splits str_res.splits)

lemma j_skip_length: "length (j_skip s) \<le> length s"
  by (simp add: j_skip_def length_dropWhile_le)

lemma j_skip_Cons: "j_skip s = c # r \<Longrightarrow> length r < length s"
  using j_skip_length [of s] by simp

text \<open>Enough fuel, no fault, and a value uses up at least one character.\<close>

definition out_fine :: "string \<Rightarrow> val_out \<times> string \<times> bool \<Rightarrow> bool" where
  "out_fine s res = (case res of (out, r, e) \<Rightarrow> out \<noteq> Val_Deep \<and> out \<noteq> Val_Fault
     \<and> length r \<le> length s \<and> (\<forall>v. out = Val v \<longrightarrow> length r < length s))"

lemma out_fine_cases:
  assumes "out_fine s res"
  obtains (Val) v r e where "res = (Val v, r, e)" "length r < length s"
    | (Null) r e where "res = (Val_Null, r, e)" "length r \<le> length s"
proof -
  obtain out r e where res: "res = (out, r, e)" by (cases res) auto
  show thesis using assms Val Null by (cases out) (auto simp: out_fine_def res)
qed

lemma out_fine_Val [simp]: "out_fine s (Val v, r, e) = (length r < length s)"
  and out_fine_Null [simp]: "out_fine s (Val_Null, r, e) = (length r \<le> length s)"
  by (auto simp: out_fine_def)

lemma j_array_loop_fine:
  assumes IH: "\<And>s err. 2 * length s + 1 \<le> n \<Longrightarrow> out_fine s (j_value n s err)"
    and IHa: "\<And>s s1 items err. 2 * length s + 2 \<le> n \<Longrightarrow> length s < length s1 \<Longrightarrow> out_fine s1 (j_array_loop n items s err)"
    and n: "2 * length s + 2 \<le> Suc n" and s1: "length s < length s1"
  shows "out_fine s1 (j_array_loop (Suc n) items s err)"
proof (cases "s = []")
  case False
  have "out_fine s (j_value n s err)" using n by (intro IH) simp
  then show ?thesis
  proof (cases rule: out_fine_cases)
    case (Val v r e)
    show ?thesis
    proof (cases "j_skip r")
      case (Cons c r1)
      have "length (j_skip r1) + 2 \<le> length s" using j_skip_Cons [OF Cons] j_skip_length [of r1] Val(2) by simp
      then show ?thesis using Val Cons False s1 n j_skip_Cons [OF Cons] by (auto intro!: IHa)
    qed (use Val False s1 in auto)
  qed (use False s1 in auto)
qed (use s1 in simp)

lemma j_object_loop_fine:
  assumes IH: "\<And>s err. 2 * length s + 1 \<le> n \<Longrightarrow> out_fine s (j_value n s err)"
    and IHo: "\<And>s s1 pairs err. 2 * length s + 2 \<le> n \<Longrightarrow> length s < length s1 \<Longrightarrow> out_fine s1 (j_object_loop n pairs s err)"
    and n: "2 * length s + 2 \<le> Suc n" and s1: "length s < length s1"
  shows "out_fine s1 (j_object_loop (Suc n) pairs s err)"
proof (cases "s = []")
  case False
  obtain out r e where str: "j_string (j_skip s) err = (out, r, e)" by (cases "j_string (j_skip s) err") auto
  have out: "out \<noteq> Out_Fault" and r: "length r \<le> length s" "out = Out_Str t \<Longrightarrow> length r < length s" for t
    using j_string_safe [OF str] j_skip_length [of s] by auto
  show ?thesis
  proof (cases out)
    case (Out_Str key)
    show ?thesis
    proof (cases "j_skip r")
      case (Cons c r1)
      have r1: "length (j_skip r1) + 2 \<le> length s" "Suc (length r1) < length s1"
        using j_skip_Cons [OF Cons] j_skip_length [of r1] r(2) [OF Out_Str] s1 by simp_all
      have "out_fine (j_skip r1) (j_value n (j_skip r1) e)" using n r1 by (intro IH) simp
      then show ?thesis
      proof (cases rule: out_fine_cases)
        case (Val v r2 e2)
        show ?thesis
        proof (cases "j_skip r2")
          case (Cons d r3)
          have "2 * length r3 + 2 \<le> n" "Suc (length r3) < length s1"
            using Val(2) n r1 s1 j_skip_Cons [OF Cons] by simp_all
          then show ?thesis using Val False s1 r1 str Out_Str Cons \<open>j_skip r = c # r1\<close> by (simp add: IHo)
        qed (use Val False s1 str Out_Str Cons r1 in auto)
      next
        case (Null r2 e2)
        then show ?thesis using False s1 str Out_Str Cons r1 by auto
      qed
    qed (use False s1 str Out_Str in auto)
  qed (use False s1 str out r(1) in auto)
qed (use s1 in simp)

lemma j_value_fine_step:
  assumes IHa: "\<And>s s1 items err. 2 * length s + 2 \<le> n \<Longrightarrow> length s < length s1 \<Longrightarrow> out_fine s1 (j_array_loop n items s err)"
    and IHo: "\<And>s s1 pairs err. 2 * length s + 2 \<le> n \<Longrightarrow> length s < length s1 \<Longrightarrow> out_fine s1 (j_object_loop n pairs s err)"
    and n: "2 * length s + 1 \<le> Suc n"
  shows "out_fine s (j_value (Suc n) s err)"
proof (cases "j_skip s")
  case (Cons c r)
  note r = j_skip_Cons [OF Cons]
  have r1: "length (j_skip r) < length s" using r j_skip_length [of r] by simp
  then have loops: "out_fine s (j_array_loop n items (j_skip r) err)" "out_fine s (j_object_loop n pairs (j_skip r) err)" for items pairs
    using n by (auto intro!: IHa IHo)
  obtain out r2 e where str: "j_string (j_skip s) err = (out, r2, e)" by (cases "j_string (j_skip s) err") auto
  have str_safe: "out \<noteq> Out_Fault" "length r2 \<le> length s" "out = Out_Str t \<Longrightarrow> length r2 < length s" for t
    using j_string_safe [OF str] j_skip_length [of s] by auto
  consider "c = CHR ''{''" | "c = CHR ''[''" | (str) "c = QUO" | (lit) "c \<noteq> CHR ''{''" "c \<noteq> CHR ''[''" "c \<noteq> QUO" by blast
  then show ?thesis
  proof cases
    case str
    then have "c \<noteq> CHR ''{''" "c \<noteq> CHR ''[''" by (simp_all add: QUO_def)
    then show ?thesis using str_safe Cons \<open>j_string (j_skip s) err = (out, r2, e)\<close> str
      by (cases out) (simp_all add: Let_def)
  next
    case lit
    then show ?thesis using Cons r by (auto simp: Let_def)
  qed (use Cons loops r r1 in \<open>auto simp: Let_def dest: j_skip_Cons split: list.split\<close>)
qed simp

lemma j_parser_fine:
  "2 * length s + 1 \<le> n \<Longrightarrow> out_fine s (j_value n s err)"
  "2 * length s + 2 \<le> n \<Longrightarrow> length s < length s1 \<Longrightarrow> out_fine s1 (j_array_loop n items s err)"
  "2 * length s + 2 \<le> n \<Longrightarrow> length s < length s1 \<Longrightarrow> out_fine s1 (j_object_loop n pairs s err)"
proof (induction n arbitrary: s s1 items pairs err)
  case (Suc n)
  {
    case 1
    show ?case by (rule j_value_fine_step [OF Suc.IH(2,3) 1])
  next
    case 2
    show ?case by (rule j_array_loop_fine [OF Suc.IH(1,2) 2])
  next
    case 3
    show ?case by (rule j_object_loop_fine [OF Suc.IH(1,3) 3])
  }
qed simp_all

subsection \<open>The texts of values\<close>

text \<open>
  The JSON the helper understands, as a derivation relation: literals, strings with all
  escapes, arrays and objects, white space between the tokens; no numbers, and surrogates only in
  pairs. The first argument is the value a text denotes.
\<close>

fun simple_escape :: "char \<Rightarrow> char option" where
  "simple_escape e =
     (if e = QUO \<or> e = BSL \<or> e = CHR ''/'' then Some e
      else if e = CHR ''b'' then Some CHR 0x08 else if e = CHR ''f'' then Some CHR 0x0C
      else if e = CHR ''n'' then Some CHR 0x0A else if e = CHR ''r'' then Some CHR 0x0D
      else if e = CHR ''t'' then Some CHR 0x09 else None)"

definition hex4_text :: "nat \<Rightarrow> string \<Rightarrow> bool" where
  "hex4_text n t \<longleftrightarrow> (\<exists>a b c d h0 h1 h2 h3. t = [a, b, c, d] \<and> hexval a = Some h0 \<and> hexval b = Some h1
     \<and> hexval c = Some h2 \<and> hexval d = Some h3 \<and> n = h0 * 4096 + h1 * 256 + h2 * 16 + h3)"

inductive chars_text :: "string \<Rightarrow> string \<Rightarrow> bool" where
  ct_nil: "chars_text [] []"
| ct_plain: "c \<notin> {QUO, BSL, NUL} \<Longrightarrow> chars_text bs t \<Longrightarrow> chars_text (c # bs) (c # t)"
| ct_escape: "simple_escape e = Some b \<Longrightarrow> chars_text bs t \<Longrightarrow> chars_text (b # bs) (BSL # e # t)"
| ct_code: "hex4_text cp h \<Longrightarrow> \<not> (0xD800 \<le> cp \<and> cp \<le> 0xDFFF) \<Longrightarrow> chars_text bs t
     \<Longrightarrow> chars_text (utf8_bytes cp @ bs) (BSL # CHR ''u'' # h @ t)"
| ct_pair: "hex4_text hi h1 \<Longrightarrow> 0xD800 \<le> hi \<Longrightarrow> hi \<le> 0xDBFF \<Longrightarrow> hex4_text lo h2 \<Longrightarrow> 0xDC00 \<le> lo \<Longrightarrow> lo \<le> 0xDFFF
     \<Longrightarrow> chars_text bs t
     \<Longrightarrow> chars_text (utf8_bytes (0x10000 + (hi - 0xD800) * 1024 + (lo - 0xDC00)) @ bs)
           (BSL # CHR ''u'' # h1 @ BSL # CHR ''u'' # h2 @ t)"

abbreviation spaces :: "string \<Rightarrow> bool" where
  "spaces w \<equiv> \<forall>c\<in>set w. is_space c"

inductive val_text :: "jvalue \<Rightarrow> string \<Rightarrow> bool"
  and elems_text :: "jvalue list \<Rightarrow> string \<Rightarrow> bool"
  and members_text :: "(string \<times> jvalue) list \<Rightarrow> string \<Rightarrow> bool" where
  vt_true: "val_text (J_Bool True) ''true''"
| vt_false: "val_text (J_Bool False) ''false''"
| vt_null: "val_text J_Null ''null''"
| vt_string: "chars_text bs t \<Longrightarrow> val_text (J_String bs) (QUO # t @ [QUO])"
| vt_array0: "spaces w \<Longrightarrow> val_text (J_Array []) (CHR ''['' # w @ '']'')"
| vt_array: "elems_text vs t \<Longrightarrow> val_text (J_Array vs) (CHR ''['' # t @ '']'')"
| vt_object0: "spaces w \<Longrightarrow> val_text (J_Object []) (CHR ''{'' # w @ ''}'')"
| vt_object: "members_text ps t \<Longrightarrow> val_text (J_Object ps) (CHR ''{'' # t @ ''}'')"
| et_one: "spaces w1 \<Longrightarrow> val_text v t \<Longrightarrow> spaces w2 \<Longrightarrow> elems_text [v] (w1 @ t @ w2)"
| et_more: "spaces w1 \<Longrightarrow> val_text v t \<Longrightarrow> spaces w2 \<Longrightarrow> elems_text vs u
     \<Longrightarrow> elems_text (v # vs) (w1 @ t @ w2 @ CHR '','' # u)"
| mt_one: "spaces w1 \<Longrightarrow> chars_text k kt \<Longrightarrow> spaces w2 \<Longrightarrow> spaces w3 \<Longrightarrow> val_text v t \<Longrightarrow> spaces w4
     \<Longrightarrow> members_text [(k, v)] (w1 @ QUO # kt @ QUO # w2 @ CHR '':'' # w3 @ t @ w4)"
| mt_more: "spaces w1 \<Longrightarrow> chars_text k kt \<Longrightarrow> spaces w2 \<Longrightarrow> spaces w3 \<Longrightarrow> val_text v t \<Longrightarrow> spaces w4
     \<Longrightarrow> members_text ps u
     \<Longrightarrow> members_text ((k, v) # ps) (w1 @ QUO # kt @ QUO # w2 @ CHR '':'' # w3 @ t @ w4 @ CHR '','' # u)"

lemma hexval_less: "hexval c = Some h \<Longrightarrow> h < 16"
  by (auto simp: hexval_def Let_def split: if_splits)

lemma hex4_of_text:
  assumes "hex4_text n t"
  shows "hex4 (t @ r) = Some n" and "length t = 4"
proof -
  obtain a b c d h0 h1 h2 h3 where t: "t = [a, b, c, d]"
    and h: "hexval a = Some h0" "hexval b = Some h1" "hexval c = Some h2" "hexval d = Some h3"
    and n: "n = h0 * 4096 + h1 * 256 + h2 * 16 + h3"
    using assms by (auto simp: hex4_text_def)
  have less: "h0 < 16" "h1 < 16" "h2 < 16" "h3 < 16" using h hexval_less by blast+
  have 1: "push_bit 4 h2 OR h3 = h2 * 16 + h3" using or_push [of h3 4 h2] less by simp
  have 2: "push_bit 8 h1 OR (h2 * 16 + h3) = h1 * 256 + (h2 * 16 + h3)" using or_push [of "h2 * 16 + h3" 8 h1] less by simp
  have 3: "push_bit 12 h0 OR (h1 * 256 + (h2 * 16 + h3)) = h0 * 4096 + (h1 * 256 + (h2 * 16 + h3))"
    using or_push [of "h1 * 256 + (h2 * 16 + h3)" 12 h0] less by simp
  show "hex4 (t @ r) = Some n" using h by (simp add: t hex4_def n 1 2 3 or.assoc)
  show "length t = 4" by (simp add: t)
qed

lemma j_unicode_code:
  assumes "hex4_text cp h" and "\<not> (0xD800 \<le> cp \<and> cp \<le> 0xDFFF)"
  shows "j_unicode (h @ r) = (Esc_Code cp, r)"
proof -
  have "\<not> (0xD800 \<le> cp \<and> cp \<le> 0xDBFF)" using assms(2) by auto
  then show ?thesis using hex4_of_text [OF assms(1)] by (auto simp: j_unicode_def Let_def)
qed

lemma j_unicode_pair:
  assumes "hex4_text hi h1" "0xD800 \<le> hi" "hi \<le> 0xDBFF" and "hex4_text lo h2" "0xDC00 \<le> lo" "lo \<le> 0xDFFF"
  shows "j_unicode (h1 @ BSL # CHR ''u'' # h2 @ r) = (Esc_Code (0x10000 + (hi - 0xD800) * 1024 + (lo - 0xDC00)), r)"
  using hex4_of_text [OF assms(1)] hex4_of_text [OF assms(4)] assms
  by (simp add: j_unicode_def push_bit_eq_mult)

lemma j_string_loop_text:
  assumes "chars_text bs t" and "length buf < cap"
  shows "j_string_loop buf cap (t @ QUO # r) = Str_Ok (buf @ bs) r"
  using assms
proof (induction arbitrary: buf cap rule: chars_text.induct)
  case (ct_plain c bs t)
  have "c \<noteq> QUO" "c \<noteq> BSL" using ct_plain.hyps(1) by simp_all
  with ct_plain.prems obtain cap1 where "length (buf @ [c]) < cap1"
    "j_string_loop buf cap (c # t @ QUO # r) = j_string_loop (buf @ [c]) cap1 (t @ QUO # r)"
    by (rule j_string_loop_plain)
  then show ?case using ct_plain.IH [of "buf @ [c]" cap1] by simp
next
  case (ct_escape e b bs t)
  have "j_escape (e # t @ QUO # r) = (Esc_Byte b, t @ QUO # r)"
    using ct_escape.hyps(1) by (auto simp: j_escape_def QUO_def BSL_def split: if_splits)
  with ct_escape.prems obtain cap1 where "length (buf @ [b]) < cap1"
    "j_string_loop buf cap (BSL # e # t @ QUO # r) = j_string_loop (buf @ [b]) cap1 (t @ QUO # r)"
    by (rule j_string_loop_byte)
  then show ?case using ct_escape.IH [of "buf @ [b]" cap1] by simp
next
  case (ct_code cp h bs t)
  have "j_escape (CHR ''u'' # h @ t @ QUO # r) = (Esc_Code cp, t @ QUO # r)"
    using j_unicode_code [OF ct_code.hyps(1,2)] by (simp add: j_escape_def QUO_def BSL_def)
  with ct_code.prems obtain cap1 where "length (buf @ utf8_bytes cp) < cap1"
    "j_string_loop buf cap (BSL # CHR ''u'' # h @ t @ QUO # r) = j_string_loop (buf @ utf8_bytes cp) cap1 (t @ QUO # r)"
    by (rule j_string_loop_code)
  then show ?case using ct_code.IH [of "buf @ utf8_bytes cp" cap1] by simp
next
  case (ct_pair hi h1 lo h2 bs t)
  let ?cp = "0x10000 + (hi - 0xD800) * 1024 + (lo - 0xDC00)"
  have "j_escape (CHR ''u'' # h1 @ BSL # CHR ''u'' # h2 @ t @ QUO # r) = (Esc_Code ?cp, t @ QUO # r)"
    using j_unicode_pair [OF ct_pair.hyps(1-6)] by (simp add: j_escape_def QUO_def BSL_def)
  with ct_pair.prems obtain cap1 where "length (buf @ utf8_bytes ?cp) < cap1"
    "j_string_loop buf cap (BSL # CHR ''u'' # h1 @ BSL # CHR ''u'' # h2 @ t @ QUO # r)
       = j_string_loop (buf @ utf8_bytes ?cp) cap1 (t @ QUO # r)"
    by (rule j_string_loop_code)
  then show ?case using ct_pair.IH [of "buf @ utf8_bytes ?cp" cap1] by simp
qed simp

lemma j_string_text: "chars_text bs t \<Longrightarrow> j_string (QUO # t @ QUO # r) err = (Out_Str bs, r, err)"
  using j_string_loop_text [of bs t "[]" 64 r] by (simp add: j_string_def)

lemma j_skip_spaces [simp]: "spaces w \<Longrightarrow> j_skip (w @ s) = j_skip s"
  by (simp add: j_skip_def dropWhile_append)

lemma j_skip_stop: "\<not> is_space c \<Longrightarrow> j_skip (c # s) = c # s"
  by (simp add: j_skip_def)

lemma token_not_space [simp]:
  "\<not> is_space CHR '',''" "\<not> is_space CHR '']''" "\<not> is_space CHR ''}''" "\<not> is_space CHR '':''"
  "\<not> is_space CHR ''{''" "\<not> is_space CHR ''[''" "\<not> is_space QUO" "\<not> is_space CHR ''t''"
  "\<not> is_space CHR ''f''" "\<not> is_space CHR ''n''"
  by (simp_all add: is_space_def QUO_def)

lemma j_skip_idem [simp]: "j_skip (j_skip s) = j_skip s"
  by (simp add: j_skip_def dropWhile_idem)

lemma QUO_token [simp]:
  "QUO \<noteq> CHR ''{''" "QUO \<noteq> CHR ''[''" "QUO \<noteq> CHR ''}''" "QUO \<noteq> CHR '']''"
  by (simp_all add: QUO_def)

text \<open>A value's text starts with a character that is no space and no closing bracket.\<close>

lemma val_text_start:
  assumes "val_text v t"
  obtains c u where "t = c # u" and "\<not> is_space c" and "c \<noteq> CHR '']''" and "c \<noteq> CHR ''}''"
proof -
  have "\<exists>c u. t = c # u \<and> \<not> is_space c \<and> c \<noteq> CHR '']'' \<and> c \<noteq> CHR ''}''"
    using assms by cases simp_all
  then show thesis using that by blast
qed

lemma j_value_skip: "0 < n \<Longrightarrow> j_value n (j_skip s) err = j_value n s err"
  by (cases n) simp_all

lemma j_value_text:
  "val_text v t \<Longrightarrow> 2 * length t + 1 \<le> n \<Longrightarrow> j_value n (t @ r) err = (Val v, r, err)"
  "elems_text vs u \<Longrightarrow> 2 * length u + 2 \<le> n \<Longrightarrow> j_skip s = j_skip (u @ CHR '']'' # r) \<Longrightarrow>
     j_array_loop n items s err = (Val (J_Array (items @ vs)), r, err)"
  "members_text ps u \<Longrightarrow> 2 * length u + 2 \<le> n \<Longrightarrow> j_skip s = j_skip (u @ CHR ''}'' # r) \<Longrightarrow>
     j_object_loop n pairs s err = (Val (J_Object (pairs @ ps)), r, err)"
proof (induction arbitrary: n r err and n r err items s and n r err pairs s
    rule: val_text_elems_text_members_text.inducts)
  case vt_true
  then obtain k where n: "n = Suc k" by (cases n) auto
  show ?case by (simp add: n j_skip_stop QUO_def)
next
  case vt_false
  then obtain k where n: "n = Suc k" by (cases n) auto
  show ?case by (simp add: n j_skip_stop QUO_def)
next
  case vt_null
  then obtain k where n: "n = Suc k" by (cases n) auto
  show ?case by (simp add: n j_skip_stop QUO_def)
next
  case (vt_string bs t)
  then obtain k where n: "n = Suc k" by (cases n) auto
  show ?case using j_string_text [OF vt_string(1), of r err] by (simp add: n j_skip_stop)
next
  case (vt_array0 w)
  then obtain k where n: "n = Suc k" by (cases n) auto
  show ?case using vt_array0 by (simp add: n j_skip_stop)
next
  case (vt_object0 w)
  then obtain k where n: "n = Suc k" by (cases n) auto
  show ?case using vt_object0 by (simp add: n j_skip_stop)
next
  case (vt_array vs t)
  then obtain k where n: "n = Suc k" by (cases n) auto
  have "j_skip (t @ CHR '']'' # r) \<noteq> [] \<and> hd (j_skip (t @ CHR '']'' # r)) \<noteq> CHR '']''" for r
    using vt_array.hyps by cases (auto elim!: val_text_start simp: j_skip_stop)
  then obtain c u where c: "j_skip (t @ CHR '']'' # r) = c # u" "c \<noteq> CHR '']''"
    by (metis list.collapse)
  then have "j_skip (c # u) = c # u" using j_skip_idem [of "t @ CHR '']'' # r"] by simp
  then show ?case using c vt_array.IH [of k "c # u" r] vt_array.prems by (simp add: n j_skip_stop)
next
  case (vt_object ps t)
  then obtain k where n: "n = Suc k" by (cases n) auto
  have "j_skip (t @ CHR ''}'' # r) \<noteq> [] \<and> hd (j_skip (t @ CHR ''}'' # r)) \<noteq> CHR ''}''" for r
    using vt_object.hyps by cases (auto simp: j_skip_stop)
  then obtain c u where c: "j_skip (t @ CHR ''}'' # r) = c # u" "c \<noteq> CHR ''}''"
    by (metis list.collapse)
  then have "j_skip (c # u) = c # u" using j_skip_idem [of "t @ CHR ''}'' # r"] by simp
  then show ?case using c vt_object.IH [of k "c # u" r] vt_object.prems by (simp add: n j_skip_stop)
next
  case (et_one w1 v t w2)
  then obtain k where n: "n = Suc k" by (cases n) auto
  obtain c u where t: "t = c # u" "\<not> is_space c" using et_one.hyps by (auto elim: val_text_start)
  have "j_skip s \<noteq> []" using et_one.prems et_one.hyps t by (simp add: j_skip_stop)
  then have "s \<noteq> []" by (auto simp: j_skip_def)
  moreover have "j_value k s err = (Val v, w2 @ CHR '']'' # r, err)"
    using et_one.IH [of k "w2 @ CHR '']'' # r" err] et_one.prems et_one.hyps t j_value_skip [of k s err]
    by (simp add: n j_skip_stop)
  ultimately show ?case using et_one.hyps by (simp add: n j_skip_stop)
next
  case (et_more w1 v t w2 vs u)
  then obtain k where n: "n = Suc k" by (cases n) auto
  obtain c t1 where t: "t = c # t1" "\<not> is_space c" using et_more.hyps by (auto elim: val_text_start)
  have "j_skip s \<noteq> []" using et_more.prems et_more.hyps t by (simp add: j_skip_stop)
  then have "s \<noteq> []" by (auto simp: j_skip_def)
  moreover have "j_value k s err = (Val v, w2 @ CHR '','' # u @ CHR '']'' # r, err)"
    using et_more.IH(1) [of k "w2 @ CHR '','' # u @ CHR '']'' # r" err] et_more.prems et_more.hyps t j_value_skip [of k s err]
    by (simp add: n j_skip_stop)
  ultimately show ?case using et_more.hyps et_more.IH(2) [of k "j_skip (u @ CHR '']'' # r)" r "items @ [v]" err] et_more.prems
    by (simp add: n j_skip_stop)
next
  case (mt_one w1 k kt w2 w3 v t w4)
  then obtain m where n: "n = Suc m" by (cases n) auto
  obtain c t1 where t: "t = c # t1" "\<not> is_space c" using mt_one.hyps by (auto elim: val_text_start)
  have s: "j_skip s = QUO # kt @ QUO # w2 @ CHR '':'' # w3 @ t @ w4 @ CHR ''}'' # r"
    using mt_one.prems mt_one.hyps by (simp add: j_skip_stop)
  then have "s \<noteq> []" by (auto simp: j_skip_def)
  moreover have "j_value m (j_skip (w3 @ t @ w4 @ CHR ''}'' # r)) err = (Val v, w4 @ CHR ''}'' # r, err)"
    using mt_one.IH [of m "w4 @ CHR ''}'' # r" err] mt_one.prems mt_one.hyps t by (simp add: n j_skip_stop)
  ultimately show ?case using mt_one.hyps s j_string_text [of k kt] by (simp add: n j_skip_stop)
next
  case (mt_more w1 k kt w2 w3 v t w4 ps u)
  then obtain m where n: "n = Suc m" by (cases n) auto
  obtain c t1 where t: "t = c # t1" "\<not> is_space c" using mt_more.hyps by (auto elim: val_text_start)
  have s: "j_skip s = QUO # kt @ QUO # w2 @ CHR '':'' # w3 @ t @ w4 @ CHR '','' # u @ CHR ''}'' # r"
    using mt_more.prems mt_more.hyps by (simp add: j_skip_stop)
  then have "s \<noteq> []" by (auto simp: j_skip_def)
  moreover have "j_value m (j_skip (w3 @ t @ w4 @ CHR '','' # u @ CHR ''}'' # r)) err = (Val v, w4 @ CHR '','' # u @ CHR ''}'' # r, err)"
    using mt_more.IH(1) [of m "w4 @ CHR '','' # u @ CHR ''}'' # r" err] mt_more.prems mt_more.hyps t by (simp add: n j_skip_stop)
  ultimately show ?case
    using mt_more.hyps s j_string_text [of k kt] mt_more.IH(2) [of m "u @ CHR ''}'' # r" r "pairs @ [(k, v)]" err] mt_more.prems
    by (simp add: n j_skip_stop)
qed

subsection \<open>Code points\<close>

definition byte :: "char \<Rightarrow> nat" where
  "byte c = of_char c"

definition trail :: "char \<Rightarrow> nat" where
  "trail c = byte c - 128"

text \<open>Reading one code point of UTF-8 text, by the ranges of the leading byte.\<close>

fun utf8_decode :: "string \<Rightarrow> (nat \<times> string) option" where
  "utf8_decode [] = None"
| "utf8_decode (a # r) =
     (if byte a < 128 then Some (byte a, r)
      else if 192 \<le> byte a \<and> byte a < 224
      then (case r of b # r1 \<Rightarrow> Some ((byte a - 192) * 64 + trail b, r1) | _ \<Rightarrow> None)
      else if 224 \<le> byte a \<and> byte a < 240
      then (case r of b # c # r1 \<Rightarrow> Some ((byte a - 224) * 4096 + trail b * 64 + trail c, r1) | _ \<Rightarrow> None)
      else if 240 \<le> byte a \<and> byte a < 248
      then (case r of b # c # d # r1 \<Rightarrow>
              Some ((byte a - 240) * 262144 + trail b * 4096 + trail c * 64 + trail d, r1) | _ \<Rightarrow> None)
      else None)"

lemma lead_bits:
  "n < 32 \<Longrightarrow> 0xC0 OR n = 192 + (n :: nat)"
  "n < 16 \<Longrightarrow> 0xE0 OR n = 224 + (n :: nat)"
  "n < 8 \<Longrightarrow> 0xF0 OR n = 240 + (n :: nat)"
  "0x80 OR (n AND 0x3F) = 128 + n mod (64 :: nat)"
proof -
  show "n < 32 \<Longrightarrow> 0xC0 OR n = 192 + n" using or_push [of n 5 6] by (simp add: push_bit_eq_mult)
  show "n < 16 \<Longrightarrow> 0xE0 OR n = 224 + n" using or_push [of n 4 14] by (simp add: push_bit_eq_mult)
  show "n < 8 \<Longrightarrow> 0xF0 OR n = 240 + n" using or_push [of n 3 30] by (simp add: push_bit_eq_mult)
  have "n AND 0x3F = n mod 64" using take_bit_eq_mask [of 6 n] by (simp add: take_bit_eq_mod mask_eq_exp_minus_1)
  then show "0x80 OR (n AND 0x3F) = 128 + n mod 64" using or_push [of "n mod 64" 6 2] by (simp add: push_bit_eq_mult)
qed

lemma byte_char_of: "n < 256 \<Longrightarrow> byte (char_of n) = n"
  by (simp add: byte_def)

lemma utf8_bytes_arith:
  assumes "cp < 0x110000"
  shows "utf8_bytes cp =
     (if cp < 128 then [char_of cp]
      else if cp < 2048 then [char_of (192 + cp div 64), char_of (128 + cp mod 64)]
      else if cp < 65536 then [char_of (224 + cp div 4096), char_of (128 + cp div 64 mod 64), char_of (128 + cp mod 64)]
      else [char_of (240 + cp div 262144), char_of (128 + cp div 4096 mod 64), char_of (128 + cp div 64 mod 64), char_of (128 + cp mod 64)])"
  using assms by (simp add: utf8_bytes_def lead_bits drop_bit_eq_div)

lemma utf8_decode_bytes:
  assumes "cp < 0x110000"
  shows "utf8_decode (utf8_bytes cp @ r) = Some (cp, r)"
proof -
  have b: "byte (char_of (128 + n mod 64)) = 128 + n mod 64" for n
    by (rule byte_char_of) (use mod_less_divisor [of 64 n] in linarith)
  have div: "cp div 4096 = cp div 64 div 64" "cp div 262144 = cp div 64 div 64 div 64"
    by (simp_all add: div_mult2_eq [symmetric])
  have parts: "cp = cp div 64 * 64 + cp mod 64"
    "cp = cp div 4096 * 4096 + cp div 64 mod 64 * 64 + cp mod 64"
    "cp = cp div 262144 * 262144 + cp div 4096 mod 64 * 4096 + cp div 64 mod 64 * 64 + cp mod 64"
    unfolding div using div_mult_mod_eq [of cp 64] div_mult_mod_eq [of "cp div 64" 64] div_mult_mod_eq [of "cp div 64 div 64" 64]
    by linarith+
  have small: "cp < 2048 \<Longrightarrow> cp div 64 < 32" "cp < 65536 \<Longrightarrow> cp div 4096 < 16" "cp div 262144 < 8"
    using assms by (simp_all add: less_mult_imp_div_less)
  consider "cp < 128" | (two) "128 \<le> cp" "cp < 2048" | (three) "2048 \<le> cp" "cp < 65536" | (four) "65536 \<le> cp" by linarith
  then show ?thesis
  proof cases
    case two
    with parts(1) small(1) b show ?thesis by (simp add: utf8_bytes_arith assms byte_char_of trail_def)
  next
    case three
    with parts(2) small(2) b show ?thesis by (simp add: utf8_bytes_arith assms byte_char_of trail_def)
  next
    case four
    with parts(3) small(3) b show ?thesis by (simp add: utf8_bytes_arith assms byte_char_of trail_def)
  qed (simp add: utf8_bytes_arith assms byte_char_of)
qed

subsection \<open>Texts carry no zero byte\<close>

lemma hexval_NUL: "hexval NUL = None"
  by (simp add: hexval_def NUL_def)

lemma hex4_text_NUL: "hex4_text n t \<Longrightarrow> NUL \<notin> set t"
  by (auto simp: hex4_text_def hexval_NUL)

lemma token_NUL [simp]: "NUL \<noteq> QUO" "QUO \<noteq> NUL" "NUL \<noteq> BSL" "BSL \<noteq> NUL" "\<not> is_space NUL"
  by (simp_all add: NUL_def QUO_def BSL_def is_space_def)

lemma chars_text_NUL: "chars_text bs t \<Longrightarrow> NUL \<notin> set t"
proof (induction rule: chars_text.induct)
  case (ct_escape e b bs t)
  then have "e \<noteq> NUL" by (auto simp: NUL_def QUO_def BSL_def)
  with ct_escape show ?case by auto
qed (auto dest: hex4_text_NUL, auto simp: NUL_def)

lemma val_text_NUL:
  "val_text v t \<Longrightarrow> NUL \<notin> set t" "elems_text vs t \<Longrightarrow> NUL \<notin> set t" "members_text ps t \<Longrightarrow> NUL \<notin> set t"
proof (induction rule: val_text_elems_text_members_text.inducts)
qed (auto dest: chars_text_NUL, auto simp: NUL_def is_space_def)

lemma c_str_no_NUL: "NUL \<notin> set s \<Longrightarrow> c_str s = s"
  unfolding c_str_def by (rule takeWhile_eq_all_conv [THEN iffD2]) auto

subsection \<open>Writing\<close>

definition healthy :: "write_answer list \<Rightarrow> bool" where
  "healthy ws \<longleftrightarrow> W_Err \<notin> set ws \<and> W_Took 0 \<notin> set ws"

definition takes :: "write_answer list \<Rightarrow> nat" where
  "takes ws = length (filter (\<lambda>w. w \<noteq> W_Eintr) ws)"

lemma write_all_fd_prefix: "write_all_fd ws buf = (out, ok, ws1) \<Longrightarrow> (\<exists>rest. buf = out @ rest) \<and> (ok \<longrightarrow> out = buf)"
proof (induction ws buf arbitrary: out ok ws1 rule: write_all_fd.induct)
  case (5 n ws c buf)
  show ?case
  proof (cases "n = 0")
    case False
    obtain o1 k w1 where rec: "write_all_fd ws (drop n (c # buf)) = (o1, k, w1)" by (metis prod_cases3)
    with "5.IH" [OF False rec] "5.prems" False show ?thesis
      by (auto simp: Let_def) (metis append_take_drop_id append.assoc)+
  qed (use 5 in simp)
qed auto

lemma write_all_fd_healthy:
  "healthy ws \<Longrightarrow> length buf \<le> takes ws \<Longrightarrow>
   \<exists>ws1. write_all_fd ws buf = (buf, True, ws1) \<and> healthy ws1 \<and> takes ws \<le> takes ws1 + length buf"
proof (induction ws buf rule: write_all_fd.induct)
  case (3 ws c buf)
  then show ?case by (auto simp: healthy_def takes_def)
next
  case (5 n ws c buf)
  then have n: "0 < n" and ws: "healthy ws" by (auto simp: healthy_def)
  have "length (drop n (c # buf)) \<le> takes ws" using 5(3) n by (simp add: takes_def)
  with 5(1) n ws obtain ws1 where rec: "write_all_fd ws (drop n (c # buf)) = (drop n (c # buf), True, ws1)"
    and "healthy ws1" and "takes ws \<le> takes ws1 + length (drop n (c # buf))" by auto
  moreover from this(3) have "takes (W_Took n # ws) \<le> takes ws1 + length (c # buf)" using n by (simp add: takes_def)
  moreover have "take n (c # buf) @ drop n (c # buf) = c # buf" by (rule append_take_drop_id)
  ultimately show ?case using n by (simp only: write_all_fd.simps Let_def) simp
qed (auto simp: healthy_def takes_def)

lemma write_pieces_healthy:
  "healthy ws \<Longrightarrow> length (concat ps) \<le> takes ws \<Longrightarrow> \<exists>ws1. write_pieces ws ps = (concat ps, ws1)"
proof (induction ps arbitrary: ws)
  case (Cons p ps)
  then obtain ws1 where "write_all_fd ws p = (p, True, ws1)" and "healthy ws1" and "takes ws \<le> takes ws1 + length p"
    using write_all_fd_healthy [of ws p] by auto
  with Cons.IH [of ws1] Cons.prems show ?case by auto
qed simp

subsection \<open>Printed strings are texts\<close>

lemma hexval_digit: "n < 16 \<Longrightarrow> hexval (hex_digit n) = Some n"
  by (auto simp: hexval_def hex_digit_def Let_def)

lemma hex4_text_byte:
  assumes "n < 32"
  shows "hex4_text n [CHR ''0'', CHR ''0'', hex_digit (n div 16), hex_digit (n mod 16)]"
proof -
  have "hexval (hex_digit (n div 16)) = Some (n div 16)" "hexval (hex_digit (n mod 16)) = Some (n mod 16)"
    using assms by (simp_all add: hexval_digit)
  moreover have "hexval CHR ''0'' = Some 0" by (simp add: hexval_def)
  ultimately show ?thesis unfolding hex4_text_def by fastforce
qed

lemma chars_text_emit_char:
  assumes "c \<noteq> NUL" and "chars_text bs t"
  shows "chars_text (c # bs) (emit_char c @ t)"
proof -
  define n where "n = (of_char c :: nat)"
  have c: "c = char_of n" by (simp add: n_def)
  have chr: "n = 10 \<Longrightarrow> c = CHR 0x0A" "n = 13 \<Longrightarrow> c = CHR 0x0D" "n = 9 \<Longrightarrow> c = CHR 0x09"
    using of_char_eq_iff [where 'a = nat, of c "CHR 0x0A"] of_char_eq_iff [where 'a = nat, of c "CHR 0x0D"]
      of_char_eq_iff [where 'a = nat, of c "CHR 0x09"] by (simp_all add: n_def)
  have esc: ?thesis if "emit_char c = [BSL, e]" and "simple_escape e = Some c" for e
    using ct_escape [OF that(2) assms(2)] that(1) by simp
  consider "c = QUO" | "c = BSL" | "n = 10" | "n = 13" | "n = 9"
    | (ctl) "n < 32" "n \<noteq> 10" "n \<noteq> 13" "n \<noteq> 9" "c \<noteq> QUO" "c \<noteq> BSL"
    | (plain) "\<not> n < 32" "c \<noteq> QUO" "c \<noteq> BSL" by blast
  then show ?thesis
  proof cases
    case ctl
    have "utf8_bytes n = [c]" using ctl by (simp add: utf8_bytes_def c)
    with ct_code [OF hex4_text_byte [OF ctl(1)] _ assms(2)] ctl show ?thesis
      by (simp add: emit_char_def n_def [symmetric] Let_def)
  next
    case plain
    with ct_plain [OF _ assms(2), of c] assms(1) show ?thesis by (auto simp: emit_char_def n_def [symmetric] Let_def)
  next
    assume "c = QUO"
    then show ?thesis by (intro esc [of QUO]) (simp_all add: emit_char_def)
  next
    assume "c = BSL"
    then show ?thesis by (intro esc [of BSL]) (simp_all add: emit_char_def)
  next
    assume "n = 10"
    with chr show ?thesis by (intro esc [of "CHR ''n''"]) (simp_all add: emit_char_def QUO_def BSL_def)
  next
    assume "n = 13"
    with chr show ?thesis by (intro esc [of "CHR ''r''"]) (simp_all add: emit_char_def QUO_def BSL_def)
  next
    assume "n = 9"
    with chr show ?thesis by (intro esc [of "CHR ''t''"]) (simp_all add: emit_char_def QUO_def BSL_def)
  qed
qed

lemma chars_text_emit: "NUL \<notin> set s \<Longrightarrow> chars_text s (concat (map emit_char s))"
  by (induction s) (auto intro: ct_nil chars_text_emit_char)

lemma c_str_NUL: "NUL \<notin> set (c_str s)"
  by (auto simp: c_str_def dest: set_takeWhileD)

lemma emit_char_no_newline: "CHR 0x0A \<notin> set (emit_char c)"
proof -
  have "CHR 0x0A \<noteq> hex_digit n" if "n < 16" for n
  proof
    assume "CHR 0x0A = hex_digit n"
    then have "hexval CHR 0x0A = Some n" using hexval_digit [OF that] by simp
    then show False by (simp add: hexval_def)
  qed
  moreover have "of_char c < (256 :: nat)" using of_char_mod_256 [of c, where 'a = nat] by (metis mod_less_divisor zero_less_numeral)
  ultimately show ?thesis by (auto simp: emit_char_def Let_def QUO_def BSL_def)
qed

definition click_value :: "string \<Rightarrow> jvalue" where
  "click_value name = J_Object [(''event'', J_String ''click''), (''name'', J_String name)]"

definition click_line :: "string \<Rightarrow> string" where
  "click_line name = CHR ''{'' # QUO # ''event'' @ QUO # CHR '':'' # QUO # ''click'' @ QUO # CHR '','' #
     QUO # ''name'' @ QUO # CHR '':'' # QUO # concat (map emit_char (c_str name)) @ QUO # ''}''"

lemma concat_emit_click: "concat (emit_click_line name) = click_line name @ [CHR 0x0A]"
proof -
  have "char_of (10 :: nat) = CHR 0x0A" using of_char_eq_iff [where 'a = nat, of "char_of (10 :: nat)" "CHR 0x0A"] by simp
  then show ?thesis by (simp add: emit_click_line_def emit_json_string_def click_line_def)
qed

lemma chars_text_plain: "set w \<inter> {QUO, BSL, NUL} = {} \<Longrightarrow> chars_text w w"
  by (induction w) (auto intro: ct_nil ct_plain)

lemma click_line_text: "val_text (click_value (c_str name)) (click_line name)"
proof -
  have "chars_text ''name'' ''name''" "chars_text ''event'' ''event''" "chars_text ''click'' ''click''"
    by (rule chars_text_plain, simp add: QUO_def BSL_def NUL_def)+
  note texts = this chars_text_emit [OF c_str_NUL, of name]
  have second: "members_text [(''name'', J_String (c_str name))]
      (QUO # ''name'' @ QUO # CHR '':'' # QUO # concat (map emit_char (c_str name)) @ [QUO])"
    using mt_one [of "[]" _ _ "[]" "[]" _ _ "[]", OF _ texts(1) _ _ vt_string [OF texts(4)]] by simp
  have "members_text [(''event'', J_String ''click''), (''name'', J_String (c_str name))]
      (QUO # ''event'' @ QUO # CHR '':'' # QUO # ''click'' @ QUO # CHR '','' #
       QUO # ''name'' @ QUO # CHR '':'' # QUO # concat (map emit_char (c_str name)) @ [QUO])"
    using mt_more [of "[]" _ _ "[]" "[]" _ _ "[]", OF _ texts(2) _ _ vt_string [OF texts(3)] _ second] by simp
  from vt_object [OF this] show ?thesis by (simp add: click_value_def click_line_def)
qed

lemma j_parse_text:
  assumes "val_text v t" and "spaces w1" and "spaces w2"
  shows "j_parse (w1 @ t @ w2) = Parsed v"
proof -
  have "NUL \<notin> set (w1 @ t @ w2)" using val_text_NUL(1) [OF assms(1)] assms(2,3) by auto
  then have c: "c_str (w1 @ t @ w2) = w1 @ t @ w2" by (rule c_str_no_NUL)
  have "j_value (2 * length (w1 @ t @ w2) + 1) (w1 @ t @ w2) False = j_value (2 * length (w1 @ t @ w2) + 1) (t @ w2) False"
    using j_value_skip [of "2 * length (w1 @ t @ w2) + 1" "w1 @ t @ w2" False] assms(2)
      j_value_skip [of "2 * length (w1 @ t @ w2) + 1" "t @ w2" False] by (simp del: j_value.simps)
  also have "\<dots> = (Val v, w2, False)" by (rule j_value_text(1) [OF assms(1)]) simp
  finally show ?thesis using assms(3) j_skip_spaces [of w2 "[]"]
    by (simp add: j_parse_def j_parse_with_def c j_skip_def del: j_value.simps)
qed

lemma j_parse_never_bad: "j_parse line \<noteq> Parse_Deep" "j_parse line \<noteq> Parse_Fault"
proof -
  have "out_fine (c_str line) (j_value (2 * length (c_str line) + 1) (c_str line) False)"
    by (rule j_parser_fine) simp
  then show "j_parse line \<noteq> Parse_Deep" "j_parse line \<noteq> Parse_Fault"
    by (cases rule: out_fine_cases; simp add: j_parse_def j_parse_with_def)+
qed

section \<open>Properties\<close>


text \<open>C24: Every JSON text without numbers, with any white space and any escapes (surrogate pairs included),
  is parsed to the value it denotes.\<close>

theorem j_parse_complete:
  assumes "val_text v t" and "spaces w1" and "spaces w2"
  shows "j_parse (w1 @ t @ w2) = Parsed v"
  using assms by (rule j_parse_text)

theorem j_parse_complete_witness:
  "j_parse ('' '' @ (CHR ''['' # '' true,null '' @ '']'') @ [CHR 0x0A]) = Parsed (J_Array [J_Bool True, J_Null])"
proof -
  have "elems_text [J_Bool True, J_Null] ('' '' @ ''true'' @ [] @ CHR '','' # ([] @ ''null'' @ '' ''))"
    by (intro et_more et_one vt_true vt_null) (simp_all add: is_space_def)
  from vt_array [OF this] have "val_text (J_Array [J_Bool True, J_Null]) (CHR ''['' # '' true,null '' @ '']'')" by simp
  from j_parse_complete [OF this, of "'' ''" "[CHR 0x0A]"] show ?thesis by (simp add: is_space_def)
qed

text \<open>C25: A click event for any item name is written as one line (no raw newline in it, whatever the name),
  through any number of interruptions and short writes, and parsing that line gives back the
  event with that name.\<close>

theorem click_event_roundtrip:
  assumes "healthy ws" and "length (concat (emit_click_line name)) \<le> takes ws"
  shows "\<exists>line ws1. write_pieces ws (emit_click_line name) = (line @ [CHR 0x0A], ws1) \<and> CHR 0x0A \<notin> set line
    \<and> j_parse line = Parsed (click_value (c_str name))"
proof -
  obtain ws1 where "write_pieces ws (emit_click_line name) = (concat (emit_click_line name), ws1)"
    using write_pieces_healthy [OF assms] by blast
  moreover have "CHR 0x0A \<notin> set (click_line name)"
    using emit_char_no_newline by (auto simp: click_line_def QUO_def)
  moreover have "j_parse (click_line name) = Parsed (click_value (c_str name))"
    using j_parse_text [OF click_line_text, of "[]" "[]"] by simp
  ultimately show ?thesis by (auto simp: concat_emit_click)
qed

theorem click_event_roundtrip_witness:
  "\<exists>line ws1. write_pieces (W_Eintr # replicate 100 (W_Took 1)) (emit_click_line ''a'') = (line @ [CHR 0x0A], ws1)
     \<and> j_parse line = Parsed (click_value ''a'')"
proof -
  have "c_str ''a'' = ''a''" by (simp add: c_str_def NUL_def)
  moreover have "length (concat (emit_click_line ''a'')) \<le> takes (W_Eintr # replicate 100 (W_Took 1))"
    by (simp add: emit_click_line_def emit_json_string_def c_str_def NUL_def emit_char_def takes_def QUO_def BSL_def)
  moreover have "healthy (W_Eintr # replicate 100 (W_Took 1))" by (auto simp: healthy_def)
  ultimately show ?thesis using click_event_roundtrip [of "W_Eintr # replicate 100 (W_Took 1)" "''a''"] by auto
qed

text \<open>The UTF-8 that \<open>append_utf8\<close> writes for a code point decodes to that code point, for the whole
  Unicode range and whatever follows.\<close>

theorem append_utf8_decodes:
  assumes "cp < 0x110000" and "0 < cap"
  shows "\<exists>b cap1. append_utf8 buf cap cp = Some (buf @ b, cap1) \<and> length (buf @ b) < cap1
    \<and> utf8_decode (b @ rest) = Some (cp, rest)"
  using utf8_decode_bytes [OF assms(1)] append_utf8_fits [OF assms(2), of buf cp] by metis

theorem append_utf8_decodes_witness:
  "\<exists>b cap1. append_utf8 [] 2 0x1F600 = Some (b, cap1) \<and> utf8_decode (b @ ''x'') = Some (0x1F600, ''x'')"
  using append_utf8_decodes [of "0x1F600" 2 "[]" "''x''"] by auto

end
