(* ===== verification/Control.thy ===== *)
theory Control
  imports Perl_Value
begin

section \<open>Go routines: control, timers, the active count (GoRoutine012Native.h, GoRoutine012.xs)\<close>

text \<open>
  Each \<open>go\<close> starts a detached thread that runs a callback in a cloned interpreter; its
  \<open>go_control\<close> is shared with the handle's methods \<open>kill\<close>, \<open>timeout\<close>, \<open>status\<close>, \<open>age\<close> and
  with the timer threads. The functions on the control come first, each the code under its
  mutex; then the threads as a step relation, in which the moments outside the mutex (a timer
  that has decided to cancel, a thread that is about to send the wake signal, a worker that has
  read its error but not yet finished) are states of their own. Times are readings of the
  monotonic clock in nanoseconds.
\<close>

datatype go_state = GO_STATE_RUNNING | GO_STATE_DONE | GO_STATE_KILLED | GO_STATE_TIMED_OUT
  | GO_STATE_EXITED | GO_STATE_FAILED

datatype go_cancel_reason = GO_CANCEL_NONE | GO_CANCEL_KILL | GO_CANCEL_TIMEOUT

record go_control =
  c_thread_valid :: bool
  c_state :: go_state
  c_cancel_reason :: go_cancel_reason
  c_cancel_requested :: bool
  c_exit_requested :: bool
  c_started_at :: int
  c_finished_at :: int
  c_timeout_generation :: u64
  c_timeout_seconds :: int

definition GO_CANCEL_EXCEPTION :: string where
  "GO_CANCEL_EXCEPTION = ''__DEVELOPER_DASHBOARD_GOROUTINE_CANCEL__''"

definition GO_EXIT_EXCEPTION :: string where
  "GO_EXIT_EXCEPTION = ''__DEVELOPER_DASHBOARD_GOROUTINE_EXIT__''"

subsection \<open>Operations on a control\<close>

definition go_control_new :: "int \<Rightarrow> go_control" where
  "go_control_new now = \<lparr>c_thread_valid = False, c_state = GO_STATE_RUNNING, c_cancel_reason = GO_CANCEL_NONE,
     c_cancel_requested = False, c_exit_requested = False, c_started_at = now, c_finished_at = 0,
     c_timeout_generation = 0, c_timeout_seconds = 0\<rparr>"

definition go_control_is_running :: "go_control \<Rightarrow> bool" where
  "go_control_is_running c \<longleftrightarrow> c_state c = GO_STATE_RUNNING"

text \<open>The answer says whether this call made the request; the flag after it whether the caller
  still has to wake the thread.\<close>

definition go_control_request_cancel :: "go_cancel_reason \<Rightarrow> go_control \<Rightarrow> go_control \<times> bool \<times> bool" where
  "go_control_request_cancel reason c =
     (if c_state c = GO_STATE_RUNNING \<and> \<not> c_cancel_requested c
      then (c\<lparr>c_cancel_requested := True, c_cancel_reason := reason\<rparr>, True, c_thread_valid c)
      else (c, False, False))"

definition go_control_finish :: "go_state \<Rightarrow> int \<Rightarrow> go_control \<Rightarrow> go_control" where
  "go_control_finish st now c = c\<lparr>c_state := st, c_finished_at := now, c_thread_valid := False\<rparr>"

text \<open>\<open>go_runops\<close> before each op: the flag says whether the op is \<open>OP_EXIT\<close>. An error is croaked.\<close>

definition go_runops_check :: "bool \<Rightarrow> go_control \<Rightarrow> go_control \<times> string option" where
  "go_runops_check is_exit c =
     (if c_cancel_requested c then (c, Some GO_CANCEL_EXCEPTION)
      else if c_exit_requested c then (c, Some GO_EXIT_EXCEPTION)
      else if is_exit then (c\<lparr>c_exit_requested := True\<rparr>, Some GO_EXIT_EXCEPTION)
      else (c, None))"

text \<open>\<open>strstr\<close>, and the truth of an error string (\<open>SvTRUE(ERRSV)\<close>).\<close>

fun is_prefix :: "string \<Rightarrow> string \<Rightarrow> bool" where
  "is_prefix [] ys = True"
| "is_prefix (x # xs) [] = False"
| "is_prefix (x # xs) (y # ys) = (x = y \<and> is_prefix xs ys)"

fun strstr :: "string \<Rightarrow> string \<Rightarrow> bool" where
  "strstr [] needle = (needle = [])"
| "strstr (x # xs) needle = (is_prefix needle (x # xs) \<or> strstr xs needle)"

definition err_true :: "string \<Rightarrow> bool" where
  "err_true err \<longleftrightarrow> err \<noteq> [] \<and> err \<noteq> ''0''"

definition final_state :: "string \<Rightarrow> go_control \<Rightarrow> go_state" where
  "final_state err c =
     (if \<not> err_true err then GO_STATE_DONE
      else if strstr err GO_CANCEL_EXCEPTION
      then (if c_cancel_reason c = GO_CANCEL_TIMEOUT then GO_STATE_TIMED_OUT else GO_STATE_KILLED)
      else if strstr err GO_EXIT_EXCEPTION then GO_STATE_EXITED
      else GO_STATE_FAILED)"

definition routine_age :: "int \<Rightarrow> go_control \<Rightarrow> int" where
  "routine_age now c = (if c_state c = GO_STATE_RUNNING then now else c_finished_at c) - c_started_at c"

fun routine_status :: "go_state \<Rightarrow> string" where
  "routine_status GO_STATE_RUNNING = ''running''"
| "routine_status GO_STATE_DONE = ''done''"
| "routine_status GO_STATE_KILLED = ''killed''"
| "routine_status GO_STATE_TIMED_OUT = ''timed_out''"
| "routine_status GO_STATE_EXITED = ''exited''"
| "routine_status GO_STATE_FAILED = ''failed''"

text \<open>\<open>_routine_timeout\<close>: the generation of the timer to start, when one is needed.\<close>

definition routine_timeout :: "int \<Rightarrow> go_control \<Rightarrow> go_control \<times> u64 option" where
  "routine_timeout secs c =
     (let gen = c_timeout_generation c + 1;
          c1 = c\<lparr>c_timeout_generation := gen, c_timeout_seconds := (if secs > 0 then secs else 0)\<rparr>
      in (c1, if c_state c \<noteq> GO_STATE_RUNNING \<or> secs \<le> 0 then None else Some gen))"

text \<open>One turn of the loop of \<open>go_timeout_worker\<close>, with the length of the wait in milliseconds.\<close>

datatype timer_act = Timer_Sleep nat | Timer_Cancel | Timer_Stop

definition timer_turn :: "int \<Rightarrow> u64 \<Rightarrow> int \<Rightarrow> go_control \<Rightarrow> timer_act" where
  "timer_turn now gen deadline c =
     (if c_state c = GO_STATE_RUNNING \<and> c_timeout_generation c = gen \<and> c_timeout_seconds c > 0
      then (if deadline - now \<le> 0 then Timer_Cancel
            else (let ms = nat ((deadline - now) div 1000000)
                  in Timer_Sleep (if ms = 0 then 1 else if ms > 100 then 100 else ms)))
      else Timer_Stop)"

subsection \<open>Starting a routine\<close>

text \<open>What the interpreter, the allocator and the threads library answer during one \<open>go\<close>.\<close>

record go_env =
  env_code :: bool
  env_control :: bool
  env_clone :: bool
  env_callback :: bool
  env_job :: bool
  env_thread :: bool

datatype worker = W_Running | W_Ended string | W_Classified go_state | W_Finished | W_Gone

text \<open>A timer thread: created (generation, seconds, time of the call), in its loop (generation, deadline),
  past the loop with the decision to cancel, done. The time of the call and the seconds stay for
  the record.\<close>

datatype timer = T_Created u64 int int | T_Loop u64 int int int | T_Cancelling int int | T_Cancelled int int | T_Stopped

record routine =
  r_ctl :: go_control
  r_worker :: worker
  r_launched :: bool
  r_timers :: "timer list"
  r_wakes :: nat
  r_ops :: nat
  r_kills :: "bool list"

record go_sys =
  gs_routines :: "routine list"
  gs_active :: nat
  gs_clock :: int

definition new_routine :: "int \<Rightarrow> routine" where
  "new_routine now = \<lparr>r_ctl = go_control_new now, r_worker = W_Running, r_launched = False,
     r_timers = [], r_wakes = 0, r_ops = 0, r_kills = []\<rparr>"

definition go_active_inc :: "go_sys \<Rightarrow> go_sys" where
  "go_active_inc s = s\<lparr>gs_active := gs_active s + 1\<rparr>"

definition go_active_dec :: "go_sys \<Rightarrow> go_sys" where
  "go_active_dec s = (if gs_active s > 0 then s\<lparr>gs_active := gs_active s - 1\<rparr> else s)"

definition go_call :: "go_env \<Rightarrow> (go_sys, nat) xs" where
  "go_call e s =
     (if \<not> env_code e then (Croak ''go() expects a code reference'', s)
      else if \<not> env_control e then (Croak ''out of memory allocating go routine control'', s)
      else if \<not> env_clone e then (Croak ''perl_clone() failed'', s)
      else if \<not> env_callback e then (Croak ''could not map callback into cloned Perl interpreter'', s)
      else if \<not> env_job e then (Croak ''out of memory allocating go routine job'', s)
      else let s1 = go_active_inc s
           in if \<not> env_thread e then (Croak ''native thread creation failed'', go_active_dec s1)
              else (Ret (length (gs_routines s1)),
                    s1\<lparr>gs_routines := gs_routines s1 @ [new_routine (gs_clock s1)]\<rparr>))"

text \<open>\<open>wait_all\<close> leaves its loop.\<close>

definition wait_all_returns :: "go_sys \<Rightarrow> bool" where
  "wait_all_returns s \<longleftrightarrow> gs_active s = 0"

subsection \<open>The threads of one routine\<close>

text \<open>
  \<open>op_refused\<close> croaks before an op; an \<open>eval\<close> inside the callback may catch the error (then the
  next op is checked again). \<open>op_run\<close> executes an op, after which the callback goes on, returns (the
  empty error) or dies. Then the worker reads its error, finishes the control and leaves.
\<close>

inductive routine_step :: "int \<Rightarrow> routine \<Rightarrow> routine \<Rightarrow> bool" for now :: int where
  op_refused: "r_worker r = W_Running \<Longrightarrow> go_runops_check is_exit (r_ctl r) = (c, Some e) \<Longrightarrow>
     routine_step now r (r\<lparr>r_ctl := c, r_worker := (if caught then W_Running else W_Ended e)\<rparr>)"
| op_run: "r_worker r = W_Running \<Longrightarrow> go_runops_check False (r_ctl r) = (c, None) \<Longrightarrow>
     w = W_Running \<or> w = W_Ended e \<Longrightarrow>
     routine_step now r (r\<lparr>r_ctl := c, r_worker := w, r_ops := r_ops r + 1\<rparr>)"
| classify: "r_worker r = W_Ended e \<Longrightarrow>
     routine_step now r (r\<lparr>r_worker := W_Classified (final_state e (r_ctl r))\<rparr>)"
| finish: "r_worker r = W_Classified st \<Longrightarrow>
     routine_step now r (r\<lparr>r_ctl := go_control_finish st now (r_ctl r), r_worker := W_Finished\<rparr>)"
| launched: "\<not> r_launched r \<Longrightarrow>
     routine_step now r (r\<lparr>r_ctl := (r_ctl r)\<lparr>c_thread_valid := True\<rparr>, r_launched := True\<rparr>)"
| kill: "go_control_request_cancel GO_CANCEL_KILL (r_ctl r) = (c, yes, wake) \<Longrightarrow>
     routine_step now r (r\<lparr>r_ctl := c, r_kills := r_kills r @ [yes], r_wakes := r_wakes r + (if wake then 1 else 0)\<rparr>)"
| signal: "r_wakes r > 0 \<Longrightarrow> routine_step now r (r\<lparr>r_wakes := r_wakes r - 1\<rparr>)"
| timeout: "routine_timeout secs (r_ctl r) = (c, gen) \<Longrightarrow>
     routine_step now r (r\<lparr>r_ctl := c,
       r_timers := r_timers r @ (case gen of Some g \<Rightarrow> [T_Created g secs now] | None \<Rightarrow> [])\<rparr>)"
| timeout_fails: "routine_timeout secs (r_ctl r) = (c, Some gen) \<Longrightarrow> routine_step now r (r\<lparr>r_ctl := c\<rparr>)"
| timer_begin: "i < length (r_timers r) \<Longrightarrow> r_timers r ! i = T_Created g secs t0 \<Longrightarrow>
     routine_step now r (r\<lparr>r_timers := (r_timers r)[i := T_Loop g (now + (if secs > 0 then secs else 0)) secs t0]\<rparr>)"
| timer_due: "i < length (r_timers r) \<Longrightarrow> r_timers r ! i = T_Loop g deadline secs t0 \<Longrightarrow>
     timer_turn now g deadline (r_ctl r) = Timer_Cancel \<Longrightarrow>
     routine_step now r (r\<lparr>r_timers := (r_timers r)[i := T_Cancelling secs t0]\<rparr>)"
| timer_stop: "i < length (r_timers r) \<Longrightarrow> r_timers r ! i = T_Loop g deadline secs t0 \<Longrightarrow>
     timer_turn now g deadline (r_ctl r) = Timer_Stop \<Longrightarrow>
     routine_step now r (r\<lparr>r_timers := (r_timers r)[i := T_Stopped]\<rparr>)"
| timer_cancel: "i < length (r_timers r) \<Longrightarrow> r_timers r ! i = T_Cancelling secs t0 \<Longrightarrow>
     go_control_request_cancel GO_CANCEL_TIMEOUT (r_ctl r) = (c, yes, wake) \<Longrightarrow>
     routine_step now r (r\<lparr>r_ctl := c, r_timers := (r_timers r)[i := (if yes then T_Cancelled secs t0 else T_Stopped)],
       r_wakes := r_wakes r + (if wake then 1 else 0)\<rparr>)"

inductive_simps routine_step_simps: "routine_step now r r'"

text \<open>All routines of the process. The clock is monotonic.\<close>

inductive go_step :: "go_sys \<Rightarrow> go_sys \<Rightarrow> bool" where
  go: "go_call e s = (out, s') \<Longrightarrow> go_step s s'"
| routine: "i < length (gs_routines s) \<Longrightarrow> routine_step (gs_clock s) (gs_routines s ! i) r \<Longrightarrow>
     go_step s (s\<lparr>gs_routines := (gs_routines s)[i := r]\<rparr>)"
| leave: "i < length (gs_routines s) \<Longrightarrow> r_worker (gs_routines s ! i) = W_Finished \<Longrightarrow>
     go_step s (go_active_dec (s\<lparr>gs_routines := (gs_routines s)[i := (gs_routines s ! i)\<lparr>r_worker := W_Gone\<rparr>]\<rparr>))"
| tick: "gs_clock s \<le> now \<Longrightarrow> go_step s (s\<lparr>gs_clock := now\<rparr>)"

definition go_start :: "int \<Rightarrow> go_sys" where
  "go_start now = \<lparr>gs_routines = [], gs_active = 0, gs_clock = now\<rparr>"

inductive go_reach :: "go_sys \<Rightarrow> go_sys \<Rightarrow> bool" for s0 where
  go_reach_start: "go_reach s0 s0"
| go_reach_step: "go_reach s0 s \<Longrightarrow> go_step s s' \<Longrightarrow> go_reach s0 s'"

subsection \<open>What holds of each routine\<close>

text \<open>
  The contract between the step relation of one routine and the whole process: a fact about a
  routine that its own steps, its leaving and the passing of time preserve stays true of it, and
  one that a new routine has holds of every routine.
\<close>

locale routine_property =
  fixes I :: "int \<Rightarrow> routine \<Rightarrow> bool"
  assumes step: "I now r \<Longrightarrow> routine_step now r r' \<Longrightarrow> I now r'"
    and leaves: "I now r \<Longrightarrow> r_worker r = W_Finished \<Longrightarrow> I now (r\<lparr>r_worker := W_Gone\<rparr>)"
    and later: "I now r \<Longrightarrow> now \<le> now' \<Longrightarrow> I now' r"
begin

lemma go_step_keeps:
  assumes "go_step s s'" and "i < length (gs_routines s)" and "I (gs_clock s) (gs_routines s ! i)"
  shows "i < length (gs_routines s') \<and> I (gs_clock s') (gs_routines s' ! i)"
  using assms
proof cases
  case (go e out)
  then show ?thesis using assms(2,3)
    by (auto simp: go_call_def go_active_inc_def go_active_dec_def nth_append Let_def split: if_splits)
next
  case (routine j r)
  then show ?thesis using assms(2,3) step by (auto simp: nth_list_update)
next
  case (leave j)
  then show ?thesis using assms(2,3) leaves by (auto simp: nth_list_update go_active_dec_def)
next
  case (tick now)
  then show ?thesis using assms(2,3) later by auto
qed

lemma stays:
  assumes "go_reach s s'" and "i < length (gs_routines s)" and "I (gs_clock s) (gs_routines s ! i)"
  shows "i < length (gs_routines s') \<and> I (gs_clock s') (gs_routines s' ! i)"
  using assms(1)
proof (induction rule: go_reach.induct)
  case go_reach_start
  show ?case using assms(2,3) by simp
next
  case (go_reach_step s1 s2)
  then show ?case using go_step_keeps by blast
qed

end

locale routine_invariant = routine_property +
  assumes fresh: "I now (new_routine now)"
begin

lemma everywhere:
  assumes "go_reach (go_start t0) s" and "i < length (gs_routines s)"
  shows "I (gs_clock s) (gs_routines s ! i)"
  using assms
proof (induction arbitrary: i rule: go_reach.induct)
  case go_reach_start
  then show ?case by (simp add: go_start_def)
next
  case (go_reach_step s s')
  show ?case
  proof (cases "i < length (gs_routines s)")
    case True
    with go_reach_step go_step_keeps show ?thesis by blast
  next
    case False
    with go_reach_step.hyps(2) go_reach_step.prems show ?thesis
    proof cases
      case (go e out)
      then show ?thesis using False go_reach_step.prems fresh
        by (auto simp: go_call_def go_active_inc_def go_active_dec_def nth_append Let_def split: if_splits)
    qed (auto simp: go_active_dec_def split: if_splits)
  qed
qed

end

text \<open>The request that got through, and when a timer may act.\<close>

fun timer_ok :: "int \<Rightarrow> timer \<Rightarrow> bool" where
  "timer_ok now (T_Created g secs t0) = (0 < secs \<and> t0 \<le> now)"
| "timer_ok now (T_Loop g deadline secs t0) = (0 < secs \<and> t0 + secs \<le> deadline)"
| "timer_ok now (T_Cancelling secs t0) = (0 < secs \<and> t0 + secs \<le> now)"
| "timer_ok now (T_Cancelled secs t0) = (0 < secs \<and> t0 + secs \<le> now)"
| "timer_ok now T_Stopped = True"

definition timed_out_by :: "routine \<Rightarrow> int \<Rightarrow> bool" where
  "timed_out_by r t \<longleftrightarrow> (\<exists>secs t0. T_Cancelled secs t0 \<in> set (r_timers r) \<and> 0 < secs \<and> t0 + secs \<le> t)"

definition worker_busy :: "worker \<Rightarrow> bool" where
  "worker_busy w \<longleftrightarrow> w \<noteq> W_Finished \<and> w \<noteq> W_Gone"

definition ctl_inv :: "routine \<Rightarrow> bool" where
  "ctl_inv r \<longleftrightarrow> (c_state (r_ctl r) = GO_STATE_RUNNING \<longleftrightarrow> worker_busy (r_worker r))
     \<and> r_worker r \<noteq> W_Classified GO_STATE_RUNNING
     \<and> (c_cancel_requested (r_ctl r) \<longleftrightarrow> c_cancel_reason (r_ctl r) \<noteq> GO_CANCEL_NONE)
     \<and> (True \<in> set (r_kills r) \<longleftrightarrow> c_cancel_reason (r_ctl r) = GO_CANCEL_KILL)
     \<and> (r_worker r = W_Classified GO_STATE_TIMED_OUT \<longrightarrow> c_cancel_reason (r_ctl r) = GO_CANCEL_TIMEOUT)"

definition time_inv :: "int \<Rightarrow> routine \<Rightarrow> bool" where
  "time_inv now r \<longleftrightarrow> (\<forall>t\<in>set (r_timers r). timer_ok now t)
     \<and> (c_cancel_reason (r_ctl r) = GO_CANCEL_TIMEOUT \<longrightarrow> timed_out_by r now)
     \<and> (c_state (r_ctl r) = GO_STATE_TIMED_OUT \<longrightarrow> timed_out_by r (c_finished_at (r_ctl r)))"

definition routine_inv :: "int \<Rightarrow> routine \<Rightarrow> bool" where
  "routine_inv now r \<longleftrightarrow> ctl_inv r \<and> time_inv now r"

lemma final_state_facts:
  "final_state e c \<noteq> GO_STATE_RUNNING"
  "final_state e c = GO_STATE_TIMED_OUT \<Longrightarrow> c_cancel_reason c = GO_CANCEL_TIMEOUT"
  by (auto simp: final_state_def split: if_splits)

lemma runops_check_same:
  "go_runops_check is_exit c = (c', err) \<Longrightarrow> c_state c' = c_state c \<and> c_cancel_reason c' = c_cancel_reason c
     \<and> c_cancel_requested c' = c_cancel_requested c \<and> c_finished_at c' = c_finished_at c"
  by (auto simp: go_runops_check_def split: if_splits)

lemma routine_timeout_same:
  "routine_timeout secs c = (c', g) \<Longrightarrow> c_state c' = c_state c \<and> c_cancel_reason c' = c_cancel_reason c
     \<and> c_cancel_requested c' = c_cancel_requested c \<and> c_finished_at c' = c_finished_at c
     \<and> (g \<noteq> None \<longrightarrow> 0 < secs)"
  by (auto simp: routine_timeout_def Let_def split: if_splits)

lemma timed_out_by_update:
  assumes "timed_out_by r t" and "\<And>secs t0. r_timers r ! i \<noteq> T_Cancelled secs t0"
    and "r_timers r' = (r_timers r)[i := x]"
  shows "timed_out_by r' t"
proof -
  obtain secs t0 where at: "T_Cancelled secs t0 \<in> set (r_timers r)" "0 < secs" "t0 + secs \<le> t"
    using assms(1) by (auto simp: timed_out_by_def)
  then obtain j where "j < length (r_timers r)" "r_timers r ! j = T_Cancelled secs t0" by (auto simp: in_set_conv_nth)
  with assms(2,3) have "T_Cancelled secs t0 \<in> set (r_timers r')"
    by (metis length_list_update nth_list_update_neq nth_mem)
  with at show ?thesis by (auto simp: timed_out_by_def)
qed

lemma ctl_inv_step: "ctl_inv r \<Longrightarrow> routine_step now r r' \<Longrightarrow> ctl_inv r'"
  unfolding ctl_inv_def worker_busy_def
  by (erule routine_step.cases)
    (auto simp: go_control_finish_def go_control_request_cancel_def final_state_facts
      dest!: runops_check_same routine_timeout_same dest: final_state_facts(2) split: if_splits)

lemma time_inv_same_timers:
  assumes "time_inv now r" and "r_timers r' = r_timers r" and "c_cancel_reason (r_ctl r') = c_cancel_reason (r_ctl r)"
    and "c_state (r_ctl r') = GO_STATE_TIMED_OUT \<Longrightarrow>
       c_state (r_ctl r) = GO_STATE_TIMED_OUT \<and> c_finished_at (r_ctl r') = c_finished_at (r_ctl r)
       \<or> c_cancel_reason (r_ctl r) = GO_CANCEL_TIMEOUT \<and> c_finished_at (r_ctl r') = now"
  shows "time_inv now r'"
proof -
  have "timed_out_by r' t = timed_out_by r t" for t using assms(2) by (simp add: timed_out_by_def)
  then show ?thesis using assms by (auto simp: time_inv_def)
qed

lemma time_inv_new_timer:
  assumes "time_inv now r" and "timer_ok now x" and "i < length (r_timers r)"
    and "\<And>secs t0. r_timers r ! i \<noteq> T_Cancelled secs t0"
    and "r_timers r' = (r_timers r)[i := x]" and "c_cancel_reason (r_ctl r') = GO_CANCEL_TIMEOUT \<Longrightarrow>
        c_cancel_reason (r_ctl r) = GO_CANCEL_TIMEOUT \<or> timed_out_by r' now"
    and "c_state (r_ctl r') = c_state (r_ctl r)" "c_finished_at (r_ctl r') = c_finished_at (r_ctl r)"
  shows "time_inv now r'"
proof -
  have "\<forall>t\<in>set (r_timers r'). timer_ok now t"
    using assms(1,2,5) by (auto simp: time_inv_def dest!: set_update_subset_insert [THEN subsetD])
  moreover have "timed_out_by r t \<Longrightarrow> timed_out_by r' t" for t
    using timed_out_by_update [OF _ assms(4,5)] .
  ultimately show ?thesis using assms(1,6-8) by (auto simp: time_inv_def)
qed

lemma time_inv_step:
  assumes inv: "time_inv now r" "ctl_inv r" and "routine_step now r r'"
  shows "time_inv now r'"
  using assms(3)
proof cases
  case (op_refused is_exit c e caught)
  then show ?thesis using runops_check_same [OF op_refused(3)]
    by (intro time_inv_same_timers [OF inv(1)]) simp_all
next
  case (op_run c w e)
  then show ?thesis using runops_check_same [OF op_run(3)]
    by (intro time_inv_same_timers [OF inv(1)]) simp_all
next
  case (finish st)
  then show ?thesis using inv(2)
    by (intro time_inv_same_timers [OF inv(1)]) (simp_all add: go_control_finish_def ctl_inv_def)
next
  case (kill c yes wake)
  show ?thesis
  proof (cases yes)
    case True
    with kill have "c_cancel_reason c = GO_CANCEL_KILL" "c_state c = GO_STATE_RUNNING"
      by (auto simp: go_control_request_cancel_def split: if_splits)
    then show ?thesis using inv(1) kill(1) by (simp add: time_inv_def)
  next
    case False
    with kill have "c = r_ctl r" by (auto simp: go_control_request_cancel_def split: if_splits)
    then show ?thesis using kill(1) by (intro time_inv_same_timers [OF inv(1)]) simp_all
  qed
next
  case (timeout secs c gen)
  note same = routine_timeout_same [OF timeout(2)]
  have "\<forall>t\<in>set (r_timers r'). timer_ok now t"
    using inv(1) same timeout(1) by (auto simp: time_inv_def split: option.splits)
  moreover have "timed_out_by r t \<Longrightarrow> timed_out_by r' t" for t
    using timeout(1) by (auto simp: timed_out_by_def)
  ultimately show ?thesis using inv(1) same timeout(1) by (simp add: time_inv_def)
next
  case (timeout_fails secs c gen)
  then show ?thesis using routine_timeout_same [OF timeout_fails(2)]
    by (intro time_inv_same_timers [OF inv(1)]) simp_all
next
  case (timer_begin i g secs t0)
  then have "timer_ok now (T_Created g secs t0)" using inv(1) nth_mem by (fastforce simp: time_inv_def)
  with timer_begin show ?thesis
    by (intro time_inv_new_timer [OF inv(1), of "T_Loop g (now + (if secs > 0 then secs else 0)) secs t0" i]) simp_all
next
  case (timer_due i g deadline secs t0)
  then have "timer_ok now (T_Loop g deadline secs t0)" using inv(1) nth_mem by (fastforce simp: time_inv_def)
  moreover have "deadline \<le> now" using timer_due(4) by (auto simp: timer_turn_def Let_def split: if_splits)
  ultimately show ?thesis using timer_due
    by (intro time_inv_new_timer [OF inv(1), of "T_Cancelling secs t0" i]) simp_all
next
  case (timer_stop i g deadline secs t0)
  then show ?thesis by (intro time_inv_new_timer [OF inv(1), of T_Stopped i]) simp_all
next
  case (timer_cancel i secs t0 c yes wake)
  then have ok: "timer_ok now (T_Cancelling secs t0)" using inv(1) nth_mem by (fastforce simp: time_inv_def)
  have same: "c_state c = c_state (r_ctl r)" "c_finished_at c = c_finished_at (r_ctl r)"
    and reason: "\<not> yes \<Longrightarrow> c_cancel_reason c = c_cancel_reason (r_ctl r)"
    using timer_cancel(4) by (auto simp: go_control_request_cancel_def split: if_splits)
  have "yes \<Longrightarrow> T_Cancelled secs t0 \<in> set (r_timers r')"
    using timer_cancel(1,2) set_update_memI [OF timer_cancel(2)] by simp
  then have "yes \<Longrightarrow> timed_out_by r' now" using ok by (auto simp: timed_out_by_def)
  then show ?thesis using timer_cancel ok same reason
    by (intro time_inv_new_timer [OF inv(1), of "if yes then T_Cancelled secs t0 else T_Stopped" i]) auto
qed (use inv(1) in \<open>auto simp: time_inv_def timed_out_by_def\<close>)

lemma timer_ok_later: "timer_ok now t \<Longrightarrow> now \<le> now' \<Longrightarrow> timer_ok now' t"
  by (cases t) simp_all

lemma time_inv_later: "time_inv now r \<Longrightarrow> now \<le> now' \<Longrightarrow> time_inv now' r"
  unfolding time_inv_def timed_out_by_def by (meson timer_ok_later order_trans)

interpretation any_routine: routine_invariant routine_inv
proof
  show "routine_inv now r \<Longrightarrow> routine_step now r r' \<Longrightarrow> routine_inv now r'" for now r r'
    using ctl_inv_step time_inv_step by (auto simp: routine_inv_def)
  show "routine_inv now r \<Longrightarrow> r_worker r = W_Finished \<Longrightarrow> routine_inv now (r\<lparr>r_worker := W_Gone\<rparr>)" for now r
    by (auto simp: routine_inv_def ctl_inv_def time_inv_def timed_out_by_def worker_busy_def)
  show "routine_inv now r \<Longrightarrow> now \<le> now' \<Longrightarrow> routine_inv now' r" for now now' r
    using time_inv_later by (auto simp: routine_inv_def)
  show "routine_inv now (new_routine now)" for now
    by (simp add: routine_inv_def ctl_inv_def time_inv_def worker_busy_def new_routine_def go_control_new_def)
qed

text \<open>A cancel request is final: the first reason stays and no further op runs.\<close>

definition cancelled_at :: "go_cancel_reason \<Rightarrow> nat \<Rightarrow> int \<Rightarrow> routine \<Rightarrow> bool" where
  "cancelled_at reason n now r \<longleftrightarrow>
     c_cancel_requested (r_ctl r) \<and> c_cancel_reason (r_ctl r) = reason \<and> r_ops r = n"

interpretation cancelled: routine_property "cancelled_at reason n" for reason n
proof
  show "cancelled_at reason n now r \<Longrightarrow> routine_step now r r' \<Longrightarrow> cancelled_at reason n now r'" for now r r'
    unfolding cancelled_at_def
    by (erule routine_step.cases)
      (auto simp: go_control_finish_def go_control_request_cancel_def go_runops_check_def
        dest!: routine_timeout_same split: if_splits)
qed (simp_all add: cancelled_at_def)

definition ended_at :: "go_state \<Rightarrow> int \<Rightarrow> nat \<Rightarrow> nat \<Rightarrow> int \<Rightarrow> routine \<Rightarrow> bool" where
  "ended_at st t n k now r \<longleftrightarrow> \<not> worker_busy (r_worker r) \<and> c_state (r_ctl r) = st \<and> st \<noteq> GO_STATE_RUNNING
     \<and> c_finished_at (r_ctl r) = t \<and> r_ops r = n \<and> count_list (r_kills r) True = k"

interpretation ended: routine_property "ended_at st t n k" for st t n k
proof
  show "ended_at st t n k now r \<Longrightarrow> routine_step now r r' \<Longrightarrow> ended_at st t n k now r'" for now r r'
    unfolding ended_at_def worker_busy_def
    by (erule routine_step.cases)
      (auto simp: go_control_finish_def go_control_request_cancel_def
        dest!: routine_timeout_same split: if_splits)
qed (simp_all add: ended_at_def worker_busy_def)

subsection \<open>The active count\<close>

definition present :: "routine list \<Rightarrow> nat" where
  "present rs = length (filter (\<lambda>r. r_worker r \<noteq> W_Gone) rs)"

lemma present_update:
  "i < length rs \<Longrightarrow> present (rs[i := r]) + (if r_worker (rs ! i) \<noteq> W_Gone then 1 else 0)
     = present rs + (if r_worker r \<noteq> W_Gone then 1 else 0)"
proof (induction rs arbitrary: i)
  case (Cons a rs)
  then show ?case by (cases i) (auto simp: present_def)
qed simp

lemma routine_step_present: "routine_step now r r' \<Longrightarrow> (r_worker r' = W_Gone) = (r_worker r = W_Gone)"
  by (erule routine_step.cases) auto

lemma active_present:
  assumes "go_reach (go_start t0) s"
  shows "gs_active s = present (gs_routines s)"
  using assms
proof (induction rule: go_reach.induct)
  case go_reach_start
  then show ?case by (simp add: go_start_def present_def)
next
  case (go_reach_step s s')
  show ?case using go_reach_step.hyps(2)
  proof cases
    case (go e out)
    then show ?thesis using go_reach_step.IH
      by (auto simp: go_call_def go_active_inc_def go_active_dec_def Let_def present_def new_routine_def split: if_splits)
  next
    case (routine i r)
    then show ?thesis using go_reach_step.IH present_update [OF routine(2), of r] routine_step_present [OF routine(3)]
      by (simp split: if_splits)
  next
    case (leave i)
    then show ?thesis using go_reach_step.IH present_update [OF leave(2), of "(gs_routines s ! i)\<lparr>r_worker := W_Gone\<rparr>"]
      by (simp add: go_active_dec_def)
  next
    case (tick now)
    then show ?thesis using go_reach_step.IH by simp
  qed
qed

subsection \<open>Runs of a single routine\<close>

definition single :: "routine \<Rightarrow> int \<Rightarrow> go_sys" where
  "single r now = \<lparr>gs_routines = [r], gs_active = 1, gs_clock = now\<rparr>"

lemma single_start: "go_reach (go_start now) (single (new_routine now) now)"
proof -
  let ?e = "\<lparr>env_code = True, env_control = True, env_clone = True, env_callback = True, env_job = True, env_thread = True\<rparr>"
  have "go_step (go_start now) (single (new_routine now) now)"
    by (rule go [of ?e _ "Ret 0"]) (simp add: go_call_def go_start_def go_active_inc_def single_def)
  then show ?thesis by (rule go_reach_step [OF go_reach_start])
qed

lemma single_step:
  assumes "go_reach s0 (single r now)" and "routine_step now r r'"
  shows "go_reach s0 (single r' now)"
  using go_reach_step [OF assms(1) routine [of 0 "single r now" r']] assms(2) by (simp add: single_def)

lemma single_tick: "go_reach s0 (single r now) \<Longrightarrow> now \<le> now' \<Longrightarrow> go_reach s0 (single r now')"
  using go_reach_step [OF _ tick, of s0 "single r now" now'] by (simp add: single_def)

lemma strstr_cancel [simp]: "final_state GO_CANCEL_EXCEPTION c =
    (if c_cancel_reason c = GO_CANCEL_TIMEOUT then GO_STATE_TIMED_OUT else GO_STATE_KILLED)"
  by (simp add: final_state_def err_true_def GO_CANCEL_EXCEPTION_def)

section \<open>Properties\<close>


text \<open>C20: A routine that has left \<open>running\<close> never changes again: its state and finishing time stay, it runs no
  op, and no later \<open>kill\<close> is answered with true.\<close>

theorem routine_end_is_final:
  assumes "go_reach (go_start t0) s" and "i < length (gs_routines s)"
    and "c_state (r_ctl (gs_routines s ! i)) \<noteq> GO_STATE_RUNNING" and "go_reach s s'"
  shows "c_state (r_ctl (gs_routines s' ! i)) = c_state (r_ctl (gs_routines s ! i))
    \<and> c_finished_at (r_ctl (gs_routines s' ! i)) = c_finished_at (r_ctl (gs_routines s ! i))
    \<and> r_ops (gs_routines s' ! i) = r_ops (gs_routines s ! i)
    \<and> count_list (r_kills (gs_routines s' ! i)) True = count_list (r_kills (gs_routines s ! i)) True"
proof -
  let ?r = "gs_routines s ! i"
  have "ended_at (c_state (r_ctl ?r)) (c_finished_at (r_ctl ?r)) (r_ops ?r) (count_list (r_kills ?r) True) (gs_clock s) ?r"
    using any_routine.everywhere [OF assms(1,2)] assms(3) by (simp add: ended_at_def routine_inv_def ctl_inv_def)
  from ended.stays [OF assms(4,2) this] show ?thesis by (simp add: ended_at_def)
qed

text \<open>C21: A routine ends as \<open>timed_out\<close> only when a call \<open>timeout(secs)\<close> with positive seconds was made and at
  least that long has passed since the call when the routine finishes.\<close>

theorem routine_timed_out_not_early:
  assumes "go_reach (go_start t0) s" and "i < length (gs_routines s)"
    and "c_state (r_ctl (gs_routines s ! i)) = GO_STATE_TIMED_OUT"
  shows "\<exists>secs t. T_Cancelled secs t \<in> set (r_timers (gs_routines s ! i)) \<and> 0 < secs
    \<and> t + secs \<le> c_finished_at (r_ctl (gs_routines s ! i))"
  using any_routine.everywhere [OF assms(1,2)] assms(3) by (simp add: routine_inv_def time_inv_def timed_out_by_def)

text \<open>C22: \<open>wait_all\<close> returns only when every routine that was started has finished its callback, recorded its
  final state and left; and a \<open>go\<close> that croaks leaves the active count as it was.\<close>

theorem wait_all_waits_for_all:
  assumes "go_reach (go_start t0) s" and "wait_all_returns s"
  shows "(\<forall>r\<in>set (gs_routines s). r_worker r = W_Gone \<and> c_state (r_ctl r) \<noteq> GO_STATE_RUNNING)
    \<and> (\<forall>e msg s'. go_call e s = (Croak msg, s') \<longrightarrow> s' = s)"
proof -
  have gone: "r_worker r = W_Gone" if "r \<in> set (gs_routines s)" for r
    using active_present [OF assms(1)] assms(2) that by (auto simp: wait_all_returns_def present_def filter_empty_conv)
  have "c_state (r_ctl r) \<noteq> GO_STATE_RUNNING" if listed: "r \<in> set (gs_routines s)" for r
  proof -
    obtain i where "i < length (gs_routines s)" "gs_routines s ! i = r"
      using listed by (meson in_set_conv_nth)
    with any_routine.everywhere [OF assms(1)] gone [OF listed] show ?thesis
      by (fastforce simp: routine_inv_def ctl_inv_def worker_busy_def)
  qed
  with gone show ?thesis
    by (auto simp: go_call_def go_active_inc_def go_active_dec_def Let_def split: if_splits)
qed

text \<open>A routine in a given situation.\<close>

definition sample_ctl :: "bool \<Rightarrow> go_state \<Rightarrow> go_cancel_reason \<Rightarrow> int \<Rightarrow> u64 \<Rightarrow> int \<Rightarrow> go_control" where
  "sample_ctl valid st reason finished gen secs = \<lparr>c_thread_valid = valid, c_state = st, c_cancel_reason = reason,
     c_cancel_requested = (reason \<noteq> GO_CANCEL_NONE), c_exit_requested = False, c_started_at = 0,
     c_finished_at = finished, c_timeout_generation = gen, c_timeout_seconds = secs\<rparr>"

definition sample :: "go_control \<Rightarrow> worker \<Rightarrow> timer list \<Rightarrow> nat \<Rightarrow> bool list \<Rightarrow> routine" where
  "sample c w ts wakes kills = \<lparr>r_ctl = c, r_worker = w, r_launched = True, r_timers = ts, r_wakes = wakes,
     r_ops = 0, r_kills = kills\<rparr>"

lemmas sample_defs = sample_def sample_ctl_def go_control_request_cancel_def go_control_finish_def routine_timeout_def
  timer_turn_def go_runops_check_def new_routine_def go_control_new_def

lemma sample_launched: "go_reach (go_start 0) (single (sample (sample_ctl True GO_STATE_RUNNING GO_CANCEL_NONE 0 0 0) W_Running [] 0 []) 0)"
  using single_step [OF single_start [of 0] routine_step.launched] by (simp add: sample_defs)

text \<open>A timer that has decided to cancel, while \<open>timeout(0)\<close> disarms it.\<close>

lemma reach_disarmed: "go_reach (go_start 0)
    (single (sample (sample_ctl True GO_STATE_RUNNING GO_CANCEL_NONE 0 2 0) W_Running [T_Cancelling 5 0] 0 []) 5)"
proof -
  let ?ctl = "sample_ctl True GO_STATE_RUNNING GO_CANCEL_NONE 0"
  have "go_reach (go_start 0) (single (sample (?ctl 1 5) W_Running [T_Created 1 5 0] 0 []) 0)"
    using single_step [OF sample_launched routine_step.timeout [where secs = 5 and c = "?ctl 1 5" and gen = "Some 1"]]
    by (simp add: sample_defs)
  from single_step [OF this routine_step.timer_begin [where i = 0 and g = 1 and secs = 5 and ?t0.0 = 0]]
  have "go_reach (go_start 0) (single (sample (?ctl 1 5) W_Running [T_Loop 1 5 5 0] 0 []) 0)"
    by (simp add: sample_defs)
  from single_step [OF single_tick [OF this, of 5] routine_step.timer_due [where i = 0 and g = 1 and deadline = 5 and secs = 5 and ?t0.0 = 0]]
  have "go_reach (go_start 0) (single (sample (?ctl 1 5) W_Running [T_Cancelling 5 0] 0 []) 5)"
    by (simp add: sample_defs)
  from single_step [OF this routine_step.timeout [where secs = 0 and c = "?ctl 2 0" and gen = None]]
  show ?thesis by (simp add: sample_defs)
qed

lemma reach_timed_out:
  assumes "go_reach s0 (single (sample (sample_ctl True GO_STATE_RUNNING GO_CANCEL_NONE 0 2 0) W_Running [T_Cancelling 5 0] 0 []) 5)"
  shows "go_reach s0 (single (sample (sample_ctl False GO_STATE_TIMED_OUT GO_CANCEL_TIMEOUT 5 2 0) W_Finished [T_Cancelled 5 0] 1 []) 5)"
proof -
  let ?ctl = "sample_ctl True GO_STATE_RUNNING GO_CANCEL_TIMEOUT 0 2 0"
  from single_step [OF assms routine_step.timer_cancel [where i = 0 and secs = 5 and ?t0.0 = 0 and c = ?ctl and yes = True and wake = True]]
  have "go_reach s0 (single (sample ?ctl W_Running [T_Cancelled 5 0] 1 []) 5)" by (simp add: sample_defs)
  from single_step [OF this routine_step.op_refused [where caught = False and c = ?ctl and e = GO_CANCEL_EXCEPTION and is_exit = False]]
  have "go_reach s0 (single (sample ?ctl (W_Ended GO_CANCEL_EXCEPTION) [T_Cancelled 5 0] 1 []) 5)" by (simp add: sample_defs)
  from single_step [OF this routine_step.classify [where e = GO_CANCEL_EXCEPTION]]
  have "go_reach s0 (single (sample ?ctl (W_Classified GO_STATE_TIMED_OUT) [T_Cancelled 5 0] 1 []) 5)" by (simp add: sample_defs)
  from single_step [OF this routine_step.finish [where st = GO_STATE_TIMED_OUT]] show ?thesis by (simp add: sample_defs)
qed

text \<open>\<open>timeout(0)\<close> (or a new timeout) does not reliably disarm a timer: one that has left its loop cancels
  after it released the mutex, without looking at the generation again. A process can be in a
  state where the timeout is off and nothing has been cancelled, and still end as \<open>timed_out\<close> with no
  further \<open>timeout\<close> call.\<close>

theorem routine_timeout_race:
  "\<exists>s s'. go_reach (go_start 0) s \<and> go_reach s s' \<and> length (gs_routines s) = 1
    \<and> c_timeout_seconds (r_ctl (gs_routines s ! 0)) = 0 \<and> \<not> c_cancel_requested (r_ctl (gs_routines s ! 0))
    \<and> c_timeout_generation (r_ctl (gs_routines s' ! 0)) = c_timeout_generation (r_ctl (gs_routines s ! 0))
    \<and> routine_status (c_state (r_ctl (gs_routines s' ! 0))) = ''timed_out''"
proof -
  let ?s = "single (sample (sample_ctl True GO_STATE_RUNNING GO_CANCEL_NONE 0 2 0) W_Running [T_Cancelling 5 0] 0 []) 5"
  let ?s' = "single (sample (sample_ctl False GO_STATE_TIMED_OUT GO_CANCEL_TIMEOUT 5 2 0) W_Finished [T_Cancelled 5 0] 1 []) 5"
  have "go_reach ?s ?s'" by (rule reach_timed_out [OF go_reach_start])
  with reach_disarmed show ?thesis
    by (intro exI [of _ ?s] exI [of _ ?s']) (simp add: single_def sample_def sample_ctl_def)
qed

text \<open>A routine that was killed after its last op and has left while the signal is still to come.\<close>

definition killed_late :: go_sys where
  "killed_late = (single ((sample (sample_ctl False GO_STATE_DONE GO_CANCEL_KILL 0 0 0) W_Gone [] 1 [True])\<lparr>r_ops := 1\<rparr>) 0)\<lparr>gs_active := 0\<rparr>"

lemma reach_killed_late: "go_reach (go_start 0) killed_late"
proof -
  let ?c0 = "sample_ctl True GO_STATE_RUNNING GO_CANCEL_NONE 0 0 0"
  let ?c1 = "sample_ctl True GO_STATE_RUNNING GO_CANCEL_KILL 0 0 0"
  let ?c2 = "sample_ctl False GO_STATE_DONE GO_CANCEL_KILL 0 0 0"
  let ?r = "\<lambda>c w. (sample c w [] 1 [True])\<lparr>r_ops := 1\<rparr>"
  have "go_reach (go_start 0) (single ((sample ?c0 (W_Ended []) [] 0 [])\<lparr>r_ops := 1\<rparr>) 0)"
    using single_step [OF sample_launched routine_step.op_run [where c = ?c0 and w = "W_Ended []" and e = "[]"]]
    by (simp add: sample_defs)
  from single_step [OF this routine_step.kill [where c = ?c1 and yes = True and wake = True]]
  have "go_reach (go_start 0) (single (?r ?c1 (W_Ended [])) 0)" by (simp add: sample_defs)
  from single_step [OF this routine_step.classify [where e = "[]"]]
  have "go_reach (go_start 0) (single (?r ?c1 (W_Classified GO_STATE_DONE)) 0)"
    by (simp add: sample_defs final_state_def err_true_def)
  from single_step [OF this routine_step.finish [where st = GO_STATE_DONE]]
  have fin: "go_reach (go_start 0) (single (?r ?c2 W_Finished) 0)" by (simp add: sample_defs)
  show ?thesis using go_reach_step [OF fin go_step.leave [of 0]]
    by (simp add: single_def go_active_dec_def sample_def killed_late_def)
qed

text \<open>\<open>kill\<close> and the timer read the thread id under the mutex and signal it after releasing the mutex: the
  worker can have finished and left in between, so that the signal goes to a detached thread that
  no longer exists; and the \<open>kill\<close> was answered with true although the routine ends as \<open>done\<close>.\<close>

theorem routine_kill_race:
  "\<exists>s. go_reach (go_start 0) s \<and> length (gs_routines s) = 1
    \<and> r_worker (gs_routines s ! 0) = W_Gone \<and> r_wakes (gs_routines s ! 0) > 0
    \<and> r_kills (gs_routines s ! 0) = [True] \<and> routine_status (c_state (r_ctl (gs_routines s ! 0))) = ''done''"
  by (intro exI [of _ killed_late] conjI reach_killed_late)
    (simp_all add: killed_late_def single_def sample_def sample_ctl_def)


lemma reach_timed_out_end: "go_reach (go_start 0)
    (single (sample (sample_ctl False GO_STATE_TIMED_OUT GO_CANCEL_TIMEOUT 5 2 0) W_Finished [T_Cancelled 5 0] 1 []) 5)"
  by (rule reach_timed_out [OF reach_disarmed])

theorem routine_end_is_final_witness:
  "\<exists>s s'. go_reach (go_start 0) s \<and> go_reach s s' \<and> gs_clock s' = 9 \<and> c_finished_at (r_ctl (gs_routines s' ! 0)) = 5"
proof -
  let ?r = "sample (sample_ctl False GO_STATE_TIMED_OUT GO_CANCEL_TIMEOUT 5 2 0) W_Finished [T_Cancelled 5 0] 1 []"
  have later: "go_reach (single ?r 5) (single ?r 9)" by (rule single_tick [OF go_reach_start]) simp
  from routine_end_is_final [OF reach_timed_out_end _ _ later, of 0]
  have "c_finished_at (r_ctl (gs_routines (single ?r 9) ! 0)) = 5" by (simp add: single_def sample_def sample_ctl_def)
  with reach_timed_out_end later show ?thesis
    by (intro exI [of _ "single ?r 5"] exI [of _ "single ?r 9"]) (simp add: single_def)
qed

theorem routine_timed_out_not_early_witness:
  "\<exists>secs t. T_Cancelled secs t \<in> {T_Cancelled 5 0} \<and> 0 < secs \<and> t + secs \<le> 5"
  using routine_timed_out_not_early [OF reach_timed_out_end, of 0] by (simp add: single_def sample_def sample_ctl_def)

theorem wait_all_waits_for_all_witness:
  "map r_worker (gs_routines killed_late) = [W_Gone] \<and> c_state (r_ctl (gs_routines killed_late ! 0)) = GO_STATE_DONE"
  using wait_all_waits_for_all [OF reach_killed_late]
  by (simp add: wait_all_returns_def killed_late_def single_def sample_def sample_ctl_def)

end
