(* ===== verification/Shared_Call.thy ===== *)
theory Shared_Call
  imports Shared_Import_Correct Shared_Scalar Menu_Json Control "HOL-Library.Multiset"
begin

section \<open>Calling shared callbacks (GoRoutine012Native.h, GoRoutine012.xs)\<close>

text \<open>
  A shared CODE value runs in an interpreter of its own. The caller's arguments become nodes, the nodes
  become values of the private interpreter, the callback is called there, its results become nodes
  and these become values of the caller. Natives and Perl meet at the argument stack of an
  interpreter: \<open>PL_stack_sp\<close>, the slots below and above it, and the local copy \<open>sp\<close> that a C function
  takes with \<open>dSP\<close> and writes back with \<open>PUTBACK\<close>. A call of a Perl sub starts at \<open>PL_stack_sp\<close>
  and may leave anything in the slots above its results.

  Perl code is the record \<open>perl_code\<close>: the helpers \<open>_proxy_ptr\<close>, \<open>_value_for_ptr\<close> and
  \<open>_field_ref_for_ptr\<close> of lib/Developer/Dashboard/GoRoutine.pm, the callback, the dispatcher of
  remote handles, and what a call leaves above its results. Reference counts and mortals are the
  interpreter's, and stacks do not move.
\<close>

datatype 'nv answer = Died string | Returned "'nv perl_sv list"

datatype gimme = G_VOID | G_SCALAR | G_ARRAY

datatype control_ref = Ctl_Routine nat | Ctl_Local nat

datatype call_block = Block_Args | Block_Results | Block_Error | Block_Map

record 'nv arg_stack =
  st_slots :: "nat \<Rightarrow> 'nv perl_sv"
  st_sp :: nat

text \<open>
  \<open>cs_lock\<close> is how deep the thread holds the mutex of a callback or handle, \<open>cs_tls\<close> the control in its
  thread-local slot, \<open>cs_locals\<close> the number of live \<open>local_ctl\<close> records with their mutex and condition,
  \<open>cs_scope\<close> the \<open>ENTER\<close> depth of an interpreter, \<open>cs_runops\<close> the interpreters that run under
  \<open>go_runops\<close>. A private interpreter and its callback carry the same number, as in the import.
\<close>

record 'nv call_state =
  cs_shared :: "'nv shared_state"
  cs_stack :: "nat \<Rightarrow> 'nv arg_stack"
  cs_store :: "nat \<Rightarrow> 'nv perl_store"
  cs_err :: "nat \<Rightarrow> string"
  cs_scope :: "nat \<Rightarrow> nat"
  cs_runops :: "nat set"
  cs_context :: nat
  cs_lock :: "nat \<Rightarrow> nat"
  cs_tls :: "control_ref option"
  cs_locals :: nat
  cs_live :: "call_block multiset"

record 'nv perl_code =
  pl_proxy :: "nat \<Rightarrow> 'nv perl_sv \<Rightarrow> 'nv answer"
  pl_value :: "nat \<Rightarrow> ptr \<Rightarrow> 'nv shared_state \<Rightarrow> 'nv answer \<times> 'nv shared_state"
  pl_field :: "nat \<Rightarrow> ptr \<Rightarrow> 'nv answer"
  pl_callback :: "nat \<Rightarrow> gimme \<Rightarrow> 'nv perl_sv list \<Rightarrow> 'nv call_state \<Rightarrow> 'nv answer \<times> 'nv call_state"
  pl_dispatch :: "nat \<Rightarrow> gimme \<Rightarrow> 'nv perl_sv list \<Rightarrow> 'nv call_state \<Rightarrow> 'nv answer \<times> 'nv call_state"
  pl_scratch :: "nat \<Rightarrow> nat \<Rightarrow> 'nv perl_sv \<Rightarrow> 'nv perl_sv"

subsection \<open>The argument stack\<close>

definition on_heap :: "('nv shared_state, 'a) xs \<Rightarrow> ('nv call_state, 'a) xs" where
  "on_heap m s = (case m (cs_shared s) of (out, h) \<Rightarrow> (out, s\<lparr>cs_shared := h\<rparr>))"

definition perl_sp :: "nat \<Rightarrow> ('nv call_state, nat) xs" where
  "perl_sp i s = (Ret (st_sp (cs_stack s i)), s)"

definition put_back :: "nat \<Rightarrow> nat \<Rightarrow> ('nv call_state, unit) xs" where
  "put_back i sp = xs_modify (\<lambda>s. s\<lparr>cs_stack := (cs_stack s)(i := (cs_stack s i)\<lparr>st_sp := sp\<rparr>)\<rparr>)"

definition slot_get :: "nat \<Rightarrow> nat \<Rightarrow> ('nv call_state, 'nv perl_sv) xs" where
  "slot_get i k s = (Ret (st_slots (cs_stack s i) k), s)"

definition slot_put :: "nat \<Rightarrow> nat \<Rightarrow> 'nv perl_sv \<Rightarrow> ('nv call_state, unit) xs" where
  "slot_put i k v = xs_modify (\<lambda>s. s\<lparr>cs_stack := (cs_stack s)(i := (cs_stack s i)
     \<lparr>st_slots := (st_slots (cs_stack s i))(k := v)\<rparr>)\<rparr>)"

definition slots_from :: "'nv arg_stack \<Rightarrow> nat \<Rightarrow> nat \<Rightarrow> 'nv perl_sv list" where
  "slots_from st mark sp = List.map (st_slots st) [Suc mark..<Suc sp]"

definition perl_enter :: "nat \<Rightarrow> ('nv call_state, unit) xs" where
  "perl_enter i = xs_modify (\<lambda>s. s\<lparr>cs_scope := (cs_scope s)(i := cs_scope s i + 1)\<rparr>)"

definition perl_leave :: "nat \<Rightarrow> ('nv call_state, unit) xs" where
  "perl_leave i = xs_modify (\<lambda>s. s\<lparr>cs_scope := (cs_scope s)(i := cs_scope s i - 1)\<rparr>)"

text \<open>How a call with \<open>G_EVAL\<close> ends: the results take the place of the arguments, a dying scalar call
  leaves one undef, \<open>$@\<close> is set, and the slots above hold what the run left there.\<close>

fun answer_values :: "gimme \<Rightarrow> 'nv answer \<Rightarrow> 'nv perl_sv list" where
  "answer_values g (Returned vs) = vs"
| "answer_values g (Died m) = (if g = G_SCALAR then [SV_Undef] else [])"

fun answer_error :: "'nv answer \<Rightarrow> string" where
  "answer_error (Returned vs) = []"
| "answer_error (Died m) = m"

definition after_call :: "(nat \<Rightarrow> 'nv perl_sv \<Rightarrow> 'nv perl_sv) \<Rightarrow> nat \<Rightarrow> 'nv perl_sv list \<Rightarrow> 'nv arg_stack \<Rightarrow> 'nv arg_stack" where
  "after_call scratch mark vs st = \<lparr>st_slots = (\<lambda>k. if k \<le> mark then st_slots st k
       else if k \<le> mark + length vs then vs ! (k - Suc mark) else scratch k (st_slots st k)),
     st_sp = mark + length vs\<rparr>"

definition call_end :: "'nv perl_code \<Rightarrow> nat \<Rightarrow> nat \<Rightarrow> gimme \<Rightarrow> 'nv answer \<Rightarrow> ('nv call_state, nat) xs" where
  "call_end pl i mark g a = xs_then
     (xs_modify (\<lambda>s. s\<lparr>cs_stack := (cs_stack s)(i := after_call (pl_scratch pl i) mark (answer_values g a) (cs_stack s i)),
        cs_err := (cs_err s)(i := answer_error a)\<rparr>))
     (xs_return (length (answer_values g a)))"

definition err_sv :: "nat \<Rightarrow> ('nv call_state, string) xs" where
  "err_sv i s = (Ret (cs_err s i), s)"

definition err_clear :: "nat \<Rightarrow> ('nv call_state, unit) xs" where
  "err_clear i = xs_modify (\<lambda>s. s\<lparr>cs_err := (cs_err s)(i := [])\<rparr>)"

fun SvUV :: "'nv perl_rt \<Rightarrow> 'nv perl_sv \<Rightarrow> nat" where
  "SvUV rt SV_Undef = 0"
| "SvUV rt (SV_Scalar x) = unat (SvIV rt x)"
| "SvUV rt (SV_Ref r) = r"

definition newSVuv :: "ptr \<Rightarrow> 'nv perl_sv" where
  "newSVuv p = SV_Scalar (newSViv (of_nat p))"

subsection \<open>Values and nodes\<close>

text \<open>\<open>shared_proxy_node_from_sv\<close>: the node behind a proxy, or 0.\<close>

definition shared_proxy_node_from_sv :: "'nv perl_rt \<Rightarrow> 'nv perl_code \<Rightarrow> nat \<Rightarrow> 'nv perl_sv \<Rightarrow> ('nv call_state, ptr) xs" where
  "shared_proxy_node_from_sv rt pl i v =
     xs_then (perl_enter i)
    (xs_bind (perl_sp i) (\<lambda>mark.
     xs_then (slot_put i (Suc mark) v)
    (xs_then (put_back i (Suc mark))
    (xs_bind (call_end pl i mark G_SCALAR (pl_proxy pl i v)) (\<lambda>count.
     xs_bind (perl_sp i) (\<lambda>sp.
     xs_bind (err_sv i) (\<lambda>err.
     xs_bind (if \<not> err_true err \<and> count = 1
              then xs_bind (slot_get i sp) (\<lambda>ret. xs_return (sp - 1, if SvOK ret then SvUV rt ret else 0))
              else if err_true err then xs_then (err_clear i) (xs_return (sp, 0))
              else xs_return (sp, 0)) (\<lambda>(sp, p).
     xs_then (put_back i sp)
    (xs_then (perl_leave i) (xs_return p))))))))))"

definition plain_type :: "shared_type \<Rightarrow> bool" where
  "plain_type t \<longleftrightarrow> t = SHARED_UNDEF \<or> t = SHARED_IV \<or> t = SHARED_NV \<or> t = SHARED_PV"

definition shared_value_for_call :: "'nv perl_rt \<Rightarrow> 'nv perl_code \<Rightarrow> nat \<Rightarrow> ptr \<Rightarrow> ('nv call_state, 'nv perl_sv) xs" where
  "shared_value_for_call rt pl i p =
     (if p = 0 then xs_return SV_Undef
      else xs_bind (on_heap (node_at p)) (\<lambda>n.
        if plain_type (n_type n)
        then xs_bind (on_heap (shared_copy_scalar rt n)) (\<lambda>x. xs_return (SV_Scalar x))
        else xs_then (perl_enter i)
            (xs_bind (perl_sp i) (\<lambda>mark.
             xs_then (slot_put i (Suc mark) (newSVuv p))
            (xs_then (put_back i (Suc mark))
            (xs_bind (on_heap (\<lambda>h. case pl_value pl i p h of (a, h') \<Rightarrow> (Ret a, h'))) (\<lambda>a.
             xs_bind (call_end pl i mark G_SCALAR a) (\<lambda>count.
             xs_bind (perl_sp i) (\<lambda>sp.
             xs_bind (err_sv i) (\<lambda>err.
             if err_true err
             then xs_then (err_clear i) (xs_then (put_back i sp) (xs_then (perl_leave i) (xs_croak err)))
             else if count \<noteq> 1
             then xs_then (put_back i sp) (xs_then (perl_leave i) (xs_croak ''could not materialize shared callback value''))
             else xs_bind (slot_get i sp) (\<lambda>ret.
               xs_then (put_back i (sp - 1)) (xs_then (perl_leave i) (xs_return ret)))))))))))))"

text \<open>An import outside any other: a fresh map, the lock around it, the map's two arrays freed after
  it. A croak leaves them behind.\<close>

definition map_blocks :: "'nv import_state \<Rightarrow> call_block multiset" where
  "map_blocks t = (if im_capacity t = 0 then {#} else {#Block_Map, Block_Map#})"

definition import_top :: "nat \<Rightarrow> 'nv perl_rt \<Rightarrow> 'nv perl_store \<Rightarrow> 'nv perl_sv \<Rightarrow> ('nv call_state, ptr) xs" where
  "import_top fuel rt P v s =
     (case import_value fuel rt P None v (import_start_state (cs_shared s)) of
        (Ret p, t) \<Rightarrow> (Ret p, s\<lparr>cs_shared := im_shared t\<rparr>)
      | (Croak e, t) \<Rightarrow> (Croak e, s\<lparr>cs_shared := im_shared t, cs_live := cs_live s + map_blocks t\<rparr>)
      | (Fault, t) \<Rightarrow> (Fault, s\<lparr>cs_shared := im_shared t\<rparr>)
      | (Diverge, t) \<Rightarrow> (Diverge, s\<lparr>cs_shared := im_shared t\<rparr>))"

definition go_channel_import_value :: "nat \<Rightarrow> 'nv perl_rt \<Rightarrow> 'nv perl_code \<Rightarrow> nat \<Rightarrow> 'nv perl_sv \<Rightarrow> ('nv call_state, ptr) xs" where
  "go_channel_import_value fuel rt pl i v =
     xs_bind (shared_proxy_node_from_sv rt pl i v) (\<lambda>existing.
       if existing \<noteq> 0 then xs_return existing
       else xs_then (on_heap shared_lock)
           (xs_bind xs_get (\<lambda>s.
            xs_bind (import_top fuel rt (cs_store s i) v) (\<lambda>p.
            xs_then (on_heap shared_unlock) (xs_return p)))))"

subsection \<open>The call in the private interpreter\<close>

definition acquire_block :: "call_block \<Rightarrow> ('nv call_state, unit) xs" where
  "acquire_block b = xs_modify (\<lambda>s. s\<lparr>cs_live := add_mset b (cs_live s)\<rparr>)"

definition free_block :: "call_block \<Rightarrow> ('nv call_state, unit) xs" where
  "free_block b s = (if b \<in># cs_live s then (Ret (), s\<lparr>cs_live := cs_live s - {#b#}\<rparr>) else (Fault, s))"

definition state_lock :: "nat \<Rightarrow> ('nv call_state, unit) xs" where
  "state_lock c = xs_modify (\<lambda>s. s\<lparr>cs_lock := (cs_lock s)(c := cs_lock s c + 1)\<rparr>)"

definition state_unlock :: "nat \<Rightarrow> ('nv call_state, unit) xs" where
  "state_unlock c = xs_modify (\<lambda>s. s\<lparr>cs_lock := (cs_lock s)(c := cs_lock s c - 1)\<rparr>)"

definition set_context :: "nat \<Rightarrow> ('nv call_state, unit) xs" where
  "set_context i = xs_modify (\<lambda>s. s\<lparr>cs_context := i\<rparr>)"

text \<open>The pushes use the local \<open>sp\<close>; \<open>PL_stack_sp\<close> stays at the mark until \<open>PUTBACK\<close>.\<close>

fun push_values :: "nat \<Rightarrow> nat \<Rightarrow> 'nv perl_sv list \<Rightarrow> ('nv call_state, nat) xs" where
  "push_values i sp [] = xs_return sp"
| "push_values i sp (v # vs) = xs_then (slot_put i (Suc sp) v) (push_values i (Suc sp) vs)"

fun push_nodes :: "'nv perl_rt \<Rightarrow> 'nv perl_code \<Rightarrow> nat \<Rightarrow> nat \<Rightarrow> ptr list \<Rightarrow> ('nv call_state, nat) xs" where
  "push_nodes rt pl i sp [] = xs_return sp"
| "push_nodes rt pl i sp (p # ps) =
     xs_bind (shared_value_for_call rt pl i p) (\<lambda>v.
       xs_then (slot_put i (Suc sp) v) (push_nodes rt pl i (Suc sp) ps))"

definition push_arguments :: "'nv perl_rt \<Rightarrow> 'nv perl_code \<Rightarrow> nat \<Rightarrow> 'nv perl_sv list \<Rightarrow> ptr list
    \<Rightarrow> ('nv call_state, nat \<times> 'nv perl_sv list) xs" where
  "push_arguments rt pl i first args =
     xs_then (perl_enter i)
    (xs_bind (perl_sp i) (\<lambda>mark.
     xs_bind (push_values i mark first) (\<lambda>sp1.
     xs_bind (push_nodes rt pl i sp1 args) (\<lambda>sp2.
     xs_then (put_back i sp2)
    (xs_bind xs_get (\<lambda>s. xs_return (mark, slots_from (cs_stack s i) mark sp2)))))))"

text \<open>The results, last to first; the first number is how many are left, \<open>sp\<close> the local pointer.\<close>

fun pop_results :: "nat \<Rightarrow> 'nv perl_rt \<Rightarrow> 'nv perl_code \<Rightarrow> nat \<Rightarrow> nat \<Rightarrow> nat \<Rightarrow> ('nv call_state, ptr list) xs" where
  "pop_results fuel rt pl i 0 sp = xs_return []"
| "pop_results fuel rt pl i (Suc k) sp =
     xs_bind (slot_get i sp) (\<lambda>ret.
     xs_bind (go_channel_import_value fuel rt pl i ret) (\<lambda>p.
     xs_bind (pop_results fuel rt pl i k (sp - 1)) (\<lambda>ps. xs_return (ps @ [p]))))"

type_synonym invoke_out = "ptr list option \<times> string option"

definition local_control :: "nat \<Rightarrow> ('nv call_state, control_ref option) xs" where
  "local_control c s = (Ret (cs_tls s), s\<lparr>cs_locals := Suc (cs_locals s),
     cs_tls := (case cs_tls s of None \<Rightarrow> Some (Ctl_Local (cs_locals s)) | Some r \<Rightarrow> Some r),
     cs_runops := insert c (cs_runops s)\<rparr>)"

definition drop_control :: "control_ref option \<Rightarrow> ('nv call_state, unit) xs" where
  "drop_control old = xs_modify (\<lambda>s. s\<lparr>cs_tls := old, cs_locals := cs_locals s - 1\<rparr>)"

definition take_results :: "nat \<Rightarrow> 'nv perl_rt \<Rightarrow> 'nv perl_code \<Rightarrow> nat \<Rightarrow> gimme \<Rightarrow> string \<Rightarrow> nat
    \<Rightarrow> ('nv call_state, nat \<times> invoke_out) xs" where
  "take_results fuel rt pl i g no_memory cnt =
     xs_bind (perl_sp i) (\<lambda>sp.
     xs_bind (err_sv i) (\<lambda>err.
       if err_true err
       then xs_then (if rt_alloc rt (length err + 1) then acquire_block Block_Error else xs_return ())
           (xs_then (err_clear i)
             (xs_return (sp, None, if rt_alloc rt (length err + 1) then Some err else None)))
       else if g \<noteq> G_VOID \<and> cnt > 0
       then (if \<not> rt_alloc rt (cnt * 8)
             then (if rt_alloc rt (length no_memory + 1)
                   then xs_then (acquire_block Block_Error) (xs_return (sp, None, Some no_memory))
                   else xs_return (sp, None, None))
             else xs_then (acquire_block Block_Results)
                 (xs_bind (pop_results fuel rt pl i cnt sp) (\<lambda>ps.
                    xs_return (sp - cnt, Some ps, None))))
       else xs_return (sp, None, None)))"

definition invoke_in_clone :: "nat \<Rightarrow> 'nv perl_rt \<Rightarrow> 'nv perl_code \<Rightarrow> string
    \<Rightarrow> (gimme \<Rightarrow> 'nv perl_sv list \<Rightarrow> 'nv call_state \<Rightarrow> 'nv answer \<times> 'nv call_state) \<Rightarrow> nat \<Rightarrow> gimme
    \<Rightarrow> 'nv perl_sv list \<Rightarrow> ptr list \<Rightarrow> ('nv call_state, invoke_out) xs" where
  "invoke_in_clone fuel rt pl no_memory sub c g first args =
     xs_then (state_lock c)
    (xs_then (set_context c)
    (xs_bind (local_control c) (\<lambda>old_ctl.
     xs_bind (push_arguments rt pl c first args) (\<lambda>(mark, argv).
     xs_bind (\<lambda>s. case sub g argv s of (a, s') \<Rightarrow> (Ret a, s')) (\<lambda>a.
     xs_bind (call_end pl c mark g a) (\<lambda>count.
     xs_bind (take_results fuel rt pl c g no_memory count) (\<lambda>(sp, out).
     xs_then (put_back c sp)
    (xs_then (perl_leave c)
    (xs_then (drop_control old_ctl)
    (xs_then (state_unlock c) (xs_return out)))))))))))"

definition shared_code_invoke :: "nat \<Rightarrow> 'nv perl_rt \<Rightarrow> 'nv perl_code \<Rightarrow> nat \<Rightarrow> gimme \<Rightarrow> ptr list
    \<Rightarrow> ('nv call_state, invoke_out) xs" where
  "shared_code_invoke fuel rt pl c g args =
     invoke_in_clone fuel rt pl ''out of memory storing shared callback return values'' (pl_callback pl c) c g [] args"

definition shared_handle_invoke :: "nat \<Rightarrow> 'nv perl_rt \<Rightarrow> 'nv perl_code \<Rightarrow> nat \<Rightarrow> string \<Rightarrow> gimme \<Rightarrow> ptr list
    \<Rightarrow> ('nv call_state, invoke_out) xs" where
  "shared_handle_invoke fuel rt pl c op g args =
     invoke_in_clone fuel rt pl ''out of memory storing shared filehandle return values'' (pl_dispatch pl c) c g
       [SV_Ref c, SV_Scalar (newSVpvn (c_str op))] args"

subsection \<open>The XSUBs\<close>

text \<open>\<open>mark\<close> is where the arguments of the XSUB start in the caller's stack, \<open>skip\<close> how many
  of its \<open>items\<close> come before those of the callback.\<close>

fun marshal_args :: "nat \<Rightarrow> 'nv perl_rt \<Rightarrow> 'nv perl_code \<Rightarrow> nat \<Rightarrow> nat list \<Rightarrow> ('nv call_state, ptr list) xs" where
  "marshal_args fuel rt pl i [] = xs_return []"
| "marshal_args fuel rt pl i (k # ks) =
     xs_bind (slot_get i k) (\<lambda>arg.
     xs_bind (go_channel_import_value fuel rt pl i arg) (\<lambda>p.
     xs_bind (marshal_args fuel rt pl i ks) (\<lambda>ps. xs_return (p # ps))))"

definition free_results :: "invoke_out \<Rightarrow> ('nv call_state, unit) xs" where
  "free_results out = (if fst out \<noteq> None then free_block Block_Results else xs_return ())"

definition remote_call :: "nat \<Rightarrow> 'nv perl_rt \<Rightarrow> 'nv perl_code \<Rightarrow> nat \<Rightarrow> nat \<Rightarrow> nat \<Rightarrow> gimme \<Rightarrow> string
    \<Rightarrow> (ptr list \<Rightarrow> ('nv call_state, invoke_out) xs) \<Rightarrow> ('nv call_state, 'nv perl_sv list) xs" where
  "remote_call fuel rt pl i items skip g no_memory invoke =
     xs_bind (perl_sp i) (\<lambda>top.
       let mark = top - items; argc = items - skip
       in xs_then (if argc = 0 then xs_return ()
                   else if \<not> rt_alloc rt (argc * 8) then xs_croak no_memory
                   else acquire_block Block_Args)
         (xs_bind (marshal_args fuel rt pl i [Suc (mark + skip)..<Suc top]) (\<lambda>args.
          xs_bind (invoke args) (\<lambda>out.
          xs_then (if argc = 0 then xs_return () else free_block Block_Args)
         (xs_then (set_context i)
           (case snd out of
              Some msg \<Rightarrow> xs_then (free_block Block_Error) (xs_then (free_results out) (xs_croak (c_str msg)))
            | None \<Rightarrow>
                xs_bind (if g \<noteq> G_VOID
                         then push_nodes rt pl i mark (case fst out of Some ps \<Rightarrow> ps | None \<Rightarrow> [])
                         else xs_return mark) (\<lambda>sp.
                xs_then (free_results out)
               (xs_then (put_back i sp)
               (xs_bind xs_get (\<lambda>s. xs_return (slots_from (cs_stack s i) mark sp)))))))))))"

definition shared_code_call :: "nat \<Rightarrow> 'nv perl_rt \<Rightarrow> 'nv perl_code \<Rightarrow> nat \<Rightarrow> ptr \<Rightarrow> nat \<Rightarrow> gimme
    \<Rightarrow> ('nv call_state, 'nv perl_sv list) xs" where
  "shared_code_call fuel rt pl i h items g =
     xs_bind (on_heap (locked h (\<lambda>p n. case n_code n of
        Some c \<Rightarrow> if n_type n = SHARED_CODE then xs_return c else unlock_croak ''shared value is not a CODE reference''
      | None \<Rightarrow> unlock_croak ''shared value is not a CODE reference''))) (\<lambda>c.
     remote_call fuel rt pl i items 1 g ''out of memory marshalling shared callback arguments''
       (shared_code_invoke fuel rt pl c g))"

definition shared_handle_remote :: "nat \<Rightarrow> 'nv perl_rt \<Rightarrow> 'nv perl_code \<Rightarrow> nat \<Rightarrow> ptr \<Rightarrow> string \<Rightarrow> nat \<Rightarrow> gimme
    \<Rightarrow> ('nv call_state, 'nv perl_sv list) xs" where
  "shared_handle_remote fuel rt pl i h op items g =
     xs_bind (on_heap (locked h (\<lambda>p n. case n_handle n of
        Some c \<Rightarrow> if n_type n = SHARED_GLOB \<or> n_type n = SHARED_IO then xs_return c
                  else unlock_croak ''shared filehandle has no remote PerlIO state''
      | None \<Rightarrow> unlock_croak ''shared filehandle has no remote PerlIO state''))) (\<lambda>c.
     remote_call fuel rt pl i items 2 g ''out of memory marshalling shared filehandle arguments''
       (shared_handle_invoke fuel rt pl c op g))"

subsection \<open>Class objects\<close>

text \<open>The fields of an object of a Perl class: a missing one gets a node, each is tied by
  \<open>_field_ref_for_ptr\<close>. That call has no \<open>G_EVAL\<close>: when the helper dies, the XSUB is left at once.\<close>

definition field_node :: "'nv perl_rt \<Rightarrow> ptr \<Rightarrow> nat \<Rightarrow> ('nv shared_state, ptr) xs" where
  "field_node rt p k = xs_bind (node_at p) (\<lambda>n.
     if k \<ge> length (n_items n) then xs_fault
     else if n_items n ! k = 0 then xs_bind (shared_node_new rt) (\<lambda>c. xs_then (array_put p k c) (xs_return c))
     else xs_return (n_items n ! k))"

definition field_sv :: "'nv perl_code \<Rightarrow> nat \<Rightarrow> ptr \<Rightarrow> ('nv call_state, nat) xs" where
  "field_sv pl i child =
     xs_then (perl_enter i)
    (xs_bind (perl_sp i) (\<lambda>mark.
     xs_then (slot_put i (Suc mark) (newSVuv child))
    (xs_then (put_back i (Suc mark))
     (case pl_field pl i child of
        Died m \<Rightarrow> xs_croak m
      | Returned vs \<Rightarrow>
          xs_bind (call_end pl i mark G_SCALAR (Returned vs)) (\<lambda>count.
          xs_bind (perl_sp i) (\<lambda>sp.
          if count \<noteq> 1
          then xs_then (put_back i sp) (xs_then (perl_leave i) (xs_croak ''failed to create shared class field proxy''))
          else xs_bind (slot_get i sp) (\<lambda>field_ref.
            case field_ref of
              SV_Ref r \<Rightarrow> xs_then (put_back i (sp - 1)) (xs_then (perl_leave i) (xs_return r))
            | _ \<Rightarrow> xs_then (put_back i (sp - 1)) (xs_then (perl_leave i)
                     (xs_croak ''shared class field helper did not return a reference'')))))))))"

fun object_fields :: "'nv perl_rt \<Rightarrow> 'nv perl_code \<Rightarrow> nat \<Rightarrow> ptr \<Rightarrow> nat list \<Rightarrow> ('nv call_state, nat list) xs" where
  "object_fields rt pl i p [] = xs_return []"
| "object_fields rt pl i p (k # ks) =
     xs_bind (on_heap (field_node rt p k)) (\<lambda>child.
     xs_bind (field_sv pl i child) (\<lambda>r.
     xs_bind (object_fields rt pl i p ks) (\<lambda>rs. xs_return (r # rs))))"

definition shared_object_proxy :: "'nv perl_rt \<Rightarrow> 'nv perl_code \<Rightarrow> nat \<Rightarrow> ptr \<Rightarrow> ('nv call_state, string \<times> nat list) xs" where
  "shared_object_proxy rt pl i p =
     (if rt_version rt < 40 then xs_croak ''shared Perl class objects require Perl 5.40 or newer''
      else xs_bind (on_heap (node_at p)) (\<lambda>n.
        if n_type n \<noteq> SHARED_OBJECT then xs_croak ''shared value is not a class object''
        else (case n_class n of
                None \<Rightarrow> xs_croak ''shared class object has no class name''
              | Some cls \<Rightarrow>
                  if cls = [] then xs_croak ''shared class object has no class name''
                  else xs_bind (object_fields rt pl i p [0..<n_array_size n]) (\<lambda>rs. xs_return (cls, rs)))))"

definition shared_object_proxy_xs :: "'nv perl_rt \<Rightarrow> 'nv perl_code \<Rightarrow> nat \<Rightarrow> ptr \<Rightarrow> ('nv call_state, string \<times> nat list) xs" where
  "shared_object_proxy_xs rt pl i h =
     xs_then (on_heap shared_lock)
    (xs_bind (on_heap (shared_from_uv h)) (\<lambda>p.
     xs_bind (shared_object_proxy rt pl i p) (\<lambda>obj.
     xs_then (on_heap shared_unlock) (xs_return obj))))"

end
