(* ===== verification/Shared_Call_Correct.thy ===== *)
theory Shared_Call_Correct
  imports Shared_Call
begin

section \<open>What a call of a shared callback does\<close>

text \<open>
  The facts of the call path: a helper call changes nothing but the argument stack above its
  pointer and \<open>$@\<close>; the pushed arguments are the slots the callback sees; every way out of the XSUB
  gives back what it took.
\<close>

subsection \<open>Frames\<close>

definition call_kept :: "'nv call_state \<Rightarrow> 'nv call_state \<Rightarrow> bool" where
  "call_kept s s' \<longleftrightarrow> cs_scope s' = cs_scope s \<and> cs_context s' = cs_context s \<and> cs_lock s' = cs_lock s
     \<and> cs_tls s' = cs_tls s \<and> cs_locals s' = cs_locals s \<and> cs_live s' = cs_live s
     \<and> sh_lock (cs_shared s') = sh_lock (cs_shared s)"

definition stack_kept :: "'nv arg_stack \<Rightarrow> 'nv arg_stack \<Rightarrow> bool" where
  "stack_kept st st' \<longleftrightarrow> st_sp st' = st_sp st \<and> (\<forall>k \<le> st_sp st. st_slots st' k = st_slots st k)"

definition heap_grown :: "'nv shared_state \<Rightarrow> 'nv shared_state \<Rightarrow> bool" where
  "heap_grown h h' \<longleftrightarrow> heap_wf h' \<and> sh_next h \<le> sh_next h'"

definition framed :: "nat \<Rightarrow> 'nv call_state \<Rightarrow> 'nv call_state \<Rightarrow> bool" where
  "framed i s s' \<longleftrightarrow> call_kept s s' \<and> cs_store s' = cs_store s \<and> (\<forall>j. j \<noteq> i \<longrightarrow> cs_stack s' j = cs_stack s j)
     \<and> stack_kept (cs_stack s i) (cs_stack s' i) \<and> sh_next (cs_shared s) \<le> sh_next (cs_shared s')"

text \<open>The same without the slots, for pushes below the stack pointer.\<close>

definition framed_off :: "nat \<Rightarrow> 'nv call_state \<Rightarrow> 'nv call_state \<Rightarrow> bool" where
  "framed_off i s s' \<longleftrightarrow> call_kept s s' \<and> cs_store s' = cs_store s \<and> (\<forall>j. j \<noteq> i \<longrightarrow> cs_stack s' j = cs_stack s j)
     \<and> st_sp (cs_stack s' i) = st_sp (cs_stack s i) \<and> sh_next (cs_shared s) \<le> sh_next (cs_shared s')"

lemma stack_kept_refl [simp]: "stack_kept st st"
  by (simp add: stack_kept_def)

lemma stack_kept_trans: "stack_kept a b \<Longrightarrow> stack_kept b c \<Longrightarrow> stack_kept a c"
  by (simp add: stack_kept_def)

lemma framed_refl [simp]: "framed i s s"
  by (simp add: framed_def call_kept_def)

lemma framed_trans: "framed i s t \<Longrightarrow> framed i t u \<Longrightarrow> framed i s u"
  by (auto simp: framed_def call_kept_def intro: stack_kept_trans)

lemma framed_kept: "framed i s s' \<Longrightarrow> call_kept s s'"
  by (simp add: framed_def)

lemma call_kept_trans: "call_kept s t \<Longrightarrow> call_kept t u \<Longrightarrow> call_kept s u"
  by (simp add: call_kept_def)

lemmas stack_ops = perl_enter_def perl_leave_def perl_sp_def put_back_def slot_get_def slot_put_def
  call_end_def err_sv_def err_clear_def on_heap_def

subsection \<open>The helpers\<close>

definition proxy_node :: "'nv perl_rt \<Rightarrow> 'nv perl_sv \<Rightarrow> ptr" where
  "proxy_node rt w = (if SvOK w then SvUV rt w else 0)"

lemma err_true_Nil [simp]: "\<not> err_true []"
  by (simp add: err_true_def)

lemma proxy_run:
  assumes "pl_proxy pl i v = Returned [w]"
  shows "\<exists>s'. shared_proxy_node_from_sv rt pl i v s = (Ret (proxy_node rt w), s') \<and> framed i s s'
     \<and> cs_shared s' = cs_shared s"
  by (simp add: shared_proxy_node_from_sv_def assms stack_ops xs_simps xs_bind_def xs_then_def proxy_node_def
      after_call_def framed_def call_kept_def stack_kept_def)

definition by_call :: "'nv shared_state \<Rightarrow> ptr \<Rightarrow> bool" where
  "by_call h p \<longleftrightarrow> p \<noteq> 0 \<and> (\<forall>n. sh_heap h p = Some n \<longrightarrow> \<not> plain_type (n_type n))"

text \<open>The value a node becomes: a container's is what the helper makes of it.\<close>

definition node_value :: "'nv perl_rt \<Rightarrow> 'nv perl_code \<Rightarrow> nat \<Rightarrow> 'nv shared_state \<Rightarrow> ptr \<Rightarrow> 'nv perl_sv \<Rightarrow> bool" where
  "node_value rt pl i h p v \<longleftrightarrow> (if p = 0 then v = SV_Undef
     else \<exists>n. sh_heap h p = Some n \<and> (if plain_type (n_type n) then \<exists>x. copy_scalar rt n = Some x \<and> v = SV_Scalar x
       else pl_value pl i p h = (Returned [v], h)))"

lemma plain_type_copy: "plain_type (n_type n) \<Longrightarrow> \<exists>x. copy_scalar rt n = Some x"
  by (auto simp: plain_type_def)

text \<open>What producing the value leaves on the stack.\<close>

definition value_left :: "'nv shared_state \<Rightarrow> ptr \<Rightarrow> 'nv perl_sv \<Rightarrow> 'nv arg_stack \<Rightarrow> 'nv arg_stack \<Rightarrow> bool" where
  "value_left h p v st st' \<longleftrightarrow> (if by_call h p then st_slots st' (Suc (st_sp st)) = v else st' = st)"

lemma value_run:
  assumes "node_value rt pl i (cs_shared s) p v"
  shows "\<exists>s'. shared_value_for_call rt pl i p s = (Ret v, s') \<and> framed i s s' \<and> cs_shared s' = cs_shared s
     \<and> value_left (cs_shared s) p v (cs_stack s i) (cs_stack s' i)"
proof (cases "p = 0")
  case True
  then show ?thesis using assms by (simp add: shared_value_for_call_def node_value_def by_call_def value_left_def xs_simps)
next
  case False
  then obtain n where n: "sh_heap (cs_shared s) p = Some n" using assms by (auto simp: node_value_def)
  show ?thesis
  proof (cases "plain_type (n_type n)")
    case True
    then obtain x where "copy_scalar rt n = Some x" and "v = SV_Scalar x"
      using assms False n by (auto simp: node_value_def)
    then show ?thesis using False n True
      by (simp add: shared_value_for_call_def by_call_def value_left_def stack_ops node_at_def shared_copy_scalar_def xs_simps xs_bind_def
          del: copy_scalar.simps)
  next
    case cont: False
    then have "pl_value pl i p (cs_shared s) = (Returned [v], cs_shared s)"
      using assms False n by (simp add: node_value_def)
    then show ?thesis using False n cont
      by (simp add: shared_value_for_call_def by_call_def value_left_def stack_ops node_at_def xs_simps xs_bind_def xs_then_def
          after_call_def framed_def call_kept_def stack_kept_def)
  qed
qed

lemma slot_put_run: "slot_put i k v s = (Ret (), s\<lparr>cs_stack := (cs_stack s)(i := (cs_stack s i)
     \<lparr>st_slots := (st_slots (cs_stack s i))(k := v)\<rparr>)\<rparr>)"
  by (simp add: slot_put_def xs_modify_def)

lemma framed_off_trans: "framed_off i s t \<Longrightarrow> framed_off i t u \<Longrightarrow> framed_off i s u"
  by (auto simp: framed_off_def call_kept_def)

lemma framed_framed_off: "framed i s t \<Longrightarrow> framed_off i s t"
  by (simp add: framed_def framed_off_def stack_kept_def)

lemma framed_off_slot_put:
  "framed_off i s t \<Longrightarrow> framed_off i s (t\<lparr>cs_stack := (cs_stack t)(i := (cs_stack t i)\<lparr>st_slots := (st_slots (cs_stack t i))(k := v)\<rparr>)\<rparr>)"
  by (simp add: framed_off_def call_kept_def)

subsection \<open>The pushed values\<close>

text \<open>The last node of a list whose value takes a call.\<close>

definition last_call :: "'nv shared_state \<Rightarrow> ptr list \<Rightarrow> nat \<Rightarrow> bool" where
  "last_call h ps j \<longleftrightarrow> j < length ps \<and> by_call h (ps ! j) \<and> (\<forall>k. j < k \<and> k < length ps \<longrightarrow> \<not> by_call h (ps ! k))"

definition no_call_after :: "'nv shared_state \<Rightarrow> ptr list \<Rightarrow> nat \<Rightarrow> bool" where
  "no_call_after h ps j \<longleftrightarrow> (\<forall>k. j < k \<and> k < length ps \<longrightarrow> \<not> by_call h (ps ! k))"

lemma last_call_Cons:
  "last_call h (p # ps) j \<longleftrightarrow> (case j of 0 \<Rightarrow> by_call h p \<and> (\<forall>q\<in>set ps. \<not> by_call h q) | Suc k \<Rightarrow> last_call h ps k)"
  by (force simp: last_call_def nth_Cons all_set_conv_all_nth split: nat.splits)

lemma no_call_Cons:
  "no_call_after h (p # ps) j \<longleftrightarrow> (case j of 0 \<Rightarrow> (\<forall>q\<in>set ps. \<not> by_call h q) | Suc k \<Rightarrow> no_call_after h ps k)"
  by (force simp: no_call_after_def nth_Cons all_set_conv_all_nth split: nat.splits)

text \<open>
  \<open>T\<close> is \<open>PL_stack_sp\<close> during the pushes. What lies at or below it is safe, what lies above it
  is lost at the next call, and the last call leaves its value just above it.
\<close>

definition pushed_ok :: "'nv shared_state \<Rightarrow> nat \<Rightarrow> nat \<Rightarrow> ptr list \<Rightarrow> 'nv perl_sv list \<Rightarrow> (nat \<Rightarrow> 'nv perl_sv)
    \<Rightarrow> (nat \<Rightarrow> 'nv perl_sv) \<Rightarrow> bool" where
  "pushed_ok h T sp ps vs old new \<longleftrightarrow>
     (\<forall>k < length ps. sp + Suc k \<le> T \<or> no_call_after h ps k \<longrightarrow> new (sp + Suc k) = vs ! k)
   \<and> (\<forall>j. last_call h ps j \<and> T \<le> sp + j \<longrightarrow> new (Suc T) = vs ! j)
   \<and> (\<forall>k \<le> sp. k \<le> T \<or> (\<forall>q\<in>set ps. \<not> by_call h q) \<longrightarrow> new k = old k)"

lemma pushed_ok_Cons:
  assumes step: "if by_call h p then mid (Suc T) = v else mid = old" and low: "\<forall>k \<le> T. mid k = old k"
    and rest: "pushed_ok h T (Suc sp) ps vs (mid(Suc sp := v)) new"
  shows "pushed_ok h T sp (p # ps) (v # vs) old new"
proof -
  have r: "\<And>k. k < length ps \<Longrightarrow> sp + Suc (Suc k) \<le> T \<or> no_call_after h ps k \<Longrightarrow> new (sp + Suc (Suc k)) = vs ! k"
    "\<And>j. last_call h ps j \<Longrightarrow> T \<le> Suc sp + j \<Longrightarrow> new (Suc T) = vs ! j"
    "\<And>k. k \<le> Suc sp \<Longrightarrow> k \<le> T \<or> (\<forall>q\<in>set ps. \<not> by_call h q) \<Longrightarrow> new k = (mid(Suc sp := v)) k"
    using rest by (auto simp: pushed_ok_def)
  show ?thesis unfolding pushed_ok_def
  proof (intro conjI allI impI)
    fix k
    assume k: "k < length (p # ps)" "sp + Suc k \<le> T \<or> no_call_after h (p # ps) k"
    show "new (sp + Suc k) = (v # vs) ! k"
    proof (cases k)
      case 0
      then show ?thesis using k r(3) [of "Suc sp"] by (auto simp: no_call_Cons)
    next
      case (Suc m)
      then show ?thesis using k r(1) [of m] by (auto simp: no_call_Cons)
    qed
  next
    fix j
    assume j: "last_call h (p # ps) j \<and> T \<le> sp + j"
    show "new (Suc T) = (v # vs) ! j"
    proof (cases j)
      case 0
      then have "by_call h p" and "\<forall>q\<in>set ps. \<not> by_call h q" and "T \<le> sp" using j by (simp_all add: last_call_Cons)
      then show ?thesis using r(3) [of "Suc T"] step 0 by simp
    next
      case (Suc m)
      then show ?thesis using j r(2) [of m] by (simp add: last_call_Cons)
    qed
  next
    fix k
    assume k: "k \<le> sp" "k \<le> T \<or> (\<forall>q\<in>set (p # ps). \<not> by_call h q)"
    then show "new k = old k" using r(3) [of k] step low by auto
  qed
qed

lemma push_nodes_run:
  assumes "list_all2 (node_value rt pl i (cs_shared s)) ps vs"
  shows "\<exists>s'. push_nodes rt pl i sp ps s = (Ret (sp + length ps), s') \<and> framed_off i s s' \<and> cs_shared s' = cs_shared s
     \<and> pushed_ok (cs_shared s) (st_sp (cs_stack s i)) sp ps vs (st_slots (cs_stack s i)) (st_slots (cs_stack s' i))"
  using assms
proof (induction ps arbitrary: vs s sp)
  case Nil
  then show ?case by (simp add: xs_simps pushed_ok_def last_call_def framed_framed_off)
next
  case (Cons p ps ws)
  obtain v vs where ws: "ws = v # vs" and hd: "node_value rt pl i (cs_shared s) p v"
    and tl: "list_all2 (node_value rt pl i (cs_shared s)) ps vs"
    using Cons.prems by (auto simp: list_all2_Cons1)
  obtain s1 where v: "shared_value_for_call rt pl i p s = (Ret v, s1)" and f1: "framed i s s1"
    and same1: "cs_shared s1 = cs_shared s" and step: "value_left (cs_shared s) p v (cs_stack s i) (cs_stack s1 i)"
    using value_run [OF hd] by blast
  define s2 where "s2 = s1\<lparr>cs_stack := (cs_stack s1)(i := (cs_stack s1 i)\<lparr>st_slots := (st_slots (cs_stack s1 i))(Suc sp := v)\<rparr>)\<rparr>"
  have sp1: "st_sp (cs_stack s1 i) = st_sp (cs_stack s i)" using f1 by (simp add: framed_def stack_kept_def)
  have f2: "framed_off i s s2" unfolding s2_def by (rule framed_off_slot_put [OF framed_framed_off [OF f1]])
  have "list_all2 (node_value rt pl i (cs_shared s2)) ps vs" using tl same1 by (simp add: s2_def)
  then obtain s' where rest: "push_nodes rt pl i (Suc sp) ps s2 = (Ret (Suc sp + length ps), s')"
    and f': "framed_off i s2 s'" and same': "cs_shared s' = cs_shared s2"
    and ok: "pushed_ok (cs_shared s2) (st_sp (cs_stack s2 i)) (Suc sp) ps vs (st_slots (cs_stack s2 i)) (st_slots (cs_stack s' i))"
    using Cons.IH [of s2 vs "Suc sp"] by blast
  have "pushed_ok (cs_shared s) (st_sp (cs_stack s i)) sp (p # ps) (v # vs) (st_slots (cs_stack s i)) (st_slots (cs_stack s' i))"
  proof (rule pushed_ok_Cons [where mid = "st_slots (cs_stack s1 i)"])
    show "if by_call (cs_shared s) p then st_slots (cs_stack s1 i) (Suc (st_sp (cs_stack s i))) = v
        else st_slots (cs_stack s1 i) = st_slots (cs_stack s i)" using step by (simp add: value_left_def split: if_splits)
    show "\<forall>k \<le> st_sp (cs_stack s i). st_slots (cs_stack s1 i) k = st_slots (cs_stack s i) k"
      using f1 by (simp add: framed_def stack_kept_def)
    show "pushed_ok (cs_shared s) (st_sp (cs_stack s i)) (Suc sp) ps vs
        ((st_slots (cs_stack s1 i))(Suc sp := v)) (st_slots (cs_stack s' i))"
      using ok sp1 same1 by (simp add: s2_def)
  qed
  moreover have "push_nodes rt pl i sp (p # ps) s = (Ret (sp + length (p # ps)), s')"
    using rest by (simp add: xs_bind_Ret [where m = "shared_value_for_call rt pl i p", OF v]
        xs_then_Ret [where m = "slot_put i (Suc sp) v", OF slot_put_run] s2_def)
  ultimately show ?case using framed_off_trans [OF f2 f'] same1 same' by (auto simp: s2_def ws)
qed

lemma push_values_run:
  shows "\<exists>s'. push_values i sp vs s = (Ret (sp + length vs), s') \<and> framed_off i s s' \<and> cs_shared s' = cs_shared s
     \<and> (\<forall>k < length vs. st_slots (cs_stack s' i) (sp + Suc k) = vs ! k)
     \<and> (\<forall>k \<le> sp. st_slots (cs_stack s' i) k = st_slots (cs_stack s i) k)"
proof (induction vs arbitrary: sp s)
  case Nil
  show ?case by (simp add: xs_simps framed_framed_off)
next
  case (Cons v vs)
  define s1 where "s1 = s\<lparr>cs_stack := (cs_stack s)(i := (cs_stack s i)\<lparr>st_slots := (st_slots (cs_stack s i))(Suc sp := v)\<rparr>)\<rparr>"
  from Cons.IH [of "Suc sp" s1] obtain s' where run: "push_values i (Suc sp) vs s1 = (Ret (Suc sp + length vs), s')"
    and f: "framed_off i s1 s'" "cs_shared s' = cs_shared s1"
    and new: "\<forall>k < length vs. st_slots (cs_stack s' i) (Suc sp + Suc k) = vs ! k"
    and old: "\<forall>k \<le> Suc sp. st_slots (cs_stack s' i) k = st_slots (cs_stack s1 i) k" by blast
  have "framed_off i s s1" unfolding s1_def by (rule framed_off_slot_put) (simp add: framed_framed_off)
  then have "framed_off i s s'" using f(1) by (rule framed_off_trans)
  moreover have "push_values i sp (v # vs) s = (Ret (sp + length (v # vs)), s')"
    using run by (simp add: xs_then_Ret [where m = "slot_put i (Suc sp) v", OF slot_put_run] s1_def)
  moreover have "st_slots (cs_stack s' i) (sp + Suc k) = (v # vs) ! k" if "k < length (v # vs)" for k
    using that new old by (cases k) (simp_all add: s1_def)
  ultimately show ?case using f(2) old by (auto simp: s1_def)
qed

lemma slots_from_length [simp]: "length (slots_from st mark sp) = sp - mark"
  by (simp add: slots_from_def del: upt_Suc)

lemma slots_from_nth: "k < sp - mark \<Longrightarrow> slots_from st mark sp ! k = st_slots st (mark + Suc k)"
  by (simp add: slots_from_def del: upt_Suc)

lemma slots_from_eq:
  assumes "\<forall>k < length vs. st_slots st (mark + Suc k) = vs ! k"
  shows "slots_from st mark (mark + length vs) = vs"
  using assms by (simp add: list_eq_iff_nth_eq slots_from_nth)

text \<open>The state in which the callback starts: one scope deeper, the arguments above the mark.\<close>

lemma push_arguments_run:
  assumes "list_all2 (node_value rt pl i (cs_shared s)) ps vs" and "mark = st_sp (cs_stack s i)"
  shows "\<exists>argv s'. push_arguments rt pl i first ps s = (Ret (mark, argv), s')
     \<and> length argv = length first + length ps
     \<and> (\<forall>k < length ps. no_call_after (cs_shared s) ps k \<longrightarrow> argv ! (length first + k) = vs ! k)
     \<and> (\<forall>k < length first. (\<forall>p\<in>set ps. \<not> by_call (cs_shared s) p) \<longrightarrow> argv ! k = first ! k)
     \<and> (\<forall>j. last_call (cs_shared s) ps j \<longrightarrow> argv ! 0 = vs ! j)
     \<and> cs_shared s' = cs_shared s \<and> cs_store s' = cs_store s \<and> (\<forall>j. j \<noteq> i \<longrightarrow> cs_stack s' j = cs_stack s j)
     \<and> call_kept (s\<lparr>cs_scope := (cs_scope s)(i := cs_scope s i + 1)\<rparr>) s'
     \<and> (\<forall>k \<le> mark. st_slots (cs_stack s' i) k = st_slots (cs_stack s i) k)"
proof -
  define s0 where "s0 = s\<lparr>cs_scope := (cs_scope s)(i := cs_scope s i + 1)\<rparr>"
  from push_values_run [of i mark first s0] obtain s1
    where one: "push_values i mark first s0 = (Ret (mark + length first), s1)" "framed_off i s0 s1" "cs_shared s1 = cs_shared s0"
    and new1: "\<forall>k < length first. st_slots (cs_stack s1 i) (mark + Suc k) = first ! k"
    and old1: "\<forall>k \<le> mark. st_slots (cs_stack s1 i) k = st_slots (cs_stack s0 i) k" by blast
  have sp1: "st_sp (cs_stack s1 i) = mark" using one(2) assms(2) by (simp add: framed_off_def s0_def)
  have "list_all2 (node_value rt pl i (cs_shared s1)) ps vs" using assms(1) one(3) by (simp add: s0_def)
  then obtain s2 where two: "push_nodes rt pl i (mark + length first) ps s1 = (Ret (mark + length first + length ps), s2)"
    "framed_off i s1 s2" "cs_shared s2 = cs_shared s1"
    and ok: "pushed_ok (cs_shared s1) mark (mark + length first) ps vs (st_slots (cs_stack s1 i)) (st_slots (cs_stack s2 i))"
    using push_nodes_run [of rt pl i s1 ps vs "mark + length first"] sp1 by auto
  define argv where "argv = slots_from (cs_stack s2 i) mark (mark + length first + length ps)"
  define s' where "s' = s2\<lparr>cs_stack := (cs_stack s2)(i := (cs_stack s2 i)\<lparr>st_sp := mark + length first + length ps\<rparr>)\<rparr>"
  have fr: "framed_off i s0 s2" using one(2) two(2) by (rule framed_off_trans)
  have "slots_from (cs_stack s' i) mark (mark + length first + length ps) = argv"
    by (simp add: argv_def s'_def slots_from_def)
  moreover have "perl_enter i s = (Ret (), s0)" and "perl_sp i s0 = (Ret mark, s0)"
    and "put_back i (mark + length first + length ps) s2 = (Ret (), s')"
    by (simp_all add: stack_ops xs_modify_def assms(2) s'_def s0_def)
  ultimately have run: "push_arguments rt pl i first ps s = (Ret (mark, argv), s')"
    by (simp add: push_arguments_def xs_then_Ret [where m = "perl_enter i"] xs_bind_Ret [where m = "perl_sp i"]
        xs_bind_Ret [where m = "push_values i mark first", OF one(1)] xs_bind_Ret [where m = "push_nodes rt pl i k ps" for k, OF two(1)]
        xs_then_Ret [where m = "put_back i k" for k] xs_simps)
  have nth: "argv ! k = st_slots (cs_stack s2 i) (mark + Suc k)" if "k < length first + length ps" for k
    using that by (simp add: argv_def slots_from_nth)
  have "argv ! (length first + k) = vs ! k" if "k < length ps" "no_call_after (cs_shared s) ps k" for k
    using that ok one(3) by (simp add: nth pushed_ok_def add.assoc s0_def)
  moreover have "argv ! k = first ! k" if "k < length first" "\<forall>p\<in>set ps. \<not> by_call (cs_shared s) p" for k
    using that ok one(3) new1 by (simp add: nth pushed_ok_def s0_def)
  moreover have "argv ! 0 = vs ! j" if "last_call (cs_shared s) ps j" for j
  proof -
    have "j < length ps" using that by (simp add: last_call_def)
    then have "argv ! 0 = st_slots (cs_stack s2 i) (Suc mark)" using nth [of 0] by force
    then show ?thesis using that ok one(3) by (simp add: pushed_ok_def s0_def)
  qed
  moreover have "length argv = length first + length ps" by (simp add: argv_def)
  moreover have "call_kept s0 s'" using fr by (simp add: framed_off_def call_kept_def s0_def s'_def)
  moreover have "st_slots (cs_stack s' i) k = st_slots (cs_stack s i) k" if "k \<le> mark" for k
    using that ok old1 by (simp add: pushed_ok_def s0_def s'_def)
  moreover have "cs_shared s' = cs_shared s" "cs_store s' = cs_store s" "\<forall>j. j \<noteq> i \<longrightarrow> cs_stack s' j = cs_stack s j"
    using fr one(3) two(3) by (simp_all add: framed_off_def s0_def s'_def)
  ultimately show ?thesis using run unfolding s0_def by (intro exI conjI allI impI) (assumption | blast)+
qed


subsection \<open>Values that can be shared\<close>

text \<open>A value that \<open>_proxy_ptr\<close> answers for, with no handle or that of a node, and that has no dangling reference.\<close>

definition shareable :: "'nv perl_rt \<Rightarrow> 'nv perl_code \<Rightarrow> nat \<Rightarrow> 'nv call_state \<Rightarrow> 'nv perl_sv \<Rightarrow> bool" where
  "shareable rt pl i s v \<longleftrightarrow> sv_closed (cs_store s i) v
     \<and> (\<exists>w. pl_proxy pl i v = Returned [w] \<and> proxy_node rt w < sh_next (cs_shared s))"

definition store_ready :: "nat \<Rightarrow> 'nv perl_rt \<Rightarrow> 'nv perl_store \<Rightarrow> bool" where
  "store_ready fuel rt P \<longleftrightarrow> store_ok P \<and> smooth rt P \<and> card (dom P) < fuel"

definition old_nodes :: "'nv call_state \<Rightarrow> 'nv call_state \<Rightarrow> bool" where
  "old_nodes s s' \<longleftrightarrow> (\<forall>q < sh_next (cs_shared s). sh_heap (cs_shared s') q = sh_heap (cs_shared s) q)"

lemma shareable_framed: "framed i s s' \<Longrightarrow> shareable rt pl i s v \<Longrightarrow> shareable rt pl i s' v"
  by (fastforce simp: shareable_def framed_def)

lemma graph_of_live:
  assumes "graph_of rt P t v p"
  shows "\<exists>n. im_heap t p = Some n" and "\<not> SvROK v \<Longrightarrow> im_heap t p = Some (scalar_node rt v)"
proof -
  have rep: "sv_rep rt t v p" and drawn: "\<forall>rp\<in>set (im_map t). drawn rt P t rp"
    using assms by (simp_all add: graph_of_def)
  show "\<exists>n. im_heap t p = Some n"
  proof (cases "SvROK v")
    case True
    then obtain r where "v = SV_Ref r" by (cases v) auto
    then have "(r, p) \<in> set (im_map t)" using rep by (simp add: sv_rep_def map_of_SomeD)
    then show ?thesis using drawn by (auto simp: drawn_def)
  qed (use rep in \<open>cases v; simp add: sv_rep_def\<close>)
  show "im_heap t p = Some (scalar_node rt v)" if "\<not> SvROK v"
    using that rep by (cases v) (simp_all add: sv_rep_def)
qed

lemma import_top_run:
  assumes "store_ready fuel rt P" and "sv_closed P v" and "heap_wf (cs_shared s)"
  shows "\<exists>p h. import_top fuel rt P v s = (Ret p, s\<lparr>cs_shared := h\<rparr>) \<and> heap_wf h \<and> 0 < p \<and> p < sh_next h
     \<and> sh_lock h = sh_lock (cs_shared s) \<and> sh_next (cs_shared s) \<le> sh_next h
     \<and> (\<forall>q < sh_next (cs_shared s). sh_heap h q = sh_heap (cs_shared s) q)
     \<and> (\<not> SvROK v \<longrightarrow> sh_heap h p = Some (scalar_node rt v))"
proof -
  have ready: "store_ok P" "smooth rt P" "card (dom P) < fuel" using assms(1) by (simp_all add: store_ready_def)
  obtain out t where run: "import_value fuel rt P None v (import_start_state (cs_shared s)) = (out, t)" by fastforce
  have ok: "xs_ok (\<lambda>_. False) (\<lambda>p s'. graph_of rt P s' v p \<and> heap_wf (im_shared s') \<and> sh_lock (im_shared s') = sh_lock (cs_shared s)
           \<and> (\<forall>q < sh_next (cs_shared s). im_heap s' q = sh_heap (cs_shared s) q)) (out, t)"
    using import_value_graph [OF ready(1) assms(2,3) ready(3), of rt] unfolding run
    by (rule xs_ok_mono) (use ready(2) in simp_all)
  then obtain p where p: "out = Ret p" and g: "graph_of rt P t v p" and wf: "heap_wf (im_shared t)"
    and same: "sh_lock (im_shared t) = sh_lock (cs_shared s)" "\<forall>q < sh_next (cs_shared s). im_heap t q = sh_heap (cs_shared s) q"
    by (cases out) auto
  obtain n where n: "im_heap t p = Some n" using graph_of_live(1) [OF g] by blast
  have "sh_next (cs_shared s) \<le> sh_next (im_shared t)"
  proof (rule ccontr)
    assume "\<not> ?thesis"
    then have lt: "sh_next (im_shared t) < sh_next (cs_shared s)" by simp
    moreover have "0 < sh_next (im_shared t)" using wf by (simp add: heap_wf_def)
    ultimately obtain m where "sh_heap (cs_shared s) (sh_next (im_shared t)) = Some m"
      using heap_wf_node [OF assms(3)] by blast
    then show False using same(2) lt heap_wfD(2) [OF wf, of "sh_next (im_shared t)"] by simp
  qed
  then show ?thesis using run p wf same n heap_wfD(1,2) [OF wf n] graph_of_live(2) [OF g]
    by (auto simp: import_top_def)
qed

lemma import_run:
  assumes "shareable rt pl i s v" and "store_ready fuel rt (cs_store s i)" and "heap_wf (cs_shared s)"
  shows "\<exists>p s'. go_channel_import_value fuel rt pl i v s = (Ret p, s') \<and> framed i s s' \<and> heap_wf (cs_shared s')
     \<and> 0 < p \<and> p < sh_next (cs_shared s') \<and> old_nodes s s'
     \<and> (pl_proxy pl i v = Returned [SV_Undef] \<and> \<not> SvROK v \<longrightarrow> sh_heap (cs_shared s') p = Some (scalar_node rt v))"
proof -
  obtain w where w: "pl_proxy pl i v = Returned [w]" "proxy_node rt w < sh_next (cs_shared s)" and closed: "sv_closed (cs_store s i) v"
    using assms(1) by (auto simp: shareable_def)
  obtain s1 where run1: "shared_proxy_node_from_sv rt pl i v s = (Ret (proxy_node rt w), s1)"
    and f1: "framed i s s1" and same1: "cs_shared s1 = cs_shared s" using proxy_run [OF w(1)] by blast
  show ?thesis
  proof (cases "proxy_node rt w = 0")
    case False
    then have "go_channel_import_value fuel rt pl i v s = (Ret (proxy_node rt w), s1)"
      by (simp add: go_channel_import_value_def xs_bind_Ret [where m = "shared_proxy_node_from_sv rt pl i v", OF run1] xs_simps)
    moreover have "w \<noteq> SV_Undef" using False by (auto simp: proxy_node_def)
    ultimately show ?thesis using f1 same1 False w assms(3) by (auto simp: old_nodes_def)
  next
    case True
    let ?h = "(cs_shared s1)\<lparr>sh_lock := sh_lock (cs_shared s1) + 1\<rparr>"
    let ?s2 = "s1\<lparr>cs_shared := ?h\<rparr>"
    have store: "cs_store ?s2 i = cs_store s i" using f1 by (simp add: framed_def)
    have wf: "heap_wf (cs_shared ?s2)" using assms(3) same1 by simp
    obtain p h where imp: "import_top fuel rt (cs_store ?s2 i) v ?s2 = (Ret p, ?s2\<lparr>cs_shared := h\<rparr>)"
      and h: "heap_wf h" "0 < p" "p < sh_next h" "sh_lock h = sh_lock (cs_shared ?s2)" "sh_next (cs_shared ?s2) \<le> sh_next h"
        "\<forall>q < sh_next (cs_shared ?s2). sh_heap h q = sh_heap (cs_shared ?s2) q" "\<not> SvROK v \<longrightarrow> sh_heap h p = Some (scalar_node rt v)"
      using import_top_run [where s = ?s2 and P = "cs_store ?s2 i" and v = v and fuel = fuel and rt = rt] assms(2) closed wf
      unfolding store by blast
    let ?s' = "s1\<lparr>cs_shared := h\<lparr>sh_lock := sh_lock h - 1\<rparr>\<rparr>"
    have "go_channel_import_value fuel rt pl i v s = (Ret p, ?s')"
      using imp unfolding go_channel_import_value_def xs_bind_Ret [where m = "shared_proxy_node_from_sv rt pl i v", OF run1]
      by (simp add: True on_heap_def shared_lock_def shared_unlock_def xs_simps xs_bind_def xs_then_def)
    moreover have "framed i s ?s'" using f1 same1 h(4,5) by (auto simp: framed_def call_kept_def)
    ultimately show ?thesis using h same1 by (auto simp: old_nodes_def)
  qed
qed


subsection \<open>Lists of arguments and results\<close>

definition plain_value :: "'nv perl_code \<Rightarrow> nat \<Rightarrow> 'nv perl_sv \<Rightarrow> bool" where
  "plain_value pl i v \<longleftrightarrow> pl_proxy pl i v = Returned [SV_Undef] \<and> \<not> SvROK v"

definition node_for :: "'nv perl_rt \<Rightarrow> 'nv perl_code \<Rightarrow> nat \<Rightarrow> 'nv shared_state \<Rightarrow> 'nv perl_sv \<Rightarrow> ptr \<Rightarrow> bool" where
  "node_for rt pl i h v p \<longleftrightarrow> 0 < p \<and> p < sh_next h \<and> (plain_value pl i v \<longrightarrow> sh_heap h p = Some (scalar_node rt v))"

lemma node_for_later:
  assumes "list_all2 (node_for rt pl i (cs_shared s)) vs ps" and "old_nodes s s'" and "framed i s s'"
  shows "list_all2 (node_for rt pl i (cs_shared s')) vs ps"
  using assms(1) by (rule list_all2_mono) (use assms(2,3) in \<open>auto simp: node_for_def old_nodes_def framed_def\<close>)

lemma old_nodes_trans: "old_nodes s t \<Longrightarrow> old_nodes t u \<Longrightarrow> framed i s t \<Longrightarrow> old_nodes s u"
  by (auto simp: old_nodes_def framed_def)

lemma marshal_run:
  assumes "\<forall>k\<in>set ks. k \<le> st_sp (cs_stack s i) \<and> shareable rt pl i s (st_slots (cs_stack s i) k)"
    and "store_ready fuel rt (cs_store s i)" and "heap_wf (cs_shared s)"
  shows "\<exists>ps s'. marshal_args fuel rt pl i ks s = (Ret ps, s') \<and> framed i s s' \<and> heap_wf (cs_shared s') \<and> old_nodes s s'
     \<and> list_all2 (node_for rt pl i (cs_shared s')) (map (st_slots (cs_stack s i)) ks) ps"
  using assms
proof (induction ks arbitrary: s)
  case Nil
  then show ?case by (simp add: xs_simps old_nodes_def)
next
  case (Cons k ks)
  let ?v = "st_slots (cs_stack s i) k"
  obtain p s1 where run: "go_channel_import_value fuel rt pl i ?v s = (Ret p, s1)" and f1: "framed i s s1"
    and wf1: "heap_wf (cs_shared s1)" and p: "0 < p" "p < sh_next (cs_shared s1)" and old1: "old_nodes s s1"
    and pv: "pl_proxy pl i ?v = Returned [SV_Undef] \<and> \<not> SvROK ?v \<longrightarrow> sh_heap (cs_shared s1) p = Some (scalar_node rt ?v)"
    using import_run [of rt pl i s ?v fuel] Cons.prems by auto
  have same: "\<And>j. j \<le> st_sp (cs_stack s i) \<Longrightarrow> st_slots (cs_stack s1 i) j = st_slots (cs_stack s i) j"
    and sp: "st_sp (cs_stack s1 i) = st_sp (cs_stack s i)" "cs_store s1 = cs_store s"
    using f1 by (simp_all add: framed_def stack_kept_def)
  have "\<forall>k\<in>set ks. k \<le> st_sp (cs_stack s1 i) \<and> shareable rt pl i s1 (st_slots (cs_stack s1 i) k)"
    using Cons.prems(1) same sp shareable_framed [OF f1] by auto
  from Cons.IH [OF this] obtain ps s' where rest: "marshal_args fuel rt pl i ks s1 = (Ret ps, s')" "framed i s1 s'"
    "heap_wf (cs_shared s')" "old_nodes s1 s'" "list_all2 (node_for rt pl i (cs_shared s')) (map (st_slots (cs_stack s1 i)) ks) ps"
    using wf1 sp Cons.prems(2) by auto
  have slots: "map (st_slots (cs_stack s1 i)) ks = map (st_slots (cs_stack s i)) ks" using same Cons.prems(1) by simp
  have "list_all2 (node_for rt pl i (cs_shared s1)) [?v] [p]" using p pv by (simp add: node_for_def plain_value_def)
  then have "list_all2 (node_for rt pl i (cs_shared s')) [?v] [p]" using rest(4,2) by (rule node_for_later)
  then have "list_all2 (node_for rt pl i (cs_shared s')) (map (st_slots (cs_stack s i)) (k # ks)) (p # ps)"
    using rest(5) unfolding slots by simp
  moreover have "marshal_args fuel rt pl i (k # ks) s = (Ret (p # ps), s')"
    using rest(1) by (simp add: xs_bind_Ret [where m = "slot_get i k"] slot_get_def
        xs_bind_Ret [where m = "go_channel_import_value fuel rt pl i ?v", OF run] xs_simps)
  moreover have "framed i s s'" "old_nodes s s'"
    using framed_trans [OF f1 rest(2)] old_nodes_trans [OF old1 rest(4) f1] by simp_all
  ultimately show ?case using rest(3) by blast
qed

lemma slots_from_Suc: "slots_from st m (Suc (m + k)) = slots_from st m (m + k) @ [st_slots st (Suc (m + k))]"
  by (simp add: slots_from_def)

lemma pop_run:
  assumes "m + k \<le> st_sp (cs_stack s i)" and "\<forall>v\<in>set (slots_from (cs_stack s i) m (m + k)). shareable rt pl i s v"
    and "store_ready fuel rt (cs_store s i)" and "heap_wf (cs_shared s)"
  shows "\<exists>ps s'. pop_results fuel rt pl i k (m + k) s = (Ret ps, s') \<and> framed i s s' \<and> heap_wf (cs_shared s') \<and> old_nodes s s'
     \<and> list_all2 (node_for rt pl i (cs_shared s')) (slots_from (cs_stack s i) m (m + k)) ps"
  using assms
proof (induction k arbitrary: s)
  case 0
  then show ?case by (simp add: xs_simps old_nodes_def slots_from_def)
next
  case (Suc k)
  let ?v = "st_slots (cs_stack s i) (Suc (m + k))"
  have slots: "slots_from (cs_stack s i) m (m + Suc k) = slots_from (cs_stack s i) m (m + k) @ [?v]"
    by (simp add: slots_from_Suc)
  obtain p s1 where run: "go_channel_import_value fuel rt pl i ?v s = (Ret p, s1)" and f1: "framed i s s1"
    and wf1: "heap_wf (cs_shared s1)" and p: "0 < p" "p < sh_next (cs_shared s1)" and old1: "old_nodes s s1"
    and pv: "pl_proxy pl i ?v = Returned [SV_Undef] \<and> \<not> SvROK ?v \<longrightarrow> sh_heap (cs_shared s1) p = Some (scalar_node rt ?v)"
    using import_run [of rt pl i s ?v fuel] Suc.prems slots by auto
  have same: "slots_from (cs_stack s1 i) m (m + k) = slots_from (cs_stack s i) m (m + k)"
    and sp: "st_sp (cs_stack s1 i) = st_sp (cs_stack s i)" "cs_store s1 = cs_store s"
    using f1 Suc.prems(1) by (auto simp: framed_def stack_kept_def slots_from_def)
  have "m + k \<le> st_sp (cs_stack s1 i)" using Suc.prems(1) sp by simp
  moreover have "\<forall>v\<in>set (slots_from (cs_stack s1 i) m (m + k)). shareable rt pl i s1 v"
    using Suc.prems(2) slots same shareable_framed [OF f1] by auto
  ultimately obtain ps s' where rest: "pop_results fuel rt pl i k (m + k) s1 = (Ret ps, s')" "framed i s1 s'"
    "heap_wf (cs_shared s')" "old_nodes s1 s'" "list_all2 (node_for rt pl i (cs_shared s')) (slots_from (cs_stack s1 i) m (m + k)) ps"
    using Suc.IH [of s1] wf1 sp Suc.prems(3) by auto
  have "list_all2 (node_for rt pl i (cs_shared s1)) [?v] [p]" using p pv by (simp add: node_for_def plain_value_def)
  then have "list_all2 (node_for rt pl i (cs_shared s')) [?v] [p]" using rest(4,2) by (rule node_for_later)
  then have "list_all2 (node_for rt pl i (cs_shared s')) (slots_from (cs_stack s i) m (m + Suc k)) (ps @ [p])"
    using rest(5) same slots list_all2_appendI by metis
  moreover have "pop_results fuel rt pl i (Suc k) (m + Suc k) s = (Ret (ps @ [p]), s')"
    using rest(1) by (simp add: xs_bind_Ret [where m = "slot_get i (Suc (m + k))"] slot_get_def
        xs_bind_Ret [where m = "go_channel_import_value fuel rt pl i ?v", OF run] xs_simps)
  moreover have "framed i s s'" "old_nodes s s'"
    using framed_trans [OF f1 rest(2)] old_nodes_trans [OF old1 rest(4) f1] by simp_all
  ultimately show ?case using rest(3) by blast
qed


subsection \<open>The private interpreter\<close>

definition out_blocks :: "invoke_out \<Rightarrow> call_block multiset" where
  "out_blocks out = (if fst out = None then {#} else {#Block_Results#}) + (if snd out = None then {#} else {#Block_Error#})"

definition out_ok :: "'nv perl_rt \<Rightarrow> 'nv perl_code \<Rightarrow> nat \<Rightarrow> 'nv shared_state \<Rightarrow> gimme \<Rightarrow> string \<Rightarrow> 'nv perl_sv list \<Rightarrow> invoke_out \<Rightarrow> bool" where
  "out_ok rt pl c h g err vals out \<longleftrightarrow>
     (if err_true err then out = (None, Some err)
      else if g \<noteq> G_VOID \<and> vals \<noteq> [] then snd out = None \<and>
        (case fst out of None \<Rightarrow> False | Some ps \<Rightarrow> list_all2 (node_for rt pl c h) vals ps)
      else out = (None, None))"

lemma acquire_block_run: "acquire_block b s = (Ret (), s\<lparr>cs_live := add_mset b (cs_live s)\<rparr>)"
  by (simp add: acquire_block_def xs_modify_def)

lemma take_results_run:
  assumes "st_sp (cs_stack s c) = mark + length vals" and "slots_from (cs_stack s c) mark (mark + length vals) = vals"
    and "\<forall>v\<in>set vals. shareable rt pl c s v" and "store_ready fuel rt (cs_store s c)" and "heap_wf (cs_shared s)"
  shows "\<exists>sp out s'. take_results fuel rt pl c g msg (length vals) s = (Ret (sp, out), s') \<and> heap_wf (cs_shared s')
     \<and> mark \<le> sp \<and> framed c s (s'\<lparr>cs_live := cs_live s\<rparr>) \<and> cs_live s' = cs_live s + out_blocks out
     \<and> out_ok rt pl c (cs_shared s') g (cs_err s c) vals out"
proof -
  have alloc: "rt_alloc rt b" for b using assms(4) by (auto simp: store_ready_def smooth_def)
  show ?thesis
  proof (cases "err_true (cs_err s c)")
    case True
    let ?s' = "s\<lparr>cs_live := add_mset Block_Error (cs_live s), cs_err := (cs_err s)(c := [])\<rparr>"
    have "take_results fuel rt pl c g msg (length vals) s = (Ret (st_sp (cs_stack s c), None, Some (cs_err s c)), ?s')"
      using True by (simp add: take_results_def perl_sp_def err_sv_def err_clear_def acquire_block_def alloc xs_simps)
    moreover have "framed c s (?s'\<lparr>cs_live := cs_live s\<rparr>)" by (simp add: framed_def call_kept_def)
    ultimately show ?thesis using True assms(1,5)
      by (intro exI [of _ "st_sp (cs_stack s c)"] exI [of _ "(None, Some (cs_err s c))"] exI [of _ ?s'])
        (simp add: out_blocks_def out_ok_def)
  next
    case no_err: False
    show ?thesis
    proof (cases "g \<noteq> G_VOID \<and> vals \<noteq> []")
      case True
      let ?s1 = "s\<lparr>cs_live := add_mset Block_Results (cs_live s)\<rparr>"
      have "mark + length vals \<le> st_sp (cs_stack ?s1 c)" using assms(1) by simp
      moreover have "\<forall>v\<in>set (slots_from (cs_stack ?s1 c) mark (mark + length vals)). shareable rt pl c ?s1 v"
        using assms(2,3) by (simp add: shareable_def)
      ultimately obtain ps s' where pop: "pop_results fuel rt pl c (length vals) (mark + length vals) ?s1 = (Ret ps, s')"
        and f: "framed c ?s1 s'" and wf: "heap_wf (cs_shared s')"
        and ps: "list_all2 (node_for rt pl c (cs_shared s')) vals ps"
        using pop_run [of mark "length vals" ?s1 c rt pl fuel] assms(2,4,5) by auto
      have "take_results fuel rt pl c g msg (length vals) s = (Ret (mark, Some ps, None), s')"
        using True no_err pop by (simp add: take_results_def perl_sp_def err_sv_def acquire_block_def alloc assms(1) xs_simps)
      moreover have "framed c s (s'\<lparr>cs_live := cs_live s\<rparr>)" and "cs_live s' = add_mset Block_Results (cs_live s)"
        using f by (simp_all add: framed_def call_kept_def)
      ultimately show ?thesis using True no_err wf ps
        by (intro exI [of _ mark] exI [of _ "(Some ps, None)"] exI [of _ s']) (simp add: out_blocks_def out_ok_def)
    next
      case False
      then have "take_results fuel rt pl c g msg (length vals) s = (Ret (st_sp (cs_stack s c), None, None), s)"
        using no_err by (auto simp: take_results_def perl_sp_def err_sv_def xs_simps)
      then show ?thesis using False no_err assms(1,5)
        by (intro exI [of _ "st_sp (cs_stack s c)"] exI [of _ "(None, None)"] exI [of _ s])
          (auto simp: out_blocks_def out_ok_def)
    qed
  qed
qed

text \<open>What is asked of the Perl code that runs in the private interpreter: it may do anything to the
  graph and to its own data, but leaves the native state as it found it, keeps the graph well
  formed, and what it returns can be shared.\<close>

definition sub_ok :: "nat \<Rightarrow> 'nv perl_rt \<Rightarrow> 'nv perl_code \<Rightarrow> nat
    \<Rightarrow> (gimme \<Rightarrow> 'nv perl_sv list \<Rightarrow> 'nv call_state \<Rightarrow> 'nv answer \<times> 'nv call_state) \<Rightarrow> bool" where
  "sub_ok fuel rt pl c sub \<longleftrightarrow> (\<forall>g argv s a s'. sub g argv s = (a, s') \<longrightarrow> heap_wf (cs_shared s) \<longrightarrow> store_ready fuel rt (cs_store s c) \<longrightarrow>
     call_kept s s' \<and> heap_grown (cs_shared s) (cs_shared s') \<and> (\<forall>j. stack_kept (cs_stack s j) (cs_stack s' j))
   \<and> store_ready fuel rt (cs_store s' c) \<and> (\<forall>v\<in>set (answer_values g a). shareable rt pl c s' v))"

lemma after_call_slots: "slots_from (after_call scratch mark vs st) mark (mark + length vs) = vs"
  by (rule slots_from_eq) (simp add: after_call_def)


text \<open>The state in which the arguments are pushed.\<close>

definition call_entered :: "nat \<Rightarrow> 'nv call_state \<Rightarrow> 'nv call_state" where
  "call_entered c s = s\<lparr>cs_lock := (cs_lock s)(c := cs_lock s c + 1), cs_context := c, cs_locals := Suc (cs_locals s),
     cs_tls := (case cs_tls s of None \<Rightarrow> Some (Ctl_Local (cs_locals s)) | Some r \<Rightarrow> Some r), cs_runops := insert c (cs_runops s)\<rparr>"

text \<open>The state after the call, when everything is given back but what \<open>out\<close> holds.\<close>

definition call_over :: "nat \<Rightarrow> invoke_out \<Rightarrow> 'nv call_state \<Rightarrow> 'nv call_state \<Rightarrow> bool" where
  "call_over c out s s' \<longleftrightarrow> call_kept (s\<lparr>cs_context := c, cs_live := cs_live s + out_blocks out\<rparr>) s'
     \<and> heap_wf (cs_shared s') \<and> (\<forall>j. j \<noteq> c \<longrightarrow> stack_kept (cs_stack s j) (cs_stack s' j))"

text \<open>What the callback sees: the values of the nodes, unless a later one took a call.\<close>

definition argv_ok :: "'nv shared_state \<Rightarrow> 'nv perl_sv list \<Rightarrow> ptr list \<Rightarrow> 'nv perl_sv list \<Rightarrow> 'nv perl_sv list \<Rightarrow> bool" where
  "argv_ok h first ps vs argv \<longleftrightarrow> length argv = length first + length ps
     \<and> (\<forall>k < length ps. no_call_after h ps k \<longrightarrow> argv ! (length first + k) = vs ! k)
     \<and> (\<forall>k < length first. (\<forall>p\<in>set ps. \<not> by_call h p) \<longrightarrow> argv ! k = first ! k)
     \<and> (\<forall>j. last_call h ps j \<longrightarrow> argv ! 0 = vs ! j)"

lemma argv_plain:
  assumes "argv_ok h first ps vs argv" and "length vs = length ps" and "\<forall>p\<in>set ps. \<not> by_call h p"
  shows "argv = first @ vs"
proof (rule nth_equalityI)
  show "length argv = length (first @ vs)" using assms by (simp add: argv_ok_def)
  fix k
  assume k: "k < length argv"
  show "argv ! k = (first @ vs) ! k"
  proof (cases "k < length first")
    case True
    then show ?thesis using assms by (simp add: argv_ok_def nth_append)
  next
    case False
    then have "k - length first < length ps" using k assms(1) by (simp add: argv_ok_def)
    moreover have "no_call_after h ps (k - length first)" using assms(3) by (simp add: no_call_after_def)
    ultimately have "argv ! (length first + (k - length first)) = vs ! (k - length first)"
      using assms(1) unfolding argv_ok_def by blast
    then show ?thesis using False by (simp add: nth_append)
  qed
qed

lemma invoke_run:
  assumes sub: "sub_ok fuel rt pl c sub" and wf: "heap_wf (cs_shared s)" and ready: "store_ready fuel rt (cs_store s c)"
    and vals: "list_all2 (node_value rt pl c (cs_shared s)) args vs"
  shows "\<exists>argv s2 a s3 out s'. argv_ok (cs_shared s) first args vs argv \<and> cs_shared s2 = cs_shared s \<and> sub g argv s2 = (a, s3)
     \<and> invoke_in_clone fuel rt pl msg sub c g first args s = (Ret out, s')
     \<and> call_over c out s s' \<and> out_ok rt pl c (cs_shared s') g (answer_error a) (answer_values g a) out"
proof -
  let ?s1 = "call_entered c s" and ?mark = "st_sp (cs_stack s c)"
  have "list_all2 (node_value rt pl c (cs_shared ?s1)) args vs" and "?mark = st_sp (cs_stack ?s1 c)"
    using vals by (simp_all add: call_entered_def)
  from push_arguments_run [OF this, of first] obtain argv s2
    where push: "push_arguments rt pl c first args ?s1 = (Ret (?mark, argv), s2)"
    and argv: "argv_ok (cs_shared s) first args vs argv"
    and s2: "cs_shared s2 = cs_shared s" "cs_store s2 = cs_store s" "\<forall>j. j \<noteq> c \<longrightarrow> cs_stack s2 j = cs_stack s j"
      "call_kept (?s1\<lparr>cs_scope := (cs_scope s)(c := cs_scope s c + 1)\<rparr>) s2"
    by (auto simp: argv_ok_def call_entered_def)
  obtain a s3 where call: "sub g argv s2 = (a, s3)" by fastforce
  have after: "call_kept s2 s3" "heap_wf (cs_shared s3)" "\<And>j. stack_kept (cs_stack s2 j) (cs_stack s3 j)"
      "store_ready fuel rt (cs_store s3 c)" "\<forall>v\<in>set (answer_values g a). shareable rt pl c s3 v"
    using sub call s2(1,2) wf ready unfolding sub_ok_def heap_grown_def by auto
  let ?vals = "answer_values g a"
  define s4 where "s4 = s3\<lparr>cs_stack := (cs_stack s3)(c := after_call (pl_scratch pl c) ?mark ?vals (cs_stack s3 c)),
     cs_err := (cs_err s3)(c := answer_error a)\<rparr>"
  have "st_sp (cs_stack s4 c) = ?mark + length ?vals" and "slots_from (cs_stack s4 c) ?mark (?mark + length ?vals) = ?vals"
    and "\<forall>v\<in>set ?vals. shareable rt pl c s4 v" and "store_ready fuel rt (cs_store s4 c)" and "heap_wf (cs_shared s4)"
    using after(2,4,5) by (simp_all add: s4_def after_call_slots shareable_def) (simp add: after_call_def)
  from take_results_run [OF this, of g msg] obtain sp out s5
    where take: "take_results fuel rt pl c g msg (length ?vals) s4 = (Ret (sp, out), s5)" and wf5: "heap_wf (cs_shared s5)"
    and f5: "framed c s4 (s5\<lparr>cs_live := cs_live s4\<rparr>)" and live: "cs_live s5 = cs_live s4 + out_blocks out"
    and ok: "out_ok rt pl c (cs_shared s5) g (cs_err s4 c) ?vals out" by blast
  define s6 where "s6 = s5\<lparr>cs_stack := (cs_stack s5)(c := (cs_stack s5 c)\<lparr>st_sp := sp\<rparr>),
     cs_scope := (cs_scope s5)(c := cs_scope s5 c - 1), cs_tls := cs_tls s, cs_locals := cs_locals s5 - 1,
     cs_lock := (cs_lock s5)(c := cs_lock s5 c - 1)\<rparr>"
  define t1 where "t1 = s\<lparr>cs_lock := (cs_lock s)(c := cs_lock s c + 1)\<rparr>"
  define t2 where "t2 = t1\<lparr>cs_context := c\<rparr>"
  define e1 where "e1 = s5\<lparr>cs_stack := (cs_stack s5)(c := (cs_stack s5 c)\<lparr>st_sp := sp\<rparr>)\<rparr>"
  define e2 where "e2 = e1\<lparr>cs_scope := (cs_scope e1)(c := cs_scope e1 c - 1)\<rparr>"
  define e3 where "e3 = e2\<lparr>cs_tls := cs_tls s, cs_locals := cs_locals e2 - 1\<rparr>"
  have enter: "state_lock c s = (Ret (), t1)" "set_context c t1 = (Ret (), t2)" "local_control c t2 = (Ret (cs_tls s), ?s1)"
    by (simp_all add: state_lock_def set_context_def local_control_def xs_modify_def t1_def t2_def call_entered_def split: option.split)
  have ended: "call_end pl c ?mark g a s3 = (Ret (length ?vals), s4)" by (simp add: call_end_def xs_simps s4_def)
  have leave: "put_back c sp s5 = (Ret (), e1)" "perl_leave c e1 = (Ret (), e2)" "drop_control (cs_tls s) e2 = (Ret (), e3)"
    "state_unlock c e3 = (Ret (), s6)"
    by (simp_all add: put_back_def perl_leave_def drop_control_def state_unlock_def xs_modify_def e1_def e2_def e3_def s6_def)
  have run: "invoke_in_clone fuel rt pl msg sub c g first args s = (Ret out, s6)"
    by (simp add: invoke_in_clone_def enter xs_simps push call ended take leave)
  have "call_kept (s\<lparr>cs_context := c, cs_live := cs_live s + out_blocks out\<rparr>) s6"
    using s2(4) after(1) f5 live by (auto simp: call_kept_def framed_def s4_def s6_def call_entered_def fun_eq_iff)
  moreover have "stack_kept (cs_stack s j) (cs_stack s6 j)" if "j \<noteq> c" for j
    using that s2(3) after(3) [of j] f5 by (simp add: framed_def s4_def s6_def)
  ultimately have "call_over c out s s6" using wf5 by (simp add: call_over_def s6_def)
  moreover have "out_ok rt pl c (cs_shared s6) g (answer_error a) ?vals out" using ok by (simp add: s4_def s6_def)
  ultimately show ?thesis using argv s2(1) call run by blast
qed


subsection \<open>The whole call\<close>

text \<open>The helper makes a value of every container without changing the graph.\<close>

definition values_ok :: "'nv perl_code \<Rightarrow> nat \<Rightarrow> bool" where
  "values_ok pl i \<longleftrightarrow> (\<forall>h p n. sh_heap h p = Some n \<and> \<not> plain_type (n_type n) \<longrightarrow> (\<exists>v. pl_value pl i p h = (Returned [v], h)))"

lemma node_value_ex:
  assumes "values_ok pl i" and "heap_wf h" and "p < sh_next h"
  shows "\<exists>v. node_value rt pl i h p v"
proof (cases "p = 0")
  case False
  then obtain n where "sh_heap h p = Some n" using heap_wf_node [OF assms(2) _ assms(3)] by blast
  show ?thesis
  proof (cases "plain_type (n_type n)")
    case True
    then obtain x where "copy_scalar rt n = Some x" using plain_type_copy by blast
    then show ?thesis using False \<open>sh_heap h p = Some n\<close> True
      by (auto simp: node_value_def simp del: copy_scalar.simps intro!: exI [of _ "SV_Scalar x"])
  next
    case cont: False
    then obtain v where "pl_value pl i p h = (Returned [v], h)"
      using assms(1) \<open>sh_heap h p = Some n\<close> unfolding values_ok_def by blast
    then show ?thesis using False \<open>sh_heap h p = Some n\<close> cont by (auto simp: node_value_def)
  qed
qed (simp add: node_value_def)

lemma node_values_ex:
  assumes "values_ok pl i" and "heap_wf h" and "list_all2 (node_for rt pl j h) us ps"
  shows "\<exists>vs. list_all2 (node_value rt pl i h) ps vs"
  using assms(3)
proof (induction rule: list_all2_induct)
  case (Cons u us p ps)
  then obtain v where "node_value rt pl i h p v" using node_value_ex [OF assms(1,2)] by (auto simp: node_for_def)
  then show ?case using Cons.IH by (auto simp: list_all2_Cons1)
qed simp

text \<open>What the XSUB leaves its caller, \<open>n\<close> being the number of its own arguments.\<close>

definition answer_ok :: "'nv shared_state \<Rightarrow> nat \<Rightarrow> gimme \<Rightarrow> 'nv perl_sv list \<Rightarrow> ptr list \<Rightarrow> 'nv perl_sv list \<Rightarrow> bool" where
  "answer_ok h n g rs ps ws \<longleftrightarrow> (if g = G_VOID then rs = [] else length rs = length ps
     \<and> (\<forall>k < length ps. k < n \<or> no_call_after h ps k \<longrightarrow> rs ! k = ws ! k))"

definition out_nodes :: "invoke_out \<Rightarrow> ptr list" where
  "out_nodes out = (case fst out of Some ps \<Rightarrow> ps | None \<Rightarrow> [])"

definition call_result :: "'nv perl_rt \<Rightarrow> 'nv perl_code \<Rightarrow> nat \<Rightarrow> 'nv shared_state \<Rightarrow> nat \<Rightarrow> gimme \<Rightarrow> invoke_out
    \<Rightarrow> 'nv perl_sv list outcome \<Rightarrow> bool" where
  "call_result rt pl i h n g out res \<longleftrightarrow> (case snd out of Some msg \<Rightarrow> res = Croak (c_str msg)
     | None \<Rightarrow> \<exists>rs ws. res = Ret rs \<and> list_all2 (node_value rt pl i h) (out_nodes out) ws \<and> answer_ok h n g rs (out_nodes out) ws)"

lemma free_block_run: "b \<in># cs_live s \<Longrightarrow> free_block b s = (Ret (), s\<lparr>cs_live := cs_live s - {#b#}\<rparr>)"
  by (simp add: free_block_def)

definition give_back :: "nat \<Rightarrow> nat \<Rightarrow> nat \<Rightarrow> gimme \<Rightarrow> 'nv perl_rt \<Rightarrow> 'nv perl_code \<Rightarrow> invoke_out
    \<Rightarrow> ('nv call_state, 'nv perl_sv list) xs" where
  "give_back i mark argc g rt pl out =
     xs_then (if argc = 0 then xs_return () else free_block Block_Args)
         (xs_then (set_context i)
           (case snd out of
              Some msg \<Rightarrow> xs_then (free_block Block_Error) (xs_then (free_results out) (xs_croak (c_str msg)))
            | None \<Rightarrow>
                xs_bind (if g \<noteq> G_VOID
                         then push_nodes rt pl i mark (case fst out of Some ps \<Rightarrow> ps | None \<Rightarrow> [])
                         else xs_return mark) (\<lambda>sp.
                xs_then (free_results out)
               (xs_then (put_back i sp)
               (xs_bind xs_get (\<lambda>s. xs_return (slots_from (cs_stack s i) mark sp)))))))"

lemma give_back_run:
  assumes "list_all2 (node_value rt pl i (cs_shared s)) (out_nodes out) ws"
    and live: "cs_live s = (L + out_blocks out) + (if argc = 0 then {#} else {#Block_Args#})"
    and mark: "mark + n = st_sp (cs_stack s i)"
  shows "\<exists>res s'. give_back i mark argc g rt pl out s = (res, s') \<and> call_kept (s\<lparr>cs_context := i, cs_live := L\<rparr>) s'
     \<and> cs_shared s' = cs_shared s \<and> call_result rt pl i (cs_shared s) n g out res"
proof -
  let ?s1 = "s\<lparr>cs_live := L + out_blocks out\<rparr>" and ?s2 = "s\<lparr>cs_live := L + out_blocks out, cs_context := i\<rparr>"
  have free: "(if argc = 0 then xs_return () else free_block Block_Args) s = (Ret (), ?s1)"
    using live by (simp add: free_block_run xs_simps)
  have ctx: "set_context i ?s1 = (Ret (), ?s2)" by (simp add: set_context_def xs_modify_def)
  show ?thesis
  proof (cases "snd out")
    case (Some msg)
    then have "give_back i mark argc g rt pl out s = (Croak (c_str msg), s\<lparr>cs_live := L, cs_context := i\<rparr>)"
      unfolding give_back_def xs_then_Ret [where m = "if argc = 0 then xs_return () else free_block Block_Args", OF free]
        xs_then_Ret [where m = "set_context i", OF ctx]
      by (simp add: free_results_def free_block_run xs_then_Ret [where m = "free_block b" for b] out_blocks_def xs_simps)
    then show ?thesis using Some by (simp add: call_kept_def call_result_def)
  next
    case None
    define s3 where "s3 = ?s2"
    obtain sp s4 where push: "(if g \<noteq> G_VOID then push_nodes rt pl i mark (out_nodes out) else xs_return mark) s3 = (Ret sp, s4)"
      and f: "framed_off i s3 s4" "cs_shared s4 = cs_shared s"
      and rs: "answer_ok (cs_shared s) n g (slots_from (cs_stack s4 i) mark sp) (out_nodes out) ws"
    proof (cases "g = G_VOID")
      case True
      then show thesis using that [of mark s3]
        by (simp add: xs_simps framed_framed_off s3_def answer_ok_def slots_from_def)
    next
      case False
      have "list_all2 (node_value rt pl i (cs_shared s3)) (out_nodes out) ws" using assms(1) by (simp add: s3_def)
      from push_nodes_run [OF this, of mark] obtain s4
        where run: "push_nodes rt pl i mark (out_nodes out) s3 = (Ret (mark + length (out_nodes out)), s4)"
        and f: "framed_off i s3 s4" "cs_shared s4 = cs_shared s3"
        and ok: "pushed_ok (cs_shared s3) (st_sp (cs_stack s3 i)) mark (out_nodes out) ws (st_slots (cs_stack s3 i)) (st_slots (cs_stack s4 i))"
        by blast
      have "answer_ok (cs_shared s) n g (slots_from (cs_stack s4 i) mark (mark + length (out_nodes out))) (out_nodes out) ws"
        using ok False by (simp add: answer_ok_def slots_from_nth pushed_ok_def mark [symmetric] s3_def)
      then show thesis using that [of "mark + length (out_nodes out)" s4] run f False by (simp add: s3_def)
    qed
    define s5 where "s5 = s4\<lparr>cs_live := L\<rparr>"
    have "cs_live s4 = L + out_blocks out" using f(1) by (simp add: framed_off_def call_kept_def s3_def)
    then have results: "free_results out s4 = (Ret (), s5)"
      using None by (cases "fst out") (simp_all add: free_results_def out_blocks_def free_block_run xs_simps s5_def)
    define s6 where "s6 = s5\<lparr>cs_stack := (cs_stack s5)(i := (cs_stack s5 i)\<lparr>st_sp := sp\<rparr>)\<rparr>"
    have restored: "put_back i sp s5 = (Ret (), s6)" by (simp add: put_back_def xs_modify_def s6_def)
    have "slots_from (cs_stack s6 i) mark sp = slots_from (cs_stack s4 i) mark sp" by (simp add: s6_def s5_def slots_from_def)
    then have "give_back i mark argc g rt pl out s = (Ret (slots_from (cs_stack s4 i) mark sp), s6)"
      unfolding give_back_def xs_then_Ret [where m = "if argc = 0 then xs_return () else free_block Block_Args", OF free] xs_then_Ret [where m = "set_context i", OF ctx] None option.case
        out_nodes_def [symmetric] s3_def [symmetric] xs_bind_Ret [where m = "if g \<noteq> G_VOID then push_nodes rt pl i mark (out_nodes out) else xs_return mark", OF push] xs_then_Ret [where m = "free_results out", OF results]
        xs_then_Ret [where m = "put_back i sp", OF restored]
      by (simp add: xs_simps)
    moreover have "call_kept (s\<lparr>cs_context := i, cs_live := L\<rparr>) s6" using f by (simp add: framed_off_def call_kept_def s3_def s5_def s6_def)
    ultimately show ?thesis using None rs assms(1) f(2) by (auto simp: call_result_def s5_def s6_def)
  qed
qed


lemma remote_call_run:
  assumes ctx: "cs_context s = i" "c \<noteq> i" and wf: "heap_wf (cs_shared s)" and ready: "store_ready fuel rt (cs_store s i)" "store_ready fuel rt (cs_store s c)"
    and top: "st_sp (cs_stack s i) = mark + items" "skip \<le> items"
    and args: "\<forall>v\<in>set (slots_from (cs_stack s i) (mark + skip) (mark + items)). shareable rt pl i s v"
    and perl: "values_ok pl c" "values_ok pl i" "sub_ok fuel rt pl c sub"
    and invoke: "\<And>ps. invoke ps = invoke_in_clone fuel rt pl imsg sub c g first ps"
  shows "\<exists>h ps vs argv s2 a s3 out res s'.
       list_all2 (node_for rt pl i h) (slots_from (cs_stack s i) (mark + skip) (mark + items)) ps
     \<and> list_all2 (node_value rt pl c h) ps vs \<and> argv_ok h first ps vs argv \<and> sub g argv s2 = (a, s3) \<and> cs_shared s2 = h
     \<and> remote_call fuel rt pl i items skip g msg invoke s = (res, s') \<and> call_kept s s' \<and> heap_wf (cs_shared s')
     \<and> out_ok rt pl c (cs_shared s') g (answer_error a) (answer_values g a) out
     \<and> call_result rt pl i (cs_shared s') items g out res"
proof -
  let ?argc = "items - skip" and ?blk = "if items - skip = 0 then {#} else {#Block_Args#}" and ?ks = "[Suc (mark + skip)..<Suc (mark + items)]"
  have alloc: "rt_alloc rt b" for b using ready(1) by (auto simp: store_ready_def smooth_def)
  define s1 where "s1 = s\<lparr>cs_live := cs_live s + ?blk\<rparr>"
  have acquire: "(if ?argc = 0 then xs_return () else if \<not> rt_alloc rt (?argc * 8) then xs_croak msg else acquire_block Block_Args) s = (Ret (), s1)"
    by (simp add: alloc acquire_block_run xs_simps s1_def)
  have slots: "map (st_slots (cs_stack s1 i)) ?ks = slots_from (cs_stack s i) (mark + skip) (mark + items)"
    by (simp add: slots_from_def s1_def del: upt_Suc)
  have "\<forall>k\<in>set ?ks. k \<le> st_sp (cs_stack s1 i) \<and> shareable rt pl i s1 (st_slots (cs_stack s1 i) k)"
    using args top(1) by (auto simp: s1_def slots_from_def shareable_def simp del: upt_Suc)
  moreover have "store_ready fuel rt (cs_store s1 i)" "heap_wf (cs_shared s1)" using ready(1) wf by (simp_all add: s1_def)
  ultimately obtain ps t where marshal: "marshal_args fuel rt pl i ?ks s1 = (Ret ps, t)" and ft: "framed i s1 t"
    and wft: "heap_wf (cs_shared t)"
    and ps: "list_all2 (node_for rt pl i (cs_shared t)) (slots_from (cs_stack s i) (mark + skip) (mark + items)) ps"
    using marshal_run [of ?ks s1 i rt pl fuel] unfolding slots by blast
  obtain vs where vs: "list_all2 (node_value rt pl c (cs_shared t)) ps vs" using node_values_ex [OF perl(1) wft ps] by blast
  have readyt: "store_ready fuel rt (cs_store t c)" using ready(2) ft by (simp add: framed_def s1_def)
  obtain argv s2 a s3 out u where call: "argv_ok (cs_shared t) first ps vs argv" "cs_shared s2 = cs_shared t" "sub g argv s2 = (a, s3)"
    and inv: "invoke_in_clone fuel rt pl imsg sub c g first ps t = (Ret out, u)" and over: "call_over c out t u"
    and out: "out_ok rt pl c (cs_shared u) g (answer_error a) (answer_values g a) out"
    using invoke_run [OF perl(3) wft readyt vs] by blast
  have wfu: "heap_wf (cs_shared u)" using over by (simp add: call_over_def)
  obtain ws where ws: "list_all2 (node_value rt pl i (cs_shared u)) (out_nodes out) ws"
  proof (cases "fst out")
    case None
    then show thesis using that [of "[]"] by (simp add: out_nodes_def)
  next
    case (Some qs)
    then have "list_all2 (node_for rt pl c (cs_shared u)) (answer_values g a) (out_nodes out)"
      using out by (auto simp: out_ok_def out_nodes_def split: if_splits)
    then show thesis using node_values_ex [OF perl(2) wfu] that by blast
  qed
  have "cs_live u = (cs_live s + out_blocks out) + ?blk"
    using over ft by (simp add: call_over_def framed_def call_kept_def s1_def)
  moreover have "mark + items = st_sp (cs_stack u i)"
    using over ft top(1) ctx(2) by (simp add: call_over_def framed_def stack_kept_def s1_def)
  ultimately obtain res s' where restored: "give_back i mark ?argc g rt pl out u = (res, s')"
    and k: "call_kept (u\<lparr>cs_context := i, cs_live := cs_live s\<rparr>) s'" and same: "cs_shared s' = cs_shared u"
    and res: "call_result rt pl i (cs_shared u) items g out res"
    using give_back_run [OF ws, of "cs_live s" ?argc mark items g] by auto
  have sp: "perl_sp i s = (Ret (mark + items), s)" using top(1) by (simp add: perl_sp_def)
  have "remote_call fuel rt pl i items skip g msg invoke s = (res, s')"
    unfolding remote_call_def xs_bind_Ret [where m = "perl_sp i", OF sp] Let_def add_diff_cancel_right'
      xs_then_Ret [where m = "if ?argc = 0 then xs_return () else if \<not> rt_alloc rt (?argc * 8) then xs_croak msg else acquire_block Block_Args", OF acquire]
      xs_bind_Ret [where m = "marshal_args fuel rt pl i ?ks", OF marshal] invoke
      xs_bind_Ret [where m = "invoke_in_clone fuel rt pl imsg sub c g first ps", OF inv] give_back_def [symmetric]
    by (rule restored)
  moreover have "call_kept s s'" using k over ft ctx(1) by (simp add: call_kept_def call_over_def framed_def s1_def)
  ultimately show ?thesis using ps vs call out res same wfu by metis
qed


subsection \<open>Plain values\<close>

text \<open>What a value without references is on the other side.\<close>

definition sv_view :: "'nv perl_sv \<Rightarrow> 'nv perl_sv" where
  "sv_view v = SV_Scalar (case v of SV_Scalar x \<Rightarrow> shared_view x | _ \<Rightarrow> undef_scalar)"

lemma scalar_node_copy:
  assumes "\<not> SvROK v"
  shows "plain_type (n_type (scalar_node rt v))" and "copy_scalar rt' (scalar_node rt v) = Some (case v of SV_Scalar x \<Rightarrow> shared_view x | _ \<Rightarrow> undef_scalar)"
  using assms by (cases v; auto simp: plain_type_def empty_node_def shared_view_def SvPV_def SvIV_def SvNV_def split: option.split)+

lemma plain_node_value:
  assumes "node_for rt pl i h v p" and "plain_value pl i v" and "node_value rt pl j h p w"
  shows "w = sv_view v" and "\<not> by_call h p"
proof -
  have p: "0 < p" "sh_heap h p = Some (scalar_node rt v)" and v: "\<not> SvROK v"
    using assms(1,2) by (auto simp: node_for_def plain_value_def)
  show "w = sv_view v" using assms(3) p scalar_node_copy(1) [OF v, of rt] scalar_node_copy(2) [OF v, of rt rt]
    by (auto simp: node_value_def sv_view_def simp del: copy_scalar.simps scalar_node.simps)
  show "\<not> by_call h p" using p scalar_node_copy(1) [OF v] by (simp add: by_call_def del: scalar_node.simps)
qed

lemma plain_node_values:
  assumes "list_all2 (node_for rt pl i h) us ps" and "list_all2 (node_value rt pl j h) ps ws" and "\<forall>v\<in>set us. plain_value pl i v"
  shows "ws = map sv_view us" and "\<forall>p\<in>set ps. \<not> by_call h p"
  using assms
proof (induction us ps arbitrary: ws rule: list_all2_induct)
  case (Cons u us p ps)
  { case 1
    then show ?case using Cons by (auto simp: list_all2_Cons1 dest: plain_node_value(1)) }
  { case 2
    then show ?case using Cons by (auto simp: list_all2_Cons1 dest: plain_node_value(2)) }
qed simp_all

lemma plain_shareable: "plain_value pl i v \<Longrightarrow> heap_wf (cs_shared s) \<Longrightarrow> shareable rt pl i s v"
  by (cases v) (auto simp: plain_value_def shareable_def sv_closed_def proxy_node_def heap_wf_def)

text \<open>The hypotheses on the caller: the handle is a node, the arguments lie above \<open>mark\<close> in its stack.\<close>

definition calls_node :: "nat \<Rightarrow> 'nv perl_rt \<Rightarrow> nat \<Rightarrow> ptr \<Rightarrow> nat \<Rightarrow> nat \<Rightarrow> nat \<Rightarrow> 'nv call_state \<Rightarrow> bool" where
  "calls_node fuel rt i h c mark items s \<longleftrightarrow> cs_context s = i \<and> c \<noteq> i \<and> heap_wf (cs_shared s) \<and> store_ready fuel rt (cs_store s i)
     \<and> store_ready fuel rt (cs_store s c) \<and> st_sp (cs_stack s i) = mark + items \<and> 0 < items
     \<and> (\<exists>n. live (cs_shared s) h n \<and> n_type n = SHARED_CODE \<and> n_code n = Some c)"

abbreviation xs_args :: "nat \<Rightarrow> nat \<Rightarrow> nat \<Rightarrow> 'nv call_state \<Rightarrow> 'nv perl_sv list" where
  "xs_args i mark items s \<equiv> slots_from (cs_stack s i) (mark + 1) (mark + items)"

lemma code_call_run:
  assumes "calls_node fuel rt i h c mark items s" and "\<forall>v\<in>set (xs_args i mark items s). shareable rt pl i s v"
    and "values_ok pl c" "values_ok pl i" "sub_ok fuel rt pl c (pl_callback pl c)"
  shows "\<exists>h1 ps vs argv s2 a s3 out res s'.
       list_all2 (node_for rt pl i h1) (xs_args i mark items s) ps
     \<and> list_all2 (node_value rt pl c h1) ps vs \<and> argv_ok h1 [] ps vs argv \<and> pl_callback pl c g argv s2 = (a, s3) \<and> cs_shared s2 = h1
     \<and> shared_code_call fuel rt pl i h items g s = (res, s') \<and> call_kept s s' \<and> heap_wf (cs_shared s')
     \<and> out_ok rt pl c (cs_shared s') g (answer_error a) (answer_values g a) out
     \<and> call_result rt pl i (cs_shared s') items g out res"
proof -
  obtain n where n: "live (cs_shared s) h n" "n_type n = SHARED_CODE" "n_code n = Some c"
    using assms(1) by (auto simp: calls_node_def)
  let ?look = "\<lambda>p n. case n_code n of
        Some c \<Rightarrow> if n_type n = SHARED_CODE then xs_return c else unlock_croak ''shared value is not a CODE reference''
      | None \<Rightarrow> unlock_croak ''shared value is not a CODE reference''"
  have "locked h ?look (cs_shared s) = (Ret c, cs_shared s)"
    using locked_Ret [OF n(1), of ?look] n(2,3) by (simp add: xs_return_def)
  then have look: "on_heap (locked h ?look) s = (Ret c, s)" by (simp add: on_heap_def)
  have split: "shared_code_call fuel rt pl i h items g s = remote_call fuel rt pl i items 1 g
      ''out of memory marshalling shared callback arguments'' (shared_code_invoke fuel rt pl c g) s"
    unfolding shared_code_call_def xs_bind_Ret [where m = "on_heap (locked h ?look)", OF look] by (rule refl)
  show ?thesis unfolding split
    by (rule remote_call_run [OF _ _ _ _ _ _ _ _ assms(3,4,5) shared_code_invoke_def])
      (use assms(1,2) in \<open>simp_all add: calls_node_def\<close>)
qed


subsection \<open>Results, handles, failures, objects\<close>

text \<open>The results are pushed below the stack pointer as long as there are no more of them than
  arguments of the XSUB; the one behind is lost to the last container.\<close>

theorem callback_results_overwritten:
  assumes "list_all2 (node_value rt pl i (cs_shared s)) ps ws" and "st_sp (cs_stack s i) = mark + n"
    and "last_call (cs_shared s) ps j" and "n \<le> j"
  shows "\<exists>s'. push_nodes rt pl i mark ps s = (Ret (mark + length ps), s')
     \<and> slots_from (cs_stack s' i) mark (mark + length ps) ! n = ws ! j"
proof -
  have j: "j < length ps" using assms(3) by (simp add: last_call_def)
  from push_nodes_run [OF assms(1), of mark] obtain s' where
    run: "push_nodes rt pl i mark ps s = (Ret (mark + length ps), s')"
    and ok: "pushed_ok (cs_shared s) (st_sp (cs_stack s i)) mark ps ws (st_slots (cs_stack s i)) (st_slots (cs_stack s' i))" by blast
  have "st_slots (cs_stack s' i) (Suc (mark + n)) = ws ! j" using ok assms(2-4) unfolding pushed_ok_def by simp
  then show ?thesis using run j assms(4) by (simp add: slots_from_nth)
qed

text \<open>A value that cannot be made is a croak out of the call: the mutex of the callback stays locked, and
  the control of the thread is a record of a function that was left.\<close>

theorem callback_value_croak:
  assumes "sh_heap (cs_shared s) p = Some n" and "p \<noteq> 0" and "\<not> plain_type (n_type n)"
    and "pl_value pl c p (cs_shared s) = (Died m, h)" and "err_true m"
  shows "\<exists>s'. shared_code_invoke fuel rt pl c g (p # ps) s = (Croak m, s') \<and> cs_lock s' c = cs_lock s c + 1
     \<and> cs_context s' = c \<and> cs_scope s' c = cs_scope s c + 1 \<and> (cs_tls s = None \<longrightarrow> cs_tls s' = Some (Ctl_Local (cs_locals s)))"
  using assms by (simp add: shared_code_invoke_def invoke_in_clone_def push_arguments_def shared_value_for_call_def state_lock_def
      set_context_def local_control_def stack_ops node_at_def xs_simps xs_bind_def xs_then_def after_call_def)

text \<open>A call of a remote handle gives back everything, too.\<close>

theorem shared_handle_restores:
  assumes ctx: "cs_context s = i" "c \<noteq> i" and wf: "heap_wf (cs_shared s)"
    and ready: "store_ready fuel rt (cs_store s i)" "store_ready fuel rt (cs_store s c)"
    and top: "st_sp (cs_stack s i) = mark + items" "2 \<le> items"
    and handle: "live (cs_shared s) h n" "n_type n = SHARED_GLOB \<or> n_type n = SHARED_IO" "n_handle n = Some c"
    and args: "\<forall>v\<in>set (slots_from (cs_stack s i) (mark + 2) (mark + items)). shareable rt pl i s v"
    and perl: "values_ok pl c" "values_ok pl i" "sub_ok fuel rt pl c (pl_dispatch pl c)"
  shows "\<exists>argv s2 a s3 res s'. shared_handle_remote fuel rt pl i h op items g s = (res, s') \<and> call_kept s s' \<and> heap_wf (cs_shared s')
     \<and> pl_dispatch pl c g argv s2 = (a, s3) \<and> length argv = items"
proof -
  let ?look = "\<lambda>p n. case n_handle n of
        Some c \<Rightarrow> if n_type n = SHARED_GLOB \<or> n_type n = SHARED_IO then xs_return c
                  else unlock_croak ''shared filehandle has no remote PerlIO state''
      | None \<Rightarrow> unlock_croak ''shared filehandle has no remote PerlIO state''"
  have "locked h ?look (cs_shared s) = (Ret c, cs_shared s)"
    using locked_Ret [OF handle(1), of ?look] handle(2,3) by (simp add: xs_return_def)
  then have look: "on_heap (locked h ?look) s = (Ret c, s)" by (simp add: on_heap_def)
  have split: "shared_handle_remote fuel rt pl i h op items g s = remote_call fuel rt pl i items 2 g
      ''out of memory marshalling shared filehandle arguments'' (shared_handle_invoke fuel rt pl c op g) s"
    unfolding shared_handle_remote_def xs_bind_Ret [where m = "on_heap (locked h ?look)", OF look] by (rule refl)
  from remote_call_run [OF ctx wf ready top args perl shared_handle_invoke_def, of op g
      "''out of memory marshalling shared filehandle arguments''"]
  obtain h1 ps vs argv s2 a s3 res s' where nodes: "list_all2 (node_for rt pl i h1) (slots_from (cs_stack s i) (mark + 2) (mark + items)) ps"
    and argv: "argv_ok h1 [SV_Ref c, SV_Scalar (newSVpvn (c_str op))] ps vs argv" and rest: "pl_dispatch pl c g argv s2 = (a, s3)"
      "shared_handle_remote fuel rt pl i h op items g s = (res, s')" "call_kept s s'" "heap_wf (cs_shared s')"
    unfolding split by blast
  have "length argv = items" using argv list_all2_lengthD [OF nodes] top(2) by (simp add: argv_ok_def)
  then show ?thesis using rest by blast
qed

text \<open>Every field of a class object has a node of its own after the proxy was made.\<close>

lemma field_node_run:
  assumes "sh_heap h p = Some n" and "k < length (n_items n)" and "heap_wf h" and "\<not> alloc_may_fail rt"
  shows "\<exists>c h'. field_node rt p k h = (Ret c, h') \<and> heap_wf h' \<and> sh_heap h' p = Some (n\<lparr>n_items := (n_items n)[k := c]\<rparr>) \<and> c \<noteq> 0"
proof (cases "n_items n ! k = 0")
  case False
  then show ?thesis using assms(1-3) by (simp add: field_node_def node_at_def xs_bind_def xs_return_def)
next
  case True
  let ?h1 = "h\<lparr>sh_heap := (sh_heap h)(sh_next h \<mapsto> empty_node), sh_next := Suc (sh_next h)\<rparr>"
  let ?n' = "n\<lparr>n_items := (n_items n)[k := sh_next h]\<rparr>"
  have p: "p < sh_next h" "0 < sh_next h" using heap_wfD(1,2) [OF assms(3,1)] by simp_all
  have at: "sh_heap ?h1 p = Some n" using p assms(1) by simp
  have wf: "node_wf n" and ptrs: "\<forall>q\<in>node_ptrs n. q < sh_next h" using heap_wfD(3,4) [OF assms(3,1)] by simp_all
  have sub: "node_ptrs ?n' \<subseteq> insert (sh_next h) (node_ptrs n)"
    using set_update_subset_insert [of "n_items n" k "sh_next h"] by (auto simp: node_ptrs_def)
  have "q < sh_next ?h1" if "q \<in> node_ptrs ?n'" for q
    using subsetD [OF sub that] ptrs by auto
  moreover have "node_wf ?n'" using wf by (simp add: node_wf_def)
  ultimately have "node_wf ?n'" "\<forall>q\<in>node_ptrs ?n'. q < sh_next ?h1" by blast+
  then have "heap_wf (?h1\<lparr>sh_heap := (sh_heap ?h1)(p \<mapsto> ?n')\<rparr>)" by (rule heap_wf_set [OF heap_wf_new [OF assms(3)] at])
  moreover have "rt_alloc rt sizeof_shared_node" using assms(4) by blast
  then have "field_node rt p k h = (Ret (sh_next h), ?h1\<lparr>sh_heap := (sh_heap ?h1)(p \<mapsto> ?n')\<rparr>)"
    using True assms(1,2) at
    by (simp add: field_node_def shared_node_new_def array_put_def node_at_def node_set_def xs_bind_def xs_then_def xs_return_def)
  ultimately show ?thesis using p by auto
qed

lemma field_sv_run:
  assumes "pl_field pl i child = Returned [SV_Ref r]"
  shows "\<exists>s'. field_sv pl i child s = (Ret r, s') \<and> framed i s s' \<and> cs_shared s' = cs_shared s"
  by (simp add: field_sv_def assms stack_ops xs_simps xs_bind_def xs_then_def after_call_def framed_def call_kept_def stack_kept_def)

lemma object_fields_run:
  assumes "sh_heap (cs_shared s) p = Some n" and "\<forall>k\<in>set ks. k < length (n_items n)" and "heap_wf (cs_shared s)"
    and "\<not> alloc_may_fail rt" and "\<And>q. pl_field pl i q = Returned [SV_Ref (f q)]" and "distinct ks"
  shows "\<exists>s' items. object_fields rt pl i p ks s = (Ret (map (\<lambda>k. f (items ! k)) ks), s') \<and> heap_wf (cs_shared s')
     \<and> sh_heap (cs_shared s') p = Some (n\<lparr>n_items := items\<rparr>) \<and> length items = length (n_items n)
     \<and> (\<forall>k\<in>set ks. items ! k \<noteq> 0) \<and> (\<forall>k. k \<notin> set ks \<longrightarrow> items ! k = n_items n ! k)"
  using assms
proof (induction ks arbitrary: s n)
  case Nil
  then show ?case by (intro exI [of _ s] exI [of _ "n_items n"]) (simp add: xs_simps)
next
  case (Cons k ks)
  obtain c h where node: "field_node rt p k (cs_shared s) = (Ret c, h)" "heap_wf h" "c \<noteq> 0"
    and h: "sh_heap h p = Some (n\<lparr>n_items := (n_items n)[k := c]\<rparr>)"
    using field_node_run [OF Cons.prems(1) _ Cons.prems(3,4)] Cons.prems(2) by (metis list.set_intros(1))
  then have on: "on_heap (field_node rt p k) s = (Ret c, s\<lparr>cs_shared := h\<rparr>)" by (simp add: on_heap_def)
  obtain s1 where sv: "field_sv pl i c (s\<lparr>cs_shared := h\<rparr>) = (Ret (f c), s1)" and s1: "cs_shared s1 = h"
    using field_sv_run [OF Cons.prems(5), of c "s\<lparr>cs_shared := h\<rparr>"] by auto
  let ?n = "n\<lparr>n_items := (n_items n)[k := c]\<rparr>"
  obtain s' items where rest: "object_fields rt pl i p ks s1 = (Ret (map (\<lambda>k. f (items ! k)) ks), s')" "heap_wf (cs_shared s')"
    "sh_heap (cs_shared s') p = Some (?n\<lparr>n_items := items\<rparr>)" "length items = length (n_items ?n)"
    "\<forall>k\<in>set ks. items ! k \<noteq> 0" "\<forall>j. j \<notin> set ks \<longrightarrow> items ! j = n_items ?n ! j"
    using Cons.IH [of s1 ?n] Cons.prems h node(2) s1 by auto
  have k: "k \<notin> set ks" "k < length (n_items n)" using Cons.prems(2,6) by simp_all
  then have "items ! k = c" using rest(6) by simp
  then have "object_fields rt pl i p (k # ks) s = (Ret (map (\<lambda>k. f (items ! k)) (k # ks)), s')"
    using rest(1) by (simp add: xs_bind_Ret [where m = "on_heap (field_node rt p k)", OF on] xs_bind_Ret [where m = "field_sv pl i c", OF sv] xs_simps)
  moreover have "\<forall>j. j \<notin> set (k # ks) \<longrightarrow> items ! j = n_items n ! j" using rest(6) by simp
  ultimately show ?case using rest(2-5) \<open>items ! k = c\<close> node(3) by auto
qed

theorem shared_object_proxy_fields:
  assumes "sh_heap (cs_shared s) p = Some n" and "heap_wf (cs_shared s)" and "n_type n = SHARED_OBJECT"
    and "n_class n = Some cls" and "cls \<noteq> []" and "40 \<le> rt_version rt" and "\<not> alloc_may_fail rt"
    and "\<And>q. pl_field pl i q = Returned [SV_Ref (f q)]"
  shows "\<exists>s' items. shared_object_proxy rt pl i p s = (Ret (cls, map f (take (n_array_size n) items)), s') \<and> heap_wf (cs_shared s')
     \<and> sh_heap (cs_shared s') p = Some (n\<lparr>n_items := items\<rparr>) \<and> length items = length (n_items n)
     \<and> (\<forall>k < n_array_size n. items ! k \<noteq> 0)"
proof -
  have size: "n_array_size n \<le> length (n_items n)" using heap_wfD(3) [OF assms(2,1)] by (simp add: node_wf_def)
  have at: "on_heap (node_at p) s = (Ret n, s)" using assms(1) by (simp add: on_heap_def node_at_def)
  obtain s' items where run: "object_fields rt pl i p [0..<n_array_size n] s = (Ret (map (\<lambda>k. f (items ! k)) [0..<n_array_size n]), s')"
    and rest: "heap_wf (cs_shared s')" "sh_heap (cs_shared s') p = Some (n\<lparr>n_items := items\<rparr>)" "length items = length (n_items n)"
      "\<forall>k\<in>set [0..<n_array_size n]. items ! k \<noteq> 0"
    using object_fields_run [OF assms(1) _ assms(2,7,8), of "[0..<n_array_size n]"] size by auto
  have "map (\<lambda>k. f (items ! k)) [0..<n_array_size n] = map f (take (n_array_size n) items)"
    using size rest(3) by (simp add: list_eq_iff_nth_eq)
  then have "shared_object_proxy rt pl i p s = (Ret (cls, map f (take (n_array_size n) items)), s')"
    using run assms(3-6) by (simp add: shared_object_proxy_def xs_bind_Ret [where m = "on_heap (node_at p)", OF at] xs_simps)
  moreover have "\<forall>k < n_array_size n. items ! k \<noteq> 0" using rest(4) by simp
  ultimately show ?thesis using rest by blast
qed

section \<open>Properties\<close>


text \<open>C17: Calling a shared callback with plain scalars is calling the function it is: arguments and results
  arrive in order, each as the value that sharing makes of it, and the native state is as before.\<close>

theorem shared_callback_scalars:
  assumes "calls_node fuel rt i h c mark items s" and "values_ok pl c" and "values_ok pl i"
    and "sub_ok fuel rt pl c (pl_callback pl c)" and "\<forall>v\<in>set (xs_args i mark items s). plain_value pl i v"
    and "\<And>argv t. fst (pl_callback pl c G_ARRAY argv t) = Returned (f argv)"
    and "\<forall>v\<in>set (f (map sv_view (xs_args i mark items s))). plain_value pl c v"
  shows "\<exists>s'. shared_code_call fuel rt pl i h items G_ARRAY s
       = (Ret (map sv_view (f (map sv_view (xs_args i mark items s)))), s') \<and> call_kept s s'"
proof -
  have wf: "heap_wf (cs_shared s)" using assms(1) by (simp add: calls_node_def)
  have share: "\<forall>v\<in>set (xs_args i mark items s). shareable rt pl i s v" using assms(5) plain_shareable wf by blast
  from code_call_run [OF assms(1) share assms(2-4), of G_ARRAY] obtain h1 ps vs argv s2 a s3 out res s' where
    args: "list_all2 (node_for rt pl i h1) (xs_args i mark items s) ps" "list_all2 (node_value rt pl c h1) ps vs" "argv_ok h1 [] ps vs argv"
    and call: "pl_callback pl c G_ARRAY argv s2 = (a, s3)" "shared_code_call fuel rt pl i h items G_ARRAY s = (res, s')" "call_kept s s'"
    and out: "out_ok rt pl c (cs_shared s') G_ARRAY (answer_error a) (answer_values G_ARRAY a) out"
      "call_result rt pl i (cs_shared s') items G_ARRAY out res" by blast
  note seen = plain_node_values [OF args(1,2) assms(5)]
  have "length vs = length ps" using args(2) by (simp add: list_all2_lengthD)
  then have "argv = map sv_view (xs_args i mark items s)" using argv_plain [OF args(3) _ seen(2)] seen(1) by simp
  then have a: "a = Returned (f (map sv_view (xs_args i mark items s)))" using assms(6) [of argv s2] call(1) by simp
  let ?rs = "f (map sv_view (xs_args i mark items s))"
  obtain rs ws where rs: "res = Ret rs" "list_all2 (node_value rt pl i (cs_shared s')) (out_nodes out) ws"
      "answer_ok (cs_shared s') items G_ARRAY rs (out_nodes out) ws"
    and nodes: "list_all2 (node_for rt pl c (cs_shared s')) ?rs (out_nodes out)"
    using out a by (auto simp: out_ok_def call_result_def out_nodes_def split: if_splits option.splits)
  note got = plain_node_values [OF nodes rs(2) assms(7)]
  have "\<forall>k < length (out_nodes out). no_call_after (cs_shared s') (out_nodes out) k" using got(2) by (simp add: no_call_after_def)
  then have "rs = ws" using rs(2,3) by (intro nth_equalityI) (simp_all add: answer_ok_def list_all2_lengthD)
  then show ?thesis using call(2,3) rs(1) got(1) by blast
qed

text \<open>C18: The values of containers are made by calls of Perl code while the arguments already pushed lie above
  the stack pointer. When an argument after the first is a container, the callback does not see the
  first argument: in its place is the value of the last container, and only the arguments from that one on
  are right. Without such an argument the callback sees what it was given.\<close>

theorem callback_arguments_overwritten:
  assumes "list_all2 (node_value rt pl c (cs_shared s)) args vs"
  shows "\<exists>mark argv s'. push_arguments rt pl c [] args s = (Ret (mark, argv), s') \<and> length argv = length args
     \<and> ((\<forall>k. 0 < k \<and> k < length args \<longrightarrow> \<not> by_call (cs_shared s) (args ! k)) \<longrightarrow> argv = vs)
     \<and> (\<forall>j. last_call (cs_shared s) args j \<longrightarrow> argv ! 0 = vs ! j \<and> (\<forall>k. j \<le> k \<and> k < length args \<longrightarrow> argv ! k = vs ! k))"
proof -
  from push_arguments_run [OF assms refl, of "[]"] obtain argv s' where
    run: "push_arguments rt pl c [] args s = (Ret (st_sp (cs_stack s c), argv), s')" and len: "length argv = length args"
    and ok: "\<And>k. k < length args \<Longrightarrow> no_call_after (cs_shared s) args k \<Longrightarrow> argv ! k = vs ! k"
    and first: "\<And>j. last_call (cs_shared s) args j \<Longrightarrow> argv ! 0 = vs ! j" by auto
  have "argv = vs" if "\<forall>k. 0 < k \<and> k < length args \<longrightarrow> \<not> by_call (cs_shared s) (args ! k)"
    using that ok len list_all2_lengthD [OF assms] by (intro nth_equalityI) (simp_all add: no_call_after_def)
  moreover have "argv ! k = vs ! k" if "last_call (cs_shared s) args j" "j \<le> k" "k < length args" for j k
    using that ok [of k] by (auto simp: last_call_def no_call_after_def)
  ultimately show ?thesis using run len first by blast
qed


subsection \<open>A small program\<close>

text \<open>Proxies are the references from 1000 on; the callback answers the number of its arguments and
  those that are no references.\<close>

definition count_args :: "int perl_sv list \<Rightarrow> int perl_sv list" where
  "count_args argv = SV_Scalar (newSViv (of_nat (length argv))) # filter (\<lambda>v. \<not> SvROK v) argv"

definition demo_code :: "int perl_code" where
  "demo_code = \<lparr>pl_proxy = (\<lambda>i v. Returned [case v of SV_Ref r \<Rightarrow> if 1000 \<le> r then newSVuv (r - 1000) else SV_Undef | _ \<Rightarrow> SV_Undef]),
     pl_value = (\<lambda>i p h. (Returned [SV_Ref (1000 + p)], h)), pl_field = (\<lambda>i p. Returned [SV_Ref p]),
     pl_callback = (\<lambda>c g argv s. (Returned (count_args argv), s)),
     pl_dispatch = (\<lambda>c g argv s. (Died ''no handle'', s)), pl_scratch = (\<lambda>i k v. SV_Undef)\<rparr>"

definition demo_heap :: "int shared_state" where
  "demo_heap = empty_shared\<lparr>sh_heap := [1 \<mapsto> empty_node\<lparr>n_type := SHARED_CODE, n_code := Some 7\<rparr>,
     2 \<mapsto> empty_node\<lparr>n_type := SHARED_IV, n_iv := 5\<rparr>, 3 \<mapsto> empty_node\<lparr>n_type := SHARED_ARRAY\<rparr>], sh_next := 4\<rparr>"

definition demo_text :: "int perl_sv" where "demo_text = SV_Scalar (newSVpvn ''text'')"

definition demo_call :: "int call_state" where
  "demo_call = \<lparr>cs_shared = demo_heap,
     cs_stack = (\<lambda>i. if i = 3 then \<lparr>st_slots = (\<lambda>k. if k = 2 then SV_Scalar (newSViv 5) else if k = 3 then demo_text else newSVuv 1), st_sp = 3\<rparr>
        else \<lparr>st_slots = (\<lambda>_. SV_Undef), st_sp = 0\<rparr>),
     cs_store = (\<lambda>_. Map.empty), cs_err = (\<lambda>_. []), cs_scope = (\<lambda>_. 1), cs_runops = {}, cs_context = 3, cs_lock = (\<lambda>_. 0),
     cs_tls = None, cs_locals = 0, cs_live = {#}\<rparr>"

lemma demo_args: "xs_args 3 0 3 demo_call = [SV_Scalar (newSViv 5), demo_text]"
  by (simp add: demo_call_def slots_from_def upt_rec)

lemma demo_heap_wf: "heap_wf demo_heap"
  by (auto simp: heap_wf_def demo_heap_def empty_shared_def node_wf_def node_ptrs_def empty_node_def)

lemma demo_ready: "store_ready 1 roomy_rt Map.empty"
  by (simp add: store_ready_def store_ok_def smooth_def alloc_may_fail_def roomy_rt_def int_rt_def)

lemma demo_calls: "calls_node 1 roomy_rt 3 1 7 0 3 demo_call"
  using demo_heap_wf demo_ready
  by (simp add: calls_node_def demo_call_def live_def demo_heap_def)

lemma demo_values: "values_ok demo_code i"
  by (simp add: values_ok_def demo_code_def)

lemma demo_plain: "\<not> SvROK v \<Longrightarrow> plain_value demo_code i v"
  by (cases v) (simp_all add: plain_value_def demo_code_def)

lemma demo_callback: "pl_callback demo_code c g argv s = (Returned (count_args argv), s)"
  by (simp add: demo_code_def)

lemma count_args_plain: "v \<in> set (count_args argv) \<Longrightarrow> \<not> SvROK v"
  by (auto simp: count_args_def)

lemma demo_sub: "sub_ok 1 roomy_rt demo_code 7 (pl_callback demo_code 7)"
proof -
  have "shareable roomy_rt demo_code 7 s v" if "heap_wf (cs_shared s)" "v \<in> set (count_args argv)" for s v argv
    using plain_shareable demo_plain count_args_plain that by blast
  then show ?thesis by (auto simp: sub_ok_def demo_code_def call_kept_def heap_grown_def)
qed


theorem shared_callback_scalars_witness:
  "\<exists>s'. shared_code_call 1 roomy_rt demo_code 3 1 3 G_ARRAY demo_call
       = (Ret [SV_Scalar (newSViv 2), SV_Scalar (newSViv 5), demo_text], s') \<and> call_kept demo_call s'"
proof -
  have "\<forall>v\<in>set (xs_args 3 0 3 demo_call). plain_value demo_code 3 v"
    unfolding demo_args by (simp add: demo_plain demo_text_def)
  from shared_callback_scalars [OF demo_calls demo_values demo_values demo_sub this, of count_args]
  have "\<exists>s'. shared_code_call 1 roomy_rt demo_code 3 1 3 G_ARRAY demo_call
       = (Ret (map sv_view (count_args (map sv_view [SV_Scalar (newSViv 5), demo_text]))), s') \<and> call_kept demo_call s'"
    unfolding demo_args by (simp add: demo_callback demo_plain count_args_plain)
  then show ?thesis by (simp add: count_args_def sv_view_def shared_view_def newSViv_def newSVpvn_def demo_text_def)
qed

text \<open>A callback called with 5 and an array sees the array twice.\<close>

theorem callback_arguments_overwritten_witness:
  "\<exists>mark argv s'. push_arguments roomy_rt demo_code 7 [] [2, 3] demo_call = (Ret (mark, argv), s')
     \<and> argv = [SV_Ref 1003, SV_Ref 1003]"
proof -
  have five: "node_value roomy_rt demo_code 7 demo_heap 2 (SV_Scalar (newSViv 5))"
    by (auto simp: node_value_def demo_heap_def plain_type_def)
  have array: "node_value roomy_rt demo_code 7 demo_heap 3 (SV_Ref 1003)" "by_call demo_heap 3"
    by (simp_all add: node_value_def demo_heap_def plain_type_def demo_code_def by_call_def)
  have "list_all2 (node_value roomy_rt demo_code 7 (cs_shared demo_call)) [2, 3] [SV_Scalar (newSViv 5), SV_Ref 1003]"
    using five array by (simp add: demo_call_def)
  from callback_arguments_overwritten [OF this] obtain mark argv s' where
    run: "push_arguments roomy_rt demo_code 7 [] [2, 3] demo_call = (Ret (mark, argv), s')" "length argv = 2"
    and last: "\<And>j. last_call (cs_shared demo_call) [2, 3] j \<Longrightarrow> argv ! 0 = [SV_Scalar (newSViv 5), SV_Ref 1003] ! j
        \<and> (\<forall>k. j \<le> k \<and> k < 2 \<longrightarrow> argv ! k = [SV_Scalar (newSViv 5), SV_Ref 1003] ! k)" by auto
  have "last_call (cs_shared demo_call) [2, 3] 1" using array(2) by (simp add: last_call_def demo_call_def)
  then have "argv ! 0 = SV_Ref 1003" "argv ! 1 = SV_Ref 1003" using last [of 1] by auto
  then have "argv = [SV_Ref 1003, SV_Ref 1003]" using run(2) by (intro nth_equalityI) (auto simp: less_2_cases_iff)
  then show ?thesis using run(1) by blast
qed

end
