(* ===== verification/Channel.thy ===== *)
theory Channel
  imports Shared_Node
begin

section \<open>Channels (GoRoutine012Native.h, GoRoutine012.xs)\<close>

text \<open>
  A channel carries imported nodes between goroutines. With a capacity it is a ring of nodes;
  without one it is a rendezvous: the sender puts its node in the slot under a new sequence
  number and waits until the receiver has recorded that number as consumed. Sequence numbers
  are \<open>unsigned long\<close>, whose width is the type variable \<open>'w\<close> (64 bits on LP64 systems, 32 on
  Windows). Handles are pointers with 0 for \<open>NULL\<close>.

  The code between taking the mutex and the next wait or unlock is one step. A wait can end
  at any time (it is a 50 ms timed wait), and then the thread's cancel flag is read first.
\<close>

record 'q channel =
  ch_capacity :: nat
  ch_closed :: bool
  ch_slot :: ptr
  ch_slot_seq :: "'q"
  ch_consumed_seq :: "'q"
  ch_next_seq :: "'q"
  ch_buffer :: "ptr list"
  ch_head :: nat
  ch_tail :: nat
  ch_count :: nat

subsection \<open>Creation\<close>

definition go_channel_from_uv :: "ptr \<Rightarrow> ('s, ptr) xs" where
  "go_channel_from_uv p = (if p = 0 then xs_croak ''invalid channel handle'' else xs_return p)"

definition sizeof_channel :: nat where
  "sizeof_channel = 224"

definition channel_init :: "nat \<Rightarrow> ('w::len word) channel" where
  "channel_init capacity = \<lparr>ch_capacity = capacity, ch_closed = False, ch_slot = 0, ch_slot_seq = 0,
     ch_consumed_seq = 0, ch_next_seq = 0, ch_buffer = replicate capacity 0,
     ch_head = 0, ch_tail = 0, ch_count = 0\<rparr>"

definition channel_new :: "'nv perl_rt \<Rightarrow> u64 \<Rightarrow> ('s, ('w::len word) channel) xs" where
  "channel_new rt capacity =
     (if sint capacity < 0 then xs_croak ''channel() capacity must be zero or greater''
      else if \<not> rt_alloc rt sizeof_channel then xs_croak ''out of memory allocating channel''
      else if unat capacity > 0 \<and> \<not> rt_alloc rt (unat capacity * 8)
      then xs_croak ''out of memory allocating channel buffer''
      else xs_return (channel_init (unat capacity)))"

subsection \<open>The ring\<close>

definition ring_put :: "ptr \<Rightarrow> ('w::len word) channel \<Rightarrow> 'w word channel" where
  "ring_put m ch = ch\<lparr>ch_buffer := (ch_buffer ch)[ch_tail ch := m],
     ch_tail := (ch_tail ch + 1) mod ch_capacity ch, ch_count := ch_count ch + 1\<rparr>"

definition ring_take :: "('w::len word) channel \<Rightarrow> 'w word channel \<times> ptr" where
  "ring_take ch = (ch\<lparr>ch_buffer := (ch_buffer ch)[ch_head ch := 0],
     ch_head := (ch_head ch + 1) mod ch_capacity ch, ch_count := ch_count ch - 1\<rparr>,
     ch_buffer ch ! ch_head ch)"

subsection \<open>Sending\<close>

datatype 'q send_out = Send_Wait_Room | Send_Wait_Taken "'q" | Send_Ok | Send_Closed | Send_Cancelled

text \<open>The end of \<open>_channel_send\<close>: a rendezvous that completed wins over a close or a cancel.\<close>

definition send_finish :: "('w::len word) channel \<Rightarrow> 'w word \<Rightarrow> bool \<Rightarrow> 'w word send_out" where
  "send_finish ch seq cancelled =
     (if ch_capacity ch = 0 \<and> seq \<noteq> 0 \<and> seq \<le> ch_consumed_seq ch then Send_Ok
      else if cancelled then Send_Cancelled
      else if ch_closed ch then Send_Closed
      else Send_Ok)"

text \<open>The loop that waits for the receiver; also where a woken sender resumes.\<close>

definition send_await :: "('w::len word) channel \<Rightarrow> 'w word \<Rightarrow> 'w word channel \<times> 'w word send_out" where
  "send_await ch seq =
     (if ch_consumed_seq ch < seq \<and> \<not> ch_closed ch then (ch, Send_Wait_Taken seq)
      else (ch, send_finish ch seq False))"

text \<open>From the first loop on; the flag says whether the node was put into the slot or ring.\<close>

definition send_try :: "('w::len word) channel \<Rightarrow> ptr \<Rightarrow> 'w word channel \<times> bool \<times> 'w word send_out" where
  "send_try ch m =
     (if ch_capacity ch = 0 then
        (if ch_slot ch \<noteq> 0 \<and> \<not> ch_closed ch then (ch, False, Send_Wait_Room)
         else if \<not> ch_closed ch then
           (let seq = ch_next_seq ch + 1;
                ch1 = ch\<lparr>ch_next_seq := seq, ch_slot := m, ch_slot_seq := seq\<rparr>
            in (case send_await ch1 seq of (ch2, out) \<Rightarrow> (ch2, True, out)))
         else (ch, False, send_finish ch 0 False))
      else
        (if ch_count ch = ch_capacity ch \<and> \<not> ch_closed ch then (ch, False, Send_Wait_Room)
         else if \<not> ch_closed ch then (ring_put m ch, True, send_finish (ring_put m ch) 0 False)
         else (ch, False, send_finish ch 0 False)))"

text \<open>A cancelled sender leaves; one whose node is still in the slot withdraws it.\<close>

definition send_withdraw :: "('w::len word) channel \<Rightarrow> 'w word \<Rightarrow> 'w word channel \<times> 'w word send_out" where
  "send_withdraw ch seq =
     (let ch1 = (if ch_consumed_seq ch < seq \<and> ch_slot ch \<noteq> 0 \<and> ch_slot_seq ch = seq
                 then ch\<lparr>ch_slot := 0\<rparr> else ch)
      in (ch1, send_finish ch1 seq True))"

subsection \<open>Receiving and closing\<close>

datatype recv_out = Recv_Wait | Recv_Msg ptr | Recv_Closed

definition recv_try :: "('w::len word) channel \<Rightarrow> 'w word channel \<times> recv_out" where
  "recv_try ch =
     (if ch_capacity ch = 0 then
        (if ch_slot ch = 0 \<and> \<not> ch_closed ch then (ch, Recv_Wait)
         else if ch_slot ch \<noteq> 0
         then (ch\<lparr>ch_consumed_seq := ch_slot_seq ch, ch_slot := 0\<rparr>, Recv_Msg (ch_slot ch))
         else (ch, Recv_Closed))
      else
        (if ch_count ch = 0 \<and> \<not> ch_closed ch then (ch, Recv_Wait)
         else if ch_count ch > 0 then (case ring_take ch of (ch1, m) \<Rightarrow> (ch1, Recv_Msg m))
         else (ch, Recv_Closed)))"

definition channel_close :: "('w::len word) channel \<Rightarrow> 'w word channel option" where
  "channel_close ch =
     (if ch_closed ch then None
      else Some (if ch_capacity ch = 0 then ch\<lparr>ch_closed := True, ch_slot := 0\<rparr> else ch\<lparr>ch_closed := True\<rparr>))"

definition channel_size :: "('w::len word) channel \<Rightarrow> nat" where
  "channel_size ch = (if ch_capacity ch = 0 then (if ch_slot ch \<noteq> 0 then 1 else 0) else ch_count ch)"

subsection \<open>Threads\<close>

text \<open>
  Where a thread is: outside; called with a value to send; past the test of its cancel flag;
  past the test for a closed channel and the import; in one of the two waits; called to receive;
  past the test of the flag; in the wait of a receive. The rest of the state records what happened: the
  nodes put into the channel in order, the nodes taken out with their position in that order,
  and the sends that returned and the sends that croaked, each with the position of its node
  if it was put into the channel.
\<close>

datatype 'q pc = Idle | Send_Called ptr | Send_Start ptr | Send_Ready ptr | At_Room ptr | At_Taken ptr "'q" | Recv_Called | Recv_Ready | At_Recv

record 'q chan_sys =
  sys_ch :: "'q channel"
  sys_pc :: "nat \<Rightarrow> 'q pc"
  sys_cancel :: "nat \<Rightarrow> bool"
  sys_placed :: "ptr list"
  sys_taken :: "(nat \<times> ptr) list"
  sys_ok :: "(nat option \<times> ptr) list"
  sys_failed :: "(nat option \<times> ptr) list"

fun send_pc :: "ptr \<Rightarrow> ('w::len word) send_out \<Rightarrow> 'w word pc" where
  "send_pc m Send_Wait_Room = At_Room m"
| "send_pc m (Send_Wait_Taken seq) = At_Taken m seq"
| "send_pc m _ = Idle"

definition ended_ok :: "nat option \<Rightarrow> ptr \<Rightarrow> ('w::len word) send_out \<Rightarrow> (nat option \<times> ptr) list" where
  "ended_ok e m out = (if out = Send_Ok then [(e, m)] else [])"

definition ended_failed :: "nat option \<Rightarrow> ptr \<Rightarrow> ('w::len word) send_out \<Rightarrow> (nat option \<times> ptr) list" where
  "ended_failed e m out = (if out = Send_Closed \<or> out = Send_Cancelled then [(e, m)] else [])"

definition after_send :: "nat \<Rightarrow> ptr \<Rightarrow> nat option \<Rightarrow> ('w::len word) channel \<Rightarrow> bool \<Rightarrow> 'w word send_out
    \<Rightarrow> 'w word chan_sys \<Rightarrow> 'w word chan_sys" where
  "after_send t m e ch placed out s = s\<lparr>
     sys_ch := ch, sys_pc := (sys_pc s)(t := send_pc m out),
     sys_placed := (if placed then sys_placed s @ [m] else sys_placed s),
     sys_ok := sys_ok s @ ended_ok e m out, sys_failed := sys_failed s @ ended_failed e m out\<rparr>"

fun recv_pc :: "recv_out \<Rightarrow> ('w::len word) pc" where
  "recv_pc Recv_Wait = At_Recv"
| "recv_pc _ = Idle"

definition taken_index :: "('w::len word) chan_sys \<Rightarrow> nat" where
  "taken_index s =
     (if ch_capacity (sys_ch s) = 0 then unat (ch_slot_seq (sys_ch s)) - 1 else length (sys_taken s))"

definition after_recv :: "nat \<Rightarrow> ('w::len word) channel \<Rightarrow> recv_out \<Rightarrow> 'w word chan_sys \<Rightarrow> 'w word chan_sys" where
  "after_recv t ch out s = s\<lparr>
     sys_ch := ch, sys_pc := (sys_pc s)(t := recv_pc out),
     sys_taken := sys_taken s @ (case out of Recv_Msg m \<Rightarrow> [(taken_index s, m)] | _ \<Rightarrow> [])\<rparr>"

definition set_pc :: "nat \<Rightarrow> ('w::len word) pc \<Rightarrow> 'w word chan_sys \<Rightarrow> 'w word chan_sys" where
  "set_pc t p s = s\<lparr>sys_pc := (sys_pc s)(t := p)\<rparr>"

inductive chan_step :: "('w::len word) chan_sys \<Rightarrow> 'w word chan_sys \<Rightarrow> bool" where
  call_send: "sys_pc s t = Idle \<Longrightarrow> m \<noteq> 0 \<Longrightarrow> chan_step s (set_pc t (Send_Called m) s)"
| send_flag: "sys_pc s t = Send_Called m
    \<Longrightarrow> chan_step s (if sys_cancel s t then after_send t m None (sys_ch s) False Send_Cancelled s
                     else set_pc t (Send_Start m) s)"
| send_import: "sys_pc s t = Send_Start m
    \<Longrightarrow> chan_step s (if ch_closed (sys_ch s) then after_send t m None (sys_ch s) False Send_Closed s
                     else set_pc t (Send_Ready m) s)"
| send_go: "sys_pc s t = Send_Ready m \<or> (sys_pc s t = At_Room m \<and> \<not> sys_cancel s t)
    \<Longrightarrow> send_try (sys_ch s) m = (ch, placed, out)
    \<Longrightarrow> chan_step s (after_send t m (if placed then Some (length (sys_placed s)) else None) ch placed out s)"
| send_woken: "sys_pc s t = At_Taken m seq \<Longrightarrow> \<not> sys_cancel s t \<Longrightarrow> send_await (sys_ch s) seq = (ch, out)
    \<Longrightarrow> chan_step s (after_send t m (Some (unat seq - 1)) ch False out s)"
| room_cancelled: "sys_pc s t = At_Room m \<Longrightarrow> sys_cancel s t
    \<Longrightarrow> chan_step s (after_send t m None (sys_ch s) False (send_finish (sys_ch s) 0 True) s)"
| taken_cancelled: "sys_pc s t = At_Taken m seq \<Longrightarrow> sys_cancel s t \<Longrightarrow> send_withdraw (sys_ch s) seq = (ch, out)
    \<Longrightarrow> chan_step s (after_send t m (Some (unat seq - 1)) ch False out s)"
| call_recv: "sys_pc s t = Idle \<Longrightarrow> chan_step s (set_pc t Recv_Called s)"
| recv_flag: "sys_pc s t = Recv_Called
    \<Longrightarrow> chan_step s (set_pc t (if sys_cancel s t then Idle else Recv_Ready) s)"
| recv_cancelled: "sys_pc s t = At_Recv \<Longrightarrow> sys_cancel s t \<Longrightarrow> chan_step s (set_pc t Idle s)"
| recv_go: "sys_pc s t = Recv_Ready \<or> (sys_pc s t = At_Recv \<and> \<not> sys_cancel s t)
    \<Longrightarrow> recv_try (sys_ch s) = (ch, out) \<Longrightarrow> chan_step s (after_recv t ch out s)"
| close: "channel_close (sys_ch s) = Some ch \<Longrightarrow> chan_step s (s\<lparr>sys_ch := ch\<rparr>)"
| cancel: "chan_step s (s\<lparr>sys_cancel := (sys_cancel s)(t := True)\<rparr>)"

definition chan_start :: "('w::len word) channel \<Rightarrow> 'w word chan_sys" where
  "chan_start ch = \<lparr>sys_ch = ch, sys_pc = (\<lambda>_. Idle), sys_cancel = (\<lambda>_. False), sys_placed = [], sys_taken = [],
     sys_ok = [], sys_failed = []\<rparr>"

inductive chan_reach :: "('w::len word) channel \<Rightarrow> 'w word chan_sys \<Rightarrow> bool" for ch0 where
  reach_start: "chan_reach ch0 (chan_start ch0)"
| reach_step: "chan_reach ch0 s \<Longrightarrow> chan_step s s' \<Longrightarrow> chan_reach ch0 s'"

inductive_simps channel_step_simps: "chan_step s s'"

subsection \<open>The contract of a bounded queue\<close>

text \<open>
  What the buffered branches of send and receive rely on: with room, putting appends; with
  something inside, taking removes the oldest. Whatever is put then comes out in order, once.
\<close>

locale bounded_fifo =
  fixes contents :: "'s \<Rightarrow> 'v list" and capacity :: "'s \<Rightarrow> nat" and ok :: "'s \<Rightarrow> bool"
    and put :: "'v \<Rightarrow> 's \<Rightarrow> 's" and take_first :: "'s \<Rightarrow> 's \<times> 'v"
  assumes put_law: "ok s \<Longrightarrow> length (contents s) < capacity s \<Longrightarrow>
        ok (put v s) \<and> contents (put v s) = contents s @ [v] \<and> capacity (put v s) = capacity s"
    and take_law: "ok s \<Longrightarrow> contents s \<noteq> [] \<Longrightarrow>
        ok (fst (take_first s)) \<and> contents s = snd (take_first s) # contents (fst (take_first s))
        \<and> capacity (fst (take_first s)) = capacity s"
    and bound_law: "ok s \<Longrightarrow> length (contents s) \<le> capacity s"
begin

text \<open>A script of puts and takes; those that find no room or nothing inside do nothing.\<close>

fun run :: "'v option list \<Rightarrow> 's \<Rightarrow> 'v list \<Rightarrow> 'v list \<Rightarrow> 's \<times> 'v list \<times> 'v list" where
  "run [] s ins outs = (s, ins, outs)"
| "run (Some v # as) s ins outs =
     (if length (contents s) < capacity s then run as (put v s) (ins @ [v]) outs else run as s ins outs)"
| "run (None # as) s ins outs =
     (if contents s \<noteq> [] then run as (fst (take_first s)) ins (outs @ [snd (take_first s)]) else run as s ins outs)"

lemma run_fifo:
  assumes "ok s" and "outs @ contents s = ins" and "run as s ins outs = (t, ins', outs')"
  shows "ok t \<and> outs' @ contents t = ins' \<and> length (contents t) \<le> capacity t \<and> capacity t = capacity s"
  using assms
proof (induction as s ins outs rule: run.induct)
  case (1 s ins outs)
  then show ?case using bound_law by simp
next
  case (2 v as s ins outs)
  show ?case
  proof (cases "length (contents s) < capacity s")
    case True
    from put_law [OF "2.prems"(1) True, of v] True "2.prems"(2,3) "2.IH"(1) [OF True] show ?thesis by auto
  qed (use 2 in simp)
next
  case (3 as s ins outs)
  show ?case
  proof (cases "contents s \<noteq> []")
    case True
    from take_law [OF "3.prems"(1) True] True "3.prems"(2,3) "3.IH"(1) [OF True] show ?thesis by auto
  qed (use 3 in simp)
qed

end

text \<open>The nodes in the ring, oldest first, and what keeps the indices right.\<close>

definition ring_contents :: "('w::len word) channel \<Rightarrow> ptr list" where
  "ring_contents ch = map (\<lambda>i. ch_buffer ch ! ((ch_head ch + i) mod ch_capacity ch)) [0..<ch_count ch]"

definition ring_ok :: "('w::len word) channel \<Rightarrow> bool" where
  "ring_ok ch \<longleftrightarrow> 0 < ch_capacity ch \<and> length (ch_buffer ch) = ch_capacity ch \<and> ch_head ch < ch_capacity ch
     \<and> ch_count ch \<le> ch_capacity ch \<and> ch_tail ch = (ch_head ch + ch_count ch) mod ch_capacity ch"

lemma length_ring_contents [simp]: "length (ring_contents ch) = ch_count ch"
  by (simp add: ring_contents_def)

lemma mod_wrap: "h < c \<Longrightarrow> i \<le> c \<Longrightarrow> (h + i) mod c = (if h + i < c then h + i else h + i - (c :: nat))"
  by (simp add: mod_if)

lemma mod_shift_inj: "h < c \<Longrightarrow> i < c \<Longrightarrow> j < c \<Longrightarrow> (h + i) mod c = (h + j) mod c \<Longrightarrow> i = (j :: nat)"
  by (simp add: mod_wrap split: if_splits)

lemma ring_put_law:
  assumes "ring_ok ch" and "ch_count ch < ch_capacity ch"
  shows "ring_ok (ring_put m ch)" and "ring_contents (ring_put m ch) = ring_contents ch @ [m]"
proof -
  show "ring_ok (ring_put m ch)"
    using assms by (auto simp: ring_ok_def ring_put_def mod_Suc_eq add.assoc)
  have other: "(ch_head ch + i) mod ch_capacity ch \<noteq> (ch_head ch + ch_count ch) mod ch_capacity ch"
    if "i < ch_count ch" for i
    using mod_shift_inj [of "ch_head ch" "ch_capacity ch" i "ch_count ch"] that assms by (auto simp: ring_ok_def)
  have "(ch_head ch + ch_count ch) mod ch_capacity ch < ch_capacity ch"
    using assms by simp
  then show "ring_contents (ring_put m ch) = ring_contents ch @ [m]"
    using assms other [THEN not_sym] by (simp add: ring_contents_def ring_put_def ring_ok_def nth_list_update)
qed

lemma ring_take_law:
  assumes "ring_ok ch" and "0 < ch_count ch"
  shows "ring_ok (fst (ring_take ch))" and "ring_contents ch = snd (ring_take ch) # ring_contents (fst (ring_take ch))"
proof -
  show "ring_ok (fst (ring_take ch))"
    using assms by (cases "ch_count ch") (auto simp: ring_ok_def ring_take_def mod_simps)
  obtain n where n: "ch_count ch = Suc n" using assms(2) gr0_implies_Suc by blast
  have other: "(ch_head ch + Suc i) mod ch_capacity ch \<noteq> ch_head ch" if "i < n" for i
    using mod_shift_inj [of "ch_head ch" "ch_capacity ch" "Suc i" 0] that assms n by (auto simp: ring_ok_def)
  have shift: "(Suc (ch_head ch) mod ch_capacity ch + i) mod ch_capacity ch = (ch_head ch + Suc i) mod ch_capacity ch" for i
    by (simp add: mod_add_left_eq)
  have upt: "[0..<Suc n] = 0 # map Suc [0..<n]" by (simp add: map_Suc_upt upt_conv_Cons del: upt_Suc)
  then show "ring_contents ch = snd (ring_take ch) # ring_contents (fst (ring_take ch))"
    using assms n other [THEN not_sym] upt unfolding ring_contents_def ring_take_def ring_ok_def
    by (simp add: shift nth_list_update del: upt_Suc)
qed

lemma ring_same [simp]:
  "ch_capacity (ring_put m ch) = ch_capacity ch" "ch_count (ring_put m ch) = Suc (ch_count ch)"
  "ch_closed (ring_put m ch) = ch_closed ch"
  "ch_capacity (fst (ring_take ch)) = ch_capacity ch" "ch_count (fst (ring_take ch)) = ch_count ch - 1"
  "ch_closed (fst (ring_take ch)) = ch_closed ch"
  by (simp_all add: ring_put_def ring_take_def)

interpretation channel_ring: bounded_fifo ring_contents ch_capacity ring_ok ring_put ring_take
proof
  fix v and s :: "('w::len word) channel"
  show "ring_ok s \<Longrightarrow> length (ring_contents s) < ch_capacity s \<Longrightarrow> ring_ok (ring_put v s) \<and>
    ring_contents (ring_put v s) = ring_contents s @ [v] \<and> ch_capacity (ring_put v s) = ch_capacity s"
    using ring_put_law [of s v] by simp
  show "ring_ok s \<Longrightarrow> ring_contents s \<noteq> [] \<Longrightarrow> ring_ok (fst (ring_take s)) \<and>
    ring_contents s = snd (ring_take s) # ring_contents (fst (ring_take s)) \<and> ch_capacity (fst (ring_take s)) = ch_capacity s"
    using ring_take_law [of s] by (cases "ch_count s") (auto simp: ring_contents_def)
  show "ring_ok s \<Longrightarrow> length (ring_contents s) \<le> ch_capacity s"
    by (simp add: ring_ok_def)
qed

subsection \<open>Buffered channels\<close>

lemma send_try_ring:
  assumes "ring_ok ch" and "send_try ch m = (ch', placed, out)"
  shows "placed \<and> \<not> ch_closed ch \<and> ch_count ch < ch_capacity ch \<and> ch' = ring_put m ch \<and> out = Send_Ok
    \<or> \<not> placed \<and> ch' = ch \<and> (\<not> ch_closed ch \<and> ch_count ch = ch_capacity ch \<and> out = Send_Wait_Room
                           \<or> ch_closed ch \<and> out = Send_Closed)"
  using assms by (auto simp: send_try_def ring_ok_def send_finish_def split: if_splits)

lemma recv_try_ring:
  assumes "ring_ok ch" and "recv_try ch = (ch', out)"
  shows "ch_count ch > 0 \<and> ch' = fst (ring_take ch) \<and> out = Recv_Msg (snd (ring_take ch))
    \<or> ch_count ch = 0 \<and> ch' = ch \<and> out = (if ch_closed ch then Recv_Closed else Recv_Wait)"
  using assms by (auto simp: recv_try_def ring_ok_def split: if_splits prod.splits)

definition indexed :: "ptr list \<Rightarrow> (nat option \<times> ptr) list" where
  "indexed ms = map (\<lambda>i. (Some i, ms ! i)) [0..<length ms]"

lemma indexed_snoc: "indexed (ms @ [m]) = indexed ms @ [(Some (length ms), m)]"
  by (simp add: indexed_def nth_append)

definition buf_inv :: "nat \<Rightarrow> ('w::len word) chan_sys \<Rightarrow> bool" where
  "buf_inv c s \<longleftrightarrow> ring_ok (sys_ch s) \<and> ch_capacity (sys_ch s) = c
     \<and> map snd (sys_taken s) @ ring_contents (sys_ch s) = sys_placed s
     \<and> map fst (sys_taken s) = [0..<length (sys_taken s)]
     \<and> sys_ok s = indexed (sys_placed s)
     \<and> fst ` set (sys_failed s) \<subseteq> {None}
     \<and> (\<forall>t m q. sys_pc s t \<noteq> At_Taken m q)"

lemma send_pc_not_taken: "(\<And>q. out \<noteq> Send_Wait_Taken q) \<Longrightarrow> send_pc m out \<noteq> At_Taken m' q'"
  by (cases out) simp_all

lemma buf_inv_set_pc: "buf_inv c s \<Longrightarrow> (\<And>m q. p \<noteq> At_Taken m q) \<Longrightarrow> buf_inv c (set_pc t p s)"
  by (simp add: buf_inv_def set_pc_def)

lemma buf_inv_after_send:
  assumes "buf_inv c s" and "e = None" and "out \<noteq> Send_Ok" and "\<And>q. out \<noteq> Send_Wait_Taken q"
  shows "buf_inv c (after_send t m e (sys_ch s) False out s)"
  using assms send_pc_not_taken [of out m]
  by (auto simp: buf_inv_def after_send_def ended_ok_def ended_failed_def)

lemma buf_inv_send_go:
  assumes inv: "buf_inv c s" and go: "send_try (sys_ch s) m = (ch, placed, out)"
  shows "buf_inv c (after_send t m (if placed then Some (length (sys_placed s)) else None) ch placed out s)"
proof -
  have ok: "ring_ok (sys_ch s)" using inv by (simp add: buf_inv_def)
  show ?thesis
  proof (cases placed)
    case True
    with send_try_ring [OF ok go] have put: "ch_count (sys_ch s) < ch_capacity (sys_ch s)"
      and ch: "ch = ring_put m (sys_ch s)" and out: "out = Send_Ok" by simp_all
    show ?thesis using inv ring_put_law [OF ok put, of m] True
      by (auto simp: buf_inv_def after_send_def ended_ok_def ended_failed_def ch out indexed_snoc)
  next
    case False
    with send_try_ring [OF ok go] inv show ?thesis
      by (auto intro!: buf_inv_after_send)
  qed
qed

lemma buf_inv_recv_go:
  assumes inv: "buf_inv c s" and go: "recv_try (sys_ch s) = (ch, out)"
  shows "buf_inv c (after_recv t ch out s)"
proof -
  have ok: "ring_ok (sys_ch s)" and c: "0 < c" "ch_capacity (sys_ch s) = c"
    using inv by (auto simp: buf_inv_def ring_ok_def)
  have idle: "recv_pc out \<noteq> At_Taken m q" for m q by (cases out) simp_all
  show ?thesis
  proof (cases "ch_count (sys_ch s) > 0")
    case True
    with recv_try_ring [OF ok go] have "ch = fst (ring_take (sys_ch s))" "out = Recv_Msg (snd (ring_take (sys_ch s)))"
      by simp_all
    then show ?thesis using inv ring_take_law [OF ok True] c idle
      by (auto simp: buf_inv_def after_recv_def taken_index_def)
  next
    case False
    with recv_try_ring [OF ok go] inv idle show ?thesis
      by (auto simp: buf_inv_def after_recv_def)
  qed
qed

lemma buf_inv_close:
  "buf_inv c s \<Longrightarrow> channel_close (sys_ch s) = Some ch \<Longrightarrow> buf_inv c (s\<lparr>sys_ch := ch\<rparr>)"
  by (auto simp: buf_inv_def channel_close_def ring_ok_def ring_contents_def split: if_splits)

lemma buf_inv_step:
  assumes "chan_step s s'" and inv: "buf_inv c s"
  shows "buf_inv c s'"
  using assms(1)
proof cases
  case (send_woken t m q ch out)
  with inv show ?thesis by (simp add: buf_inv_def)
next
  case (taken_cancelled t m q ch out)
  with inv show ?thesis by (simp add: buf_inv_def)
next
  case (room_cancelled t m)
  have "send_finish (sys_ch s) 0 True = Send_Cancelled" by (simp add: send_finish_def)
  with room_cancelled inv show ?thesis by (simp add: buf_inv_after_send)
next
  case (send_go t m ch placed out)
  with inv show ?thesis by (simp add: buf_inv_send_go)
next
  case (recv_go t ch out)
  with inv show ?thesis by (simp add: buf_inv_recv_go)
next
  case (close ch)
  with inv show ?thesis by (simp add: buf_inv_close)
next
  case (cancel t)
  with inv show ?thesis by (simp add: buf_inv_def)
qed (use inv in \<open>simp_all add: buf_inv_set_pc buf_inv_after_send\<close>)

lemma ring_ok_init: "0 < c \<Longrightarrow> ring_ok (channel_init c)"
  by (simp add: ring_ok_def channel_init_def)

lemma buf_inv_reach:
  assumes "chan_reach (channel_init c) s" and "0 < c"
  shows "buf_inv c s"
  using assms(1)
proof (induction rule: chan_reach.induct)
  case reach_start
  then show ?case using assms(2) ring_ok_init [OF assms(2)]
    by (simp add: buf_inv_def chan_start_def ring_contents_def channel_init_def indexed_def)
qed (rule buf_inv_step)

subsection \<open>Rendezvous channels\<close>

text \<open>
  As long as fewer than \<open>2^w\<close> sends were started, the counters do not wrap and three
  invariants hold: of the channel, of the log, and of the senders that wait to be taken.
\<close>

definition rv_chan :: "('w::len word) chan_sys \<Rightarrow> bool" where
  "rv_chan s \<longleftrightarrow> (let ch = sys_ch s; n = length (sys_placed s) in
     ch_capacity ch = 0 \<and> unat (ch_next_seq ch) = n \<and> unat (ch_consumed_seq ch) \<le> n
     \<and> (ch_slot ch \<noteq> 0 \<longrightarrow> \<not> ch_closed ch \<and> unat (ch_consumed_seq ch) < n
          \<and> ch_slot ch = sys_placed s ! (n - 1) \<and> unat (ch_slot_seq ch) = n))"

definition rv_log :: "('w::len word) chan_sys \<Rightarrow> bool" where
  "rv_log s \<longleftrightarrow>
     (\<forall>(i, m)\<in>set (sys_taken s). i < unat (ch_consumed_seq (sys_ch s)) \<and> sys_placed s ! i = m)
     \<and> sorted_wrt (<) (map fst (sys_taken s))
     \<and> (\<forall>(e, m)\<in>set (sys_ok s). \<exists>i. e = Some i \<and> (i, m) \<in> set (sys_taken s))
     \<and> (\<forall>(e, m)\<in>set (sys_failed s). \<forall>i. e = Some i \<longrightarrow> i < length (sys_placed s)
          \<and> i \<notin> fst ` set (sys_taken s) \<and> (ch_slot (sys_ch s) \<noteq> 0 \<longrightarrow> i \<noteq> length (sys_placed s) - 1))"

definition rv_wait :: "('w::len word) chan_sys \<Rightarrow> bool" where
  "rv_wait s \<longleftrightarrow>
     (\<forall>t m q. sys_pc s t = At_Taken m q \<longrightarrow> 0 < unat q \<and> unat q \<le> length (sys_placed s)
        \<and> sys_placed s ! (unat q - 1) = m
        \<and> (unat q \<le> unat (ch_consumed_seq (sys_ch s)) \<longrightarrow> (unat q - 1, m) \<in> set (sys_taken s))
        \<and> (unat (ch_consumed_seq (sys_ch s)) < unat q \<and> \<not> ch_closed (sys_ch s)
             \<longrightarrow> ch_slot (sys_ch s) \<noteq> 0 \<and> ch_slot_seq (sys_ch s) = q))
     \<and> (\<forall>t t' m m' q. sys_pc s t = At_Taken m q \<and> sys_pc s t' = At_Taken m' q \<longrightarrow> t = t')
     \<and> (\<forall>t m. sys_pc s t \<in> {Send_Called m, Send_Start m, Send_Ready m, At_Room m} \<longrightarrow> m \<noteq> 0)"

definition rv_inv :: "('w::len word) chan_sys \<Rightarrow> bool" where
  "rv_inv s \<longleftrightarrow> rv_chan s \<and> rv_log s \<and> rv_wait s"

lemmas rv_defs = rv_inv_def rv_chan_def rv_log_def rv_wait_def Let_def

lemma rv_taken:
  assumes "rv_inv s" and "(i, m) \<in> set (sys_taken s)"
  shows "i < unat (ch_consumed_seq (sys_ch s)) \<and> i < length (sys_placed s) \<and> sys_placed s ! i = m"
proof -
  have "\<forall>(i, m)\<in>set (sys_taken s). i < unat (ch_consumed_seq (sys_ch s)) \<and> sys_placed s ! i = m"
    and "unat (ch_consumed_seq (sys_ch s)) \<le> length (sys_placed s)"
    using assms(1) by (simp_all add: rv_defs)
  with bspec [OF this(1) assms(2)] show ?thesis by simp
qed

lemma rv_ended:
  assumes "rv_inv s"
  shows "sorted_wrt (<) (map fst (sys_taken s))"
    and "(e, m) \<in> set (sys_ok s) \<Longrightarrow> \<exists>i. e = Some i \<and> (i, m) \<in> set (sys_taken s)"
    and "(Some i, m) \<in> set (sys_failed s) \<Longrightarrow> i < length (sys_placed s) \<and> i \<notin> fst ` set (sys_taken s)
          \<and> (ch_slot (sys_ch s) \<noteq> 0 \<longrightarrow> i \<noteq> length (sys_placed s) - 1)"
proof -
  have log: "sorted_wrt (<) (map fst (sys_taken s))"
    "\<forall>(e, m)\<in>set (sys_ok s). \<exists>i. e = Some i \<and> (i, m) \<in> set (sys_taken s)"
    "\<forall>(e, m)\<in>set (sys_failed s). \<forall>i. e = Some i \<longrightarrow> i < length (sys_placed s)
          \<and> i \<notin> fst ` set (sys_taken s) \<and> (ch_slot (sys_ch s) \<noteq> 0 \<longrightarrow> i \<noteq> length (sys_placed s) - 1)"
    using assms by (simp_all add: rv_defs)
  show "sorted_wrt (<) (map fst (sys_taken s))" by (rule log)
  show "(e, m) \<in> set (sys_ok s) \<Longrightarrow> \<exists>i. e = Some i \<and> (i, m) \<in> set (sys_taken s)"
    using bspec [OF log(2), of "(e, m)"] by simp
  show "(Some i, m) \<in> set (sys_failed s) \<Longrightarrow> i < length (sys_placed s) \<and> i \<notin> fst ` set (sys_taken s)
          \<and> (ch_slot (sys_ch s) \<noteq> 0 \<longrightarrow> i \<noteq> length (sys_placed s) - 1)"
    using bspec [OF log(3), of "(Some i, m)"] by simp
qed

lemma rv_log_intro:
  assumes "\<And>i m. (i, m) \<in> set (sys_taken s) \<Longrightarrow> i < unat (ch_consumed_seq (sys_ch s)) \<and> sys_placed s ! i = m"
    and "sorted_wrt (<) (map fst (sys_taken s))"
    and "\<And>e m. (e, m) \<in> set (sys_ok s) \<Longrightarrow> \<exists>i. e = Some i \<and> (i, m) \<in> set (sys_taken s)"
    and "\<And>i m. (Some i, m) \<in> set (sys_failed s) \<Longrightarrow> i < length (sys_placed s) \<and> i \<notin> fst ` set (sys_taken s)
          \<and> (ch_slot (sys_ch s) \<noteq> 0 \<longrightarrow> i \<noteq> length (sys_placed s) - 1)"
  shows "rv_log s"
  unfolding rv_log_def by (intro conjI ballI) (use assms in \<open>clarsimp simp only: split_paired_all prod.case; blast\<close>)+

lemma rv_waiting:
  assumes "rv_inv s" and "sys_pc s t = At_Taken m q"
  shows "0 < unat q" and "unat q \<le> length (sys_placed s)" and "sys_placed s ! (unat q - 1) = m"
    and "unat q \<le> unat (ch_consumed_seq (sys_ch s)) \<Longrightarrow> (unat q - 1, m) \<in> set (sys_taken s)"
    and "unat (ch_consumed_seq (sys_ch s)) < unat q \<Longrightarrow> \<not> ch_closed (sys_ch s)
           \<Longrightarrow> ch_slot (sys_ch s) \<noteq> 0 \<and> ch_slot_seq (sys_ch s) = q"
    and "sys_pc s t' = At_Taken m' q \<Longrightarrow> t' = t"
  using assms unfolding rv_inv_def rv_wait_def by blast+

lemma rv_wait_intro:
  assumes "\<And>t m q. sys_pc s t = At_Taken m q \<Longrightarrow> 0 < unat q \<and> unat q \<le> length (sys_placed s)
        \<and> sys_placed s ! (unat q - 1) = m
        \<and> (unat q \<le> unat (ch_consumed_seq (sys_ch s)) \<longrightarrow> (unat q - 1, m) \<in> set (sys_taken s))"
    and "\<And>t m q. sys_pc s t = At_Taken m q \<Longrightarrow> unat (ch_consumed_seq (sys_ch s)) < unat q \<Longrightarrow> \<not> ch_closed (sys_ch s)
             \<Longrightarrow> ch_slot (sys_ch s) \<noteq> 0 \<and> ch_slot_seq (sys_ch s) = q"
    and "\<And>t t' m m' q. sys_pc s t = At_Taken m q \<Longrightarrow> sys_pc s t' = At_Taken m' q \<Longrightarrow> t = t'"
    and "\<And>t m. sys_pc s t \<in> {Send_Called m, Send_Start m, Send_Ready m, At_Room m} \<Longrightarrow> m \<noteq> 0"
  shows "rv_wait s"
  using assms unfolding rv_wait_def by blast

lemma rv_calling: "rv_inv s \<Longrightarrow> sys_pc s t \<in> {Send_Called m, Send_Start m, Send_Ready m, At_Room m} \<Longrightarrow> m \<noteq> 0"
  unfolding rv_inv_def rv_wait_def by blast

lemma rv_inv_set_pc:
  assumes inv: "rv_inv s" and "\<And>m q. p \<noteq> At_Taken m q"
    and call: "\<And>m. p \<in> {Send_Called m, Send_Start m, Send_Ready m, At_Room m} \<Longrightarrow> m \<noteq> 0"
  shows "rv_inv (set_pc t p s)"
proof -
  have "rv_chan (set_pc t p s)" "rv_log (set_pc t p s)"
    using inv by (simp_all add: rv_inv_def rv_chan_def rv_log_def set_pc_def)
  moreover have "rv_wait (set_pc t p s)"
  proof (rule rv_wait_intro)
    fix t1 m1 assume "sys_pc (set_pc t p s) t1 \<in> {Send_Called m1, Send_Start m1, Send_Ready m1, At_Room m1}"
    then show "m1 \<noteq> 0" using rv_calling [OF inv, of t1 m1] call [of m1] by (simp add: set_pc_def split: if_splits)
  qed (use rv_waiting [OF inv] in \<open>auto simp: set_pc_def assms(2) split: if_splits\<close>)
  ultimately show ?thesis by (simp add: rv_inv_def)
qed

lemma rv_inv_quiet: "rv_inv s \<Longrightarrow> p \<in> {Idle, Recv_Called, Recv_Ready, At_Recv} \<Longrightarrow> rv_inv (set_pc t p s)"
  by (rule rv_inv_set_pc) auto

lemma rv_inv_leave:
  assumes inv: "rv_inv s" and "out = Send_Closed \<or> out = Send_Cancelled"
  shows "rv_inv (after_send t m None (sys_ch s) False out s)" (is "rv_inv ?s'")
proof -
  have set: "rv_inv (set_pc t Idle s)" using inv by (rule rv_inv_quiet) simp
  have eq: "?s' = (set_pc t Idle s)\<lparr>sys_failed := sys_failed s @ [(None, m)]\<rparr>"
    using assms(2) by (auto simp: after_send_def set_pc_def ended_ok_def ended_failed_def)
  have "rv_chan ?s'" "rv_wait ?s'" using set unfolding eq by (simp_all add: rv_inv_def rv_chan_def rv_wait_def)
  moreover have "rv_log ?s'" unfolding eq
    by (rule rv_log_intro) (use rv_taken [OF set] rv_ended [OF set] in \<open>auto simp: set_pc_def\<close>)
  ultimately show ?thesis by (simp add: rv_inv_def)
qed

lemma unat_Suc_word: "Suc (unat (x :: ('w::len) word)) < 2 ^ LENGTH('w) \<Longrightarrow> unat (x + 1) = Suc (unat x)"
  by (metis Suc_eq_plus1 unat_1 unat_add_lem unat_eq_zero add.right_neutral word_not_simps(1) len_gt_0 One_nat_def)

lemma send_try_rendezvous:
  fixes ch :: "('w::len word) channel"
  assumes "ch_capacity ch = 0" and "unat (ch_consumed_seq ch) \<le> unat (ch_next_seq ch)"
    and "Suc (unat (ch_next_seq ch)) < 2 ^ LENGTH('w) \<or> \<not> placed" and "send_try ch m = (ch', placed, out)"
  shows "placed \<and> \<not> ch_closed ch \<and> ch_slot ch = 0 \<and> out = Send_Wait_Taken (ch_next_seq ch + 1)
       \<and> ch' = ch\<lparr>ch_next_seq := ch_next_seq ch + 1, ch_slot := m, ch_slot_seq := ch_next_seq ch + 1\<rparr>
    \<or> \<not> placed \<and> ch' = ch \<and> (out = Send_Wait_Room \<or> out = Send_Closed)"
proof (cases "ch_slot ch = 0 \<and> \<not> ch_closed ch")
  case False
  then show ?thesis using assms(1,4) by (auto simp: send_try_def send_finish_def split: if_splits)
next
  case True
  then have placed using assms(1,4) by (simp add: send_try_def Let_def split: prod.splits)
  then have "unat (ch_next_seq ch + 1) = Suc (unat (ch_next_seq ch))"
    using assms(3) unat_Suc_word by blast
  then have "ch_consumed_seq ch < ch_next_seq ch + 1"
    using assms(2) unfolding word_less_nat_alt by linarith
  then show ?thesis using assms(1,4) True by (simp add: send_try_def send_await_def Let_def)
qed

lemma rv_inv_place:
  fixes s :: "('w::len word) chan_sys"
  assumes inv: "rv_inv s" and m: "m \<noteq> 0" and free: "ch_slot (sys_ch s) = 0" "\<not> ch_closed (sys_ch s)"
    and small: "Suc (length (sys_placed s)) < 2 ^ LENGTH('w)"
    and ch: "ch = (sys_ch s)\<lparr>ch_next_seq := ch_next_seq (sys_ch s) + 1, ch_slot := m,
                             ch_slot_seq := ch_next_seq (sys_ch s) + 1\<rparr>"
  shows "rv_inv (after_send t m e ch True (Send_Wait_Taken (ch_next_seq (sys_ch s) + 1)) s)"
proof -
  let ?s' = "after_send t m e ch True (Send_Wait_Taken (ch_next_seq (sys_ch s) + 1)) s"
  have n: "unat (ch_next_seq (sys_ch s)) = length (sys_placed s)" using inv by (simp add: rv_defs)
  have n1: "unat (ch_next_seq (sys_ch s) + 1) = Suc (length (sys_placed s))"
    using n small by (simp add: unat_Suc_word)
  have "rv_chan ?s'" using inv n1 free by (simp add: rv_defs after_send_def ch nth_append)
  moreover have "rv_log ?s'"
  proof (rule rv_log_intro)
    fix i m' assume "(i, m') \<in> set (sys_taken ?s')"
    with rv_taken [OF inv, of i m']
    show "i < unat (ch_consumed_seq (sys_ch ?s')) \<and> sys_placed ?s' ! i = m'"
      by (simp add: after_send_def ch nth_append)
  next
    fix i m' assume "(Some i, m') \<in> set (sys_failed ?s')"
    with rv_ended(3) [OF inv, of i m'] show "i < length (sys_placed ?s') \<and> i \<notin> fst ` set (sys_taken ?s')
        \<and> (ch_slot (sys_ch ?s') \<noteq> 0 \<longrightarrow> i \<noteq> length (sys_placed ?s') - 1)"
      by (simp add: after_send_def ended_failed_def ch)
  qed (use rv_ended [OF inv] in \<open>simp_all add: after_send_def ended_ok_def\<close>)
  moreover have "rv_wait ?s'"
  proof -
    have old: "unat q \<le> unat (ch_consumed_seq (sys_ch s)) \<and> unat q \<le> length (sys_placed s) \<and> 0 < unat q
        \<and> sys_placed s ! (unat q - 1) = m' \<and> (unat q - 1, m') \<in> set (sys_taken s)"
      if "sys_pc s t' = At_Taken m' q" for t' m' q
      using inv that free unfolding rv_defs by (meson not_le)
    have nz: "sys_pc s t' \<in> {Send_Called m', Send_Start m', Send_Ready m', At_Room m'} \<Longrightarrow> m' \<noteq> 0" for t' m'
      using inv unfolding rv_defs by blast
    have uniq: "sys_pc s t1 = At_Taken m1 q \<Longrightarrow> sys_pc s t2 = At_Taken m2 q \<Longrightarrow> t1 = t2" for t1 t2 m1 m2 q
      using inv unfolding rv_defs by blast
    have new: "sys_pc s t' \<noteq> At_Taken m' (ch_next_seq (sys_ch s) + 1)" for t' m'
      using old [of t' m' "ch_next_seq (sys_ch s) + 1"] n1 by auto
    have cons: "unat (ch_consumed_seq (sys_ch s)) \<le> length (sys_placed s)" using inv by (simp add: rv_defs)
    show ?thesis unfolding rv_wait_def
    proof (intro conjI allI impI)
      fix t1 t2 m1 m2 q
      assume "sys_pc ?s' t1 = At_Taken m1 q \<and> sys_pc ?s' t2 = At_Taken m2 q"
      then show "t1 = t2" using uniq [of t1 m1 q t2 m2] new by (auto simp: after_send_def split: if_splits)
    next
      fix t1 m1
      assume "sys_pc ?s' t1 \<in> {Send_Called m1, Send_Start m1, Send_Ready m1, At_Room m1}"
      then show "m1 \<noteq> 0" using nz [of t1 m1] by (auto simp: after_send_def split: if_splits)
    next
      fix t1 m1 q
      assume at: "sys_pc ?s' t1 = At_Taken m1 q"
      have new_pc: "t1 = t \<Longrightarrow> q = ch_next_seq (sys_ch s) + 1 \<and> m1 = m" and old_pc: "t1 \<noteq> t \<Longrightarrow> sys_pc s t1 = At_Taken m1 q"
        using at by (simp_all add: after_send_def)
      show "0 < unat q" "unat q \<le> length (sys_placed ?s')" "sys_placed ?s' ! (unat q - 1) = m1"
        using new_pc old_pc old [of t1 m1 q] n1 by (cases "t1 = t"; auto simp: after_send_def nth_append)+
      show "(unat q - 1, m1) \<in> set (sys_taken ?s')" if "unat q \<le> unat (ch_consumed_seq (sys_ch ?s'))"
        using that new_pc old_pc old [of t1 m1 q] n1 cons by (cases "t1 = t") (auto simp: after_send_def ch)
      assume late: "unat (ch_consumed_seq (sys_ch ?s')) < unat q \<and> \<not> ch_closed (sys_ch ?s')"
      show "ch_slot (sys_ch ?s') \<noteq> 0" using m by (simp add: after_send_def ch)
      show "ch_slot_seq (sys_ch ?s') = q"
        using late new_pc old_pc old [of t1 m1 q] by (cases "t1 = t") (auto simp: after_send_def ch)
    qed
  qed
  ultimately show ?thesis by (simp add: rv_inv_def)
qed

lemma rv_inv_received:
  assumes inv: "rv_inv s" and at: "sys_pc s t = At_Taken m q" and got: "q \<le> ch_consumed_seq (sys_ch s)"
  shows "rv_inv (after_send t m (Some (unat q - 1)) (sys_ch s) False Send_Ok s)" (is "rv_inv ?s'")
proof -
  have taken: "(unat q - 1, m) \<in> set (sys_taken s)"
    using rv_waiting(4) [OF inv at] got by (simp add: word_le_nat_alt)
  have "rv_chan ?s'" using inv by (simp add: rv_defs after_send_def)
  moreover have "rv_log ?s'"
    by (rule rv_log_intro)
      (use rv_taken [OF inv] rv_ended [OF inv] taken in \<open>auto simp: after_send_def ended_ok_def ended_failed_def\<close>)
  moreover have "rv_wait ?s'"
  proof (rule rv_wait_intro)
    fix t1 m1 assume "sys_pc ?s' t1 \<in> {Send_Called m1, Send_Start m1, Send_Ready m1, At_Room m1}"
    then show "m1 \<noteq> 0" using rv_calling [OF inv, of t1 m1] by (simp add: after_send_def split: if_splits)
  qed (use rv_waiting [OF inv] in \<open>auto simp: after_send_def split: if_splits\<close>)
  ultimately show ?thesis by (simp add: rv_inv_def)
qed

lemma rv_inv_withdrawn:
  assumes inv: "rv_inv s" and at: "sys_pc s t = At_Taken m q" and miss: "ch_consumed_seq (sys_ch s) < q"
    and out: "out = Send_Closed \<or> out = Send_Cancelled"
  shows "rv_inv (after_send t m (Some (unat q - 1)) ((sys_ch s)\<lparr>ch_slot := 0\<rparr>) False out s)" (is "rv_inv ?s'")
proof -
  have late: "unat (ch_consumed_seq (sys_ch s)) < unat q" using miss by (simp add: word_less_nat_alt)
  have gone: "unat q - 1 \<notin> fst ` set (sys_taken s)"
    using rv_taken [OF inv] late by (auto dest!: rv_taken [OF inv])
  have "rv_chan ?s'" using inv by (simp add: rv_defs after_send_def)
  moreover have "rv_log ?s'"
  proof (rule rv_log_intro)
    fix i m1 assume "(Some i, m1) \<in> set (sys_failed ?s')"
    then have "(Some i, m1) \<in> set (sys_failed s) \<or> i = unat q - 1"
      using out by (auto simp: after_send_def ended_failed_def)
    then show "i < length (sys_placed ?s') \<and> i \<notin> fst ` set (sys_taken ?s')
        \<and> (ch_slot (sys_ch ?s') \<noteq> 0 \<longrightarrow> i \<noteq> length (sys_placed ?s') - 1)"
      using rv_ended(3) [OF inv, of i m1] gone rv_waiting(1,2) [OF inv at] by (auto simp: after_send_def)
  qed (use rv_taken [OF inv] rv_ended [OF inv] out in \<open>auto simp: after_send_def ended_ok_def\<close>)
  moreover have "rv_wait ?s'"
  proof (rule rv_wait_intro)
    fix t1 m1 assume "sys_pc ?s' t1 \<in> {Send_Called m1, Send_Start m1, Send_Ready m1, At_Room m1}"
    then show "m1 \<noteq> 0" using rv_calling [OF inv, of t1 m1] out by (auto simp: after_send_def split: if_splits)
  next
    fix t1 m1 q1
    assume "sys_pc ?s' t1 = At_Taken m1 q1"
    then have old: "sys_pc s t1 = At_Taken m1 q1" "t1 \<noteq> t" using out by (auto simp: after_send_def split: if_splits)
    then show "0 < unat q1 \<and> unat q1 \<le> length (sys_placed ?s') \<and> sys_placed ?s' ! (unat q1 - 1) = m1
        \<and> (unat q1 \<le> unat (ch_consumed_seq (sys_ch ?s')) \<longrightarrow> (unat q1 - 1, m1) \<in> set (sys_taken ?s'))"
      using rv_waiting(1-4) [OF inv old(1)] by (simp add: after_send_def)
    assume "unat (ch_consumed_seq (sys_ch ?s')) < unat q1" and "\<not> ch_closed (sys_ch ?s')"
    then have "q1 = q" using rv_waiting(5) [OF inv at] rv_waiting(5) [OF inv old(1)] late by (simp add: after_send_def)
    then show "ch_slot (sys_ch ?s') \<noteq> 0 \<and> ch_slot_seq (sys_ch ?s') = q1"
      using rv_waiting(6) [OF inv at, of t1 m1] old by simp
  next
    fix t1 t2 m1 m2 q1
    assume "sys_pc ?s' t1 = At_Taken m1 q1" and "sys_pc ?s' t2 = At_Taken m2 q1"
    then have "sys_pc s t1 = At_Taken m1 q1" and "sys_pc s t2 = At_Taken m2 q1"
      using out by (auto simp: after_send_def split: if_splits)
    then show "t1 = t2" using rv_waiting(6) [OF inv, of t2 m2 q1 t1 m1] by simp
  qed
  ultimately show ?thesis by (simp add: rv_inv_def)
qed

lemma rv_inv_take:
  assumes inv: "rv_inv s" and full: "ch_slot (sys_ch s) \<noteq> 0"
  shows "rv_inv (after_recv t ((sys_ch s)\<lparr>ch_consumed_seq := ch_slot_seq (sys_ch s), ch_slot := 0\<rparr>)
                  (Recv_Msg (ch_slot (sys_ch s))) s)" (is "rv_inv ?s'")
proof -
  let ?n = "length (sys_placed s)"
  have n: "0 < ?n" "unat (ch_slot_seq (sys_ch s)) = ?n" "ch_slot (sys_ch s) = sys_placed s ! (?n - 1)"
    "unat (ch_consumed_seq (sys_ch s)) < ?n" "\<not> ch_closed (sys_ch s)" "ch_capacity (sys_ch s) = 0"
    using inv full by (auto simp: rv_defs)
  have log: "sys_taken ?s' = sys_taken s @ [(?n - 1, ch_slot (sys_ch s))]"
    by (simp add: after_recv_def taken_index_def n)
  have earlier: "i < ?n - 1" if "(i, m) \<in> set (sys_taken s)" for i m
    using rv_taken [OF inv that] n(4) by linarith
  have "rv_chan ?s'" using inv n by (simp add: rv_defs after_recv_def)
  moreover have "rv_log ?s'"
  proof (rule rv_log_intro)
    fix i m1 assume "(i, m1) \<in> set (sys_taken ?s')"
    then have "(i, m1) \<in> set (sys_taken s) \<or> (i, m1) = (?n - 1, ch_slot (sys_ch s))" unfolding log by auto
    moreover have "unat (ch_consumed_seq (sys_ch ?s')) = ?n" "sys_placed ?s' = sys_placed s"
      using n(2) by (simp_all add: after_recv_def)
    ultimately show "i < unat (ch_consumed_seq (sys_ch ?s')) \<and> sys_placed ?s' ! i = m1"
      using rv_taken [OF inv, of i m1] n(1,3) by auto
  next
    show "sorted_wrt (<) (map fst (sys_taken ?s'))"
      using rv_ended(1) [OF inv] earlier by (auto simp: log sorted_wrt_append)
  next
    fix e m1 assume "(e, m1) \<in> set (sys_ok ?s')"
    then show "\<exists>i. e = Some i \<and> (i, m1) \<in> set (sys_taken ?s')"
      using rv_ended(2) [OF inv, of e m1] by (auto simp: after_recv_def)
  next
    fix i m1 assume "(Some i, m1) \<in> set (sys_failed ?s')"
    then show "i < length (sys_placed ?s') \<and> i \<notin> fst ` set (sys_taken ?s')
        \<and> (ch_slot (sys_ch ?s') \<noteq> 0 \<longrightarrow> i \<noteq> length (sys_placed ?s') - 1)"
      using rv_ended(3) [OF inv, of i m1] full by (simp add: log) (simp add: after_recv_def)
  qed
  moreover have "rv_wait ?s'"
  proof (rule rv_wait_intro)
    fix t1 m1 assume "sys_pc ?s' t1 \<in> {Send_Called m1, Send_Start m1, Send_Ready m1, At_Room m1}"
    then show "m1 \<noteq> 0" using rv_calling [OF inv, of t1 m1] by (simp add: after_recv_def split: if_splits)
  next
    fix t1 m1 q1
    assume "sys_pc ?s' t1 = At_Taken m1 q1"
    then have old: "sys_pc s t1 = At_Taken m1 q1" by (simp add: after_recv_def split: if_splits)
    note w = rv_waiting [OF inv old]
    have "(unat q1 - 1, m1) \<in> set (sys_taken ?s')"
    proof (cases "unat q1 \<le> unat (ch_consumed_seq (sys_ch s))")
      case True
      with w(4) show ?thesis by (simp add: log)
    next
      case False
      with w(5) n have "q1 = ch_slot_seq (sys_ch s)" by simp
      with w(3) n(2,3) have "(unat q1 - 1, m1) = (?n - 1, ch_slot (sys_ch s))" by simp
      then show ?thesis unfolding log by simp
    qed
    then show "0 < unat q1 \<and> unat q1 \<le> length (sys_placed ?s') \<and> sys_placed ?s' ! (unat q1 - 1) = m1
        \<and> (unat q1 \<le> unat (ch_consumed_seq (sys_ch ?s')) \<longrightarrow> (unat q1 - 1, m1) \<in> set (sys_taken ?s'))"
      using w(1-3) by (simp add: after_recv_def)
    assume "unat (ch_consumed_seq (sys_ch ?s')) < unat q1"
    then show "ch_slot (sys_ch ?s') \<noteq> 0 \<and> ch_slot_seq (sys_ch ?s') = q1"
      using w(2) n by (simp add: after_recv_def)
  next
    fix t1 t2 m1 m2 q1
    assume "sys_pc ?s' t1 = At_Taken m1 q1" and "sys_pc ?s' t2 = At_Taken m2 q1"
    then have "sys_pc s t1 = At_Taken m1 q1" and "sys_pc s t2 = At_Taken m2 q1"
      by (auto simp: after_recv_def split: if_splits)
    then show "t1 = t2" using rv_waiting(6) [OF inv, of t2 m2 q1 t1 m1] by simp
  qed
  ultimately show ?thesis by (simp add: rv_inv_def)
qed

lemma rv_inv_recv_go:
  assumes inv: "rv_inv s" and go: "recv_try (sys_ch s) = (ch, out)"
  shows "rv_inv (after_recv t ch out s)"
proof (cases "ch_slot (sys_ch s) = 0")
  case True
  have "ch_capacity (sys_ch s) = 0" using inv by (simp add: rv_defs)
  with True go have "after_recv t ch out s = set_pc t (recv_pc out) s" and "\<And>m. out \<noteq> Recv_Msg m"
    by (auto simp: recv_try_def after_recv_def set_pc_def split: if_splits)
  with inv show ?thesis by (cases out) (simp_all add: rv_inv_quiet)
next
  case False
  have "ch_capacity (sys_ch s) = 0" using inv by (simp add: rv_defs)
  with False go have "ch = (sys_ch s)\<lparr>ch_consumed_seq := ch_slot_seq (sys_ch s), ch_slot := 0\<rparr>"
    and "out = Recv_Msg (ch_slot (sys_ch s))" by (auto simp: recv_try_def)
  with rv_inv_take [OF inv False] show ?thesis by simp
qed

lemma rv_inv_send_go:
  fixes s :: "('w::len word) chan_sys"
  assumes inv: "rv_inv s" and m: "m \<noteq> 0" and go: "send_try (sys_ch s) m = (ch, placed, out)"
    and small: "length (sys_placed (after_send t m e ch placed out s)) < 2 ^ LENGTH('w)"
  shows "rv_inv (after_send t m (if placed then e else None) ch placed out s)"
proof -
  have n: "ch_capacity (sys_ch s) = 0" "unat (ch_next_seq (sys_ch s)) = length (sys_placed s)"
    "unat (ch_consumed_seq (sys_ch s)) \<le> unat (ch_next_seq (sys_ch s))" using inv by (simp_all add: rv_defs)
  have "Suc (unat (ch_next_seq (sys_ch s))) < 2 ^ LENGTH('w) \<or> \<not> placed"
    using small n by (simp add: after_send_def split: if_splits)
  from send_try_rendezvous [OF n(1,3) this go] consider
      (put) "placed" "\<not> ch_closed (sys_ch s)" "ch_slot (sys_ch s) = 0"
        "out = Send_Wait_Taken (ch_next_seq (sys_ch s) + 1)"
        "ch = (sys_ch s)\<lparr>ch_next_seq := ch_next_seq (sys_ch s) + 1, ch_slot := m, ch_slot_seq := ch_next_seq (sys_ch s) + 1\<rparr>"
    | (wait) "\<not> placed" "ch = sys_ch s" "out = Send_Wait_Room"
    | (closed) "\<not> placed" "ch = sys_ch s" "out = Send_Closed" by (elim disjE conjE) simp_all
  then show ?thesis
  proof cases
    case put
    have "Suc (length (sys_placed s)) < 2 ^ LENGTH('w)" using small put(1) by (simp add: after_send_def)
    from rv_inv_place [OF inv m put(3,2) this put(5)] put(1,4) show ?thesis by simp
  next
    case wait
    then have "after_send t m (if placed then e else None) ch placed out s = set_pc t (At_Room m) s"
      by (simp add: after_send_def set_pc_def ended_ok_def ended_failed_def)
    with rv_inv_set_pc [OF inv, of "At_Room m" t] m show ?thesis by simp
  next
    case closed
    with rv_inv_leave [OF inv] show ?thesis by simp
  qed
qed

text \<open>A sender that has placed its node, woken or cancelled.\<close>

lemma rv_missed_slot:
  assumes inv: "rv_inv s" and "ch_closed (sys_ch s)"
  shows "(sys_ch s)\<lparr>ch_slot := 0\<rparr> = sys_ch s"
proof -
  have "ch_slot (sys_ch s) = 0" using assms by (simp add: rv_defs)
  then show ?thesis by (cases "sys_ch s") simp
qed

lemma rv_inv_woken:
  assumes inv: "rv_inv s" and at: "sys_pc s t = At_Taken m q" and go: "send_await (sys_ch s) q = (ch, out)"
  shows "rv_inv (after_send t m (Some (unat q - 1)) ch False out s)"
proof -
  have cap: "ch_capacity (sys_ch s) = 0" using inv by (simp add: rv_defs)
  have q: "q \<noteq> 0" using rv_waiting(1) [OF inv at] by auto
  consider (got) "q \<le> ch_consumed_seq (sys_ch s)"
    | (open_ch) "ch_consumed_seq (sys_ch s) < q" "\<not> ch_closed (sys_ch s)"
    | (closed) "ch_consumed_seq (sys_ch s) < q" "ch_closed (sys_ch s)" by fastforce
  then show ?thesis
  proof cases
    case got
    then have "\<not> ch_consumed_seq (sys_ch s) < q" by simp
    with go cap q got have "ch = sys_ch s" "out = Send_Ok" by (auto simp: send_await_def send_finish_def)
    with rv_inv_received [OF inv at got] show ?thesis by simp
  next
    case open_ch
    with go have "ch = sys_ch s" "out = Send_Wait_Taken q" by (auto simp: send_await_def)
    then have "after_send t m (Some (unat q - 1)) ch False out s = s"
      using at by (cases s) (auto simp: after_send_def ended_ok_def ended_failed_def fun_upd_idem)
    with inv show ?thesis by simp
  next
    case closed
    with go have "ch = (sys_ch s)\<lparr>ch_slot := 0\<rparr>" "out = Send_Closed"
      using rv_missed_slot [OF inv closed(2)] by (auto simp: send_await_def send_finish_def)
    with rv_inv_withdrawn [OF inv at closed(1)] show ?thesis by simp
  qed
qed

lemma rv_inv_cancelled:
  assumes inv: "rv_inv s" and at: "sys_pc s t = At_Taken m q" and go: "send_withdraw (sys_ch s) q = (ch, out)"
  shows "rv_inv (after_send t m (Some (unat q - 1)) ch False out s)"
proof (cases "q \<le> ch_consumed_seq (sys_ch s)")
  case True
  have "ch_capacity (sys_ch s) = 0" "q \<noteq> 0" using inv rv_waiting(1) [OF inv at] by (auto simp: rv_defs)
  with True go have "ch = sys_ch s" "out = Send_Ok" by (auto simp: send_withdraw_def send_finish_def Let_def)
  with rv_inv_received [OF inv at True] show ?thesis by simp
next
  case False
  then have less: "ch_consumed_seq (sys_ch s) < q" by simp
  have "ch = (sys_ch s)\<lparr>ch_slot := 0\<rparr>"
  proof (cases "ch_closed (sys_ch s)")
    case True
    then show ?thesis using go rv_missed_slot [OF inv True] by (auto simp: send_withdraw_def Let_def split: if_splits)
  next
    case False
    then have "ch_slot (sys_ch s) \<noteq> 0" "ch_slot_seq (sys_ch s) = q"
      using rv_waiting(5) [OF inv at] less by (simp_all add: word_less_nat_alt)
    then show ?thesis using go less by (simp add: send_withdraw_def Let_def)
  qed
  moreover have "out = Send_Cancelled" using go less by (auto simp: send_withdraw_def send_finish_def Let_def)
  ultimately show ?thesis using rv_inv_withdrawn [OF inv at less] by simp
qed

lemma rv_inv_close:
  assumes inv: "rv_inv s" and cl: "channel_close (sys_ch s) = Some ch"
  shows "rv_inv (s\<lparr>sys_ch := ch\<rparr>)"
proof -
  have ch: "ch = (sys_ch s)\<lparr>ch_closed := True, ch_slot := 0\<rparr>"
    using cl inv by (simp add: channel_close_def rv_defs split: if_splits)
  have "rv_chan (s\<lparr>sys_ch := ch\<rparr>)" using inv by (simp add: rv_defs ch)
  moreover have "rv_log (s\<lparr>sys_ch := ch\<rparr>)"
    by (rule rv_log_intro) (use rv_taken [OF inv] rv_ended [OF inv] in \<open>auto simp: ch\<close>)
  moreover have "rv_wait (s\<lparr>sys_ch := ch\<rparr>)"
  proof (rule rv_wait_intro)
    fix t m q assume "sys_pc (s\<lparr>sys_ch := ch\<rparr>) t = At_Taken m q"
    then have old: "sys_pc s t = At_Taken m q" by simp
    show "0 < unat q \<and> unat q \<le> length (sys_placed (s\<lparr>sys_ch := ch\<rparr>)) \<and> sys_placed (s\<lparr>sys_ch := ch\<rparr>) ! (unat q - 1) = m
      \<and> (unat q \<le> unat (ch_consumed_seq (sys_ch (s\<lparr>sys_ch := ch\<rparr>))) \<longrightarrow> (unat q - 1, m) \<in> set (sys_taken (s\<lparr>sys_ch := ch\<rparr>)))"
      using rv_waiting(1-4) [OF inv old] by (simp add: ch)
  next
    fix t1 t2 m1 m2 q
    assume "sys_pc (s\<lparr>sys_ch := ch\<rparr>) t1 = At_Taken m1 q" and "sys_pc (s\<lparr>sys_ch := ch\<rparr>) t2 = At_Taken m2 q"
    then show "t1 = t2" using rv_waiting(6) [OF inv, of t2 m2 q t1 m1] by simp
  next
    fix t m assume "sys_pc (s\<lparr>sys_ch := ch\<rparr>) t \<in> {Send_Called m, Send_Start m, Send_Ready m, At_Room m}"
    then show "m \<noteq> 0" using rv_calling [OF inv, of t m] by simp
  qed (simp add: ch)
  ultimately show ?thesis by (simp add: rv_inv_def)
qed

lemma placed_grows:
  assumes "chan_step s s'"
  shows "length (sys_placed s) \<le> length (sys_placed s')"
  using assms by cases (simp_all add: set_pc_def after_send_def after_recv_def)

lemma rv_inv_step:
  fixes s :: "('w::len word) chan_sys"
  assumes "chan_step s s'" and inv: "rv_inv s" and small: "length (sys_placed s') < 2 ^ LENGTH('w)"
  shows "rv_inv s'"
  using assms(1)
proof cases
  case (call_send t m)
  with rv_inv_set_pc [OF inv, of "Send_Called m" t] show ?thesis by simp
next
  case (send_flag t m)
  with rv_inv_leave [OF inv] rv_inv_set_pc [OF inv, of "Send_Start m" t] rv_calling [OF inv, of t m]
  show ?thesis by simp
next
  case (send_import t m)
  with rv_inv_leave [OF inv] rv_inv_set_pc [OF inv, of "Send_Ready m" t] rv_calling [OF inv, of t m]
  show ?thesis by simp
next
  case (send_go t m ch placed out)
  then have m: "m \<noteq> 0" using rv_calling [OF inv, of t m] by auto
  show ?thesis unfolding send_go(1)
    by (rule rv_inv_send_go [OF inv m send_go(3)]) (use small send_go in \<open>simp add: after_send_def\<close>)
next
  case (send_woken t m q ch out)
  then show ?thesis using rv_inv_woken [OF inv] by simp
next
  case (room_cancelled t m)
  have "send_finish (sys_ch s) 0 True = Send_Cancelled" by (simp add: send_finish_def)
  with room_cancelled rv_inv_leave [OF inv] show ?thesis by simp
next
  case (taken_cancelled t m q ch out)
  then show ?thesis using rv_inv_cancelled [OF inv] by simp
next
  case (recv_go t ch out)
  then show ?thesis using rv_inv_recv_go [OF inv] by simp
next
  case (close ch)
  then show ?thesis using rv_inv_close [OF inv] by simp
next
  case (cancel t)
  with inv show ?thesis by (simp add: rv_inv_def rv_chan_def rv_log_def rv_wait_def)
qed (use inv in \<open>simp_all add: rv_inv_quiet\<close>)

lemma rv_inv_reach:
  fixes s :: "('w::len word) chan_sys"
  assumes "chan_reach (channel_init 0) s" and "length (sys_placed s) < 2 ^ LENGTH('w)"
  shows "rv_inv s"
  using assms
proof (induction rule: chan_reach.induct)
  case reach_start
  then show ?case by (simp add: rv_defs chan_start_def channel_init_def)
next
  case (reach_step s s')
  have "length (sys_placed s) < 2 ^ LENGTH('w)"
    using placed_grows [OF reach_step.hyps(2)] reach_step.prems by (rule le_less_trans)
  then show ?case using reach_step.IH reach_step.hyps(2) reach_step.prems by (blast intro: rv_inv_step)
qed

subsection \<open>When the counter wraps\<close>

definition quiet_after :: "nat \<Rightarrow> ('w::len word) chan_sys \<Rightarrow> bool" where
  "quiet_after n s \<longleftrightarrow> sys_ch s = (channel_init 0)\<lparr>ch_next_seq := of_nat n, ch_consumed_seq := of_nat n, ch_slot_seq := of_nat n\<rparr>
     \<and> sys_pc s = (\<lambda>_. Idle) \<and> sys_cancel s = (\<lambda>_. False)
     \<and> length (sys_placed s) = n \<and> length (sys_taken s) = n \<and> length (sys_ok s) = n"

lemma reach_called:
  assumes "chan_reach c s" and q: "sys_pc s = (\<lambda>_. Idle)" "sys_cancel s = (\<lambda>_. False)" "\<not> ch_closed (sys_ch s)" and m: "m \<noteq> 0"
  shows "chan_reach c (set_pc 0 (Send_Ready m) s)"
proof -
  have "chan_reach c (set_pc 0 (Send_Called m) s)"
    by (rule reach_step [OF assms(1) call_send]) (simp_all add: q m)
  from reach_step [OF this send_flag, of 0 m] q(2) have "chan_reach c (set_pc 0 (Send_Start m) s)"
    by (simp add: set_pc_def)
  from reach_step [OF this send_import, of 0 m] q(3) show ?thesis by (simp add: set_pc_def)
qed

lemma reach_called_quiet:
  assumes "chan_reach c s" and "quiet_after n s"
  shows "chan_reach c (set_pc 0 (Send_Ready 1) s)"
  by (rule reach_called) (use assms in \<open>simp_all add: quiet_after_def channel_init_def\<close>)

lemma of_nat_Suc_less: "Suc n < 2 ^ LENGTH('w) \<Longrightarrow> (of_nat n :: ('w::len) word) < of_nat n + 1"
  by (simp add: word_less_nat_alt unat_of_nat unat_Suc_word take_bit_nat_eq_self)

lemma reach_round:
  fixes s :: "('w::len word) chan_sys"
  assumes reach: "chan_reach c s" and quiet: "quiet_after n s" and n: "Suc n < 2 ^ LENGTH('w)"
  shows "\<exists>s'. chan_reach c s' \<and> quiet_after (Suc n) s'"
proof -
  let ?q = "of_nat n + 1 :: 'w word"
  have ch: "sys_ch s = (channel_init 0)\<lparr>ch_next_seq := of_nat n, ch_consumed_seq := of_nat n, ch_slot_seq := of_nat n\<rparr>"
    and pc: "sys_pc s = (\<lambda>_. Idle)" and cancel: "sys_cancel s = (\<lambda>_. False)"
    and logs: "length (sys_placed s) = n" "length (sys_taken s) = n" "length (sys_ok s) = n"
    using quiet by (simp_all add: quiet_after_def)
  have less: "(of_nat n :: 'w word) < ?q" and nz: "?q \<noteq> 0"
    using of_nat_Suc_less [OF n] by auto
  define c1 :: "'w word channel" where
    "c1 = (channel_init 0)\<lparr>ch_next_seq := ?q, ch_consumed_seq := of_nat n, ch_slot_seq := ?q, ch_slot := 1\<rparr>"
  define c2 :: "'w word channel" where
    "c2 = (channel_init 0)\<lparr>ch_next_seq := ?q, ch_consumed_seq := ?q, ch_slot_seq := ?q\<rparr>"
  have sent: "send_try (sys_ch s) 1 = (c1, True, Send_Wait_Taken ?q)"
    using less by (simp add: send_try_def send_await_def ch c1_def channel_init_def Let_def)
  have took: "recv_try c1 = (c2, Recv_Msg 1)"
    by (simp add: recv_try_def c1_def c2_def channel_init_def)
  have woke: "send_await c2 ?q = (c2, Send_Ok)"
    using nz by (simp add: send_await_def send_finish_def c2_def channel_init_def)
  define s1 where "s1 = after_send 0 1 (Some n) c1 True (Send_Wait_Taken ?q) (set_pc 0 (Send_Ready 1) s)"
  have r1: "chan_reach c s1"
    using reach_step [OF reach_called_quiet [OF reach quiet] send_go, of 0 1 c1 True "Send_Wait_Taken ?q"] sent logs
    by (simp add: s1_def set_pc_def)
  have r2: "chan_reach c (set_pc 1 Recv_Called s1)"
    by (rule reach_step [OF r1 call_recv]) (simp add: s1_def after_send_def set_pc_def pc)
  have r3: "chan_reach c (set_pc 1 Recv_Ready s1)"
    using reach_step [OF r2 recv_flag, of 1] cancel by (simp add: s1_def after_send_def set_pc_def)
  define s2 where "s2 = after_recv 1 c2 (Recv_Msg 1) (set_pc 1 Recv_Ready s1)"
  have r4: "chan_reach c s2" unfolding s2_def
    by (rule reach_step [OF r3 recv_go]) (simp_all add: set_pc_def s1_def after_send_def took)
  define s3 where "s3 = after_send 0 1 (Some (unat ?q - 1)) c2 False Send_Ok s2"
  have "chan_reach c s3" unfolding s3_def
    by (rule reach_step [OF r4 send_woken])
      (simp_all add: s2_def after_recv_def s1_def after_send_def set_pc_def cancel woke)
  moreover have "sys_pc s3 = (\<lambda>_. Idle)"
    by (rule ext) (simp add: s3_def s2_def s1_def after_send_def after_recv_def set_pc_def pc)
  then have "quiet_after (Suc n) s3"
    using logs cancel by (simp add: quiet_after_def s3_def s2_def s1_def after_send_def after_recv_def set_pc_def
        c2_def ended_ok_def add.commute)
  ultimately show ?thesis by blast
qed

lemma reach_rounds:
  "n < 2 ^ LENGTH('w) \<Longrightarrow> \<exists>s :: ('w::len word) chan_sys. chan_reach (channel_init 0) s \<and> quiet_after n s"
proof (induction n)
  case 0
  have "quiet_after 0 (chan_start (channel_init 0) :: ('w word) chan_sys)"
    by (simp add: quiet_after_def chan_start_def channel_init_def)
  then show ?case using reach_start by blast
next
  case (Suc n)
  then obtain s :: "('w word) chan_sys" where "chan_reach (channel_init 0) s" "quiet_after n s" by auto
  with Suc.prems show ?case using reach_round by blast
qed

text \<open>C10: The bound of the rendezvous guarantee is tight: after \<open>2^w - 1\<close> rendezvous the \<open>unsigned long\<close>
  counter wraps to 0, and the next \<open>_channel_send\<close> returns successfully although no receiver took its
  value (it is still in the slot): more sends have succeeded than values were received.\<close>

theorem channel_counter_wraps:
  "\<exists>s :: ('w::len word) chan_sys. chan_reach (channel_init 0) s \<and> length (sys_placed s) = 2 ^ LENGTH('w)
     \<and> length (sys_taken s) < length (sys_ok s) \<and> ch_slot (sys_ch s) \<noteq> 0"
proof -
  define n :: nat where "n = 2 ^ LENGTH('w) - 1"
  have n: "Suc n = 2 ^ LENGTH('w)" by (simp add: n_def)
  then obtain s :: "('w word) chan_sys" where reach: "chan_reach (channel_init 0) s" and quiet: "quiet_after n s"
    using reach_rounds [of n] by (metis lessI)
  have wrap: "(of_nat n + 1 :: 'w word) = 0" by (metis n of_nat_Suc add.commute of_nat_2p word_exp_length_eq_0 of_nat_power of_nat_numeral)
  obtain ch where sent: "send_try (sys_ch s) 1 = (ch, True, Send_Ok)" and slot: "ch_slot ch = 1"
    using quiet wrap by (simp add: quiet_after_def send_try_def send_await_def send_finish_def channel_init_def Let_def)
  let ?s = "after_send 0 1 (Some n) ch True Send_Ok (set_pc 0 (Send_Ready 1) s)"
  have "chan_reach (channel_init 0) ?s"
    using reach_step [OF reach_called_quiet [OF reach quiet] send_go, of 0 1 ch True Send_Ok] sent quiet
    by (simp add: set_pc_def quiet_after_def)
  moreover have "length (sys_placed ?s) = 2 ^ LENGTH('w)" "length (sys_taken ?s) < length (sys_ok ?s)" "ch_slot (sys_ch ?s) \<noteq> 0"
    using quiet n slot by (simp_all add: after_send_def set_pc_def quiet_after_def ended_ok_def)
  ultimately show ?thesis by blast
qed

subsection \<open>What a channel guarantees\<close>

text \<open>C8: A buffered channel, used by any number of threads with any interleaving of sends, receives,
  cancellations and a close, delivers first in first out and exactly once: what has been received
  followed by what is in the ring is what was put in, in order; the sends that returned are exactly the
  ones that put their value in, and a send that croaked (closed or cancelled) put nothing in; the
  ring never holds more than the capacity.\<close>

theorem channel_buffered_fifo:
  assumes "0 < c" and "chan_reach (channel_init c) s"
  shows "map snd (sys_taken s) @ ring_contents (sys_ch s) = sys_placed s
    \<and> sys_ok s = indexed (sys_placed s) \<and> fst ` set (sys_failed s) \<subseteq> {None}
    \<and> channel_size (sys_ch s) = length (ring_contents (sys_ch s)) \<and> channel_size (sys_ch s) \<le> c"
  using buf_inv_reach [OF assms(2,1)] assms(1) by (simp add: buf_inv_def channel_size_def ring_ok_def)

theorem channel_buffered_fifo_witness:
  "\<exists>s :: (64 word) chan_sys. chan_reach (channel_init 2) s \<and> sys_placed s = [7] \<and> ring_contents (sys_ch s) = [7]
     \<and> channel_size (sys_ch s) = 1"
proof -
  let ?ch = "channel_init 2 :: (64 word) channel"
  let ?s = "after_send 0 7 (Some 0) (ring_put 7 ?ch) True Send_Ok (set_pc 0 (Send_Ready 7) (chan_start ?ch))"
  have called: "chan_reach ?ch (set_pc 0 (Send_Ready 7) (chan_start ?ch))"
    by (rule reach_called [OF reach_start]) (simp_all add: chan_start_def channel_init_def)
  have "chan_reach ?ch ?s"
    using reach_step [OF called send_go, of 0 7 "ring_put 7 ?ch" True Send_Ok]
    by (simp add: set_pc_def chan_start_def send_try_def channel_init_def send_finish_def ring_put_def)
  moreover have "sys_placed ?s = [7]" "sys_taken ?s = []"
    by (simp_all add: after_send_def set_pc_def chan_start_def)
  ultimately show ?thesis using channel_buffered_fifo [of 2 ?s] by fastforce
qed

text \<open>C7: On a channel without capacity, as long as fewer than \<open>2^w\<close> values were put in the slot (\<open>w\<close> the
  width of \<open>unsigned long\<close>), with any interleaving of senders, receivers, cancellations and a close:
  a \<open>_channel_send\<close> that returned had its value received; a send that croaked never has its value
  received, now or later; and every received value is one that was put in, in order, at most once.\<close>

theorem channel_rendezvous_exact:
  fixes s :: "('w::len word) chan_sys"
  assumes "chan_reach (channel_init 0) s" and "length (sys_placed s) < 2 ^ LENGTH('w)"
  shows "(\<forall>(e, m)\<in>set (sys_ok s). \<exists>i. e = Some i \<and> (i, m) \<in> set (sys_taken s))
    \<and> (\<forall>(e, m)\<in>set (sys_failed s). \<forall>i. e = Some i \<longrightarrow> i \<notin> fst ` set (sys_taken s))
    \<and> (\<forall>(i, m)\<in>set (sys_taken s). i < length (sys_placed s) \<and> sys_placed s ! i = m)
    \<and> sorted_wrt (<) (map fst (sys_taken s))"
proof -
  have inv: "rv_inv s" using assms by (rule rv_inv_reach)
  have "(i, m') \<notin> set (sys_taken s)" if "(Some i, m) \<in> set (sys_failed s)" for i m m'
    using rv_ended(3) [OF inv that] by force
  then show ?thesis using rv_ended(1,2) [OF inv] rv_taken [OF inv] by auto
qed

theorem channel_rendezvous_exact_witness:
  "\<exists>s :: (8 word) chan_sys. chan_reach (channel_init 0) s \<and> length (sys_ok s) = 1
     \<and> (\<forall>(e, m)\<in>set (sys_ok s). \<exists>i. e = Some i \<and> (i, m) \<in> set (sys_taken s))"
proof -
  obtain s :: "(8 word) chan_sys" where s: "chan_reach (channel_init 0) s" "quiet_after 1 s"
    using reach_rounds [where 'w = 8, of 1] by auto
  with channel_rendezvous_exact [OF s(1)] show ?thesis by (auto simp: quiet_after_def)
qed

fun drain :: "nat \<Rightarrow> ('w::len word) channel \<Rightarrow> recv_out list" where
  "drain 0 ch = []"
| "drain (Suc n) ch = snd (recv_try ch) # drain n (fst (recv_try ch))"

lemma drain_closed:
  "ring_ok ch \<Longrightarrow> ch_closed ch \<Longrightarrow> ch_count ch = n \<Longrightarrow> drain (Suc n) ch = map Recv_Msg (ring_contents ch) @ [Recv_Closed]"
proof (induction n arbitrary: ch)
  case 0
  then show ?case by (simp add: recv_try_def ring_ok_def ring_contents_def)
next
  case (Suc n)
  have take: "recv_try ch = (fst (ring_take ch), Recv_Msg (snd (ring_take ch)))"
    using Suc.prems by (simp add: recv_try_def ring_ok_def split: prod.splits)
  have law: "ring_ok (fst (ring_take ch))" "ring_contents ch = snd (ring_take ch) # ring_contents (fst (ring_take ch))"
    using ring_take_law [OF Suc.prems(1)] Suc.prems(3) by simp_all
  have "drain (Suc n) (fst (ring_take ch)) = map Recv_Msg (ring_contents (fst (ring_take ch))) @ [Recv_Closed]"
    using law(1) Suc.prems by (intro Suc.IH) simp_all
  then show ?case using law(2) take by simp
qed



end
