(* ===== verification/Go_Platform.thy ===== *)
theory Go_Platform
  imports DD_Prelude "HOL-Library.Multiset"
begin

section \<open>The threading layer (GoRoutine012Native.h)\<close>

text \<open>
  What the portability layer computes itself, beside naming the calls of pthreads and Win32: deadlines of timed waits, the
  recursive mutex, threads on Windows with the block that carries function and argument, and the clock on Windows,
  which two threads may ask for the first time at once. What the system answers is an argument.
\<close>

subsection \<open>Timed waits\<close>

text \<open>\<open>time_t\<close> and \<open>long\<close> are 64 bits wide, read through \<open>sint\<close>; the number of milliseconds is unsigned.\<close>

record timespec =
  tv_sec :: "64 word"
  tv_nsec :: "64 word"

definition wait_deadline :: "timespec \<Rightarrow> u64 \<Rightarrow> timespec" where
  "wait_deadline now milliseconds =
     (let sec = milliseconds div 1000;
          rem_ms = milliseconds mod 1000;
          s = tv_sec now + sec;
          n = tv_nsec now + rem_ms * 1000000
      in if sint n \<ge> 1000000000 then \<lparr>tv_sec = s + 1, tv_nsec = n - 1000000000\<rparr> else \<lparr>tv_sec = s, tv_nsec = n\<rparr>)"

definition go_cond_wait_ms :: "(timespec \<Rightarrow> int) \<Rightarrow> timespec \<Rightarrow> u64 \<Rightarrow> int" where
  "go_cond_wait_ms timedwait now milliseconds = timedwait (wait_deadline now milliseconds)"

definition ETIMEDOUT :: int where "ETIMEDOUT = 138"
definition ERROR_TIMEOUT :: "32 word" where "ERROR_TIMEOUT = 1460"

text \<open>On Windows the system takes the time itself: it answers that it woke the thread, or an error.\<close>

definition go_cond_wait_ms_win :: "(32 word \<Rightarrow> 32 word option) \<Rightarrow> 32 word \<Rightarrow> int" where
  "go_cond_wait_ms_win sleep milliseconds =
     (case sleep milliseconds of None \<Rightarrow> 0 | Some err \<Rightarrow> if err = ERROR_TIMEOUT then ETIMEDOUT else sint err)"

definition GO_WAIT_INFINITE :: "32 word" where "GO_WAIT_INFINITE = 0xFFFFFFFF"

definition go_cond_wait_win :: "(32 word \<Rightarrow> 32 word option) \<Rightarrow> int" where
  "go_cond_wait_win sleep = go_cond_wait_ms_win sleep GO_WAIT_INFINITE"

subsection \<open>The recursive mutex\<close>

record mutex_os =
  mo_attrs :: nat
  mo_mutexes :: nat

definition attr_destroy :: "(mutex_os, unit) xs" where
  "attr_destroy s = (if mo_attrs s = 0 then (Fault, s) else (Ret (), s\<lparr>mo_attrs := mo_attrs s - 1\<rparr>))"

definition go_mutex_init_recursive :: "int \<Rightarrow> int \<Rightarrow> int \<Rightarrow> (mutex_os, int) xs" where
  "go_mutex_init_recursive attr_init settype mutex_init =
     (if attr_init \<noteq> 0 then xs_return attr_init
      else xs_then (xs_modify (\<lambda>s. s\<lparr>mo_attrs := mo_attrs s + 1\<rparr>))
        (if settype \<noteq> 0 then xs_then attr_destroy (xs_return settype)
         else xs_then (if mutex_init = 0 then xs_modify (\<lambda>s. s\<lparr>mo_mutexes := mo_mutexes s + 1\<rparr>) else xs_return ())
                (xs_then attr_destroy (xs_return mutex_init))))"

subsection \<open>Threads on Windows\<close>

text \<open>A thread is created with a block that holds function and argument; the thread itself frees the block before
  it runs the function. Functions and arguments are numbers. \<open>wt_new\<close> lists the blocks of the threads that
  have not begun yet.\<close>

record win_threads =
  wt_blocks :: "nat \<Rightarrow> (nat \<times> nat) option"
  wt_new :: "nat list"
  wt_handles :: "nat multiset"
  wt_ran :: "(nat \<times> nat) list"

definition wt_start :: win_threads where
  "wt_start = \<lparr>wt_blocks = (\<lambda>_. None), wt_new = [], wt_handles = {#}, wt_ran = []\<rparr>"

definition ENOMEM :: int where "ENOMEM = 12"
definition EAGAIN :: int where "EAGAIN = 11"

definition wt_free :: "nat \<Rightarrow> (win_threads, unit) xs" where
  "wt_free p s = (if wt_blocks s p = None then (Fault, s) else (Ret (), s\<lparr>wt_blocks := (wt_blocks s)(p := None)\<rparr>))"

text \<open>The answer of \<open>CreateThread\<close> is a handle or the error; the result is the code and the handle of \<open>*thread\<close>.\<close>

definition go_thread_create :: "nat option \<Rightarrow> 32 word + nat \<Rightarrow> nat \<times> nat \<Rightarrow> (win_threads, int \<times> nat option) xs" where
  "go_thread_create malloc create job =
     (case malloc of
        None \<Rightarrow> xs_return (ENOMEM, None)
      | Some p \<Rightarrow> xs_then (xs_modify (\<lambda>s. s\<lparr>wt_blocks := (wt_blocks s)(p := Some job)\<rparr>))
          (case create of
             Inl err \<Rightarrow> xs_then (wt_free p) (xs_return (if sint err \<noteq> 0 then sint err else EAGAIN, None))
           | Inr h \<Rightarrow> xs_then (xs_modify (\<lambda>s. s\<lparr>wt_handles := add_mset h (wt_handles s), wt_new := wt_new s @ [p]\<rparr>))
                       (xs_return (0, Some h))))"

definition go_win_thread_thunk :: "nat \<Rightarrow> (win_threads, unit) xs" where
  "go_win_thread_thunk p = xs_bind xs_get (\<lambda>s. case wt_blocks s p of
     None \<Rightarrow> xs_fault
   | Some job \<Rightarrow> xs_then (wt_free p) (xs_modify (\<lambda>s. s\<lparr>wt_ran := wt_ran s @ [job]\<rparr>)))"

text \<open>\<open>close_error\<close> is the error of \<open>CloseHandle\<close>, if it fails; a thread without handle is \<open>None\<close>.\<close>

definition go_thread_detach :: "32 word option \<Rightarrow> nat option \<Rightarrow> (win_threads, int) xs" where
  "go_thread_detach close_error thread =
     (case (thread, close_error) of
        (Some h, Some err) \<Rightarrow> xs_return (sint err)
      | (Some h, None) \<Rightarrow> xs_bind xs_get (\<lambda>s. if h \<in># wt_handles s
          then xs_then (xs_modify (\<lambda>s. s\<lparr>wt_handles := wt_handles s - {#h#}\<rparr>)) (xs_return 0) else xs_fault)
      | _ \<Rightarrow> xs_return 0)"

text \<open>The reachable states, with the jobs whose creation was answered with 0: \<open>malloc\<close> gives no block that is
  in use, and a new thread begins at any time.\<close>

inductive wt_reach :: "(nat \<times> nat) list \<Rightarrow> win_threads \<Rightarrow> bool" where
  wt_init: "wt_reach [] wt_start"
| wt_create: "wt_reach jobs s \<Longrightarrow> (\<And>p. malloc = Some p \<Longrightarrow> wt_blocks s p = None) \<Longrightarrow>
    go_thread_create malloc create job s = (Ret (rc, thread), t) \<Longrightarrow> wt_reach (if rc = 0 then job # jobs else jobs) t"
| wt_begin: "wt_reach jobs s \<Longrightarrow> p \<in> set (wt_new s) \<Longrightarrow>
    go_win_thread_thunk p (s\<lparr>wt_new := remove1 p (wt_new s)\<rparr>) = (Ret (), t) \<Longrightarrow> wt_reach jobs t"

subsection \<open>The clock on Windows\<close>

text \<open>A call of \<open>go_monotonic_seconds\<close> by statements; the division is kept as its two operands. Any number of threads
  call it, and may call it again.\<close>

datatype clock_pc = Enter | Query_Frequency | Query_Counter | Divide u64 | Seconds u64 u64

record clock =
  ck_initialized :: bool
  ck_frequency :: u64
  ck_pc :: "nat \<Rightarrow> clock_pc"

definition clock_init :: clock where
  "clock_init = \<lparr>ck_initialized = False, ck_frequency = 0, ck_pc = (\<lambda>_. Enter)\<rparr>"

definition at_pc :: "nat \<Rightarrow> clock_pc \<Rightarrow> clock \<Rightarrow> clock" where
  "at_pc i pc c = c\<lparr>ck_pc := (ck_pc c)(i := pc)\<rparr>"

inductive clock_step :: "u64 \<Rightarrow> clock \<Rightarrow> clock \<Rightarrow> bool" for frequency where
  exchange_first: "ck_pc c i = Enter \<Longrightarrow> \<not> ck_initialized c \<Longrightarrow>
    clock_step frequency c (at_pc i Query_Frequency (c\<lparr>ck_initialized := True\<rparr>))"
| exchange_later: "ck_pc c i = Enter \<Longrightarrow> ck_initialized c \<Longrightarrow> clock_step frequency c (at_pc i Query_Counter c)"
| query_frequency: "ck_pc c i = Query_Frequency \<Longrightarrow>
    clock_step frequency c (at_pc i Query_Counter (c\<lparr>ck_frequency := frequency\<rparr>))"
| query_counter: "ck_pc c i = Query_Counter \<Longrightarrow> clock_step frequency c (at_pc i (Divide now) c)"
| divide: "ck_pc c i = Divide now \<Longrightarrow> clock_step frequency c (at_pc i (Seconds now (ck_frequency c)) c)"
| call_again: "ck_pc c i = Seconds now d \<Longrightarrow> clock_step frequency c (at_pc i Enter c)"

inductive clock_reach :: "u64 \<Rightarrow> clock \<Rightarrow> bool" for frequency where
  clock_start: "clock_reach frequency clock_init"
| clock_next: "clock_reach frequency c \<Longrightarrow> clock_step frequency c d \<Longrightarrow> clock_reach frequency d"

subsection \<open>Copies of strings\<close>

text \<open>\<open>go_strdup\<close> on the memory from \<open>s\<close> on: without a NUL \<open>strlen\<close> reads past it; \<open>alloc\<close> says whether \<open>malloc\<close> answers.\<close>

definition go_strdup :: "(nat \<Rightarrow> bool) \<Rightarrow> string \<Rightarrow> string option outcome" where
  "go_strdup alloc mem =
     (if CHR 0x00 \<notin> set mem then Fault
      else let len = length (takeWhile (\<lambda>c. c \<noteq> CHR 0x00) mem)
           in if alloc (len + 1) then Ret (Some (take (len + 1) mem)) else Ret None)"

section \<open>Facts\<close>

lemma sint_small: "uint (w :: u64) < 2 ^ 63 \<Longrightarrow> sint w = uint w"
  using signed_take_bit_int_eq_self [of 63 "uint w"] by (simp add: sint_uint order_trans [OF _ uint_ge_0])

lemma sint_add_small:
  fixes a b :: u64
  assumes "- (2 ^ 63) \<le> sint a + sint b" and "sint a + sint b < 2 ^ 63"
  shows "sint (a + b) = sint a + sint b"
  using assms by (simp add: sint_word_ariths signed_take_bit_int_eq_self)

lemma sint_diff_small:
  fixes a b :: u64
  assumes "- (2 ^ 63) \<le> sint a - sint b" and "sint a - sint b < 2 ^ 63"
  shows "sint (a - b) = sint a - sint b"
  using assms by (simp add: sint_word_ariths signed_take_bit_int_eq_self)

definition instant :: "timespec \<Rightarrow> int" where
  "instant t = sint (tv_sec t) * 1000000000 + sint (tv_nsec t)"

text \<open>The deadline of a timed wait is the given number of milliseconds away, in the form the system asks for.\<close>

theorem wait_deadline_exact:
  assumes now: "0 \<le> sint (tv_sec now)" "0 \<le> sint (tv_nsec now)" "sint (tv_nsec now) < 1000000000"
    and small: "sint (tv_sec now) + uint ms div 1000 + 1 < 2 ^ 63"
  shows "instant (wait_deadline now ms) = instant now + uint ms * 1000000
    \<and> 0 \<le> sint (tv_nsec (wait_deadline now ms)) \<and> sint (tv_nsec (wait_deadline now ms)) < 1000000000"
proof -
  have ms: "uint ms < 2 ^ 64" using uint_bounded [of ms] by simp
  have div_nonneg: "0 \<le> uint ms div 1000" by (simp add: pos_imp_zdiv_nonneg_iff)
  have mod_nonneg: "0 \<le> uint ms mod 1000" "uint ms mod 1000 < 1000" by simp_all
  have sec: "sint (ms div 1000) = uint ms div 1000"
    using ms by (subst sint_small) (simp_all add: uint_div)
  have rem: "uint (ms mod 1000 * 1000000) = uint ms mod 1000 * 1000000"
    by (simp add: uint_word_ariths uint_mod take_bit_int_eq_self)
  then have rem': "sint (ms mod 1000 * 1000000) = uint ms mod 1000 * 1000000"
    by (subst sint_small) (simp_all add: uint_mod)
  have s: "sint (tv_sec now + ms div 1000) = sint (tv_sec now) + uint ms div 1000"
    using now small sec div_nonneg by (subst sint_add_small) linarith+
  then have s1: "sint (tv_sec now + ms div 1000 + 1) = sint (tv_sec now) + uint ms div 1000 + 1"
    using now small s div_nonneg by (subst sint_add_small) simp_all
  have n: "sint (tv_nsec now + ms mod 1000 * 1000000) = sint (tv_nsec now) + uint ms mod 1000 * 1000000"
    using now rem' mod_nonneg by (subst sint_add_small) simp_all
  then have n1: "sint (tv_nsec now + ms mod 1000 * 1000000 - 1000000000)
      = sint (tv_nsec now) + uint ms mod 1000 * 1000000 - 1000000000"
    using now n mod_nonneg by (subst sint_diff_small) simp_all
  have "uint ms div 1000 * 1000 + uint ms mod 1000 = uint ms" by (rule div_mult_mod_eq)
  then have "uint ms div 1000 * 1000000000 + uint ms mod 1000 * 1000000 = uint ms * 1000000" by linarith
  moreover have "sint (tv_nsec now) + uint ms mod 1000 * 1000000 < 2000000000" using now mod_nonneg by linarith
  ultimately show ?thesis using now mod_nonneg(1) s s1 n n1 by (simp add: wait_deadline_def instant_def Let_def)
qed

theorem wait_deadline_exact_witness:
  "instant (wait_deadline \<lparr>tv_sec = 100, tv_nsec = 950000000\<rparr> 50) = instant \<lparr>tv_sec = 100, tv_nsec = 950000000\<rparr> + uint (50 :: u64) * 1000000"
  using wait_deadline_exact [of "\<lparr>tv_sec = 100, tv_nsec = 950000000\<rparr>" 50] by simp

text \<open>The attribute object is given back on every way out, and the mutex exists exactly when the call answers 0.\<close>

theorem recursive_mutex_balance:
  "go_mutex_init_recursive a b c s = (Ret r, t) \<Longrightarrow>
     mo_attrs t = mo_attrs s \<and> mo_mutexes t = mo_mutexes s + (if r = 0 then 1 else 0)
     \<and> r = (if a \<noteq> 0 then a else if b \<noteq> 0 then b else c)"
  by (auto simp: go_mutex_init_recursive_def attr_destroy_def xs_then_def xs_bind_def xs_defs split: if_splits)

subsection \<open>Threads\<close>

definition wt_ok :: "(nat \<times> nat) list \<Rightarrow> win_threads \<Rightarrow> bool" where
  "wt_ok jobs s \<longleftrightarrow> distinct (wt_new s) \<and> dom (wt_blocks s) = set (wt_new s)
     \<and> mset jobs = mset (wt_ran s) + mset (map (\<lambda>p. the (wt_blocks s p)) (wt_new s))"

lemma jobs_other:
  "p \<notin> set xs \<Longrightarrow> image_mset (\<lambda>q. the (if q = p then v else b q)) (mset xs) = image_mset (\<lambda>q. the (b q)) (mset xs)"
  by (auto intro: image_mset_cong)

lemma wt_create_ok:
  assumes "wt_ok jobs s" and "\<And>p. malloc = Some p \<Longrightarrow> wt_blocks s p = None"
    and "go_thread_create malloc create job s = (Ret (rc, thread), t)"
  shows "wt_ok (if rc = 0 then job # jobs else jobs) t"
proof (cases malloc)
  case None
  then show ?thesis using assms by (auto simp: go_thread_create_def ENOMEM_def xs_defs)
next
  case (Some p)
  have p: "wt_blocks s p = None" "p \<notin> set (wt_new s)"
    using assms(1,2) Some domIff [of p "wt_blocks s"] by (simp_all add: wt_ok_def)
  show ?thesis
  proof (cases create)
    case (Inl err)
    moreover have "(wt_blocks s)(p := None) = wt_blocks s" using p by auto
    ultimately show ?thesis using assms(1,3) Some p
      by (auto simp: go_thread_create_def wt_free_def EAGAIN_def xs_simps wt_ok_def split: if_splits)
  next
    case (Inr h)
    then show ?thesis using assms(1,3) Some p
      by (clarsimp simp: go_thread_create_def xs_simps wt_ok_def simp del: dom_def) (simp add: jobs_other dom_fun_upd)
  qed
qed

lemma wt_thunk_run:
  assumes "wt_ok jobs s" and "p \<in> set (wt_new s)"
  shows "\<exists>t. go_win_thread_thunk p (s\<lparr>wt_new := remove1 p (wt_new s)\<rparr>) = (Ret (), t) \<and> wt_ok jobs t
    \<and> wt_ran t = wt_ran s @ [the (wt_blocks s p)]"
proof -
  obtain job where job: "wt_blocks s p = Some job"
    using assms domIff [of p "wt_blocks s"] by (auto simp: wt_ok_def)
  obtain xs ys where new: "wt_new s = xs @ p # ys" "p \<notin> set xs" using split_list_first [OF assms(2)] by auto
  have ys: "p \<notin> set ys" using assms(1) new by (simp add: wt_ok_def)
  show ?thesis using assms(1) job new ys
    by (auto simp: go_win_thread_thunk_def wt_free_def xs_simps wt_ok_def remove1_append jobs_other)
qed

lemma wt_reach_ok: "wt_reach jobs s \<Longrightarrow> wt_ok jobs s"
proof (induction rule: wt_reach.induct)
  case wt_init
  then show ?case by (simp add: wt_ok_def wt_start_def)
next
  case (wt_create jobs s malloc create job rc thread t)
  then show ?case using wt_create_ok by blast
next
  case (wt_begin jobs s p t)
  then show ?case using wt_thunk_run [of jobs s p] by auto
qed

text \<open>Every thread whose creation was answered with 0 runs its function on its argument once, whenever it begins; its
  block is then freed, blocks of failed creations are freed at once, and no thread reads a block that is gone.\<close>

theorem win_threads_run_once:
  assumes "wt_reach jobs s"
  shows "mset jobs = mset (wt_ran s) + mset (map (\<lambda>p. the (wt_blocks s p)) (wt_new s)) \<and> dom (wt_blocks s) = set (wt_new s)
    \<and> (\<forall>p\<in>set (wt_new s). \<exists>t. go_win_thread_thunk p (s\<lparr>wt_new := remove1 p (wt_new s)\<rparr>) = (Ret (), t)
          \<and> wt_ran t = wt_ran s @ [the (wt_blocks s p)] \<and> wt_reach jobs t)"
  using wt_reach_ok [OF assms] wt_thunk_run wt_begin [OF assms] unfolding wt_ok_def by blast

subsection \<open>The clock\<close>

text \<open>Nobody has called yet; or the first caller is between the exchange and the frequency; or the frequency is known.\<close>

definition clock_ok :: "u64 \<Rightarrow> clock \<Rightarrow> bool" where
  "clock_ok f c \<longleftrightarrow>
     (\<not> ck_initialized c \<and> ck_frequency c = 0 \<and> (\<forall>i. ck_pc c i = Enter)
      \<or> ck_initialized c \<and> ck_frequency c = 0 \<and> (\<exists>q. \<forall>i. ck_pc c i = Query_Frequency \<longleftrightarrow> i = q)
      \<or> ck_initialized c \<and> ck_frequency c = f \<and> (\<forall>i. ck_pc c i \<noteq> Query_Frequency))
     \<and> (\<forall>i now d. ck_pc c i = Seconds now d \<longrightarrow> d = 0 \<or> d = f)"

lemma clock_ok_phase:
  assumes "clock_ok f c"
  shows "ck_frequency c = 0 \<or> ck_frequency c = f"
    and "ck_pc c i = Query_Frequency \<Longrightarrow> ck_initialized c \<and> (\<forall>j. ck_pc c j = Query_Frequency \<longrightarrow> j = i)"
    and "ck_initialized c \<Longrightarrow> \<forall>i. ck_pc c i \<noteq> Query_Frequency \<Longrightarrow> ck_frequency c = f"
  using assms by (auto simp: clock_ok_def)

lemma clock_ok_begun: "clock_ok f c \<Longrightarrow> ck_pc c i \<noteq> Enter \<Longrightarrow> ck_initialized c"
  by (auto simp: clock_ok_def)

lemma clock_ok_move:
  assumes "clock_ok f c" and "ck_initialized c" and "ck_pc c i \<noteq> Query_Frequency" and "pc \<noteq> Query_Frequency"
    and "\<And>now d. pc = Seconds now d \<Longrightarrow> d = 0 \<or> d = f"
  shows "clock_ok f (at_pc i pc c)"
proof -
  have q: "(ck_pc (at_pc i pc c) j = Query_Frequency) = (ck_pc c j = Query_Frequency)" for j
    using assms(3,4) by (simp add: at_pc_def)
  have d: "d = 0 \<or> d = f" if "ck_pc (at_pc i pc c) j = Seconds now d" for j now d
    using that assms(1,5) by (auto simp: at_pc_def clock_ok_def split: if_splits)
  show ?thesis using assms(1,2) d unfolding clock_ok_def q by (simp add: at_pc_def)
qed

lemma clock_step_ok:
  assumes "clock_step f c d" and "clock_ok f c"
  shows "clock_ok f d"
  using assms(1)
proof cases
  case (exchange_first i)
  then show ?thesis using assms(2) by (auto simp: clock_ok_def at_pc_def)
next
  case (query_frequency i)
  then have "ck_initialized c" "\<forall>j. ck_pc c j = Query_Frequency \<longrightarrow> j = i" using clock_ok_phase(2) [OF assms(2)] by auto
  moreover have "ck_pc d j = (if j = i then Query_Counter else ck_pc c j)" for j
    unfolding query_frequency(1) at_pc_def by simp
  moreover have "ck_initialized d = ck_initialized c" "ck_frequency d = f" unfolding query_frequency(1) at_pc_def by simp_all
  ultimately have "\<forall>j. ck_pc d j \<noteq> Query_Frequency" "ck_initialized d" "ck_frequency d = f" by auto
  moreover have "e = 0 \<or> e = f" if "ck_pc d j = Seconds now e" for j now e
    using that assms(2) query_frequency(1) by (auto simp: clock_ok_def at_pc_def split: if_splits)
  ultimately show ?thesis unfolding clock_ok_def by blast
next
  case (exchange_later i)
  then show ?thesis using assms(2) by (auto intro!: clock_ok_move)
next
  case (query_counter i now)
  then show ?thesis using assms(2) clock_ok_begun [OF assms(2), of i] by (auto intro!: clock_ok_move)
next
  case (divide i now)
  then show ?thesis using assms(2) clock_ok_begun [OF assms(2), of i] clock_ok_phase(1) [OF assms(2)] by (auto intro!: clock_ok_move)
next
  case (call_again i now d)
  then show ?thesis using assms(2) clock_ok_begun [OF assms(2), of i] by (auto intro!: clock_ok_move)
qed

lemma clock_reach_ok: "clock_reach f c \<Longrightarrow> clock_ok f c"
proof (induction rule: clock_reach.induct)
  case clock_start
  then show ?case by (simp add: clock_ok_def clock_init_def)
qed (rule clock_step_ok)

text \<open>The flag is set before the frequency is known. A thread that calls in between divides by zero; but once the first
  caller has its frequency, every division is by the frequency.\<close>

theorem win_clock_race:
  "\<exists>c. clock_reach f c \<and> ck_pc c 1 = Seconds now 0"
proof -
  let ?c1 = "at_pc 0 Query_Frequency (clock_init\<lparr>ck_initialized := True\<rparr>)"
  have "clock_reach f ?c1" by (rule clock_next [OF clock_start exchange_first]) (simp_all add: clock_init_def)
  then have "clock_reach f (at_pc 1 Query_Counter ?c1)" by (rule clock_next, intro exchange_later) (simp_all add: clock_init_def at_pc_def)
  then have "clock_reach f (at_pc 1 (Divide now) (at_pc 1 Query_Counter ?c1))" (is "clock_reach f ?c3")
    by (rule clock_next, intro query_counter) (simp add: at_pc_def)
  then have "clock_reach f (at_pc 1 (Seconds now (ck_frequency ?c3)) ?c3)"
    by (rule clock_next, intro divide) (simp add: at_pc_def)
  then show ?thesis by (intro exI conjI) (auto simp: at_pc_def clock_init_def)
qed

theorem win_clock_settles:
  assumes "clock_reach f c" and "ck_initialized c" and "\<forall>i. ck_pc c i \<noteq> Query_Frequency" and "clock_step f c d"
    and "ck_pc c i = Divide now" and "ck_pc d i \<noteq> ck_pc c i"
  shows "ck_pc d i = Seconds now f"
proof -
  have f: "ck_frequency c = f" using clock_ok_phase(3) [OF clock_reach_ok [OF assms(1)] assms(2,3)] .
  from assms(4) show ?thesis
  proof cases
    case (divide j now')
    then show ?thesis using f assms(5,6) by (cases "i = j") (simp_all add: at_pc_def)
  next
    case (exchange_first j)
    then show ?thesis using assms(5,6) by (cases "i = j") (simp_all add: at_pc_def)
  next
    case (exchange_later j)
    then show ?thesis using assms(5,6) by (cases "i = j") (simp_all add: at_pc_def)
  next
    case (query_frequency j)
    then show ?thesis using assms(5,6) by (cases "i = j") (simp_all add: at_pc_def)
  next
    case (query_counter j now')
    then show ?thesis using assms(5,6) by (cases "i = j") (simp_all add: at_pc_def)
  next
    case (call_again j now' d')
    then show ?thesis using assms(5,6) by (cases "i = j") (simp_all add: at_pc_def)
  qed
qed

text \<open>A copy is the string with its NUL.\<close>

theorem go_strdup_copies:
  "CHR 0x00 \<notin> set s \<Longrightarrow> go_strdup (\<lambda>_. True) (s @ CHR 0x00 # rest) = Ret (Some (s @ [CHR 0x00]))"
proof -
  assume "CHR 0x00 \<notin> set s"
  then have "takeWhile (\<lambda>c. c \<noteq> CHR 0x00) (s @ CHR 0x00 # rest) = s" by (intro takeWhile_append_stop) auto
  then show ?thesis unfolding go_strdup_def by (simp add: Let_def)
qed

end
