(* ===== verification/Menu_Items.thy ===== *)
theory Menu_Items
  imports Menu_Json "HOL-Library.Multiset"
begin

section \<open>The item tree and the commands of the menu helper (native/system_menu_helper_linux.c)\<close>

text \<open>
  The helper keeps one tree of items per indicator. An item's scalar fields are a record; its
  children are the array of pointers, and the position of a child in the arrays is what a
  \<open>DDItem *\<close> points to. GTK and the indicator library are outside the repository; of them the model
  keeps what the code itself can see or spoil: the label and the signal of an item's
  \<open>GtkMenuItem\<close>, whether the pointer to it is null or dangling (destroying a menu item destroys
  its submenu, too), and an indicator's status and icon. Icon files are known by the
  number in their names. What these libraries and the system answer is the record \<open>gui\<close>, by the
  number of the indicator or icon that is being made. A result of \<open>None\<close> is \<open>exit(2)\<close>.
\<close>

datatype signal = Sig_None | Sig_Submenu | Sig_Activate | Sig_Press

datatype widget = Wid_Null | Wid_Live string signal | Wid_Dangling

datatype indicator = Indicator (ind_active: bool) (ind_icon: "nat option")

record dd_data =
  name_utf8 :: string
  icon_utf8 :: string
  clickable :: bool
  click_stay :: bool
  removed :: bool
  indicator :: "indicator option"
  icon_theme_dir :: bool
  icon_files :: "(nat \<times> int) list"
  menu_item :: widget

datatype dd_item = DDItem (item_data: dd_data) (item_children: "dd_item list")

record gui =
  gui_indicator :: "nat \<Rightarrow> bool"
  gui_dir :: "nat \<Rightarrow> bool"
  gui_pixbuf :: "nat \<Rightarrow> bool"
  gui_save :: "nat \<Rightarrow> bool"
  gui_now :: int

record menu_state =
  m_roots :: "dd_item list"
  m_sequence :: nat
  m_disk :: "nat list"
  m_running :: bool

subsection \<open>From JSON\<close>

fun keep_somes :: "'a option list \<Rightarrow> 'a list" where
  "keep_somes [] = []"
| "keep_somes (None # xs) = keep_somes xs"
| "keep_somes (Some x # xs) = x # keep_somes xs"

definition new_data :: "string \<Rightarrow> string \<Rightarrow> bool \<Rightarrow> bool \<Rightarrow> dd_data" where
  "new_data name icon click stay = \<lparr>name_utf8 = name, icon_utf8 = icon, clickable = click, click_stay = stay,
     removed = False, indicator = None, icon_theme_dir = False, icon_files = [], menu_item = Wid_Null\<rparr>"

definition menu_values :: "jvalue \<Rightarrow> jvalue list" where
  "menu_values obj = (case j_get obj ''menu'' of Some (J_Array vs) \<Rightarrow> vs | _ \<Rightarrow> [])"

lemma lookup_key_size: "lookup_key key ps = Some v \<Longrightarrow> size v < size (J_Object ps)"
proof (induction ps rule: lookup_key.induct)
  case (2 key k w ps)
  then show ?case by (cases "c_str k = c_str key") (auto simp: less_SucI)
qed simp

lemma menu_values_size:
  assumes "v \<in> set (menu_values obj)"
  shows "size v < size obj"
proof -
  obtain ps vs where obj: "obj = J_Object ps" and vs: "lookup_key ''menu'' ps = Some (J_Array vs)" "v \<in> set vs"
    using assms by (cases obj) (auto simp: menu_values_def dest: sym split: option.splits jvalue.splits)
  have "size v \<le> size_list size vs" by (rule size_list_estimation' [OF vs(2)]) simp
  with lookup_key_size [OF vs(1)] show ?thesis by (simp add: obj)
qed

function item_from_json :: "jvalue \<Rightarrow> dd_item option" where
  "item_from_json obj =
     (case (j_get_string obj ''name'', j_get_string obj ''icon'') of
        (Some name, Some icon) \<Rightarrow>
          Some (DDItem (new_data name icon (j_get obj ''click'' \<noteq> None) (j_get_bool obj ''click_stay'' False))
                       (keep_somes (map item_from_json (menu_values obj))))
      | _ \<Rightarrow> None)"
  by pat_completeness auto
termination by (relation "measure size") (auto dest: menu_values_size)

declare item_from_json.simps [simp del]

subsection \<open>Walking the tree\<close>

fun item_mark_removed :: "dd_item \<Rightarrow> dd_item" where
  "item_mark_removed (DDItem d cs) = DDItem (d\<lparr>removed := True\<rparr>) (map item_mark_removed cs)"

text \<open>\<open>find_item_rec\<close>: the first item with the name, in preorder; the pointer is the path to it.\<close>

fun find_item_rec :: "string \<Rightarrow> dd_item \<Rightarrow> nat list option"
  and find_items :: "string \<Rightarrow> nat \<Rightarrow> dd_item list \<Rightarrow> nat list option" where
  "find_item_rec name (DDItem d cs) = (if name_utf8 d = name then Some [] else find_items name 0 cs)"
| "find_items name i [] = None"
| "find_items name i (c # cs) =
     (case find_item_rec name c of Some p \<Rightarrow> Some (i # p) | None \<Rightarrow> find_items name (Suc i) cs)"

definition find_item :: "string \<Rightarrow> menu_state \<Rightarrow> nat list option" where
  "find_item name s = find_items name 0 (m_roots s)"

fun item_at :: "nat list \<Rightarrow> dd_item \<Rightarrow> dd_item" where
  "item_at [] t = t"
| "item_at (i # p) t = item_at p (item_children t ! i)"

fun item_update :: "nat list \<Rightarrow> (dd_item \<Rightarrow> dd_item) \<Rightarrow> dd_item \<Rightarrow> dd_item" where
  "item_update [] f t = f t"
| "item_update (i # p) f (DDItem d cs) = DDItem d (cs[i := item_update p f (cs ! i)])"

fun root_at :: "nat list \<Rightarrow> dd_item list \<Rightarrow> dd_item option" where
  "root_at [] rs = None"
| "root_at (i # p) rs = Some (item_at p (rs ! i))"

fun root_update :: "nat list \<Rightarrow> (dd_item \<Rightarrow> dd_item) \<Rightarrow> dd_item list \<Rightarrow> dd_item list" where
  "root_update [] f rs = rs"
| "root_update (i # p) f rs = rs[i := item_update p f (rs ! i)]"

subsection \<open>Freeing\<close>

text \<open>\<open>item_free\<close>: unlink the icon files of the subtree.\<close>

fun item_files :: "dd_item \<Rightarrow> nat list" where
  "item_files (DDItem d cs) = concat (map item_files cs) @ map fst (icon_files d)"

definition unlink_all :: "nat list \<Rightarrow> nat list \<Rightarrow> nat list" where
  "unlink_all files disk = filter (\<lambda>n. n \<notin> set files) disk"

definition item_free :: "dd_item \<Rightarrow> menu_state \<Rightarrow> menu_state" where
  "item_free t s = s\<lparr>m_disk := unlink_all (item_files t) (m_disk s)\<rparr>"

definition clear_roots :: "menu_state \<Rightarrow> menu_state" where
  "clear_roots s = (fold item_free (m_roots s) s)\<lparr>m_roots := []\<rparr>"

subsection \<open>Icons\<close>

text \<open>The loop that drops icon files older than the grace period, the last one filling the gap.\<close>

function purge :: "int \<Rightarrow> nat \<Rightarrow> (nat \<times> int) list \<Rightarrow> (nat \<times> int) list \<times> nat list" where
  "purge now i fs =
     (if i < length fs then
        (if now - snd (fs ! i) > 60
         then (case purge now i (butlast (fs[i := last fs])) of (kept, gone) \<Rightarrow> (kept, fst (fs ! i) # gone))
         else purge now (Suc i) fs)
      else (fs, []))"
  by pat_completeness auto
termination by (relation "measure (\<lambda>(now, i, fs). length fs - i)") auto

declare purge.simps [simp del]

definition update_status_icon :: "gui \<Rightarrow> dd_data \<Rightarrow> menu_state \<Rightarrow> (dd_data \<times> menu_state) option" where
  "update_status_icon g d s =
     (case indicator d of
        None \<Rightarrow> Some (d, s)
      | Some ind \<Rightarrow>
          if \<not> icon_theme_dir d \<and> \<not> gui_dir g (m_sequence s) then None
          else
            (let (kept, gone) = purge (gui_now g) 0 (icon_files d);
                 d1 = d\<lparr>icon_theme_dir := True, icon_files := kept\<rparr>;
                 s1 = s\<lparr>m_disk := unlink_all gone (m_disk s)\<rparr>
             in if gui_pixbuf g (m_sequence s) then
                  (let n = m_sequence s1 + 1
                   in if \<not> gui_save g n then None
                      else Some (d1\<lparr>icon_files := kept @ [(n, gui_now g)], indicator := Some (Indicator (ind_active ind) (Some n))\<rparr>,
                                 s1\<lparr>m_sequence := n, m_disk := m_disk s1 @ [n]\<rparr>))
                else Some (d1, s1)))"

subsection \<open>Menus\<close>

definition item_signal :: "dd_data \<Rightarrow> dd_item list \<Rightarrow> signal" where
  "item_signal d cs = (if cs \<noteq> [] then Sig_Submenu
     else if clickable d then (if click_stay d then Sig_Press else Sig_Activate) else Sig_None)"

fun build_menu :: "dd_item \<Rightarrow> dd_item"
  and build_item :: "dd_item \<Rightarrow> dd_item" where
  "build_menu (DDItem d cs) = DDItem d (map build_item cs)"
| "build_item (DDItem d cs) = DDItem (d\<lparr>menu_item := Wid_Live (icon_utf8 d) (item_signal d cs)\<rparr>) (map build_item cs)"

definition build_root_menu :: "dd_item \<Rightarrow> dd_item" where
  "build_root_menu root =
     (case root of DDItem d cs \<Rightarrow>
        if cs \<noteq> [] then build_menu root
        else DDItem (d\<lparr>menu_item := Wid_Live (icon_utf8 d) (if clickable d then Sig_Activate else Sig_None)\<rparr>) cs)"

definition install_root :: "gui \<Rightarrow> dd_item \<Rightarrow> menu_state \<Rightarrow> menu_state option" where
  "install_root g root s =
     (let id = m_sequence s + 1; s1 = s\<lparr>m_sequence := id\<rparr>
      in case build_root_menu root of DDItem d cs \<Rightarrow>
           if \<not> gui_indicator g id then Some (item_free (DDItem d cs) s1)
           else (case update_status_icon g (d\<lparr>indicator := Some (Indicator False None)\<rparr>) s1 of
                   None \<Rightarrow> None
                 | Some (d1, s2) \<Rightarrow>
                     Some (s2\<lparr>m_roots := m_roots s2 @
                       [DDItem (d1\<lparr>indicator := map_option (\<lambda>i. Indicator True (ind_icon i)) (indicator d1)\<rparr>) cs]\<rparr>)))"

fun install_loop :: "gui \<Rightarrow> jvalue list \<Rightarrow> menu_state \<Rightarrow> menu_state option" where
  "install_loop g [] s = Some s"
| "install_loop g (v # vs) s =
     (case item_from_json v of
        None \<Rightarrow> install_loop g vs s
      | Some root \<Rightarrow> (case install_root g root s of None \<Rightarrow> None | Some s1 \<Rightarrow> install_loop g vs s1))"

definition install_roots :: "gui \<Rightarrow> jvalue option \<Rightarrow> menu_state \<Rightarrow> menu_state option" where
  "install_roots g items s =
     (case items of Some (J_Array vs) \<Rightarrow> install_loop g vs (clear_roots s) | _ \<Rightarrow> Some (clear_roots s))"

subsection \<open>Commands\<close>

definition set_item_icon :: "gui \<Rightarrow> string \<Rightarrow> nat list \<Rightarrow> menu_state \<Rightarrow> menu_state outcome" where
  "set_item_icon g icon p s =
     (case root_at p (m_roots s) of
        None \<Rightarrow> Ret s
      | Some (DDItem d cs) \<Rightarrow>
          if removed d then Ret s
          else
            (let d1 = d\<lparr>icon_utf8 := icon\<rparr>;
                 put = (\<lambda>d2 s1. s1\<lparr>m_roots := root_update p (\<lambda>_. DDItem d2 cs) (m_roots s1)\<rparr>)
             in if indicator d1 \<noteq> None then
                  (case update_status_icon g d1 s of None \<Rightarrow> Croak ''exit 2'' | Some (d2, s1) \<Rightarrow> Ret (put d2 s1))
                else (case menu_item d1 of
                        Wid_Null \<Rightarrow> Ret (put d1 s)
                      | Wid_Live label sig \<Rightarrow> Ret (put (d1\<lparr>menu_item := Wid_Live icon sig\<rparr>) s)
                      | Wid_Dangling \<Rightarrow> Fault)))"

text \<open>What destroying an item's widget does to the pointers kept for its descendants.\<close>

fun destroyed :: "dd_item \<Rightarrow> dd_item" where
  "destroyed (DDItem d cs) =
     DDItem (d\<lparr>menu_item := (case menu_item d of Wid_Null \<Rightarrow> Wid_Null | _ \<Rightarrow> Wid_Dangling)\<rparr>) (map destroyed cs)"

definition remove_item :: "nat list \<Rightarrow> menu_state \<Rightarrow> menu_state outcome" where
  "remove_item p s =
     (case root_at p (m_roots s) of
        None \<Rightarrow> Ret s
      | Some t \<Rightarrow>
          if removed (item_data t) then Ret s
          else (case item_mark_removed t of DDItem d cs \<Rightarrow>
            (let put = (\<lambda>t2. s\<lparr>m_roots := root_update p (\<lambda>_. t2) (m_roots s)\<rparr>)
             in case indicator d of
                  Some ind \<Rightarrow> Ret (put (DDItem (d\<lparr>indicator := Some (Indicator False (ind_icon ind))\<rparr>) cs))
                | None \<Rightarrow>
                    (case menu_item d of
                       Wid_Null \<Rightarrow> Ret (put (DDItem d cs))
                     | Wid_Live label sig \<Rightarrow> Ret (put (DDItem (d\<lparr>menu_item := Wid_Null\<rparr>) (map destroyed cs)))
                     | Wid_Dangling \<Rightarrow> Fault))))"

definition at_found :: "string option \<Rightarrow> menu_state \<Rightarrow> (nat list \<Rightarrow> menu_state outcome) \<Rightarrow> menu_state outcome" where
  "at_found name s f = (case name of None \<Rightarrow> Ret s
     | Some n \<Rightarrow> (case find_item n s of None \<Rightarrow> Ret s | Some p \<Rightarrow> f p))"

definition run_command :: "gui \<Rightarrow> jvalue \<Rightarrow> menu_state \<Rightarrow> menu_state outcome" where
  "run_command g cmd s =
     (case j_get_string cmd ''op'' of
        None \<Rightarrow> Ret s
      | Some op \<Rightarrow>
          if op = ''run'' then
            (case install_roots g (j_get cmd ''items'') s of None \<Rightarrow> Croak ''exit 2'' | Some s1 \<Rightarrow> Ret s1)
          else if op = ''icon'' then
            (case j_get_string cmd ''icon'' of
               None \<Rightarrow> Ret s
             | Some icon \<Rightarrow> at_found (j_get_string cmd ''name'') s (\<lambda>p. set_item_icon g icon p s))
          else if op = ''remove'' then at_found (j_get_string cmd ''name'') s (\<lambda>p. remove_item p s)
          else if op = ''stop'' then Ret ((clear_roots s)\<lparr>m_running := False\<rparr>)
          else Ret s)"

definition handle_command :: "gui \<Rightarrow> string \<Rightarrow> menu_state \<Rightarrow> menu_state outcome" where
  "handle_command g line s =
     (case j_parse line of
        Parsed v \<Rightarrow> run_command g v s
      | Not_Parsed \<Rightarrow> Ret s
      | Parse_Deep \<Rightarrow> Diverge
      | Parse_Fault \<Rightarrow> Fault)"

text \<open>\<open>on_stdin_ready\<close>: what the reads of one wake-up answer, in order.\<close>

datatype read_answer = R_Line string | R_Again | R_Eof | R_Error

definition strip_eol :: "string \<Rightarrow> string" where
  "strip_eol line = rev (dropWhile (\<lambda>c. c = CHR 0x0A \<or> c = CHR 0x0D) (rev line))"

definition quit :: "menu_state \<Rightarrow> menu_state" where
  "quit s = (clear_roots s)\<lparr>m_running := False\<rparr>"

fun stdin_loop :: "gui \<Rightarrow> read_answer list \<Rightarrow> menu_state \<Rightarrow> menu_state outcome" where
  "stdin_loop g [] s = Ret s"
| "stdin_loop g (R_Line line # rs) s =
     (if strip_eol line = [] then stdin_loop g rs s
      else case handle_command g (strip_eol line) s of
             Ret s1 \<Rightarrow> stdin_loop g rs s1
           | other \<Rightarrow> other)"
| "stdin_loop g (R_Again # rs) s = Ret s"
| "stdin_loop g (R_Eof # rs) s = Ret (quit s)"
| "stdin_loop g (R_Error # rs) s = Ret s"

definition on_stdin_ready :: "gui \<Rightarrow> bool \<Rightarrow> read_answer list \<Rightarrow> menu_state \<Rightarrow> menu_state outcome" where
  "on_stdin_ready g hangup rs s = (if hangup then Ret (quit s) else stdin_loop g rs s)"

text \<open>A click on the widget of an item: what its signal handler writes.\<close>

definition emit_click :: "dd_data \<Rightarrow> string list" where
  "emit_click d = (if removed d then [] else emit_click_line (name_utf8 d))"

definition on_click :: "dd_data \<Rightarrow> string list" where
  "on_click d =
     (case menu_item d of
        Wid_Live label Sig_Activate \<Rightarrow> emit_click d
      | Wid_Live label Sig_Press \<Rightarrow> emit_click d
      | _ \<Rightarrow> [])"

definition menu_start :: menu_state where
  "menu_start = \<lparr>m_roots = [], m_sequence = 0, m_disk = [], m_running = True\<rparr>"

text \<open>Wake-ups one after the other; the environment of each, its hang-up flag and its reads.\<close>

fun helper_run :: "(gui \<times> bool \<times> read_answer list) list \<Rightarrow> menu_state \<Rightarrow> menu_state outcome" where
  "helper_run [] s = Ret s"
| "helper_run ((g, hangup, rs) # ws) s =
     (if m_running s
      then (case on_stdin_ready g hangup rs s of Ret s1 \<Rightarrow> helper_run ws s1 | other \<Rightarrow> other)
      else Ret s)"

definition helper_main :: "(gui \<times> bool \<times> read_answer list) list \<Rightarrow> menu_state outcome" where
  "helper_main ws = (case helper_run ws menu_start of Ret s \<Rightarrow> Ret (clear_roots s) | other \<Rightarrow> other)"

subsection \<open>Dropping old icon files\<close>

lemma mset_drop_swap:
  assumes "i < length fs"
  shows "mset (drop i (butlast (fs[i := last fs]))) + {#fs ! i#} = mset (drop i fs)"
proof -
  obtain ys where d: "drop i fs = (fs ! i) # ys" using assms by (metis Cons_nth_drop_Suc)
  have len: "length (drop i fs) = length fs - i" by simp
  show ?thesis
  proof (cases "ys = []")
    case True
    then have "Suc i = length fs" using d len assms by (cases "length fs - i") auto
    then show ?thesis using d True by (simp add: butlast_conv_take)
  next
    case False
    have l: "last fs = last ys" using d False assms by (metis last_ConsR last_drop)
    have "drop i (butlast (fs[i := last fs])) = butlast (drop i (fs[i := last fs]))"
      by (simp add: butlast_drop)
    also have "drop i (fs[i := last fs]) = last ys # ys"
      using assms d l by (simp add: drop_update_swap)
    finally have "mset (drop i (butlast (fs[i := last fs]))) = mset (butlast ys) + {#last ys#}" using False by simp
    also have "\<dots> = mset (butlast ys @ [last ys])" by simp
    also have "butlast ys @ [last ys] = ys" using False by simp
    finally show ?thesis using d by simp
  qed
qed

lemma take_drop_swap: "i < length fs \<Longrightarrow> take i (butlast (fs[i := x])) = take i fs"
  by (simp add: take_butlast)

lemma purge_mset:
  assumes "purge now i fs = (kept, gone)"
  shows "mset kept = mset (take i fs) + filter_mset (\<lambda>f. now - snd f \<le> 60) (mset (drop i fs))
    \<and> mset gone = image_mset fst (filter_mset (\<lambda>f. now - snd f > 60) (mset (drop i fs)))"
  using assms
proof (induction now i fs arbitrary: kept gone rule: purge.induct)
  case (1 now i fs)
  show ?case
  proof (cases "i < length fs")
    case True
    have d: "mset (drop i fs) = mset (drop (Suc i) fs) + {#fs ! i#}" using True by (metis Cons_nth_drop_Suc mset.simps(2) add_mset_add_single)
    show ?thesis
    proof (cases "now - snd (fs ! i) > 60")
      case old: True
      obtain g1 where rec: "purge now i (butlast (fs[i := last fs])) = (kept, g1)" and g: "gone = fst (fs ! i) # g1"
        using "1.prems" True old by (simp add: purge.simps [of now i fs] split: prod.splits)
      from "1.IH"(1) [OF True old rec] g take_drop_swap [OF True] mset_drop_swap [OF True, symmetric] old
      show ?thesis by simp
    next
      case False
      then have rec: "purge now (Suc i) fs = (kept, gone)" using "1.prems" True by (simp add: purge.simps [of now i fs])
      have "mset (take (Suc i) fs) = mset (take i fs) + {#fs ! i#}" using True by (simp add: take_Suc_conv_app_nth)
      with "1.IH"(2) [OF True False rec] d False show ?thesis by simp
    qed
  next
    case False
    then show ?thesis using "1.prems" by (simp add: purge.simps [of now i fs])
  qed
qed

subsection \<open>Well-formed trees\<close>

text \<open>
  Below a removed item everything is removed; a dangling widget pointer belongs to a removed item;
  indicators and icon files belong to roots.
\<close>

definition data_ok :: "bool \<Rightarrow> bool \<Rightarrow> dd_data \<Rightarrow> bool" where
  "data_ok gone root d \<longleftrightarrow> (gone \<longrightarrow> removed d) \<and> (menu_item d = Wid_Dangling \<longrightarrow> removed d)
     \<and> (indicator d \<noteq> None \<longleftrightarrow> root) \<and> (\<not> root \<longrightarrow> icon_files d = [])"

fun tree_ok :: "bool \<Rightarrow> bool \<Rightarrow> dd_item \<Rightarrow> bool" where
  "tree_ok gone root (DDItem d cs) = (data_ok gone root d \<and> (\<forall>c\<in>set cs. tree_ok (removed d) False c))"

abbreviation data_files :: "dd_data \<Rightarrow> nat list" where
  "data_files d \<equiv> map fst (icon_files d)"

lemma tree_ok_files_child: "tree_ok gone False t \<Longrightarrow> item_files t = []"
proof (induction t arbitrary: gone)
  case (DDItem d cs)
  then show ?case by (auto simp: data_ok_def)
qed

lemma tree_ok_files: "tree_ok gone root t \<Longrightarrow> item_files t = data_files (item_data t)"
  by (cases t) (auto dest: tree_ok_files_child)

fun valid_path :: "nat list \<Rightarrow> dd_item \<Rightarrow> bool" where
  "valid_path [] t = True"
| "valid_path (i # p) t = (i < length (item_children t) \<and> valid_path p (item_children t ! i))"

lemma find_item_valid:
  "find_item_rec name t = Some p \<Longrightarrow> valid_path p t \<and> name_utf8 (item_data (item_at p t)) = name"
  "find_items name k cs = Some q \<Longrightarrow> \<exists>i p. q = (k + i) # p \<and> i < length cs \<and> valid_path p (cs ! i)
     \<and> name_utf8 (item_data (item_at p (cs ! i))) = name"
proof (induction name t and name k cs arbitrary: p and q rule: find_item_rec_find_items.induct)
  case (3 name i c cs)
  show ?case
  proof (cases "find_item_rec name c")
    case None
    with 3 obtain j p where "q = (Suc i + j) # p" "j < length cs" "valid_path p (cs ! j)"
      "name_utf8 (item_data (item_at p (cs ! j))) = name" by auto
    then show ?thesis by (intro exI [of _ "Suc j"] exI [of _ p]) simp
  next
    case (Some p)
    with 3 show ?thesis by (intro exI [of _ 0] exI [of _ p]) auto
  qed
qed (auto split: if_splits)

lemma tree_ok_at: "tree_ok gone root t \<Longrightarrow> valid_path p t \<Longrightarrow> \<exists>gone' root'. tree_ok gone' root' (item_at p t)
    \<and> (p = [] \<longrightarrow> root' = root) \<and> (p \<noteq> [] \<longrightarrow> \<not> root')"
proof (induction p arbitrary: gone root t)
  case (Cons i p)
  obtain d cs where t: "t = DDItem d cs" by (cases t)
  with Cons have "tree_ok (removed d) False (cs ! i)" "valid_path p (cs ! i)" by auto
  from Cons.IH [OF this] show ?case by (auto simp: t)
qed auto

lemma tree_ok_update:
  assumes "tree_ok gone root t" and "valid_path p t"
    and "\<And>gone' root'. tree_ok gone' root' (item_at p t) \<Longrightarrow> tree_ok gone' root' u"
  shows "tree_ok gone root (item_update p (\<lambda>_. u) t)"
  using assms
proof (induction p arbitrary: gone root t)
  case (Cons i p)
  obtain d cs where t: "t = DDItem d cs" by (cases t)
  have ok: "data_ok gone root d" "\<forall>c\<in>set cs. tree_ok (removed d) False c" "i < length cs" "valid_path p (cs ! i)"
    using Cons.prems by (auto simp: t)
  have "tree_ok (removed d) False (item_update p (\<lambda>_. u) (cs ! i))"
    using ok Cons.prems(3) by (intro Cons.IH) (simp_all add: t)
  then show ?case using ok by (auto simp: t dest!: set_update_subset_insert [THEN subsetD])
qed simp

lemma item_update_data: "p \<noteq> [] \<Longrightarrow> item_data (item_update p f t) = item_data t"
  by (cases p; cases t) simp_all

lemma tree_ok_removed: "tree_ok gone root t \<Longrightarrow> tree_ok True root (item_mark_removed t)"
proof (induction t arbitrary: gone root)
  case (DDItem d cs)
  then show ?case by (auto simp: data_ok_def)
qed

fun all_removed :: "dd_item \<Rightarrow> bool" where
  "all_removed (DDItem d cs) = (removed d \<and> (\<forall>c\<in>set cs. all_removed c))"

lemma all_removed_mark: "all_removed (item_mark_removed t)"
  by (induction t) simp

lemma all_removed_destroyed: "all_removed t \<Longrightarrow> all_removed (destroyed t)"
  by (induction t) auto

lemma tree_ok_weaken: "tree_ok True root t \<Longrightarrow> tree_ok gone root t"
  by (cases t) (auto simp: data_ok_def)

lemma tree_ok_destroyed: "tree_ok gone root t \<Longrightarrow> all_removed t \<Longrightarrow> tree_ok gone root (destroyed t)"
proof (induction t arbitrary: gone root)
  case (DDItem d cs)
  then show ?case by (auto simp: data_ok_def split: widget.splits)
qed

subsection \<open>The invariant of the helper\<close>

definition files_ok :: "menu_state \<Rightarrow> bool" where
  "files_ok s \<longleftrightarrow> (\<forall>i<length (m_roots s). distinct (data_files (item_data (m_roots s ! i))))
     \<and> (\<forall>i<length (m_roots s). \<forall>j<length (m_roots s). i \<noteq> j \<longrightarrow>
          set (data_files (item_data (m_roots s ! i))) \<inter> set (data_files (item_data (m_roots s ! j))) = {})
     \<and> set (m_disk s) = (\<Union>t\<in>set (m_roots s). set (data_files (item_data t)))
     \<and> (\<forall>n\<in>set (m_disk s). n \<le> m_sequence s)"

definition menu_wf :: "menu_state \<Rightarrow> bool" where
  "menu_wf s \<longleftrightarrow> (\<forall>t\<in>set (m_roots s). tree_ok False True t) \<and> files_ok s"

lemma fold_item_free:
  "fold item_free ts s = s\<lparr>m_disk := unlink_all (concat (map item_files ts)) (m_disk s)\<rparr>"
  by (induction ts arbitrary: s) (auto simp: item_free_def unlink_all_def intro!: filter_cong)

lemma clear_roots_clean:
  assumes "menu_wf s"
  shows "clear_roots s = s\<lparr>m_roots := [], m_disk := []\<rparr>"
proof -
  have "item_files t = data_files (item_data t)" if "t \<in> set (m_roots s)" for t
    using assms that tree_ok_files by (auto simp: menu_wf_def)
  then have "unlink_all (concat (map item_files (m_roots s))) (m_disk s) = []"
    using assms by (auto simp: unlink_all_def menu_wf_def files_ok_def)
  then show ?thesis by (simp add: clear_roots_def fold_item_free)
qed

lemma menu_wf_empty [simp]: "m_roots s = [] \<Longrightarrow> m_disk s = [] \<Longrightarrow> menu_wf s"
  by (simp add: menu_wf_def files_ok_def)

text \<open>
  One root's files change: those dropped leave the disk, a new one has a fresh number. The root
  is at position \<open>i\<close>, or new at the end.
\<close>

lemma purge_files:
  assumes "purge now 0 fs = (kept, gone)" and "distinct (map fst fs)"
  shows "distinct (map fst kept)" and "set (map fst kept) \<inter> set gone = {}" and "set (map fst fs) = set (map fst kept) \<union> set gone"
proof -
  define old where "old = (\<lambda>f :: nat \<times> int. now - snd f \<le> 60)"
  have "image_mset fst (mset fs) = image_mset fst (filter_mset old (mset fs)) + image_mset fst (filter_mset (\<lambda>f. \<not> old f) (mset fs))"
    by (rule trans [OF arg_cong [where f = "image_mset fst", OF multiset_partition [of "mset fs" old]] image_mset_union])
  moreover have "mset kept = filter_mset old (mset fs)" "mset gone = image_mset fst (filter_mset (\<lambda>f. \<not> old f) (mset fs))"
    using purge_mset [OF assms(1)] by (simp_all add: old_def not_le)
  ultimately have "mset (map fst fs) = mset (map fst kept @ gone)" by simp
  then have "distinct (map fst kept @ gone)" "set (map fst fs) = set (map fst kept @ gone)"
    using assms(2) mset_eq_imp_distinct_iff mset_eq_setD by blast+
  then show "distinct (map fst kept)" and "set (map fst kept) \<inter> set gone = {}" and "set (map fst fs) = set (map fst kept) \<union> set gone"
    by auto
qed

definition icon_same :: "dd_data \<Rightarrow> dd_data \<Rightarrow> menu_state \<Rightarrow> menu_state \<Rightarrow> bool" where
  "icon_same d d1 s s1 \<longleftrightarrow> m_roots s1 = m_roots s \<and> m_running s1 = m_running s
     \<and> removed d1 = removed d \<and> menu_item d1 = menu_item d \<and> (indicator d1 \<noteq> None) = (indicator d \<noteq> None)
     \<and> map_option ind_active (indicator d1) = map_option ind_active (indicator d)
     \<and> name_utf8 d1 = name_utf8 d \<and> icon_utf8 d1 = icon_utf8 d \<and> clickable d1 = clickable d \<and> click_stay d1 = click_stay d
     \<and> (indicator d = None \<longrightarrow> d1 = d)"

definition icon_tracked :: "dd_data \<Rightarrow> dd_data \<Rightarrow> menu_state \<Rightarrow> menu_state \<Rightarrow> bool" where
  "icon_tracked d d1 s s1 \<longleftrightarrow> m_sequence s \<le> m_sequence s1 \<and> distinct (data_files d1)
     \<and> set (m_disk s1) = (set (m_disk s) - set (data_files d)) \<union> set (data_files d1)
     \<and> set (data_files d1) \<subseteq> set (data_files d) \<union> {m. m_sequence s < m \<and> m \<le> m_sequence s1}"

lemma update_status_icon_cases:
  assumes "update_status_icon g d s = Some (d1, s1)"
  obtains (none) "indicator d = None" "d1 = d" "s1 = s"
    | (new) ind kept gone where "indicator d = Some ind" "purge (gui_now g) 0 (icon_files d) = (kept, gone)"
        "d1 = d\<lparr>icon_theme_dir := True, icon_files := kept @ [(m_sequence s + 1, gui_now g)],
           indicator := Some (Indicator (ind_active ind) (Some (m_sequence s + 1)))\<rparr>"
        "s1 = s\<lparr>m_sequence := m_sequence s + 1, m_disk := unlink_all gone (m_disk s) @ [m_sequence s + 1]\<rparr>"
    | (dropped) ind kept gone where "indicator d = Some ind" "purge (gui_now g) 0 (icon_files d) = (kept, gone)"
        "d1 = d\<lparr>icon_theme_dir := True, icon_files := kept\<rparr>" "s1 = s\<lparr>m_disk := unlink_all gone (m_disk s)\<rparr>"
proof (cases "indicator d")
  case None
  show thesis by (rule none) (use assms None in \<open>simp_all add: update_status_icon_def\<close>)
next
  case (Some ind)
  obtain kept gone where p: "purge (gui_now g) 0 (icon_files d) = (kept, gone)" by (cases "purge (gui_now g) 0 (icon_files d)")
  show thesis
  proof (cases "gui_pixbuf g (m_sequence s)")
    case True
    show thesis by (rule new [OF Some p]) (use assms Some p True in \<open>simp_all add: update_status_icon_def Let_def split: if_splits\<close>)
  next
    case False
    show thesis by (rule dropped [OF Some p]) (use assms Some p False in \<open>simp_all add: update_status_icon_def Let_def split: if_splits\<close>)
  qed
qed

lemma update_status_icon_same: "update_status_icon g d s = Some (d1, s1) \<Longrightarrow> icon_same d d1 s s1"
  by (erule update_status_icon_cases) (simp_all add: icon_same_def)

lemma update_status_icon_tracked:
  assumes "update_status_icon g d s = Some (d1, s1)" and "distinct (data_files d)"
    and "set (data_files d) \<subseteq> set (m_disk s)" and "\<forall>n\<in>set (m_disk s). n \<le> m_sequence s"
  shows "icon_tracked d d1 s s1"
  using assms(1)
proof (cases rule: update_status_icon_cases)
  case none
  with assms(2,3) show ?thesis by (auto simp: icon_tracked_def)
next
  case (new ind kept gone)
  note f = purge_files [OF new(2) assms(2)]
  have files: "data_files d1 = map fst kept @ [m_sequence s + 1]" and disk: "set (m_disk s1) = (set (m_disk s) - set gone) \<union> {m_sequence s + 1}"
    by (auto simp: new unlink_all_def)
  have "m_sequence s + 1 \<notin> set (map fst kept)" using f(3) assms(3,4) by fastforce
  then show ?thesis using f assms(3) unfolding icon_tracked_def files disk by (auto simp: new(4))
next
  case (dropped ind kept gone)
  note f = purge_files [OF dropped(2) assms(2)]
  have files: "data_files d1 = map fst kept" and disk: "set (m_disk s1) = set (m_disk s) - set gone"
    by (auto simp: dropped unlink_all_def)
  show ?thesis using f assms(3) unfolding icon_tracked_def files disk by (auto simp: dropped(4))
qed

subsection \<open>Every command keeps the invariant\<close>

text \<open>
  A change of one root: its tree stays well formed and its files are tracked. The same for a
  new root at the end.
\<close>

lemma files_ok_sub:
  assumes "files_ok s" and "i < length (m_roots s)"
  shows "set (data_files (item_data (m_roots s ! i))) \<subseteq> set (m_disk s)"
proof -
  have "set (m_disk s) = (\<Union>t\<in>set (m_roots s). set (data_files (item_data t)))"
    using assms(1) unfolding files_ok_def by blast
  with nth_mem [OF assms(2)] show ?thesis by blast
qed

lemma files_ok_change:
  assumes ok: "files_ok s" and i: "i < length (m_roots s)"
    and roots: "m_roots s1 = (m_roots s)[i := t1]"
    and track: "icon_tracked (item_data (m_roots s ! i)) (item_data t1) s s1"
  shows "files_ok s1"
proof -
  let ?F = "\<lambda>t. set (data_files (item_data t))"
  let ?rs = "m_roots s"
  have dist: "\<And>j. j < length ?rs \<Longrightarrow> distinct (data_files (item_data (?rs ! j)))"
    and apart: "\<And>j k. j < length ?rs \<Longrightarrow> k < length ?rs \<Longrightarrow> j \<noteq> k \<Longrightarrow> ?F (?rs ! j) \<inter> ?F (?rs ! k) = {}"
    and disk: "set (m_disk s) = (\<Union>t\<in>set ?rs. ?F t)" and bound: "\<And>n. n \<in> set (m_disk s) \<Longrightarrow> n \<le> m_sequence s"
    using ok unfolding files_ok_def by blast+
  have t: "m_sequence s \<le> m_sequence s1" "distinct (data_files (item_data t1))"
    "set (m_disk s1) = (set (m_disk s) - ?F (?rs ! i)) \<union> ?F t1"
    "?F t1 \<subseteq> ?F (?rs ! i) \<union> {m. m_sequence s < m \<and> m \<le> m_sequence s1}"
    using track by (simp_all add: icon_tracked_def)
  have sub: "?F (?rs ! j) \<subseteq> set (m_disk s)" if "j < length ?rs" for j using files_ok_sub [OF ok that] .
  have new: "?F t1 \<inter> ?F (?rs ! j) = {}" if "j < length ?rs" "j \<noteq> i" for j
  proof (rule ccontr)
    assume "?F t1 \<inter> ?F (?rs ! j) \<noteq> {}"
    then obtain x where x: "x \<in> ?F t1" "x \<in> ?F (?rs ! j)" by blast
    with sub [OF that(1)] bound have "x \<le> m_sequence s" by blast
    with x(1) t(4) have "x \<in> ?F (?rs ! i)" by auto
    with x(2) apart [OF i that(1)] that(2) show False by blast
  qed
  have union: "(\<Union>t\<in>set (?rs[i := t1]). ?F t) = (set (m_disk s) - ?F (?rs ! i)) \<union> ?F t1"
  proof -
    have "set (?rs[i := t1]) = insert t1 {?rs ! j | j. j < length ?rs \<and> j \<noteq> i}"
      using i by (auto simp: set_conv_nth nth_list_update)
    moreover have "(\<Union>t\<in>{?rs ! j | j. j < length ?rs \<and> j \<noteq> i}. ?F t) = set (m_disk s) - ?F (?rs ! i)"
    proof (intro equalityI subsetI)
      fix x assume "x \<in> (\<Union>t\<in>{?rs ! j | j. j < length ?rs \<and> j \<noteq> i}. ?F t)"
      then obtain j where "j < length ?rs" "j \<noteq> i" "x \<in> ?F (?rs ! j)" by blast
      with sub [of j] apart [OF i, of j] show "x \<in> set (m_disk s) - ?F (?rs ! i)" by blast
    next
      fix x assume x: "x \<in> set (m_disk s) - ?F (?rs ! i)"
      then obtain t where "t \<in> set ?rs" "x \<in> ?F t" unfolding disk by blast
      then obtain j where "j < length ?rs" "x \<in> ?F (?rs ! j)" by (metis in_set_conv_nth)
      with x show "x \<in> (\<Union>t\<in>{?rs ! j | j. j < length ?rs \<and> j \<noteq> i}. ?F t)" by blast
    qed
    ultimately show ?thesis by auto
  qed
  show ?thesis unfolding files_ok_def roots
  proof (intro conjI allI impI ballI)
    fix n assume "n \<in> set (m_disk s1)"
    then show "n \<le> m_sequence s1" using t sub [OF i] bound by fastforce
  next
    show "set (m_disk s1) = (\<Union>t\<in>set (?rs[i := t1]). ?F t)" unfolding union by (rule t(3))
  next
    fix j k assume jk: "j < length (?rs[i := t1])" "k < length (?rs[i := t1])" "j \<noteq> k"
    show "?F ((?rs[i := t1]) ! j) \<inter> ?F ((?rs[i := t1]) ! k) = {}"
    proof (cases "j = i \<or> k = i")
      case True
      then show ?thesis using jk new [of j] new [of k] by (auto simp del: set_map)
    next
      case False
      then show ?thesis using jk apart [of j k] by simp
    qed
  qed (use dist t(2) i in \<open>simp add: nth_list_update\<close>)
qed

lemma menu_wf_change:
  assumes wf: "menu_wf s" and i: "i < length (m_roots s)" and roots: "m_roots s1 = (m_roots s)[i := t1]"
    and tree: "tree_ok False True t1" and track: "icon_tracked (item_data (m_roots s ! i)) (item_data t1) s s1"
  shows "menu_wf s1"
proof -
  have "files_ok s1" using files_ok_change [OF _ i roots track] wf by (simp add: menu_wf_def)
  moreover have "\<forall>t\<in>set (m_roots s1). tree_ok False True t"
    using wf tree unfolding roots menu_wf_def by (auto dest!: set_update_subset_insert [THEN subsetD])
  ultimately show ?thesis by (simp add: menu_wf_def)
qed

lemma icon_tracked_same:
  assumes "menu_wf s" and "i < length (m_roots s)" and "icon_files d1 = icon_files (item_data (m_roots s ! i))"
    and "m_disk s1 = m_disk s" and "m_sequence s1 = m_sequence s"
  shows "icon_tracked (item_data (m_roots s ! i)) d1 s s1"
proof -
  have ok: "files_ok s" using assms(1) by (simp add: menu_wf_def)
  then have "distinct (data_files (item_data (m_roots s ! i)))" using assms(2) by (simp add: files_ok_def)
  with files_ok_sub [OF ok assms(2)] show ?thesis
    unfolding icon_tracked_def assms(3-5) by (simp add: Un_absorb2 Diff_partition Un_commute)
qed

lemma root_files_hyps:
  assumes "menu_wf s" and "i < length (m_roots s)"
  shows "distinct (data_files (item_data (m_roots s ! i)))" and "set (data_files (item_data (m_roots s ! i))) \<subseteq> set (m_disk s)"
    and "\<forall>n\<in>set (m_disk s). n \<le> m_sequence s"
proof -
  have ok: "files_ok s" using assms(1) by (simp add: menu_wf_def)
  show "distinct (data_files (item_data (m_roots s ! i)))" and "\<forall>n\<in>set (m_disk s). n \<le> m_sequence s"
    using ok assms(2) by (simp_all add: files_ok_def)
  show "set (data_files (item_data (m_roots s ! i))) \<subseteq> set (m_disk s)" using ok assms(2) by (rule files_ok_sub)
qed

text \<open>Replacing what a path points to, without touching icon files.\<close>

lemma menu_wf_put:
  assumes wf: "menu_wf s" and i: "i < length (m_roots s)" and p: "valid_path p (m_roots s ! i)"
    and u: "\<And>gone root. tree_ok gone root (item_at p (m_roots s ! i)) \<Longrightarrow> tree_ok gone root u"
    and files: "p = [] \<Longrightarrow> icon_files (item_data u) = icon_files (item_data (m_roots s ! i))"
  shows "menu_wf (s\<lparr>m_roots := root_update (i # p) (\<lambda>_. u) (m_roots s)\<rparr>)"
proof (rule menu_wf_change [OF wf i])
  have "tree_ok False True (m_roots s ! i)" using wf i by (simp add: menu_wf_def)
  then show "tree_ok False True (item_update p (\<lambda>_. u) (m_roots s ! i))" using p u by (rule tree_ok_update)
  show "icon_tracked (item_data (m_roots s ! i)) (item_data (item_update p (\<lambda>_. u) (m_roots s ! i))) s
      (s\<lparr>m_roots := root_update (i # p) (\<lambda>_. u) (m_roots s)\<rparr>)"
    by (rule icon_tracked_same [OF wf i]) (use files in \<open>cases p; simp add: item_update_data\<close>)+
qed simp

text \<open>What an outcome must be: never a fault or divergence, and a well-formed state.\<close>

definition menu_fine :: "menu_state outcome \<Rightarrow> bool" where
  "menu_fine out = (case out of Ret s \<Rightarrow> menu_wf s | Croak m \<Rightarrow> True | Fault \<Rightarrow> False | Diverge \<Rightarrow> False)"

lemma menu_fine_simps [simp]: "menu_fine (Ret s) = menu_wf s" "menu_fine (Croak m)" "\<not> menu_fine Fault" "\<not> menu_fine Diverge"
  by (simp_all add: menu_fine_def)

lemma root_at_path: "root_at q rs = Some t \<Longrightarrow> \<exists>i p. q = i # p \<and> t = item_at p (rs ! i)"
  by (cases q) auto

lemma set_item_icon_fine:
  assumes wf: "menu_wf s" and i: "i < length (m_roots s)" and p: "valid_path p (m_roots s ! i)"
  shows "menu_fine (set_item_icon g icon (i # p) s)"
proof -
  obtain d cs where at: "item_at p (m_roots s ! i) = DDItem d cs" by (cases "item_at p (m_roots s ! i)")
  have root: "tree_ok False True (m_roots s ! i)" using wf i by (simp add: menu_wf_def)
  obtain gone r where ok: "tree_ok gone r (DDItem d cs)" and r: "p = [] \<Longrightarrow> r" "p \<noteq> [] \<Longrightarrow> \<not> r"
    using tree_ok_at [OF root p] at by auto
  show ?thesis
  proof (cases "removed d")
    case True
    then show ?thesis using wf by (simp add: set_item_icon_def at)
  next
    case alive: False
    let ?d1 = "d\<lparr>icon_utf8 := icon\<rparr>"
    show ?thesis
    proof (cases "indicator d")
      case None
      have p0: "p \<noteq> []" using ok None r by (auto simp: data_ok_def)
      show ?thesis
      proof (cases "menu_item d")
        case Wid_Null
        have "menu_wf (s\<lparr>m_roots := root_update (i # p) (\<lambda>_. DDItem ?d1 cs) (m_roots s)\<rparr>)"
          by (rule menu_wf_put [OF wf i p]) (use at p0 in \<open>auto simp: data_ok_def\<close>)
        then show ?thesis using alive None Wid_Null by (simp add: set_item_icon_def at Let_def)
      next
        case (Wid_Live label sig)
        have "menu_wf (s\<lparr>m_roots := root_update (i # p) (\<lambda>_. DDItem (?d1\<lparr>menu_item := Wid_Live icon sig\<rparr>) cs) (m_roots s)\<rparr>)"
          by (rule menu_wf_put [OF wf i p]) (use at p0 in \<open>auto simp: data_ok_def\<close>)
        then show ?thesis using alive None Wid_Live by (simp add: set_item_icon_def at Let_def)
      next
        case Wid_Dangling
        then show ?thesis using ok alive by (simp add: data_ok_def)
      qed
    next
      case (Some ind)
      have p0: "p = []" using ok Some r by (cases "p = []") (auto simp: data_ok_def)
      show ?thesis
      proof (cases "update_status_icon g ?d1 s")
        case None
        then show ?thesis using alive Some by (simp add: set_item_icon_def at Let_def)
      next
        case (Some res)
        obtain d2 s1 where res: "res = (d2, s1)" by (cases res)
        note up = Some [unfolded res]
        have data: "item_data (m_roots s ! i) = d" using at p0 by simp
        have "icon_tracked ?d1 d2 s s1"
          by (rule update_status_icon_tracked [OF up]) (use root_files_hyps [OF wf i] data in simp_all)
        then have track: "icon_tracked d d2 s (s1\<lparr>m_roots := (m_roots s1)[i := DDItem d2 cs]\<rparr>)"
          by (simp add: icon_tracked_def)
        have same: "icon_same ?d1 d2 s s1" using up by (rule update_status_icon_same)
        have "menu_wf (s1\<lparr>m_roots := (m_roots s1)[i := DDItem d2 cs]\<rparr>)"
        proof (rule menu_wf_change [OF wf i])
          show "tree_ok False True (DDItem d2 cs)"
            using root at p0 same \<open>indicator d = Some ind\<close> by (auto simp: data_ok_def icon_same_def)
        qed (use track same data in \<open>simp_all add: icon_same_def\<close>)
        then show ?thesis using alive \<open>indicator d = Some ind\<close> up p0 at by (simp add: set_item_icon_def Let_def)
      qed
    qed
  qed
qed

lemma remove_item_fine:
  assumes wf: "menu_wf s" and i: "i < length (m_roots s)" and p: "valid_path p (m_roots s ! i)"
  shows "menu_fine (remove_item (i # p) s)"
proof -
  obtain d cs where at: "item_at p (m_roots s ! i) = DDItem d cs" by (cases "item_at p (m_roots s ! i)")
  have root: "tree_ok False True (m_roots s ! i)" using wf i by (simp add: menu_wf_def)
  obtain gone r where ok: "tree_ok gone r (DDItem d cs)" and r: "p = [] \<Longrightarrow> r" "p \<noteq> [] \<Longrightarrow> \<not> r"
    using tree_ok_at [OF root p] at by auto
  show ?thesis
  proof (cases "removed d")
    case True
    then show ?thesis using wf by (simp add: remove_item_def at)
  next
    case alive: False
    let ?d1 = "d\<lparr>removed := True\<rparr>" and ?cs = "map item_mark_removed cs"
    have mark: "tree_ok gone root (DDItem d cs) \<Longrightarrow> tree_ok gone root (DDItem ?d1 ?cs)" for gone root
      using tree_ok_removed [of gone root "DDItem d cs"] tree_ok_weaken by (simp del: tree_ok.simps)
    show ?thesis
    proof (cases "indicator d")
      case (Some ind)
      have p0: "p = []" using ok Some r by (cases "p = []") (auto simp: data_ok_def)
      have "menu_wf (s\<lparr>m_roots := root_update (i # p) (\<lambda>_. DDItem (?d1\<lparr>indicator := Some (Indicator False (ind_icon ind))\<rparr>) ?cs) (m_roots s)\<rparr>)"
        by (rule menu_wf_put [OF wf i p]) (use mark Some at p0 in \<open>auto simp: data_ok_def\<close>)
      then show ?thesis using alive Some by (simp add: remove_item_def at Let_def)
    next
      case None
      have p0: "p \<noteq> []" using ok None r by (auto simp: data_ok_def)
      show ?thesis
      proof (cases "menu_item d")
        case Wid_Null
        have "menu_wf (s\<lparr>m_roots := root_update (i # p) (\<lambda>_. DDItem ?d1 ?cs) (m_roots s)\<rparr>)"
          by (rule menu_wf_put [OF wf i p]) (use mark at p0 in \<open>auto simp del: tree_ok.simps\<close>)
        then show ?thesis using alive None Wid_Null by (simp add: remove_item_def at Let_def)
      next
        case (Wid_Live label sig)
        have "menu_wf (s\<lparr>m_roots := root_update (i # p) (\<lambda>_. DDItem (?d1\<lparr>menu_item := Wid_Null\<rparr>) (map destroyed ?cs)) (m_roots s)\<rparr>)"
        proof (rule menu_wf_put [OF wf i p])
          fix gone root assume "tree_ok gone root (item_at p (m_roots s ! i))"
          then have "tree_ok gone root (DDItem ?d1 ?cs)" using mark [of gone root] at by (simp del: tree_ok.simps)
          then show "tree_ok gone root (DDItem (?d1\<lparr>menu_item := Wid_Null\<rparr>) (map destroyed ?cs))"
            by (auto simp: data_ok_def intro!: tree_ok_destroyed all_removed_mark)
        qed (use p0 in simp)
        then show ?thesis using alive None Wid_Live by (simp add: remove_item_def at Let_def)
      next
        case Wid_Dangling
        then show ?thesis using ok alive by (simp add: data_ok_def)
      qed
    qed
  qed
qed

lemma build_item_ok: "tree_ok gone root t \<Longrightarrow> tree_ok gone root (build_item t)"
  and build_menu_ok: "tree_ok gone root t \<Longrightarrow> tree_ok gone root (build_menu t)"
proof (induction t arbitrary: gone root)
  case (DDItem d cs)
  {
    case 1
    then show ?case using DDItem by (auto simp: data_ok_def)
  next
    case 2
    then show ?case using DDItem by (auto simp: data_ok_def)
  }
qed

lemma build_root_menu_ok: "tree_ok gone root t \<Longrightarrow> tree_ok gone root (build_root_menu t)"
proof (cases t)
  case (DDItem d cs)
  assume ok: "tree_ok gone root t"
  show ?thesis
  proof (cases "cs = []")
    case True
    with ok show ?thesis by (auto simp: DDItem build_root_menu_def data_ok_def)
  next
    case False
    with build_menu_ok [OF ok] show ?thesis by (simp add: DDItem build_root_menu_def del: build_menu.simps)
  qed
qed

lemma keep_somes_set: "x \<in> set (keep_somes xs) \<longleftrightarrow> Some x \<in> set xs"
  by (induction xs rule: keep_somes.induct) auto

lemma item_from_json_ok: "item_from_json v = Some t \<Longrightarrow> tree_ok False False t \<and> \<not> removed (item_data t)"
proof (induction v arbitrary: t rule: item_from_json.induct)
  case (1 obj)
  obtain name icon where t: "t = DDItem (new_data name icon (j_get obj ''click'' \<noteq> None) (j_get_bool obj ''click_stay'' False))
      (keep_somes (map item_from_json (menu_values obj)))"
    and some: "j_get_string obj ''name'' = Some name" "j_get_string obj ''icon'' = Some icon"
    using 1(2) by (auto simp: item_from_json.simps [of obj] split: option.splits)
  have "tree_ok False False c" if "c \<in> set (item_children t)" for c
  proof -
    obtain v where "v \<in> set (menu_values obj)" "item_from_json v = Some c"
      using \<open>c \<in> set (item_children t)\<close> by (auto simp: t keep_somes_set)
    with 1(1) [OF refl some(1) some(2)] show ?thesis by simp
  qed
  then show ?case by (simp add: t new_data_def data_ok_def)
qed

lemma install_root_fine:
  assumes wf: "menu_wf s" and t: "tree_ok False False t" and run: "install_root g t s = Some s1"
  shows "menu_wf s1"
proof -
  obtain d cs where b: "build_root_menu t = DDItem d cs" by (cases "build_root_menu t")
  have ok: "tree_ok False False (DDItem d cs)" using build_root_menu_ok [OF t] b by simp
  then have d: "icon_files d = []" "indicator d = None" by (auto simp: data_ok_def)
  let ?id = "m_sequence s + 1"
  let ?s1 = "s\<lparr>m_sequence := ?id\<rparr>"
  have bound: "\<forall>n\<in>set (m_disk s). n \<le> m_sequence s" using wf by (simp add: menu_wf_def files_ok_def)
  show ?thesis
  proof (cases "gui_indicator g ?id")
    case False
    have "item_free (DDItem d cs) ?s1 = ?s1"
      using tree_ok_files_child [OF ok] by (simp add: item_free_def unlink_all_def)
    with False run b have "s1 = ?s1" by (simp add: install_root_def Let_def)
    then show ?thesis using wf bound by (simp add: menu_wf_def files_ok_def le_SucI)
  next
    case True
    let ?d = "d\<lparr>indicator := Some (Indicator False None)\<rparr>"
    obtain d1 s2 where up: "update_status_icon g ?d ?s1 = Some (d1, s2)"
      and s1: "s1 = s2\<lparr>m_roots := m_roots s2 @ [DDItem (d1\<lparr>indicator := map_option (\<lambda>i. Indicator True (ind_icon i)) (indicator d1)\<rparr>) cs]\<rparr>"
      using True run b by (auto simp: install_root_def Let_def split: option.splits)
    let ?t1 = "DDItem (d1\<lparr>indicator := map_option (\<lambda>i. Indicator True (ind_icon i)) (indicator d1)\<rparr>) cs"
    have same: "icon_same ?d d1 ?s1 s2" using up by (rule update_status_icon_same)
    have track: "icon_tracked ?d d1 ?s1 s2"
      using bound by (intro update_status_icon_tracked [OF up]) (auto simp: d le_SucI)
    let ?s0 = "?s1\<lparr>m_roots := m_roots s @ [DDItem ?d cs]\<rparr>"
    have wf0: "menu_wf ?s0"
    proof -
      have "tree_ok False True (DDItem ?d cs)" using ok by (auto simp: data_ok_def)
      moreover have "files_ok ?s0"
        using wf bound d unfolding menu_wf_def files_ok_def by (simp add: nth_append le_SucI)
      ultimately show ?thesis using wf by (simp add: menu_wf_def)
    qed
    show ?thesis
    proof (rule menu_wf_change [OF wf0, of "length (m_roots s)" s1 ?t1])
      show "m_roots s1 = (m_roots ?s0)[length (m_roots s) := ?t1]" using same by (simp add: s1 icon_same_def)
      show "tree_ok False True ?t1" using ok same by (auto simp: data_ok_def icon_same_def)
      show "icon_tracked (item_data (m_roots ?s0 ! length (m_roots s))) (item_data ?t1) ?s0 s1"
        using track by (simp add: icon_tracked_def s1)
    qed simp
  qed
qed

lemma install_loop_fine: "menu_wf s \<Longrightarrow> install_loop g vs s = Some s1 \<Longrightarrow> menu_wf s1"
proof (induction vs arbitrary: s)
  case (Cons v vs)
  show ?case
  proof (cases "item_from_json v")
    case None
    with Cons show ?thesis by simp
  next
    case (Some t)
    then obtain s2 where "install_root g t s = Some s2" "install_loop g vs s2 = Some s1"
      using Cons.prems by (auto split: option.splits)
    with Cons.IH install_root_fine [OF Cons.prems(1)] item_from_json_ok [OF Some] show ?thesis by blast
  qed
qed simp

lemma run_command_fine:
  assumes wf: "menu_wf s"
  shows "menu_fine (run_command g cmd s)"
proof -
  have clean: "menu_wf (clear_roots s)" by (simp add: clear_roots_clean [OF wf])
  have found: "menu_fine (at_found name s f)" if "\<And>i p. i < length (m_roots s) \<Longrightarrow> valid_path p (m_roots s ! i) \<Longrightarrow> menu_fine (f (i # p))" for name f
  proof (cases "case name of None \<Rightarrow> None | Some n \<Rightarrow> find_item n s")
    case None
    then show ?thesis using wf by (auto simp: at_found_def split: option.splits)
  next
    case (Some q)
    then obtain n where n: "name = Some n" "find_items n 0 (m_roots s) = Some q" by (auto simp: find_item_def split: option.splits)
    with find_item_valid(2) [OF n(2)] that show ?thesis by (auto simp: at_found_def find_item_def)
  qed
  have run: "install_roots g items s = Some s1 \<Longrightarrow> menu_wf s1" for items s1
    using install_loop_fine [OF clean] clean by (auto simp: install_roots_def split: option.splits jvalue.splits)
  have stop: "menu_wf ((clear_roots s)\<lparr>m_running := False\<rparr>)" by (simp add: clear_roots_clean [OF wf])
  show ?thesis unfolding run_command_def
    using wf run stop found set_item_icon_fine [OF wf] remove_item_fine [OF wf]
    by (simp split: option.split)
qed

lemma handle_command_fine: "menu_wf s \<Longrightarrow> menu_fine (handle_command g line s)"
  using j_parse_never_bad [of line] run_command_fine by (auto simp: handle_command_def split: parse_out.split)

lemma stdin_loop_fine: "menu_wf s \<Longrightarrow> menu_fine (stdin_loop g rs s)"
proof (induction g rs s rule: stdin_loop.induct)
  case (2 g line rs s)
  show ?case
  proof (cases "strip_eol line = []")
    case False
    show ?thesis using handle_command_fine [OF "2.prems", of g "strip_eol line"] "2.IH"(2) [OF False] False
      by (cases "handle_command g (strip_eol line) s") auto
  qed (use 2 in simp)
qed (simp_all add: quit_def clear_roots_clean)

lemma helper_run_fine: "menu_wf s \<Longrightarrow> menu_fine (helper_run ws s)"
proof (induction ws s rule: helper_run.induct)
  case (2 g hangup rs ws s)
  have "menu_fine (on_stdin_ready g hangup rs s)"
    using stdin_loop_fine [OF "2.prems"] "2.prems" by (simp add: on_stdin_ready_def quit_def clear_roots_clean)
  then show ?case using 2 by (cases "on_stdin_ready g hangup rs s") (auto simp: clear_roots_clean)
qed simp

subsection \<open>Menus from their description\<close>

text \<open>What the Perl side describes in a \<open>run\<close> command, and the JSON it sends for it.\<close>

datatype menu_spec = Menu_Spec (sp_name: string) (sp_icon: string) (sp_click: bool) (sp_stay: bool) (sp_kids: "menu_spec list")

fun spec_ok :: "menu_spec \<Rightarrow> bool" where
  "spec_ok (Menu_Spec name icon click stay kids) = (NUL \<notin> set name \<and> NUL \<notin> set icon \<and> (\<forall>k\<in>set kids. spec_ok k))"

fun json_of :: "menu_spec \<Rightarrow> jvalue" where
  "json_of (Menu_Spec name icon click stay kids) =
     J_Object ([(''name'', J_String name), (''icon'', J_String icon)] @ (if click then [(''click'', J_Bool True)] else [])
       @ [(''click_stay'', J_Bool stay), (''menu'', J_Array (map json_of kids))])"

fun item_of :: "menu_spec \<Rightarrow> dd_item" where
  "item_of (Menu_Spec name icon click stay kids) = DDItem (new_data name icon click stay) (map item_of kids)"

text \<open>An entry of a menu: its label, and what a click on it does.\<close>

fun spec_signal :: "menu_spec \<Rightarrow> signal" where
  "spec_signal (Menu_Spec name icon click stay kids) =
     (if kids \<noteq> [] then Sig_Submenu else if \<not> click then Sig_None else if stay then Sig_Press else Sig_Activate)"

fun entry_of :: "menu_spec \<Rightarrow> dd_item" where
  "entry_of (Menu_Spec name icon click stay kids) =
     DDItem ((new_data name icon click stay)\<lparr>menu_item := Wid_Live icon (spec_signal (Menu_Spec name icon click stay kids))\<rparr>)
       (map entry_of kids)"

definition displays :: "menu_spec \<Rightarrow> dd_item \<Rightarrow> bool" where
  "displays sp t \<longleftrightarrow> name_utf8 (item_data t) = sp_name sp \<and> icon_utf8 (item_data t) = sp_icon sp \<and> \<not> removed (item_data t)
     \<and> map_option ind_active (indicator (item_data t)) = Some True \<and> item_children t = map entry_of (sp_kids sp)"

lemma literal_c_str [simp]:
  "c_str ''name'' = ''name''" "c_str ''icon'' = ''icon''" "c_str ''click'' = ''click''" "c_str ''click_stay'' = ''click_stay''"
  "c_str ''menu'' = ''menu''" "c_str ''op'' = ''op''" "c_str ''items'' = ''items''" "c_str ''run'' = ''run''"
  by (simp_all add: c_str_def NUL_def)

lemma menu_values_json: "menu_values (json_of sp) = map json_of (sp_kids sp)"
  by (cases sp) (simp add: menu_values_def)

lemma keep_somes_map: "(\<And>x. x \<in> set xs \<Longrightarrow> f x = Some (g x)) \<Longrightarrow> keep_somes (map f xs) = map g xs"
  by (induction xs) simp_all

lemma item_from_json_of: "spec_ok sp \<Longrightarrow> item_from_json (json_of sp) = Some (item_of sp)"
proof (induction sp)
  case (Menu_Spec name icon click stay kids)
  have "keep_somes (map (\<lambda>k. item_from_json (json_of k)) kids) = map item_of kids"
    by (rule keep_somes_map) (use Menu_Spec in simp)
  then have kids: "keep_somes (map item_from_json (map json_of kids)) = map item_of kids" by (simp add: comp_def)
  let ?j = "json_of (Menu_Spec name icon click stay kids)"
  have "j_get_string ?j ''name'' = Some name" "j_get_string ?j ''icon'' = Some icon"
    using Menu_Spec.prems by (simp_all add: j_get_string_def c_str_no_NUL)
  moreover have "(j_get ?j ''click'' \<noteq> None) = click" "j_get_bool ?j ''click_stay'' False = stay"
    by (simp_all add: j_get_bool_def)
  moreover have "menu_values ?j = map json_of kids" using menu_values_json [of "Menu_Spec name icon click stay kids"] by simp
  ultimately show ?case by (subst item_from_json.simps) (simp only: kids prod.case option.case item_of.simps)
qed

lemma build_item_of: "build_item (item_of sp) = entry_of sp"
proof (induction sp)
  case (Menu_Spec name icon click stay kids)
  then have "map build_item (map item_of kids) = map entry_of kids" by simp
  then show ?case by (simp add: item_signal_def new_data_def)
qed

lemma install_root_of:
  assumes "install_root g (item_of sp) s = Some s1" and "gui_indicator g (m_sequence s + 1)"
  shows "\<exists>t. m_roots s1 = m_roots s @ [t] \<and> displays sp t \<and> m_running s1 = m_running s"
proof -
  obtain name icon click stay kids where sp: "sp = Menu_Spec name icon click stay kids" by (cases sp)
  obtain d where b: "build_root_menu (item_of sp) = DDItem d (map entry_of kids)" and d: "name_utf8 d = name" "icon_utf8 d = icon" "\<not> removed d"
    by (cases "kids = []") (auto simp: sp build_root_menu_def new_data_def build_item_of)
  obtain d1 s2 where up: "update_status_icon g (d\<lparr>indicator := Some (Indicator False None)\<rparr>) (s\<lparr>m_sequence := m_sequence s + 1\<rparr>) = Some (d1, s2)"
    and s1: "s1 = s2\<lparr>m_roots := m_roots s2 @ [DDItem (d1\<lparr>indicator := map_option (\<lambda>i. Indicator True (ind_icon i)) (indicator d1)\<rparr>) (map entry_of kids)]\<rparr>"
    using assms b by (auto simp: install_root_def Let_def split: option.splits)
  from update_status_icon_same [OF up] d show ?thesis
    by (auto simp: s1 icon_same_def displays_def sp)
qed

lemma install_loop_of:
  assumes "install_loop g (map json_of sps) s = Some s1" and "\<forall>sp\<in>set sps. spec_ok sp" and "\<forall>n. gui_indicator g n"
  shows "\<exists>ts. m_roots s1 = m_roots s @ ts \<and> list_all2 displays sps ts"
  using assms
proof (induction sps arbitrary: s)
  case (Cons sp sps)
  obtain s2 where one: "install_root g (item_of sp) s = Some s2" and rest: "install_loop g (map json_of sps) s2 = Some s1"
    using Cons.prems by (auto simp: item_from_json_of split: option.splits)
  from install_root_of [OF one] Cons.prems(3) obtain t where t: "m_roots s2 = m_roots s @ [t]" "displays sp t" by auto
  from Cons.IH [OF rest] Cons.prems obtain ts where "m_roots s1 = m_roots s2 @ ts" "list_all2 displays sps ts" by auto
  with t show ?case by (intro exI [of _ "t # ts"]) simp
qed simp

definition run_value :: "menu_spec list \<Rightarrow> jvalue" where
  "run_value sps = J_Object [(''op'', J_String ''run''), (''items'', J_Array (map json_of sps))]"

definition kind_gui :: "int \<Rightarrow> gui" where
  "kind_gui now = \<lparr>gui_indicator = (\<lambda>_. True), gui_dir = (\<lambda>_. True), gui_pixbuf = (\<lambda>_. True), gui_save = (\<lambda>_. True), gui_now = now\<rparr>"

subsection \<open>Removal\<close>

lemma item_at_update: "valid_path p t \<Longrightarrow> item_at p (item_update p f t) = f (item_at p t)"
proof (induction p arbitrary: t)
  case (Cons i p)
  then show ?case by (cases t) auto
qed simp

lemma removed_below: "all_removed t \<Longrightarrow> valid_path p t \<Longrightarrow> all_removed (item_at p t)"
proof (induction p arbitrary: t)
  case (Cons i p)
  then show ?case by (cases t) auto
qed simp

lemma all_removed_data: "all_removed t \<Longrightarrow> removed (item_data t)"
  by (cases t) simp

lemma remove_item_marks:
  assumes "remove_item (i # p) s = Ret s1" and "i < length (m_roots s)" and "valid_path p (m_roots s ! i)"
    and "\<not> removed (item_data (item_at p (m_roots s ! i)))"
  shows "all_removed (item_at p (m_roots s1 ! i))"
proof -
  obtain d cs where at: "item_at p (m_roots s ! i) = DDItem d cs" by (cases "item_at p (m_roots s ! i)")
  have marked: "\<forall>c\<in>set cs. all_removed (item_mark_removed c)" by (simp add: all_removed_mark)
  obtain u where "m_roots s1 = (m_roots s)[i := item_update p (\<lambda>_. u) (m_roots s ! i)]" and "all_removed u"
    using assms(1,4) marked all_removed_destroyed
    by (auto simp: remove_item_def at Let_def split: option.splits widget.splits)
  then show ?thesis using assms(2,3) by (simp add: item_at_update)
qed

section \<open>Properties\<close>

text \<open>C26: For any sequence of wake-ups and any bytes on its input, the helper never reads a dangling widget
  pointer and never gets stuck in its parser, and its state stays well formed: everything below a removed
  item is removed, indicators and icon files belong to the roots, no two roots share a file, and the
  files on the disk are exactly those the roots know of.\<close>

theorem menu_helper_safe: "menu_fine (helper_run ws menu_start)"
  by (rule helper_run_fine) (simp add: menu_start_def)



text \<open>A \<open>run\<close> command replaces the roots by one active indicator for each item of its list, in
  order, with its name and icon; the menu below shows the children with their labels, submenus, click handlers
  and insensitive entries as described.\<close>

theorem menu_run_installs:
  assumes "menu_wf s" and "\<forall>sp\<in>set sps. spec_ok sp" and "\<forall>n. gui_indicator g n"
    and "run_command g (run_value sps) s = Ret s1"
  shows "list_all2 displays sps (m_roots s1)"
proof -
  have "install_loop g (map json_of sps) (clear_roots s) = Some s1"
    using assms(4) by (auto simp: run_command_def run_value_def j_get_string_def install_roots_def split: option.splits)
  from install_loop_of [OF this assms(2,3)] show ?thesis by (auto simp: clear_roots_clean [OF assms(1)])
qed

theorem menu_run_installs_witness:
  "\<exists>s1. run_command (kind_gui 7) (run_value [Menu_Spec ''a'' ''A'' False False [Menu_Spec ''b'' ''B'' True True []]]) menu_start = Ret s1
     \<and> list_all2 displays [Menu_Spec ''a'' ''A'' False False [Menu_Spec ''b'' ''B'' True True []]] (m_roots s1)"
proof -
  let ?sps = "[Menu_Spec ''a'' ''A'' False False [Menu_Spec ''b'' ''B'' True True []]]"
  have ok: "\<forall>sp\<in>set ?sps. spec_ok sp" by (simp add: NUL_def)
  obtain s1 where "run_command (kind_gui 7) (run_value ?sps) menu_start = Ret s1"
    using item_from_json_of [of "hd ?sps"] ok
    by (auto simp: run_command_def run_value_def j_get_string_def install_roots_def clear_roots_def menu_start_def
        install_root_def Let_def update_status_icon_def kind_gui_def new_data_def build_root_menu_def purge.simps
        simp del: json_of.simps split: dd_item.split)
  with menu_run_installs [of menu_start ?sps "kind_gui 7" s1] ok show ?thesis
    by (auto simp: menu_start_def kind_gui_def)
qed


definition one_menu :: menu_state where
  "one_menu = \<lparr>m_roots = [DDItem ((new_data ''r'' ''R'' False False)\<lparr>indicator := Some (Indicator True None)\<rparr>)
     [DDItem ((new_data ''b'' ''B'' True False)\<lparr>menu_item := Wid_Live ''B'' Sig_Activate\<rparr>) []]],
     m_sequence = 3, m_disk = [], m_running = True\<rparr>"


text \<open>The loop that drops old icon files, with the last entry filling the gap, keeps exactly the entries not
  older than the grace period and unlinks exactly the others, each once.\<close>

theorem icon_purge_keeps_recent:
  assumes "purge now 0 fs = (kept, gone)"
  shows "mset kept = filter_mset (\<lambda>f. now - snd f \<le> 60) (mset fs)
    \<and> mset gone = image_mset fst (filter_mset (\<lambda>f. now - snd f > 60) (mset fs))"
  using purge_mset [OF assms] by simp

theorem icon_purge_keeps_recent_witness:
  "purge 100 0 [(1, 10), (2, 90), (3, 20)] = ([(2, 90)], [1, 3]) \<and> mset [(2 :: nat, 90 :: int)] = {#(2, 90)#}"
proof -
  have run: "purge 100 0 [(1, 10), (2, 90), (3, 20)] = ([(2, 90)], [1, 3])" by (simp add: purge.simps)
  with icon_purge_keeps_recent [OF run] show ?thesis by simp
qed

text \<open>A root without children shows its icon text as the label of the one entry of its menu; an \<open>icon\<close>
  command renders the new indicator icon but leaves that label as it was.\<close>

theorem root_label_stays:
  assumes "m_roots s ! i = DDItem d []" and "i < length (m_roots s)" and "indicator d = Some ind" and "\<not> removed d"
    and "menu_item d = Wid_Live old sig" and "set_item_icon g icon [i] s = Ret s1"
  shows "icon_utf8 (item_data (m_roots s1 ! i)) = icon \<and> menu_item (item_data (m_roots s1 ! i)) = Wid_Live old sig"
proof -
  obtain d2 s2 where up: "update_status_icon g (d\<lparr>icon_utf8 := icon\<rparr>) s = Some (d2, s2)"
    and s1: "s1 = s2\<lparr>m_roots := (m_roots s2)[i := DDItem d2 []]\<rparr>"
    using assms by (auto simp: set_item_icon_def Let_def split: option.splits)
  from update_status_icon_same [OF up] assms(2,5) show ?thesis by (simp add: s1 icon_same_def)
qed

theorem root_label_stays_witness:
  "\<exists>s1. set_item_icon (kind_gui 1) ''NEW'' [0] \<lparr>m_roots = [DDItem ((new_data ''r'' ''OLD'' True False)
       \<lparr>indicator := Some (Indicator True None), menu_item := Wid_Live ''OLD'' Sig_Activate\<rparr>) []],
       m_sequence = 1, m_disk = [], m_running = True\<rparr> = Ret s1
     \<and> menu_item (item_data (m_roots s1 ! 0)) = Wid_Live ''OLD'' Sig_Activate"
proof -
  let ?d = "(new_data ''r'' ''OLD'' True False)\<lparr>indicator := Some (Indicator True None), menu_item := Wid_Live ''OLD'' Sig_Activate\<rparr>"
  let ?s = "\<lparr>m_roots = [DDItem ?d []], m_sequence = 1, m_disk = [], m_running = True\<rparr>"
  obtain s1 where run: "set_item_icon (kind_gui 1) ''NEW'' [0] ?s = Ret s1"
    by (simp add: set_item_icon_def Let_def new_data_def update_status_icon_def kind_gui_def purge.simps)
  from root_label_stays [OF _ _ _ _ _ run] show ?thesis using run by (auto simp: new_data_def)
qed

end
