(* ===== verification/Process_Spawn.thy ===== *)
theory Process_Spawn
  imports Perl_Value "HOL-Library.Multiset"
begin

section \<open>Starting processes (GoRoutineProcessNative.h, GoRoutineProcess.xs)\<close>

text \<open>
  \<open>spawn\<close> turns a Perl array and a hash of options into one child process. What it allocates on
  the way is kept as a multiset of live resources: releasing one that is not live is a fault (a
  double free), and a resource that is still live when the function is left has leaked. The system
  and the interpreter are the record \<open>spawn_os\<close>: the bytes of a scalar (\<open>SvPVbyte\<close>, which croaks on
  wide characters), the allocator, the return codes of the \<open>posix_spawn\<close> family and of the
  Windows calls. Texts are C strings without their terminating NUL. \<open>errno\<close> texts are left out of the
  messages.
\<close>

datatype resource = Res_Argv | Res_Env | Res_Env_Text | Res_Actions | Res_Attributes | Res_Wrapped
  | Res_Line | Res_In | Res_Out | Res_Err | Res_Thread | Res_Process

record spawn_request =
  req_argv :: "string list"
  req_env :: "string list"
  req_stdin :: "string option"
  req_stdout :: "string option"
  req_stderr :: "string option"
  req_cwd :: "string option"
  req_group :: bool

record spawn_state =
  sp_live :: "resource multiset"
  sp_children :: "spawn_request list"

record 'nv spawn_os =
  os_pvbyte :: "'nv perl_scalar \<Rightarrow> string option"
  os_true :: "'nv perl_sv \<Rightarrow> bool"
  os_calloc :: "resource \<Rightarrow> bool"
  os_text_alloc :: "nat \<Rightarrow> bool"
  os_environ :: "string list"
  os_actions_init :: int
  os_addopen :: "nat \<Rightarrow> string \<Rightarrow> int"
  os_attr_init :: int
  os_attr_setflags :: int
  os_attr_setpgroup :: int
  os_chdir_np :: bool
  os_addchdir :: "string \<Rightarrow> int"
  os_spawnp :: "spawn_request \<Rightarrow> int option"
  os_open_in :: "string \<Rightarrow> bool"
  os_open_out :: "string \<Rightarrow> bool"
  os_open_err :: "string \<Rightarrow> bool"
  os_seek :: "string \<Rightarrow> bool"
  os_create :: "string \<Rightarrow> spawn_request \<Rightarrow> int option"

text \<open>The options, as the fetches find them; \<open>env\<close> is absent, no hash, or the entries of the hash in
  iteration order, a key being \<open>None\<close> when it has no byte form.\<close>

datatype 'nv env_option = Env_Absent | Env_No_Hash | Env_Hash "(string option \<times> 'nv perl_sv) list"

record 'nv spawn_options =
  opt_cwd :: "'nv perl_sv option"
  opt_stdout :: "'nv perl_sv option"
  opt_stderr :: "'nv perl_sv option"
  opt_stdin :: "'nv perl_sv option"
  opt_group :: "'nv perl_sv option"
  opt_env :: "'nv env_option"

definition NULCH :: char where "NULCH = CHR 0x00"

definition acquire :: "resource \<Rightarrow> (spawn_state, unit) xs" where
  "acquire r = xs_modify (\<lambda>s. s\<lparr>sp_live := add_mset r (sp_live s)\<rparr>)"

definition release :: "resource \<Rightarrow> (spawn_state, unit) xs" where
  "release r s = (if r \<in># sp_live s then (Ret (), s\<lparr>sp_live := sp_live s - {#r#}\<rparr>) else (Fault, s))"

fun release_list :: "resource list \<Rightarrow> (spawn_state, unit) xs" where
  "release_list [] = xs_return ()"
| "release_list (r # rs) = xs_then (release r) (release_list rs)"

subsection \<open>Arguments and options\<close>

text \<open>The bytes of a slot, when it is a defined scalar.\<close>

definition sv_bytes :: "'nv spawn_os \<Rightarrow> 'nv perl_sv \<Rightarrow> string option" where
  "sv_bytes os sv = (case sv of SV_Scalar x \<Rightarrow> os_pvbyte os x | _ \<Rightarrow> None)"

definition dd_option_text :: "'nv spawn_os \<Rightarrow> 'nv perl_sv option \<Rightarrow> (spawn_state, string option) xs" where
  "dd_option_text os slot =
     (case slot of
        None \<Rightarrow> xs_return None
      | Some sv \<Rightarrow>
          if \<not> SvOK sv then xs_return None
          else if SvROK sv then xs_croak ''GoRoutine process option must be a scalar''
          else (case sv_bytes os sv of
                  None \<Rightarrow> xs_croak ''Wide character''
                | Some t \<Rightarrow> if NULCH \<in> set t then xs_croak ''GoRoutine process option contains a NUL byte''
                           else xs_return (Some t)))"

fun argv_loop :: "'nv spawn_os \<Rightarrow> 'nv perl_sv option list \<Rightarrow> (spawn_state, string list) xs" where
  "argv_loop os [] = xs_return []"
| "argv_loop os (slot # slots) =
     (case slot of
        Some sv \<Rightarrow>
          if \<not> SvOK sv \<or> SvROK sv
          then xs_then (release Res_Argv) (xs_croak ''GoRoutine argv must be a defined scalar'')
          else (case sv_bytes os sv of
                  None \<Rightarrow> xs_croak ''Wide character''
                | Some t \<Rightarrow>
                    if NULCH \<in> set t then xs_then (release Res_Argv) (xs_croak ''GoRoutine argv contains a NUL byte'')
                    else xs_bind (argv_loop os slots) (\<lambda>ts. xs_return (t # ts)))
      | None \<Rightarrow> xs_then (release Res_Argv) (xs_croak ''GoRoutine argv must be a defined scalar''))"

definition dd_argv_from_av :: "'nv spawn_os \<Rightarrow> 'nv perl_sv option list \<Rightarrow> (spawn_state, string list) xs" where
  "dd_argv_from_av os av =
     (if av = [] then xs_croak ''GoRoutine spawn requires a non-empty argv array''
      else if length av - 1 > (2 ^ 64 - 1) div 8 - 1 then xs_croak ''GoRoutine argv array is too large''
      else if \<not> os_calloc os Res_Argv then xs_croak ''out of memory building GoRoutine argv''
      else xs_then (acquire Res_Argv) (argv_loop os av))"

subsection \<open>The environment of the child\<close>

definition entry_of_key :: "string \<Rightarrow> string \<Rightarrow> bool" where
  "entry_of_key key e \<longleftrightarrow> take (length key + 1) e = key @ ''=''"

text \<open>The first entry of the key is replaced; without one the assignment goes to the end.\<close>

fun put_entry :: "string \<Rightarrow> string \<Rightarrow> string list \<Rightarrow> string list \<times> bool" where
  "put_entry key assignment [] = ([assignment], False)"
| "put_entry key assignment (e # es) =
     (if entry_of_key key e then (assignment # es, True)
      else (case put_entry key assignment es of (es', hit) \<Rightarrow> (e # es', hit)))"

text \<open>The guards on one override.\<close>

definition env_entry :: "'nv spawn_os \<Rightarrow> string option \<times> 'nv perl_sv \<Rightarrow> string + string \<times> string" where
  "env_entry os kv =
     (case fst kv of
        None \<Rightarrow> Inl ''Wide character''
      | Some key \<Rightarrow>
          if key = [] \<or> CHR ''='' \<in> set key \<or> NULCH \<in> set key
          then Inl ''GoRoutine child environment keys must be non-empty and contain no = or NUL''
          else if \<not> SvOK (snd kv) \<or> SvROK (snd kv) then Inl ''GoRoutine child environment values must be defined scalars''
          else (case sv_bytes os (snd kv) of
                  None \<Rightarrow> Inl ''Wide character''
                | Some v \<Rightarrow> if NULCH \<in> set v then Inl ''GoRoutine child environment values must not contain NUL''
                           else Inr (key, v)))"

fun copy_entries :: "'nv spawn_os \<Rightarrow> nat \<Rightarrow> string list \<Rightarrow> (spawn_state, unit) xs" where
  "copy_entries os i [] = xs_return ()"
| "copy_entries os i (e # es) =
     (if os_text_alloc os i then xs_then (acquire Res_Env_Text) (copy_entries os (Suc i) es)
      else xs_croak ''out of memory copying child environment'')"

text \<open>The overrides; the table has \<open>cap\<close> slots, the assignment number \<open>i\<close> is allocated.\<close>

fun override_loop :: "'nv spawn_os \<Rightarrow> nat \<Rightarrow> nat \<Rightarrow> (string option \<times> 'nv perl_sv) list \<Rightarrow> string list
    \<Rightarrow> (spawn_state, string list) xs" where
  "override_loop os cap i [] tab = (if length tab < cap then xs_return tab else xs_fault)"
| "override_loop os cap i (kv # kvs) tab =
     (case env_entry os kv of
        Inl msg \<Rightarrow> xs_croak msg
      | Inr (key, v) \<Rightarrow>
          if \<not> os_text_alloc os i then xs_croak ''out of memory preparing child environment override''
          else
            xs_then (acquire Res_Env_Text)
              (case put_entry key (key @ ''='' @ v) tab of (tab', hit) \<Rightarrow>
                 if hit then xs_then (release Res_Env_Text) (override_loop os cap (Suc i) kvs tab')
                 else if length tab < cap then override_loop os cap (Suc i) kvs tab'
                 else xs_fault))"

text \<open>\<open>None\<close> is the process's own \<open>environ\<close>.\<close>

definition dd_child_environment :: "'nv spawn_os \<Rightarrow> 'nv env_option \<Rightarrow> (spawn_state, string list option) xs" where
  "dd_child_environment os opt =
     (case opt of
        Env_Absent \<Rightarrow> xs_return None
      | Env_No_Hash \<Rightarrow> xs_croak ''GoRoutine process option env must be a hash reference''
      | Env_Hash kvs \<Rightarrow>
          (let count = length (os_environ os); cap = count + length kvs + 1
           in if \<not> os_calloc os Res_Env then xs_croak ''out of memory copying child environment''
              else xs_then (acquire Res_Env)
                (xs_then (copy_entries os 0 (os_environ os))
                  (xs_bind (override_loop os cap count kvs (os_environ os)) (\<lambda>tab. xs_return (Some tab))))))"

definition dd_child_environment_free :: "string list option \<Rightarrow> (spawn_state, unit) xs" where
  "dd_child_environment_free env =
     (case env of None \<Rightarrow> xs_return ()
      | Some tab \<Rightarrow> release_list (replicate (length tab) Res_Env_Text @ [Res_Env]))"

subsection \<open>POSIX\<close>

definition add_files :: "'nv spawn_os \<Rightarrow> string option \<Rightarrow> string option \<Rightarrow> string option \<Rightarrow> int" where
  "add_files os inp outp errp =
     (let rc0 = (case inp of Some p \<Rightarrow> os_addopen os 0 p | None \<Rightarrow> 0);
          rc1 = (if rc0 = 0 then (case outp of Some p \<Rightarrow> os_addopen os 1 p | None \<Rightarrow> 0) else rc0)
      in if rc1 = 0 then (case errp of Some p \<Rightarrow> os_addopen os 2 p | None \<Rightarrow> 0) else rc1)"

definition spawn_group :: "'nv spawn_os \<Rightarrow> bool \<Rightarrow> string list option \<Rightarrow> (spawn_state, unit) xs" where
  "spawn_group os grp env =
     (if \<not> grp then xs_return ()
      else if os_attr_init os \<noteq> 0 then
        xs_then (release Res_Actions) (xs_then (dd_child_environment_free env) (xs_then (release Res_Argv)
          (xs_croak ''unable to configure GoRoutine child process group'')))
      else xs_then (acquire Res_Attributes)
        (if os_attr_setflags os \<noteq> 0 \<or> os_attr_setpgroup os \<noteq> 0 then
           xs_then (release Res_Attributes) (xs_then (release Res_Actions) (xs_then (dd_child_environment_free env)
             (xs_then (release Res_Argv) (xs_croak ''unable to configure GoRoutine child process group''))))
         else xs_return ()))"

definition chdir_script :: string where
  "chdir_script = ''cd \"$1\" || exit; shift; exec \"$@\"''"

text \<open>The working directory: an action where the library has one, a shell in between elsewhere. The
  answer is the argument vector to run and whether it was allocated here.\<close>

definition spawn_directory :: "'nv spawn_os \<Rightarrow> string option \<Rightarrow> string list \<Rightarrow> (spawn_state, string list \<times> bool) xs" where
  "spawn_directory os cwd argv =
     (case cwd of
        None \<Rightarrow> xs_return (argv, False)
      | Some dir \<Rightarrow>
          if dir = [] then xs_return (argv, False)
          else if os_chdir_np os then
            (if os_addchdir os dir \<noteq> 0 then
               xs_then (release Res_Actions) (xs_then (release Res_Argv)
                 (xs_croak ''unable to set GoRoutine child working directory''))
             else xs_return (argv, False))
          else if \<not> os_calloc os Res_Wrapped then
            xs_then (release Res_Actions) (xs_then (release Res_Argv)
              (xs_croak ''out of memory preparing GoRoutine child working directory''))
          else xs_then (acquire Res_Wrapped)
            (xs_return ([''/bin/sh'', ''-c'', chdir_script, ''goroutine-spawn'', dir] @ argv, True)))"

definition start_child :: "int option \<Rightarrow> spawn_request \<Rightarrow> (spawn_state, unit) xs" where
  "start_child answer req = (case answer of None \<Rightarrow> xs_return ()
     | Some pid \<Rightarrow> xs_modify (\<lambda>s. s\<lparr>sp_children := sp_children s @ [req]\<rparr>))"

definition env_texts :: "'nv spawn_os \<Rightarrow> string list option \<Rightarrow> string list" where
  "env_texts os env = (case env of None \<Rightarrow> os_environ os | Some tab \<Rightarrow> tab)"

text \<open>\<open>posix_spawnp\<close> and the releases after it.\<close>

definition spawn_now :: "'nv spawn_os \<Rightarrow> spawn_request \<Rightarrow> bool \<Rightarrow> string list option \<Rightarrow> (spawn_state, int) xs" where
  "spawn_now os req wrapped env =
     xs_then (start_child (os_spawnp os req) req)
       (xs_then (if req_group req then release Res_Attributes else xs_return ())
         (xs_then (release Res_Actions)
           (xs_then (if wrapped then release Res_Wrapped else xs_return ())
             (xs_then (release Res_Argv)
               (xs_then (dd_child_environment_free env)
                 (case os_spawnp os req of None \<Rightarrow> xs_croak ''unable to spawn GoRoutine child process''
                    | Some pid \<Rightarrow> xs_return pid))))))"

text \<open>From the file actions on.\<close>

definition spawn_child :: "'nv spawn_os \<Rightarrow> bool \<Rightarrow> string list \<Rightarrow> string option \<Rightarrow> string option \<Rightarrow> string option
    \<Rightarrow> string option \<Rightarrow> string list option \<Rightarrow> (spawn_state, int) xs" where
  "spawn_child os grp argv cwd outp errp inp env =
     (if os_actions_init os \<noteq> 0 then
        xs_then (dd_child_environment_free env) (xs_then (release Res_Argv)
          (xs_croak ''unable to initialise GoRoutine process actions''))
      else xs_then (acquire Res_Actions)
        (if add_files os inp outp errp \<noteq> 0 then
           xs_then (release Res_Actions) (xs_then (dd_child_environment_free env) (xs_then (release Res_Argv)
             (xs_croak ''unable to configure GoRoutine child file actions'')))
         else
           xs_then (spawn_group os grp env)
             (xs_bind (spawn_directory os cwd argv) (\<lambda>(child_argv, wrapped).
               spawn_now os \<lparr>req_argv = child_argv, req_env = env_texts os env, req_stdin = inp, req_stdout = outp,
                   req_stderr = errp, req_cwd = (if wrapped \<or> cwd = Some [] then None else cwd), req_group = grp\<rparr>
                 wrapped env))))"

definition dd_spawn_process :: "'nv spawn_os \<Rightarrow> 'nv perl_sv option list \<Rightarrow> 'nv spawn_options \<Rightarrow> (spawn_state, int) xs" where
  "dd_spawn_process os av opts =
     xs_bind (dd_argv_from_av os av) (\<lambda>argv.
     xs_bind (dd_option_text os (opt_cwd opts)) (\<lambda>cwd.
     xs_bind (dd_option_text os (opt_stdout opts)) (\<lambda>outp.
     xs_bind (dd_option_text os (opt_stderr opts)) (\<lambda>errp.
     xs_bind (dd_option_text os (opt_stdin opts)) (\<lambda>inp.
     xs_bind (dd_child_environment os (opt_env opts)) (\<lambda>env.
       spawn_child os (case opt_group opts of Some sv \<Rightarrow> SvOK sv \<and> os_true os sv | None \<Rightarrow> False)
         argv cwd outp errp inp env))))))"

subsection \<open>Windows\<close>

definition BSLASH :: char where "BSLASH = CHR 0x5C"
definition DQUOTE :: char where "DQUOTE = CHR 0x22"

text \<open>The size of the buffer for the command line, with the overflow test in \<open>size_t\<close>.\<close>

fun win_capacity :: "u64 \<Rightarrow> string list \<Rightarrow> u64 option" where
  "win_capacity cap [] = Some cap"
| "win_capacity cap (arg # args) =
     (let len = of_nat (length arg)
      in if len > (- 1 - cap - 4) div 2 then None else win_capacity (cap + (len * 2 + 4)) args)"

definition win_quoted :: "string \<Rightarrow> bool" where
  "win_quoted arg \<longleftrightarrow> arg = [] \<or> list_ex (\<lambda>c. c \<in> {CHR '' '', CHR 0x09, CHR 0x0A, CHR 0x0B, DQUOTE}) arg"

text \<open>The loop over one argument; \<open>n\<close> backslashes have been read and not yet written.\<close>

fun win_body :: "bool \<Rightarrow> nat \<Rightarrow> string \<Rightarrow> string" where
  "win_body quote n [] = (if quote then replicate (2 * n) BSLASH else replicate n BSLASH)"
| "win_body quote n (c # cs) =
     (if c = BSLASH then win_body quote (Suc n) cs
      else if c = DQUOTE then replicate (2 * n) BSLASH @ [BSLASH, DQUOTE] @ win_body quote 0 cs
      else replicate n BSLASH @ [c] @ win_body quote 0 cs)"

definition win_arg :: "string \<Rightarrow> string" where
  "win_arg arg = (if win_quoted arg then [DQUOTE] @ win_body True 0 arg @ [DQUOTE] else win_body False 0 arg)"

fun win_rest :: "string list \<Rightarrow> string" where
  "win_rest [] = []"
| "win_rest (arg # args) = CHR '' '' # win_arg arg @ win_rest args"

fun win_line :: "string list \<Rightarrow> string" where
  "win_line [] = []"
| "win_line (arg # args) = win_arg arg @ win_rest args"

text \<open>The line and its NUL must fit the buffer.\<close>

definition dd_windows_command_line :: "'nv spawn_os \<Rightarrow> string list \<Rightarrow> (spawn_state, string) xs" where
  "dd_windows_command_line os argv =
     (case win_capacity 1 argv of
        None \<Rightarrow> xs_croak ''GoRoutine command line is too large''
      | Some cap \<Rightarrow>
          if \<not> os_calloc os Res_Line then xs_croak ''out of memory building GoRoutine command line''
          else if length (win_line argv) < unat cap then xs_then (acquire Res_Line) (xs_return (win_line argv))
          else xs_fault)"

text \<open>The handles; the answer is false when \<open>CreateFileA\<close> was tried and failed.\<close>

definition open_handle :: "(string \<Rightarrow> bool) \<Rightarrow> resource \<Rightarrow> string option \<Rightarrow> (spawn_state, bool) xs" where
  "open_handle f r path = (case path of None \<Rightarrow> xs_return True
     | Some p \<Rightarrow> if f p then xs_then (acquire r) (xs_return True) else xs_return False)"

definition close_handle :: "resource \<Rightarrow> string option \<Rightarrow> (spawn_state, unit) xs" where
  "close_handle r path = (case path of None \<Rightarrow> xs_return () | Some _ \<Rightarrow> release r)"

definition close_files :: "string option \<Rightarrow> string option \<Rightarrow> string option \<Rightarrow> (spawn_state, unit) xs" where
  "close_files inp outp errp =
     xs_then (close_handle Res_In inp) (xs_then (close_handle Res_Out outp) (xs_then (close_handle Res_Err errp)
       (xs_then (release Res_Line) (release Res_Argv))))"

definition seek_fails :: "'nv spawn_os \<Rightarrow> string option \<Rightarrow> bool" where
  "seek_fails os path = (case path of None \<Rightarrow> False | Some p \<Rightarrow> \<not> os_seek os p)"

text \<open>After the handles were tried; \<open>env\<close> and \<open>process_group\<close> have no effect here.\<close>

definition create_process :: "'nv spawn_os \<Rightarrow> string list \<Rightarrow> string \<Rightarrow> string option \<Rightarrow> string option \<Rightarrow> string option
    \<Rightarrow> string option \<Rightarrow> (spawn_state, int) xs" where
  "create_process os argv line cwd outp errp inp =
     (if seek_fails os outp then xs_croak ''unable to seek GoRoutine child stdout''
      else if seek_fails os errp then xs_croak ''unable to seek GoRoutine child stderr''
      else
        (let req = \<lparr>req_argv = argv, req_env = os_environ os, req_stdin = inp, req_stdout = outp, req_stderr = errp,
                    req_cwd = cwd, req_group = False\<rparr>
         in case os_create os line req of
              None \<Rightarrow> xs_then (close_files inp outp errp) (xs_croak ''unable to create GoRoutine child process'')
            | Some pid \<Rightarrow>
                xs_then (start_child (Some pid) req)
                  (xs_then (acquire Res_Thread) (xs_then (acquire Res_Process)
                    (xs_then (release Res_Thread) (xs_then (release Res_Process)
                      (xs_then (close_files inp outp errp) (xs_return pid))))))))"

definition give_up :: "string \<Rightarrow> (spawn_state, int) xs" where
  "give_up msg = xs_then (release Res_Line) (xs_then (release Res_Argv) (xs_croak msg))"

definition windows_child :: "'nv spawn_os \<Rightarrow> string list \<Rightarrow> string \<Rightarrow> string option \<Rightarrow> string option \<Rightarrow> string option
    \<Rightarrow> string option \<Rightarrow> (spawn_state, int) xs" where
  "windows_child os argv line cwd outp errp inp =
     xs_bind (open_handle (os_open_in os) Res_In inp) (\<lambda>in_ok.
     xs_bind (open_handle (os_open_out os) Res_Out outp) (\<lambda>out_ok.
     xs_bind (open_handle (os_open_err os) Res_Err errp) (\<lambda>err_ok.
       if \<not> in_ok then give_up ''unable to open GoRoutine child stdin''
       else if \<not> out_ok then give_up ''unable to open GoRoutine child stdout''
       else if \<not> err_ok then give_up ''unable to open GoRoutine child stderr''
       else create_process os argv line cwd outp errp inp)))"

definition dd_spawn_windows :: "'nv spawn_os \<Rightarrow> 'nv perl_sv option list \<Rightarrow> 'nv spawn_options \<Rightarrow> (spawn_state, int) xs" where
  "dd_spawn_windows os av opts =
     xs_bind (dd_argv_from_av os av) (\<lambda>argv.
     xs_bind (dd_windows_command_line os argv) (\<lambda>line.
     xs_bind (dd_option_text os (opt_cwd opts)) (\<lambda>cwd.
     xs_bind (dd_option_text os (opt_stdout opts)) (\<lambda>outp.
     xs_bind (dd_option_text os (opt_stderr opts)) (\<lambda>errp.
     xs_bind (dd_option_text os (opt_stdin opts)) (\<lambda>inp.
       windows_child os argv line cwd outp errp inp))))))"

subsection \<open>Looking at, waiting for and ending a process (POSIX)\<close>

text \<open>Answers of \<open>kill\<close>, \<open>waitid\<close> and \<open>waitpid\<close>; a wait status as its macros read it. The two wait loops
  call again on \<open>EINTR\<close>: the answers come as a list, and a list that ends too early is a loop
  that goes on.\<close>

datatype errno = EPERM | ESRCH | EINTR | ECHILD | EOTHER

datatype 'a call_answer = Done 'a | Failed errno

datatype wait_status = Exited int | Signaled int | Other_Status

definition bad_pid :: "u64 \<Rightarrow> bool" where
  "bad_pid pid \<longleftrightarrow> pid = 0 \<or> unat pid > INT_MAX"

definition process_running :: "unit call_answer \<Rightarrow> u64 \<Rightarrow> bool outcome" where
  "process_running kill0 pid =
     (if bad_pid pid then Ret False
      else (case kill0 of Done _ \<Rightarrow> Ret True | Failed EPERM \<Rightarrow> Ret True | Failed ESRCH \<Rightarrow> Ret False
              | Failed _ \<Rightarrow> Croak ''unable to inspect GoRoutine child process''))"

fun after_eintr :: "'a call_answer list \<Rightarrow> 'a call_answer option" where
  "after_eintr [] = None"
| "after_eintr (Failed EINTR # as) = after_eintr as"
| "after_eintr (a # as) = Some a"

text \<open>\<open>waitid\<close> answers whether \<open>si_pid\<close> was set.\<close>

definition process_exited :: "bool call_answer list \<Rightarrow> unit call_answer \<Rightarrow> u64 \<Rightarrow> bool outcome" where
  "process_exited waits kill0 pid =
     (if bad_pid pid then Croak ''invalid GoRoutine child process identifier''
      else (case after_eintr waits of
              None \<Rightarrow> Diverge
            | Some (Done exited) \<Rightarrow> Ret exited
            | Some (Failed ECHILD) \<Rightarrow>
                (case kill0 of Done _ \<Rightarrow> Ret False | Failed EPERM \<Rightarrow> Ret False | Failed ESRCH \<Rightarrow> Ret True
                   | Failed _ \<Rightarrow> Croak ''unable to inspect GoRoutine process'')
            | Some (Failed _) \<Rightarrow> Croak ''unable to inspect GoRoutine child process''))"

definition wait_process :: "wait_status call_answer list \<Rightarrow> u64 \<Rightarrow> int outcome" where
  "wait_process waits pid =
     (if bad_pid pid then Croak ''invalid GoRoutine child process identifier''
      else (case after_eintr waits of
              None \<Rightarrow> Diverge
            | Some (Failed _) \<Rightarrow> Croak ''unable to wait for GoRoutine child process''
            | Some (Done (Exited code)) \<Rightarrow> Ret code
            | Some (Done (Signaled sig)) \<Rightarrow> Ret (128 + sig)
            | Some (Done Other_Status) \<Rightarrow> Ret 255))"

datatype term_signal = SIGTERM | SIGKILL | SIGHUP | SIGINT

definition signal_number :: "string \<Rightarrow> term_signal option" where
  "signal_number name = (if name = ''TERM'' then Some SIGTERM else if name = ''KILL'' then Some SIGKILL
     else if name = ''HUP'' then Some SIGHUP else if name = ''INT'' then Some SIGINT else None)"

definition terminate_process :: "(term_signal \<Rightarrow> unit call_answer) \<Rightarrow> u64 \<Rightarrow> string \<Rightarrow> bool outcome" where
  "terminate_process kill pid name =
     (case signal_number name of
        None \<Rightarrow> Croak ''unsupported GoRoutine termination signal''
      | Some sig \<Rightarrow>
          if bad_pid pid then Croak ''invalid GoRoutine child process identifier''
          else (case kill sig of Done _ \<Rightarrow> Ret True | Failed ESRCH \<Rightarrow> Ret False
                  | Failed _ \<Rightarrow> Croak ''unable to terminate GoRoutine child process''))"

subsection \<open>What is held on the way\<close>

definition hold :: "resource multiset \<Rightarrow> spawn_state \<Rightarrow> spawn_state" where
  "hold M s = s\<lparr>sp_live := sp_live s + M\<rparr>"

definition env_res :: "string list option \<Rightarrow> resource multiset" where
  "env_res env = (case env of None \<Rightarrow> {#} | Some tab \<Rightarrow> add_mset Res_Env (replicate_mset (length tab) Res_Env_Text))"

lemma hold_none [simp]: "hold {#} s = s"
  by (simp add: hold_def)

lemma hold_hold [simp]: "hold N (hold M s) = hold (N + M) s"
  by (simp add: hold_def ac_simps)

lemma children_hold [simp]: "sp_children (hold M s) = sp_children s"
  by (simp add: hold_def)

lemma acquire_hold: "acquire r (hold M s) = (Ret (), hold (add_mset r M) s)"
  by (simp add: acquire_def hold_def xs_modify_def)

lemma release_hold: "r \<in># M \<Longrightarrow> release r (hold M s) = (Ret (), hold (M - {#r#}) s)"
  using diff_union_single_conv [of r M "sp_live s"] by (simp add: release_def hold_def)

lemma release_list_hold: "release_list rs (hold (M + mset rs) s) = (Ret (), hold M s)"
proof (induction rs)
  case (Cons r rs)
  then show ?case by (simp add: xs_then_def xs_bind_def release_hold)
qed (simp add: xs_return_def)

lemma free_env_hold: "dd_child_environment_free env (hold (M + env_res env) s) = (Ret (), hold M s)"
proof (cases env)
  case (Some tab)
  have "mset (replicate (length tab) Res_Env_Text @ [Res_Env]) = env_res env"
    by (simp add: env_res_def Some)
  then show ?thesis using release_list_hold [of "replicate (length tab) Res_Env_Text @ [Res_Env]" M s]
    by (simp add: dd_child_environment_free_def Some)
qed (simp add: env_res_def dd_child_environment_free_def xs_return_def)

lemma free_env_steps:
  "dd_child_environment_free env (hold (env_res env) s) = (Ret (), s)"
  "dd_child_environment_free env (hold (add_mset r (env_res env)) s) = (Ret (), hold {#r#} s)"
  using free_env_hold [of env "{#}" s] free_env_hold [of env "{#r#}" s] by simp_all

lemma then_hold:
  "xs_then (acquire r) k (hold M s) = k (hold (add_mset r M) s)"
  "r \<in># M \<Longrightarrow> xs_then (release r) k (hold M s) = k (hold (M - {#r#}) s)"
  "xs_then (dd_child_environment_free env) k (hold (env_res env) s) = k s"
  "xs_then (dd_child_environment_free env) k (hold (add_mset r (env_res env)) s) = k (hold {#r#} s)"
  by (simp_all add: xs_then_def xs_bind_def acquire_hold release_hold free_env_steps)

lemma then_acquire [simp]: "xs_then (acquire r) k s = k (hold {#r#} s)"
  using then_hold(1) [of r k "{#}" s] by simp

subsection \<open>Arguments, options, environment\<close>

definition slot_text :: "'nv spawn_os \<Rightarrow> 'nv perl_sv option \<Rightarrow> string option" where
  "slot_text os slot = (case slot of None \<Rightarrow> None | Some sv \<Rightarrow> if SvOK sv then sv_bytes os sv else None)"

definition c_text :: "string \<Rightarrow> bool" where
  "c_text t \<longleftrightarrow> NULCH \<notin> set t"

lemma option_text_ok:
  "xs_ok ((=) s) (\<lambda>x s'. s' = s \<and> x = slot_text os slot \<and> (\<forall>t. x = Some t \<longrightarrow> c_text t)) (dd_option_text os slot s)"
  by (auto simp: dd_option_text_def slot_text_def sv_bytes_def c_text_def xs_defs split: option.split perl_sv.split)

lemma argv_loop_ok:
  "xs_ok (\<lambda>s'. sp_children s' = sp_children s)
     (\<lambda>argv s'. s' = hold {#Res_Argv#} s \<and> map (slot_text os) av = map Some argv \<and> (\<forall>t\<in>set argv. c_text t))
     (argv_loop os av (hold {#Res_Argv#} s))"
proof (induction av)
  case (Cons slot av)
  show ?case
  proof (cases "\<exists>sv t. slot = Some sv \<and> SvOK sv \<and> \<not> SvROK sv \<and> sv_bytes os sv = Some t \<and> NULCH \<notin> set t")
    case True
    then obtain sv t where sv: "slot = Some sv" "SvOK sv" "\<not> SvROK sv" "sv_bytes os sv = Some t" "NULCH \<notin> set t" by blast
    have bytes: "slot_text os slot = Some t" "c_text t" by (simp_all add: slot_text_def sv c_text_def)
    have "xs_ok (\<lambda>s'. sp_children s' = sp_children s)
       (\<lambda>argv s'. s' = hold {#Res_Argv#} s \<and> map (slot_text os) (slot # av) = map Some argv \<and> (\<forall>t\<in>set argv. c_text t))
       (xs_bind (argv_loop os av) (\<lambda>ts. xs_return (t # ts)) (hold {#Res_Argv#} s))"
      by (rule xs_ok_bind [where m = "argv_loop os av", OF Cons.IH]) (simp add: xs_return_def bytes)
    with sv show ?thesis by simp
  next
    case False
    then show ?thesis
      by (cases slot) (auto simp: xs_then_def xs_bind_def release_hold xs_defs split: option.split)
  qed
qed (simp add: xs_return_def)

lemma argv_ok:
  "xs_ok (\<lambda>s'. sp_children s' = sp_children s)
     (\<lambda>argv s'. s' = hold {#Res_Argv#} s \<and> map (slot_text os) av = map Some argv \<and> (\<forall>t\<in>set argv. c_text t) \<and> argv \<noteq> [])
     (dd_argv_from_av os av s)"
proof (cases "av = [] \<or> length av - 1 > (2 ^ 64 - 1) div 8 - 1 \<or> \<not> os_calloc os Res_Argv")
  case True
  then show ?thesis by (auto simp: dd_argv_from_av_def xs_croak_def)
next
  case False
  then have "dd_argv_from_av os av s = argv_loop os av (hold {#Res_Argv#} s)"
    by (simp add: dd_argv_from_av_def)
  moreover from False have "map (slot_text os) av = map Some argv \<Longrightarrow> argv \<noteq> []" for argv by auto
  ultimately show ?thesis by (auto intro: xs_ok_mono [OF argv_loop_ok])
qed

text \<open>What \<open>getenv\<close> finds.\<close>

fun env_lookup :: "string \<Rightarrow> string list \<Rightarrow> string option" where
  "env_lookup k [] = None"
| "env_lookup k (e # es) = (if entry_of_key k e then Some (drop (length k + 1) e) else env_lookup k es)"

lemma entry_other: "CHR ''='' \<notin> set k \<Longrightarrow> CHR ''='' \<notin> set key \<Longrightarrow> entry_of_key k (key @ ''='' @ v) = (k = key)"
proof (induction k arbitrary: key)
  case Nil
  then show ?case by (cases key) (auto simp: entry_of_key_def)
next
  case (Cons c k)
  then show ?case by (cases key) (auto simp: entry_of_key_def)
qed

lemma entry_unique: "entry_of_key k e \<Longrightarrow> entry_of_key key e \<Longrightarrow> CHR ''='' \<notin> set k \<Longrightarrow> CHR ''='' \<notin> set key \<Longrightarrow> k = key"
  using entry_other [of k key "drop (length key + 1) e"] append_take_drop_id [of "length key + 1" e]
  by (simp add: entry_of_key_def [of key])

lemma lookup_put_entry:
  assumes "CHR ''='' \<notin> set k" and "CHR ''='' \<notin> set key"
  shows "env_lookup k (fst (put_entry key (key @ ''='' @ v) tab)) = (if k = key then Some v else env_lookup k tab)"
proof (induction tab)
  case Nil
  show ?case using entry_other [OF assms, of v] by simp
next
  case (Cons e tab)
  show ?case using Cons entry_other [OF assms, of v] entry_unique [OF _ _ assms, of e]
    by (auto split: prod.splits)
qed

lemma length_put_entry: "put_entry key a tab = (tab', hit) \<Longrightarrow> length tab' = (if hit then length tab else Suc (length tab))"
  by (induction tab arbitrary: tab' hit) (auto split: if_splits prod.splits)

text \<open>The overrides that reach the child; of two with one key the later.\<close>

definition env_pairs :: "'nv spawn_os \<Rightarrow> (string option \<times> 'nv perl_sv) list \<Rightarrow> (string \<times> string) list" where
  "env_pairs os kvs = List.map_filter (\<lambda>kv. case env_entry os kv of Inl _ \<Rightarrow> None | Inr p \<Rightarrow> Some p) kvs"

lemma env_entry_key: "env_entry os kv = Inr (key, v) \<Longrightarrow> CHR ''='' \<notin> set key"
  by (auto simp: env_entry_def split: option.splits if_splits)

lemma copy_entries_ok:
  "xs_ok (\<lambda>s'. sp_children s' = sp_children s) (\<lambda>_ s'. s' = hold (M + replicate_mset (length es) Res_Env_Text) s)
     (copy_entries os i es (hold M s))"
proof (induction es arbitrary: i M)
  case (Cons e es)
  have "xs_ok (\<lambda>s'. sp_children s' = sp_children s) (\<lambda>_ s'. s' = hold (add_mset Res_Env_Text M + replicate_mset (length es) Res_Env_Text) s)
     (copy_entries os (Suc i) es (hold (add_mset Res_Env_Text M) s))"
    by (rule Cons.IH)
  then show ?case by (auto simp: then_hold xs_croak_def)
qed (simp add: xs_return_def)

lemma override_loop_ok:
  assumes "length tab + length kvs < cap"
  shows "xs_ok (\<lambda>s'. sp_children s' = sp_children s)
     (\<lambda>tab' s'. s' = hold (M + replicate_mset (length tab') Res_Env_Text) s
        \<and> (\<forall>k. CHR ''='' \<notin> set k \<longrightarrow> env_lookup k tab' =
             (case map_of (rev (env_pairs os kvs)) k of Some v \<Rightarrow> Some v | None \<Rightarrow> env_lookup k tab)))
     (override_loop os cap i kvs tab (hold (M + replicate_mset (length tab) Res_Env_Text) s))"
  using assms
proof (induction kvs arbitrary: tab i)
  case Nil
  then show ?case by (simp add: xs_return_def env_pairs_def List.map_filter_def)
next
  case (Cons kv kvs)
  show ?case
  proof (cases "env_entry os kv")
    case (Inl msg)
    then show ?thesis by (simp add: xs_croak_def)
  next
    case (Inr p)
    obtain key v where p: "p = (key, v)" by (cases p)
    obtain tab' hit where put: "put_entry key (key @ ''='' @ v) tab = (tab', hit)" by (cases "put_entry key (key @ ''='' @ v) tab")
    have len: "length tab' = (if hit then length tab else Suc (length tab))" by (rule length_put_entry [OF put])
    have room: "length tab' + length kvs < cap" "length tab < cap" using Cons.prems len by (auto split: if_splits)
    have look: "env_lookup k tab' = (if k = key then Some v else env_lookup k tab)" if noeq: "CHR ''='' \<notin> set k" for k
      using lookup_put_entry [OF noeq env_entry_key, of os kv key v v tab] Inr p put by simp
    have pairs: "env_pairs os (kv # kvs) = (key, v) # env_pairs os kvs"
      by (simp add: env_pairs_def List.map_filter_def Inr p)
    have rest: "xs_ok (\<lambda>s'. sp_children s' = sp_children s)
       (\<lambda>tab'' s'. s' = hold (M + replicate_mset (length tab'') Res_Env_Text) s
          \<and> (\<forall>k. CHR ''='' \<notin> set k \<longrightarrow> env_lookup k tab'' =
               (case map_of (rev (env_pairs os (kv # kvs))) k of Some v \<Rightarrow> Some v | None \<Rightarrow> env_lookup k tab)))
       (override_loop os cap (Suc i) kvs tab' (hold (M + replicate_mset (length tab') Res_Env_Text) s))"
      by (rule xs_ok_mono [OF Cons.IH [OF room(1)]]) (auto simp: look pairs map_add_def split: option.split)
    show ?thesis
    proof (cases "os_text_alloc os i")
      case True
      with rest len room(2) show ?thesis
        by (cases hit) (simp_all add: Inr p put [simplified] then_hold)
    next
      case False
      then show ?thesis by (simp add: Inr p xs_croak_def)
    qed
  qed
qed

definition env_override :: "'nv spawn_os \<Rightarrow> 'nv env_option \<Rightarrow> string \<Rightarrow> string option" where
  "env_override os opt k = (case opt of Env_Hash kvs \<Rightarrow> map_of (rev (env_pairs os kvs)) k | _ \<Rightarrow> None)"

lemma child_environment_ok:
  "xs_ok (\<lambda>s'. sp_children s' = sp_children s)
     (\<lambda>env s'. s' = hold (add_mset Res_Argv (env_res env)) s
        \<and> (\<forall>k. CHR ''='' \<notin> set k \<longrightarrow> env_lookup k (env_texts os env) =
             (case env_override os opt k of Some v \<Rightarrow> Some v | None \<Rightarrow> env_lookup k (os_environ os))))
     (dd_child_environment os opt (hold {#Res_Argv#} s))"
proof (cases opt)
  case (Env_Hash kvs)
  let ?M = "{#Res_Argv, Res_Env#}"
  let ?E = "\<lambda>s' :: spawn_state. sp_children s' = sp_children s"
  show ?thesis
  proof (cases "os_calloc os Res_Env")
    case True
    have "xs_ok ?E (\<lambda>env s'. s' = hold (add_mset Res_Argv (env_res env)) s
        \<and> (\<forall>k. CHR ''='' \<notin> set k \<longrightarrow> env_lookup k (env_texts os env) =
             (case env_override os opt k of Some v \<Rightarrow> Some v | None \<Rightarrow> env_lookup k (os_environ os))))
       (xs_then (copy_entries os 0 (os_environ os)) (xs_bind (override_loop os (length (os_environ os) + length kvs + 1)
          (length (os_environ os)) kvs (os_environ os)) (\<lambda>tab. xs_return (Some tab))) (hold ?M s))"
      by (rule xs_ok_then [where m = "copy_entries os 0 (os_environ os)", OF copy_entries_ok], simp only:,
          rule xs_ok_bind [where m = "override_loop os (length (os_environ os) + length kvs + 1) (length (os_environ os)) kvs (os_environ os)", OF override_loop_ok])
        (auto simp: xs_return_def env_res_def env_texts_def env_override_def Env_Hash add_mset_commute)
    with True show ?thesis by (simp add: dd_child_environment_def Env_Hash Let_def then_hold)
  next
    case False
    then show ?thesis by (simp add: dd_child_environment_def Env_Hash Let_def xs_croak_def)
  qed
qed (simp_all add: dd_child_environment_def xs_defs env_res_def env_texts_def env_override_def)

subsection \<open>The whole call\<close>

definition spawn_dir_argv :: "'nv spawn_os \<Rightarrow> string option \<Rightarrow> string list \<Rightarrow> string list" where
  "spawn_dir_argv os cwd argv = (case cwd of Some (c # cs) \<Rightarrow>
     if os_chdir_np os then argv else [''/bin/sh'', ''-c'', chdir_script, ''goroutine-spawn'', c # cs] @ argv | _ \<Rightarrow> argv)"

definition spawn_dir_action :: "'nv spawn_os \<Rightarrow> string option \<Rightarrow> string option" where
  "spawn_dir_action os cwd = (case cwd of Some (c # cs) \<Rightarrow> if os_chdir_np os then Some (c # cs) else None | _ \<Rightarrow> None)"

text \<open>The request a call makes of \<open>posix_spawnp\<close>.\<close>

definition asks_for :: "'nv spawn_os \<Rightarrow> 'nv perl_sv option list \<Rightarrow> 'nv spawn_options \<Rightarrow> spawn_request \<Rightarrow> bool" where
  "asks_for os av opts req \<longleftrightarrow>
     (\<exists>argv. argv \<noteq> [] \<and> map (slot_text os) av = map Some argv \<and> (\<forall>t\<in>set argv. c_text t)
        \<and> req_argv req = spawn_dir_argv os (slot_text os (opt_cwd opts)) argv)
     \<and> req_cwd req = spawn_dir_action os (slot_text os (opt_cwd opts))
     \<and> req_stdin req = slot_text os (opt_stdin opts) \<and> req_stdout req = slot_text os (opt_stdout opts)
     \<and> req_stderr req = slot_text os (opt_stderr opts)
     \<and> req_group req = (case opt_group opts of Some sv \<Rightarrow> SvOK sv \<and> os_true os sv | None \<Rightarrow> False)
     \<and> (\<forall>k. CHR ''='' \<notin> set k \<longrightarrow> env_lookup k (req_env req) =
          (case env_override os (opt_env opts) k of Some v \<Rightarrow> Some v | None \<Rightarrow> env_lookup k (os_environ os)))"

definition held :: "bool \<Rightarrow> bool \<Rightarrow> string list option \<Rightarrow> resource multiset" where
  "held grp wrapped env = (if wrapped then {#Res_Wrapped#} else {#}) + (if grp then {#Res_Attributes#} else {#})
     + {#Res_Actions, Res_Argv#} + env_res env"

abbreviation no_child :: "spawn_state \<Rightarrow> spawn_state \<Rightarrow> bool" where
  "no_child s s' \<equiv> sp_children s' = sp_children s"

lemma spawn_group_ok:
  "xs_ok (no_child s) (\<lambda>_ s'. s' = hold (held grp False env) s) (spawn_group os grp env (hold (held False False env) s))"
  by (auto simp: spawn_group_def held_def then_hold xs_defs)

lemma spawn_directory_ok:
  "xs_ok (no_child s) (\<lambda>(child_argv, wrapped) s'. s' = hold (held grp wrapped env) s \<and> child_argv = spawn_dir_argv os cwd argv
       \<and> (if wrapped \<or> cwd = Some [] then None else cwd) = spawn_dir_action os cwd)
     (spawn_directory os cwd argv (hold (held grp False env) s))"
  by (cases cwd) (auto simp: spawn_directory_def held_def then_hold xs_defs spawn_dir_argv_def spawn_dir_action_def
      split: list.split)

text \<open>From the call of \<open>posix_spawnp\<close> on everything is released, whatever it answers.\<close>

lemma spawn_now_hold:
  "spawn_now os req wrapped env (hold (held (req_group req) wrapped env) s)
   = (case os_spawnp os req of None \<Rightarrow> (Croak ''unable to spawn GoRoutine child process'', s)
        | Some pid \<Rightarrow> (Ret pid, s\<lparr>sp_children := sp_children s @ [req]\<rparr>))"
proof -
  define t where "t = (case os_spawnp os req of None \<Rightarrow> s | Some pid \<Rightarrow> s\<lparr>sp_children := sp_children s @ [req]\<rparr>)"
  have "start_child (os_spawnp os req) req (hold M s) = (Ret (), hold M t)" for M
    by (cases "os_spawnp os req") (simp_all add: start_child_def xs_defs hold_def t_def)
  then have "xs_then (start_child (os_spawnp os req) req) k (hold M s) = k (hold M t)" for k :: "(spawn_state, int) xs" and M
    by (rule xs_then_Ret)
  then show ?thesis
    by (cases "req_group req"; cases wrapped; cases "os_spawnp os req")
      (simp_all add: spawn_now_def held_def then_hold xs_simps, simp_all add: t_def)
qed

definition started :: "'nv spawn_os \<Rightarrow> 'nv perl_sv option list \<Rightarrow> 'nv spawn_options \<Rightarrow> spawn_state \<Rightarrow> int \<Rightarrow> spawn_state \<Rightarrow> bool" where
  "started os av opts s pid s' \<longleftrightarrow>
     (\<exists>req. asks_for os av opts req \<and> os_spawnp os req = Some pid \<and> s' = s\<lparr>sp_children := sp_children s @ [req]\<rparr>)"

lemma spawn_child_ok:
  assumes "\<And>req pid. req_argv req = spawn_dir_argv os cwd argv \<Longrightarrow> req_cwd req = spawn_dir_action os cwd \<Longrightarrow> req_stdin req = inp
    \<Longrightarrow> req_stdout req = outp \<Longrightarrow> req_stderr req = errp \<Longrightarrow> req_group req = grp \<Longrightarrow> req_env req = env_texts os env
    \<Longrightarrow> os_spawnp os req = Some pid \<Longrightarrow> R pid (s\<lparr>sp_children := sp_children s @ [req]\<rparr>)"
  shows "xs_ok (no_child s) R (spawn_child os grp argv cwd outp errp inp env (hold (add_mset Res_Argv (env_res env)) s))"
proof (cases "os_actions_init os \<noteq> 0 \<or> add_files os inp outp errp \<noteq> 0")
  case True
  then show ?thesis by (auto simp: spawn_child_def then_hold xs_croak_def)
next
  case False
  have start: "hold (add_mset Res_Actions (add_mset Res_Argv (env_res env))) s = hold (held False False env) s"
    by (simp add: held_def)
  have rest: "xs_ok (no_child s) R (xs_then (spawn_group os grp env) (xs_bind (spawn_directory os cwd argv)
      (\<lambda>(child_argv, wrapped).
         spawn_now os \<lparr>req_argv = child_argv, req_env = env_texts os env, req_stdin = inp, req_stdout = outp,
             req_stderr = errp, req_cwd = (if wrapped \<or> cwd = Some [] then None else cwd), req_group = grp\<rparr>
           wrapped env)) (hold (held False False env) s))"
    apply (rule xs_ok_then [where m = "spawn_group os grp env", OF spawn_group_ok], simp only:)
    apply (rule xs_ok_bind [where m = "spawn_directory os cwd argv", OF spawn_directory_ok [where s = s]])
    subgoal for u t r s'
      using spawn_now_hold [of os "\<lparr>req_argv = fst r, req_env = env_texts os env, req_stdin = inp, req_stdout = outp,
          req_stderr = errp, req_cwd = (if snd r \<or> cwd = Some [] then None else cwd), req_group = grp\<rparr>" "snd r" env s]
      by (cases r) (auto intro!: assms split: option.split)
    done
  from False have no: "(os_actions_init os \<noteq> 0) = False" "(add_files os inp outp errp \<noteq> 0) = False" by auto
  show ?thesis unfolding spawn_child_def by (simp only: no if_False then_hold start rest)
qed

lemma dd_spawn_process_ok: "xs_ok (no_child s) (started os av opts s) (dd_spawn_process os av opts s)"
proof -
  have opt: "xs_ok (no_child s) (\<lambda>x s'. s' = hold M s \<and> x = slot_text os slot) (dd_option_text os slot (hold M s))" for slot M
    by (rule xs_ok_mono [OF option_text_ok]) auto
  show ?thesis
    unfolding dd_spawn_process_def
    apply (rule xs_ok_bind [where m = "dd_argv_from_av os av", OF argv_ok], elim conjE, simp only:)
    apply (rule xs_ok_bind [where m = "dd_option_text os (opt_cwd opts)", OF opt], elim conjE, simp only:)
    apply (rule xs_ok_bind [where m = "dd_option_text os (opt_stdout opts)", OF opt], elim conjE, simp only:)
    apply (rule xs_ok_bind [where m = "dd_option_text os (opt_stderr opts)", OF opt], elim conjE, simp only:)
    apply (rule xs_ok_bind [where m = "dd_option_text os (opt_stdin opts)", OF opt], elim conjE, simp only:)
    apply (rule xs_ok_bind [where m = "dd_child_environment os (opt_env opts)", OF child_environment_ok], elim conjE, simp only:)
    apply (rule spawn_child_ok)
    apply (auto simp: started_def asks_for_def)
    done
qed

subsection \<open>Windows command lines\<close>

text \<open>
  How a program of the Microsoft C runtime splits its command line, after the documented rules. In
  the first word a double quote switches quoting on and off and nothing else is special. In the others,
  \<open>2 k\<close> backslashes before a double quote stand for \<open>k\<close> and the quote switches quoting (two quotes
  inside a quoted part stand for one), \<open>2 k + 1\<close> for \<open>k\<close> and a literal quote, and backslashes
  elsewhere for themselves; spaces and tabs outside quotes separate.
\<close>

definition text_of :: "string option \<Rightarrow> string" where
  "text_of cur = (case cur of None \<Rightarrow> [] | Some a \<Rightarrow> a)"

function win_split :: "bool \<Rightarrow> nat \<Rightarrow> string option \<Rightarrow> string \<Rightarrow> string list" where
  "win_split q n cur [] = (if cur = None then [] else [text_of cur @ replicate n BSLASH])"
| "win_split q n cur (c # cs) =
     (if c = BSLASH then win_split q (Suc n) (Some (text_of cur)) cs
      else if c = DQUOTE then
        (if odd n then win_split q 0 (Some (text_of cur @ replicate (n div 2) BSLASH @ [DQUOTE])) cs
         else if q \<and> cs \<noteq> [] \<and> hd cs = DQUOTE
         then win_split q 0 (Some (text_of cur @ replicate (n div 2) BSLASH @ [DQUOTE])) (tl cs)
         else win_split (\<not> q) 0 (Some (text_of cur @ replicate (n div 2) BSLASH)) cs)
      else if \<not> q \<and> (c = CHR '' '' \<or> c = CHR 0x09)
      then (if cur = None then [] else [text_of cur @ replicate n BSLASH]) @ win_split False 0 None cs
      else win_split q 0 (Some (text_of cur @ replicate n BSLASH @ [c])) cs)"
  by pat_completeness auto
termination by (relation "measure (\<lambda>(q, n, cur, cs). length cs)") auto

fun win_program :: "bool \<Rightarrow> string \<Rightarrow> string \<times> string" where
  "win_program q [] = ([], [])"
| "win_program q (c # cs) =
     (if c = DQUOTE then win_program (\<not> q) cs
      else if \<not> q \<and> (c = CHR '' '' \<or> c = CHR 0x09) then ([], cs)
      else (case win_program q cs of (p, rest) \<Rightarrow> (c # p, rest)))"

definition win_command_args :: "string \<Rightarrow> string list" where
  "win_command_args line = (case win_program False line of (p, rest) \<Rightarrow> p # win_split False 0 None rest)"

definition at_end :: "string \<Rightarrow> bool" where
  "at_end rest \<longleftrightarrow> rest = [] \<or> hd rest = CHR '' ''"

lemma at_end_rest [simp]: "at_end (win_rest args)"
  by (cases args) (simp_all add: at_end_def)

lemma special_chars [simp]: "BSLASH \<noteq> DQUOTE" "DQUOTE \<noteq> BSLASH" "CHR '' '' \<noteq> BSLASH" "CHR '' '' \<noteq> DQUOTE"
  "CHR 0x09 \<noteq> BSLASH" "CHR 0x09 \<noteq> DQUOTE"
  by (simp_all add: BSLASH_def DQUOTE_def)

lemma text_of_simps [simp]: "text_of (Some a) = a" "text_of None = []"
  by (simp_all add: text_of_def)

lemma split_slashes: "win_split q n (Some a) (replicate m BSLASH @ s) = win_split q (n + m) (Some a) s"
  by (induction m arbitrary: n) simp_all

lemma replicate_snoc: "replicate m x @ x # xs = replicate (Suc m) x @ xs"
  by (induction m) simp_all

lemma split_quoted:
  assumes "at_end rest"
  shows "win_split True 0 (Some a) (win_body True n cs @ DQUOTE # rest) = win_split False 0 (Some (a @ replicate n BSLASH @ cs)) rest"
proof (induction cs arbitrary: n a)
  case Nil
  have "\<not> (rest \<noteq> [] \<and> hd rest = DQUOTE)" using assms by (auto simp: at_end_def)
  then show ?case by (auto simp: split_slashes)
next
  case (Cons c cs)
  consider "c = BSLASH" | "c = DQUOTE" | "c \<noteq> BSLASH" "c \<noteq> DQUOTE" by blast
  then show ?case
  proof cases
    case 1
    then show ?thesis using Cons.IH [of a "Suc n"] by (simp add: replicate_snoc)
  qed (simp_all add: split_slashes Cons.IH)
qed

lemma split_end: "at_end rest \<Longrightarrow> win_split False n (Some a) rest = (a @ replicate n BSLASH) # win_split False 0 None (tl rest)"
  by (cases rest) (auto simp: at_end_def)

lemma split_unquoted:
  assumes "at_end rest" and "\<forall>c\<in>set cs. c \<noteq> DQUOTE \<and> c \<noteq> CHR '' '' \<and> c \<noteq> CHR 0x09"
  shows "win_split False n (Some a) (cs @ rest) = (a @ replicate n BSLASH @ cs) # win_split False 0 None (tl rest)"
  using assms(2)
proof (induction cs arbitrary: n a)
  case Nil
  show ?case by (simp add: split_end [OF assms(1)])
next
  case (Cons c cs)
  then have c: "c \<noteq> DQUOTE" "c \<noteq> CHR '' ''" "c \<noteq> CHR 0x09" and rest: "\<forall>c\<in>set cs. c \<noteq> DQUOTE \<and> c \<noteq> CHR '' '' \<and> c \<noteq> CHR 0x09"
    by simp_all
  show ?case using c Cons.IH [OF rest, of "Suc n" a] Cons.IH [OF rest, of 0 "a @ replicate n BSLASH @ [c]"]
    by (cases "c = BSLASH") (simp_all add: replicate_append_same)
qed

lemma split_start: "s \<noteq> [] \<Longrightarrow> hd s \<noteq> CHR '' '' \<Longrightarrow> hd s \<noteq> CHR 0x09 \<Longrightarrow> win_split False 0 None s = win_split False 0 (Some []) s"
  by (cases s) simp_all

lemma plain_chars: "\<not> win_quoted arg \<Longrightarrow> arg \<noteq> [] \<and> (\<forall>c\<in>set arg. c \<noteq> DQUOTE \<and> c \<noteq> CHR '' '' \<and> c \<noteq> CHR 0x09)"
  by (auto simp: win_quoted_def list_ex_iff)

lemma body_plain: "DQUOTE \<notin> set p \<Longrightarrow> quote \<longrightarrow> (if p = [] then n = 0 else last p \<noteq> BSLASH) \<Longrightarrow>
    win_body quote n p = replicate n BSLASH @ p"
proof (induction p arbitrary: n)
  case Nil
  then show ?case by (cases quote) simp_all
next
  case (Cons c p)
  then have "c \<noteq> DQUOTE" and "DQUOTE \<notin> set p" by auto
  then show ?case using Cons.IH [of "Suc n"] Cons.IH [of 0] Cons.prems(2)
    by (cases "c = BSLASH"; cases "p = []"; cases quote) (simp_all add: replicate_append_same)
qed

lemma split_arg:
  assumes "at_end rest"
  shows "win_split False 0 None (win_arg arg @ rest) = arg # win_split False 0 None (tl rest)"
proof (cases "win_quoted arg")
  case True
  have "win_split False 0 None (DQUOTE # win_body True 0 arg @ DQUOTE # rest) = win_split False 0 (Some arg) rest"
    using split_quoted [OF assms, of "[]" 0 arg] by simp
  with True show ?thesis by (simp add: win_arg_def split_end [OF assms])
next
  case False
  note plain = plain_chars [OF False]
  have body: "win_body False 0 arg = arg" using body_plain [of arg False 0] plain by auto
  have "win_split False 0 None (arg @ rest) = win_split False 0 (Some []) (arg @ rest)"
    by (rule split_start) (use plain in \<open>cases arg; simp\<close>)+
  with False show ?thesis using split_unquoted [OF assms, of arg 0 "[]"] plain by (simp add: win_arg_def body)
qed

lemma split_rest: "win_split False 0 None (tl (win_rest args)) = args"
proof (induction args)
  case (Cons arg args)
  then show ?case using split_arg [of "win_rest args" arg] by simp
qed simp

lemma program_text: "DQUOTE \<notin> set p \<Longrightarrow> q \<or> (\<forall>c\<in>set p. c \<noteq> CHR '' '' \<and> c \<noteq> CHR 0x09) \<Longrightarrow>
    win_program q (p @ rest) = (p @ fst (win_program q rest), snd (win_program q rest))"
proof (induction p)
  case (Cons c p)
  then have "c \<noteq> DQUOTE" and "q \<or> c \<noteq> CHR '' '' \<and> c \<noteq> CHR 0x09"
    and "win_program q (p @ rest) = (p @ fst (win_program q rest), snd (win_program q rest))"
    by auto
  then show ?case by simp
qed simp

lemma program_end: "at_end rest \<Longrightarrow> win_program False rest = ([], tl rest)"
  by (cases rest) (auto simp: at_end_def)

text \<open>A program name that the first word of a command line can express.\<close>

definition program_name :: "string \<Rightarrow> bool" where
  "program_name p \<longleftrightarrow> DQUOTE \<notin> set p \<and> (win_quoted p \<and> p \<noteq> [] \<longrightarrow> last p \<noteq> BSLASH)"

lemma program_arg:
  assumes "program_name p" and "at_end rest"
  shows "win_program False (win_arg p @ rest) = (p, tl rest)"
proof (cases "win_quoted p")
  case True
  have "win_body True 0 p = p" using assms(1) True body_plain [of p True 0] by (simp add: program_name_def)
  then show ?thesis using True assms program_text [of p True "DQUOTE # rest"]
    by (simp add: win_arg_def program_name_def program_end)
next
  case False
  have "win_body False 0 p = p" using assms(1) body_plain [of p False 0] by (simp add: program_name_def)
  then show ?thesis using False assms plain_chars [OF False] program_text [of p False rest]
    by (simp add: win_arg_def program_name_def program_end)
qed

lemma command_line_args: "program_name p \<Longrightarrow> win_command_args (win_line (p # args)) = p # args"
  by (simp add: win_command_args_def program_arg split_rest)

subsection \<open>The buffer of the command line\<close>

definition win_size :: "string list \<Rightarrow> nat" where
  "win_size argv = sum_list (map (\<lambda>arg. 2 * length arg + 4) argv)"

lemma win_capacity_exact:
  assumes "unat cap + win_size argv < 2 ^ 64"
  shows "\<exists>c. win_capacity cap argv = Some c \<and> unat c = unat cap + win_size argv"
  using assms
proof (induction argv arbitrary: cap)
  case (Cons arg argv)
  let ?len = "of_nat (length arg) :: u64"
  have len: "unat ?len = length arg" using Cons.prems by (intro unat_of_nat_small) (simp add: win_size_def)
  have four: "unat (4 :: u64) = 4" by simp
  have two: "unat (?len * 2) = 2 * length arg" using Cons.prems len by (subst unat_mult_small) (simp_all add: win_size_def)
  have add: "unat (?len * 2 + 4) = 2 * length arg + 4" using Cons.prems two by (subst unat_add_small) (simp_all add: win_size_def)
  have cap: "unat (cap + (?len * 2 + 4)) = unat cap + (2 * length arg + 4)"
    using Cons.prems add by (subst unat_add_small) (simp_all add: win_size_def)
  have minus1: "unat (- 1 :: u64) = 2 ^ 64 - 1" by (simp add: unsigned_minus_1_eq_mask mask_eq_exp_minus_1)
  have left1: "unat (- 1 - cap) = 2 ^ 64 - 1 - unat cap" using minus1 word_n1_ge [of cap] by (subst unat_sub) (simp_all add: word_le_nat_alt)
  have left: "unat (- 1 - cap - 4) = 2 ^ 64 - 5 - unat cap"
    using left1 Cons.prems by (subst unat_sub) (simp_all add: word_le_nat_alt win_size_def)
  have "unat ((- 1 - cap - 4) div 2) = (2 ^ 64 - 5 - unat cap) div 2" using left by (simp add: unat_div)
  then have fits: "\<not> ?len > (- 1 - cap - 4) div 2" using Cons.prems len by (simp add: word_less_nat_alt win_size_def)
  have "unat (cap + (?len * 2 + 4)) + win_size argv < 2 ^ 64" using Cons.prems cap by (simp add: win_size_def)
  from Cons.IH [OF this] fits cap show ?case by (auto simp: Let_def win_size_def)
qed (simp add: win_size_def)

lemma length_win_body: "length (win_body quote n arg) \<le> 2 * (n + length arg)"
proof (induction arg arbitrary: n)
  case (Cons c arg)
  then show ?case using Cons [of "Suc n"] Cons [of 0] by simp
qed simp

lemma length_win_arg: "length (win_arg arg) \<le> 2 * length arg + 2"
  using length_win_body [of True 0 arg] length_win_body [of False 0 arg] by (simp add: win_arg_def)

lemma length_win_rest: "length (win_rest argv) \<le> win_size argv"
proof (induction argv)
  case (Cons arg argv)
  then show ?case using length_win_arg [of arg] by (simp add: win_size_def)
qed (simp add: win_size_def)

lemma command_line_ok:
  assumes "win_size (p # args) < 2 ^ 64 - 1"
  shows "xs_ok (no_child s) (\<lambda>line s'. line = win_line (p # args) \<and> s' = hold {#Res_Line, Res_Argv#} s)
    (dd_windows_command_line os (p # args) (hold {#Res_Argv#} s))"
proof -
  obtain c where c: "win_capacity 1 (p # args) = Some c" "unat c = 1 + win_size (p # args)"
    using win_capacity_exact [of 1 "p # args"] assms by auto
  have "length (win_line (p # args)) < unat c"
    using length_win_arg [of p] length_win_rest [of args] by (simp add: c(2)) (simp add: win_size_def)
  with c(1) show ?thesis by (auto simp: dd_windows_command_line_def then_hold xs_defs add_mset_commute)
qed

subsection \<open>The whole call on Windows\<close>

lemma bind_open_handle:
  "xs_bind (open_handle f r path) g (hold M s) =
     (case path of None \<Rightarrow> g True (hold M s) | Some p \<Rightarrow> if f p then g True (hold (add_mset r M) s) else g False (hold M s))"
  by (cases path) (auto simp: open_handle_def xs_bind_def then_hold xs_return_def)

lemma start_child_hold:
  "xs_then (start_child (Some pid) req) k (hold M s) = k (hold M (s\<lparr>sp_children := sp_children s @ [req]\<rparr>))"
  by (cases s) (simp add: start_child_def xs_then_simps hold_def)

lemma give_up_ok: "Res_Line \<in># M \<Longrightarrow> Res_Argv \<in># M - {#Res_Line#} \<Longrightarrow> xs_ok (no_child s) R (give_up msg (hold M s))"
  by (simp add: give_up_def then_hold xs_croak_def)

definition win_held :: "string option \<Rightarrow> string option \<Rightarrow> string option \<Rightarrow> resource multiset" where
  "win_held inp outp errp = (if inp = None then {#} else {#Res_In#}) + (if outp = None then {#} else {#Res_Out#})
     + (if errp = None then {#} else {#Res_Err#}) + {#Res_Line, Res_Argv#}"

lemma close_files_hold: "xs_then (close_files inp outp errp) k (hold (win_held inp outp errp) s) = k s"
  by (cases inp; cases outp; cases errp)
    (simp_all add: close_files_def close_handle_def win_held_def xs_then_assoc then_hold xs_then_simps)

lemma create_process_ok:
  assumes "\<And>req pid. req_argv req = argv \<Longrightarrow> req_cwd req = cwd \<Longrightarrow> req_stdin req = inp \<Longrightarrow> req_stdout req = outp
    \<Longrightarrow> req_stderr req = errp \<Longrightarrow> req_env req = os_environ os \<Longrightarrow> os_create os line req = Some pid
    \<Longrightarrow> R pid (s\<lparr>sp_children := sp_children s @ [req]\<rparr>)"
  shows "xs_ok (no_child s) R (create_process os argv line cwd outp errp inp (hold (win_held inp outp errp) s))"
  by (auto simp: create_process_def Let_def start_child_hold then_hold close_files_hold xs_defs intro!: assms split: option.split)

lemma windows_child_ok:
  assumes "\<And>req pid. req_argv req = argv \<Longrightarrow> req_cwd req = cwd \<Longrightarrow> req_stdin req = inp \<Longrightarrow> req_stdout req = outp
    \<Longrightarrow> req_stderr req = errp \<Longrightarrow> req_env req = os_environ os \<Longrightarrow> os_create os line req = Some pid
    \<Longrightarrow> R pid (s\<lparr>sp_children := sp_children s @ [req]\<rparr>)"
  shows "xs_ok (no_child s) R (windows_child os argv line cwd outp errp inp (hold {#Res_Line, Res_Argv#} s))"
proof -
  have "xs_ok (no_child s) R (create_process os argv line cwd outp errp inp (hold (win_held inp outp errp) s))"
    by (rule create_process_ok) (rule assms)
  then show ?thesis
    by (cases inp; cases outp; cases errp)
      (auto simp: windows_child_def bind_open_handle give_up_ok win_held_def add_mset_commute)
qed

section \<open>Properties\<close>


text \<open>C35: On Windows, for arguments whose line fits in memory and a program name that a command line can
  express, \<open>spawn\<close> writes inside the buffer it measured, and when it returns, it has created one
  child with a command line that the documented rules split into exactly the given arguments,
  with every handle and allocation released.\<close>

theorem windows_spawn_command_line:
  assumes "map (slot_text os) av = map Some (p # args)" and "program_name p" and "win_size (p # args) < 2 ^ 64 - 1"
  shows "xs_ok (\<lambda>s'. sp_children s' = sp_children s)
     (\<lambda>pid s'. \<exists>line req. os_create os line req = Some pid \<and> win_command_args line = p # args
        \<and> req_stdin req = slot_text os (opt_stdin opts) \<and> req_stdout req = slot_text os (opt_stdout opts)
        \<and> req_stderr req = slot_text os (opt_stderr opts) \<and> req_cwd req = slot_text os (opt_cwd opts)
        \<and> s' = s\<lparr>sp_children := sp_children s @ [req]\<rparr>)
     (dd_spawn_windows os av opts s)" (is "xs_ok _ ?R _")
proof -
  have opt: "xs_ok (no_child s) (\<lambda>x s'. s' = hold M s \<and> x = slot_text os slot) (dd_option_text os slot (hold M s))" for slot M
    by (rule xs_ok_mono [OF option_text_ok]) auto
  have argv: "xs_ok (no_child s) (\<lambda>argv s'. argv = p # args \<and> s' = hold {#Res_Argv#} s) (dd_argv_from_av os av s)"
    by (rule xs_ok_mono [OF argv_ok]) (use assms(1) in \<open>auto simp: map_eq_Cons_conv inj_map_eq_map\<close>)
  show ?thesis
    unfolding dd_spawn_windows_def
    apply (rule xs_ok_bind [where m = "dd_argv_from_av os av", OF argv], elim conjE, simp only:)
    apply (rule xs_ok_bind [where m = "dd_windows_command_line os (p # args)", OF command_line_ok [OF assms(3)]], elim conjE, simp only:)
    apply (rule xs_ok_bind [where m = "dd_option_text os (opt_cwd opts)", OF opt], elim conjE, simp only:)
    apply (rule xs_ok_bind [where m = "dd_option_text os (opt_stdout opts)", OF opt], elim conjE, simp only:)
    apply (rule xs_ok_bind [where m = "dd_option_text os (opt_stderr opts)", OF opt], elim conjE, simp only:)
    apply (rule xs_ok_bind [where m = "dd_option_text os (opt_stdin opts)", OF opt], elim conjE, simp only:)
    apply (rule windows_child_ok)
    using command_line_args [OF assms(2), of args] apply blast
    done
qed

text \<open>A system that grants everything except what is said.\<close>

definition good_os :: "int spawn_os" where
  "good_os = \<lparr>os_pvbyte = sv_pv, os_true = (\<lambda>_. True), os_calloc = (\<lambda>_. True), os_text_alloc = (\<lambda>_. True),
     os_environ = [''HOME=/root''], os_actions_init = 0, os_addopen = (\<lambda>_ _. 0), os_attr_init = 0,
     os_attr_setflags = 0, os_attr_setpgroup = 0, os_chdir_np = True, os_addchdir = (\<lambda>_. 0),
     os_spawnp = (\<lambda>_. Some 42), os_open_in = (\<lambda>_. True), os_open_out = (\<lambda>_. True), os_open_err = (\<lambda>_. True),
     os_seek = (\<lambda>_. True), os_create = (\<lambda>_ _. Some 43)\<rparr>"

definition pv :: "string \<Rightarrow> int perl_sv option" where
  "pv t = Some (SV_Scalar (newSVpvn t))"

definition some_options :: "int spawn_options" where
  "some_options = \<lparr>opt_cwd = pv ''/tmp'', opt_stdout = None, opt_stderr = None, opt_stdin = None, opt_group = pv ''1'',
     opt_env = Env_Hash [(Some ''A'', SV_Scalar (newSVpvn ''1''))]\<rparr>"

lemmas spawn_eval = dd_argv_from_av_def good_os_def pv_def some_options_def newSVpvn_def sv_bytes_def dd_option_text_def
  xs_simps then_hold NULCH_def Let_def

theorem windows_spawn_command_line_witness:
  "\<exists>req. snd (dd_spawn_windows good_os [pv ''a b.exe'', pv ''x\"y''] some_options \<lparr>sp_live = {#}, sp_children = []\<rparr>)
      = \<lparr>sp_live = {#}, sp_children = [req]\<rparr> \<and> req_cwd req = Some ''/tmp''"
proof -
  let ?s = "\<lparr>sp_live = {#}, sp_children = []\<rparr>"
  let ?run = "dd_spawn_windows good_os [pv ''a b.exe'', pv ''x\"y''] some_options ?s"
  have texts: "map (slot_text good_os) [pv ''a b.exe'', pv ''x\"y''] = map Some [''a b.exe'', ''x\"y'']"
    by (simp add: slot_text_def pv_def sv_bytes_def good_os_def newSVpvn_def)
  have cwd: "slot_text good_os (opt_cwd some_options) = Some ''/tmp''"
    by (simp add: slot_text_def pv_def sv_bytes_def good_os_def newSVpvn_def some_options_def)
  have "fst ?run = Ret 43"
    by (simp add: spawn_eval dd_spawn_windows_def dd_windows_command_line_def win_quoted_def win_arg_def BSLASH_def DQUOTE_def
        windows_child_def bind_open_handle create_process_def seek_fails_def start_child_hold close_files_def close_handle_def
        xs_then_assoc)
  then obtain s' where run: "?run = (Ret 43, s')" by (cases ?run) simp
  from windows_spawn_command_line [OF texts, of ?s some_options] run cwd show ?thesis
    by (auto simp: program_name_def DQUOTE_def BSLASH_def win_size_def)
qed

text \<open>When the system refuses the working directory, the call croaks without freeing the copy of the
  environment and without destroying the spawn attributes: both are leaked.\<close>

theorem spawn_chdir_failure_leaks:
  "\<exists>os av opts. dd_spawn_process (os :: int spawn_os) av opts s
     = (Croak ''unable to set GoRoutine child working directory'',
        s\<lparr>sp_live := sp_live s + {#Res_Attributes, Res_Env, Res_Env_Text, Res_Env_Text#}\<rparr>)"
proof -
  have "dd_spawn_process (good_os\<lparr>os_addchdir := (\<lambda>_. 2)\<rparr>) [pv ''ls''] some_options s
     = (Croak ''unable to set GoRoutine child working directory'',
        s\<lparr>sp_live := sp_live s + {#Res_Attributes, Res_Env, Res_Env_Text, Res_Env_Text#}\<rparr>)"
    by (simp add: spawn_eval dd_spawn_process_def dd_child_environment_def env_entry_def entry_of_key_def
        spawn_child_def add_files_def spawn_group_def spawn_directory_def xs_bind_then) (simp add: hold_def)
  then show ?thesis by blast
qed

end
