(* ===== verification/Process_Query_Win.thy ===== *)
theory Process_Query_Win
  imports DD_Prelude "HOL-Library.Multiset"
begin

section \<open>Looking at processes on Windows (GoRoutineProcess.xs)\<close>

text \<open>
  The Windows branches of the four XSUBs whose POSIX branches are in Process_Spawn. A process is reached by a
  handle, which the code opens for a 32-bit identifier and closes on every way out. The state is the open handles
  and the processes that were terminated, with their exit codes.
\<close>

datatype wait_result = Wait_Timeout | Wait_Object | Wait_Failed

datatype open_answer = Opened nat | Invalid_Parameter | Open_Error

record query_os =
  qo_open :: "32 word \<Rightarrow> open_answer"
  qo_wait :: "nat \<Rightarrow> wait_result"
  qo_exit_code :: "nat \<Rightarrow> 32 word option"
  qo_terminate :: "nat \<Rightarrow> bool"

record query_state =
  qs_handles :: "nat multiset"
  qs_terminated :: "(nat \<times> 32 word) list"

definition query_open :: "query_os \<Rightarrow> u64 \<Rightarrow> (query_state, open_answer) xs" where
  "query_open os pid s = (case qo_open os (ucast pid) of
     Opened h \<Rightarrow> (Ret (Opened h), s\<lparr>qs_handles := add_mset h (qs_handles s)\<rparr>) | a \<Rightarrow> (Ret a, s))"

definition query_close :: "nat \<Rightarrow> (query_state, unit) xs" where
  "query_close h s = (if h \<in># qs_handles s then (Ret (), s\<lparr>qs_handles := qs_handles s - {#h#}\<rparr>) else (Fault, s))"

definition process_running_win :: "query_os \<Rightarrow> u64 \<Rightarrow> (query_state, bool) xs" where
  "process_running_win os pid = xs_bind (query_open os pid) (\<lambda>a. case a of
     Opened h \<Rightarrow> (let result = qo_wait os h
       in xs_then (query_close h)
            (if result = Wait_Failed then xs_croak ''unable to inspect GoRoutine child process'' else xs_return (result = Wait_Timeout)))
   | _ \<Rightarrow> xs_return False)"

definition process_exited_win :: "query_os \<Rightarrow> u64 \<Rightarrow> (query_state, bool) xs" where
  "process_exited_win os pid =
     (if pid = 0 then xs_croak ''invalid GoRoutine child process identifier''
      else if pid > 0xFFFFFFFF then xs_croak ''invalid GoRoutine child process identifier''
      else xs_bind (query_open os pid) (\<lambda>a. case a of
        Invalid_Parameter \<Rightarrow> xs_return True
      | Open_Error \<Rightarrow> xs_croak ''unable to inspect GoRoutine child process''
      | Opened h \<Rightarrow> (let result = qo_wait os h
          in xs_then (query_close h)
               (if result = Wait_Failed then xs_croak ''unable to inspect GoRoutine child process'' else xs_return (result = Wait_Object)))))"

text \<open>The exit code of the process is read as a C \<open>int\<close>.\<close>

definition wait_process_win :: "query_os \<Rightarrow> u64 \<Rightarrow> (query_state, int) xs" where
  "wait_process_win os pid = xs_bind (query_open os pid) (\<lambda>a. case a of
     Opened h \<Rightarrow> (case (if qo_wait os h = Wait_Object then qo_exit_code os h else None) of
        None \<Rightarrow> xs_then (query_close h) (xs_croak ''unable to wait for GoRoutine child process'')
      | Some code \<Rightarrow> xs_then (query_close h) (xs_return (sint code)))
   | _ \<Rightarrow> xs_croak ''unable to open GoRoutine child process'')"

definition exit_code_of :: "string \<Rightarrow> 32 word option" where
  "exit_code_of name = (if name = ''KILL'' then Some 137 else if name = ''TERM'' then Some 143 else None)"

definition terminate_process_win :: "query_os \<Rightarrow> u64 \<Rightarrow> string \<Rightarrow> (query_state, bool) xs" where
  "terminate_process_win os pid name = (case exit_code_of name of
     None \<Rightarrow> xs_croak ''unsupported GoRoutine termination signal''
   | Some code \<Rightarrow> xs_bind (query_open os pid) (\<lambda>a. case a of
       Opened h \<Rightarrow> xs_then (if qo_terminate os h then xs_modify (\<lambda>s. s\<lparr>qs_terminated := (h, code) # qs_terminated s\<rparr>) else xs_return ())
           (xs_then (query_close h) (xs_return (qo_terminate os h)))
     | _ \<Rightarrow> xs_return False))"

section \<open>Facts\<close>

lemmas query_defs = query_open_def query_close_def xs_then_def xs_bind_def xs_defs Let_def

text \<open>Every query closes the handle it opened, whatever the system answers and whichever way it ends.\<close>

theorem win_queries_close_handles:
  "xs_ok (\<lambda>t. qs_handles t = qs_handles s) (\<lambda>_ t. qs_handles t = qs_handles s) (process_running_win os pid s)"
  "xs_ok (\<lambda>t. qs_handles t = qs_handles s) (\<lambda>_ t. qs_handles t = qs_handles s) (process_exited_win os pid s)"
  "xs_ok (\<lambda>t. qs_handles t = qs_handles s) (\<lambda>_ t. qs_handles t = qs_handles s) (wait_process_win os pid s)"
  "xs_ok (\<lambda>t. qs_handles t = qs_handles s) (\<lambda>_ t. qs_handles t = qs_handles s) (terminate_process_win os pid name s)"
  by (cases "qo_open os (ucast pid)"; simp add: process_running_win_def process_exited_win_def wait_process_win_def
      terminate_process_win_def query_defs split: option.split)+

text \<open>Only \<open>process_exited\<close> refuses an identifier of more than 32 bits; the other three cut it, and
  \<open>terminate_process\<close> ends the process that has the low half.\<close>

theorem win_terminate_cuts_pid:
  assumes "unat pid mod 2 ^ 32 = unat (small :: u64)"
  shows "terminate_process_win os pid name s = terminate_process_win os small name s"
proof -
  have "ucast pid = (ucast small :: 32 word)"
  proof (rule word_unat_eq_iff [THEN iffD2])
    have "unat (ucast w :: 32 word) = unat w mod 2 ^ 32" for w :: u64 by (simp add: unsigned_ucast_eq take_bit_eq_mod)
    then show "unat (ucast pid :: 32 word) = unat (ucast small :: 32 word)" using assms by (metis mod_mod_trivial)
  qed
  then show ?thesis by (simp add: terminate_process_win_def query_open_def xs_bind_def split: option.split)
qed

theorem win_terminate_cuts_pid_witness:
  "terminate_process_win os 0x100000007 ''KILL'' s = terminate_process_win os 7 ''KILL'' s"
  by (rule win_terminate_cuts_pid) simp

end
