(* ===== verification/Native_Crypto.thy ===== *)
theory Native_Crypto
  imports Perl_Value
begin

section \<open>The OpenSSL loader and PBKDF2 (Native.h, Native.xs)\<close>

text \<open>
  \<open>dd_load_crypto\<close> opens the platform's libcrypto when it is first needed and keeps two function
  pointers. A library is named by the number the dynamic linker gives it; \<open>cr_open\<close> lists the
  references the process holds (\<open>dlopen\<close> adds one, \<open>dlclose\<close> drops one). The environment of a call is
  \<open>OPENSSL_PREFIX\<close>, what each name opens and which symbols a library has. OpenSSL itself is a
  parameter. The branch for Linux comes first; the one for macOS differs in the names of the libraries, the one for
  Windows in its loop, which looks at no handle before it opens the first name.
\<close>

record crypto =
  cr_handle :: "nat option"
  cr_sha256 :: "nat option"
  cr_pbkdf2 :: "nat option"
  cr_open :: "nat list"

record crypto_env =
  ce_prefix :: "string option"
  ce_dlopen :: "string \<Rightarrow> nat option"
  ce_dlsym :: "nat \<Rightarrow> string \<Rightarrow> bool"

definition crypto_start :: crypto where
  "crypto_start = \<lparr>cr_handle = None, cr_sha256 = None, cr_pbkdf2 = None, cr_open = []\<rparr>"

definition crypto_names :: "string list" where
  "crypto_names = [''libcrypto.so.3'', ''libcrypto.so.1.1'', ''libcrypto.so'']"

text \<open>\<open>snprintf\<close> keeps what fits beside the NUL.\<close>

definition prefix_path :: "string \<Rightarrow> string" where
  "prefix_path prefix = take 4095 (prefix @ ''/lib/libcrypto.so'')"

definition try_open :: "crypto_env \<Rightarrow> string \<Rightarrow> crypto \<Rightarrow> crypto" where
  "try_open e name s = (case ce_dlopen e name of None \<Rightarrow> s\<lparr>cr_handle := None\<rparr>
     | Some lib \<Rightarrow> s\<lparr>cr_handle := Some lib, cr_open := lib # cr_open s\<rparr>)"

fun try_names :: "crypto_env \<Rightarrow> string list \<Rightarrow> crypto \<Rightarrow> crypto" where
  "try_names e [] s = s"
| "try_names e (name # names) s = (if cr_handle s \<noteq> None then s else try_names e names (try_open e name s))"

definition dlsym :: "crypto_env \<Rightarrow> nat \<Rightarrow> string \<Rightarrow> nat option" where
  "dlsym e lib name = (if ce_dlsym e lib name then Some lib else None)"

definition open_crypto :: "crypto_env \<Rightarrow> crypto \<Rightarrow> crypto" where
  "open_crypto e s = try_names e crypto_names
     (case ce_prefix e of None \<Rightarrow> s | Some p \<Rightarrow> if p = [] then s else try_open e (prefix_path p) s)"

text \<open>What comes before and after the opening is the same in the three branches, but for the names of the calls.\<close>

definition load_with :: "(crypto \<Rightarrow> crypto) \<Rightarrow> crypto_env \<Rightarrow> crypto \<Rightarrow> bool \<times> crypto" where
  "load_with opening e s =
     (if cr_sha256 s \<noteq> None \<and> cr_pbkdf2 s \<noteq> None then (True, s)
      else
        (let s2 = opening s
         in case cr_handle s2 of
              None \<Rightarrow> (False, s2)
            | Some lib \<Rightarrow>
                (let s3 = s2\<lparr>cr_sha256 := dlsym e lib ''EVP_sha256'', cr_pbkdf2 := dlsym e lib ''PKCS5_PBKDF2_HMAC''\<rparr>
                 in if cr_sha256 s3 = None \<or> cr_pbkdf2 s3 = None
                    then (False, s3\<lparr>cr_handle := None, cr_sha256 := None, cr_pbkdf2 := None, cr_open := remove1 lib (cr_open s3)\<rparr>)
                    else (True, s3))))"

definition dd_load_crypto :: "crypto_env \<Rightarrow> crypto \<Rightarrow> bool \<times> crypto" where
  "dd_load_crypto e = load_with (open_crypto e) e"

subsubsection \<open>macOS and Windows\<close>

definition crypto_names_mac :: "string list" where
  "crypto_names_mac = [''libcrypto.3.dylib'', ''libcrypto.dylib'']"

text \<open>\<open>PATH_MAX\<close> is 1024 on macOS.\<close>

definition open_crypto_mac :: "crypto_env \<Rightarrow> crypto \<Rightarrow> crypto" where
  "open_crypto_mac e s = try_names e crypto_names_mac
     (case ce_prefix e of None \<Rightarrow> s | Some p \<Rightarrow> if p = [] then s else try_open e (take 1023 (p @ ''/lib/libcrypto.dylib'')) s)"

definition crypto_names_win :: "string list" where
  "crypto_names_win = [''libcrypto-3-x64.dll'', ''libcrypto-3.dll'', ''libcrypto-1_1-x64.dll'', ''libcrypto-1_1.dll'']"

fun try_names_win :: "crypto_env \<Rightarrow> string list \<Rightarrow> crypto \<Rightarrow> crypto" where
  "try_names_win e [] s = s"
| "try_names_win e (name # names) s =
     (let s1 = try_open e name s in if cr_handle s1 \<noteq> None then s1 else try_names_win e names s1)"

definition dd_load_crypto_mac :: "crypto_env \<Rightarrow> crypto \<Rightarrow> bool \<times> crypto" where
  "dd_load_crypto_mac e = load_with (open_crypto_mac e) e"

definition dd_load_crypto_win :: "crypto_env \<Rightarrow> crypto \<Rightarrow> bool \<times> crypto" where
  "dd_load_crypto_win e = load_with (try_names_win e crypto_names_win) e"

subsubsection \<open>Sequences of calls\<close>

text \<open>One call after the other, each with its environment.\<close>

fun load_all :: "crypto_env list \<Rightarrow> crypto \<Rightarrow> crypto" where
  "load_all [] s = s"
| "load_all (e # es) s = load_all es (snd (dd_load_crypto e s))"

subsection \<open>PBKDF2\<close>

definition hex_digits :: string where "hex_digits = ''0123456789abcdef''"

fun hex_bytes :: "8 word list \<Rightarrow> string" where
  "hex_bytes [] = []"
| "hex_bytes (b # bs) = hex_digits ! unat (drop_bit 4 b) # hex_digits ! unat (and b 0x0F) # hex_bytes bs"

text \<open>\<open>pbkdf2 password salt iterations\<close> is the library function with the digest and 32 bytes of output; \<open>None\<close>
  a result other than 1. The result \<open>None\<close> of the XSUB is \<open>undef\<close>.\<close>

definition xs_pbkdf2_sha256 :: "('nv perl_scalar \<Rightarrow> string option) \<Rightarrow> crypto_env \<Rightarrow> (string \<Rightarrow> string \<Rightarrow> nat \<Rightarrow> 8 word list option)
    \<Rightarrow> 'nv perl_sv \<Rightarrow> 'nv perl_sv \<Rightarrow> u64 \<Rightarrow> (crypto, string option) xs" where
  "xs_pbkdf2_sha256 pvbyte e pbkdf2 password salt iterations s =
     (case (password, salt) of
        (SV_Scalar p, SV_Scalar t) \<Rightarrow>
          if \<not> SvOK password \<or> \<not> SvOK salt then (Croak ''PBKDF2 password and salt must be defined scalars'', s)
          else if sint iterations < 1 \<or> sint iterations > int INT_MAX
          then (Croak ''PBKDF2 iterations are outside the supported range'', s)
          else (case (pvbyte p, pvbyte t) of
                  (Some pb, Some tb) \<Rightarrow>
                    if length pb > INT_MAX \<or> length tb > INT_MAX then (Croak ''PBKDF2 password or salt is too large'', s)
                    else (case dd_load_crypto e s of
                            (False, s1) \<Rightarrow> (Ret None, s1)
                          | (True, s1) \<Rightarrow>
                              (case pbkdf2 pb tb (nat (sint iterations)) of
                                 None \<Rightarrow> (Croak ''OpenSSL PKCS5_PBKDF2_HMAC failed'', s1)
                               | Some out \<Rightarrow> (Ret (Some (hex_bytes out)), s1)))
                | _ \<Rightarrow> (Croak ''Wide character'', s))
      | _ \<Rightarrow> (Croak ''PBKDF2 password and salt must be defined scalars'', s))"

subsection \<open>The loader's state\<close>

text \<open>Nothing is loaded, or both functions come from the one library that is held open.\<close>

definition crypto_ok :: "crypto \<Rightarrow> bool" where
  "crypto_ok s \<longleftrightarrow> (case cr_handle s of None \<Rightarrow> s = crypto_start
     | Some lib \<Rightarrow> s = \<lparr>cr_handle = Some lib, cr_sha256 = Some lib, cr_pbkdf2 = Some lib, cr_open = [lib]\<rparr>)"

definition holds :: "crypto \<Rightarrow> bool" where
  "holds s \<longleftrightarrow> cr_sha256 s = None \<and> cr_pbkdf2 s = None \<and> (case cr_handle s of None \<Rightarrow> cr_open s = [] | Some lib \<Rightarrow> cr_open s = [lib])"

lemma try_open_holds: "holds s \<Longrightarrow> cr_handle s = None \<Longrightarrow> holds (try_open e name s)"
  by (auto simp: holds_def try_open_def split: option.split)

lemma try_names_holds: "holds s \<Longrightarrow> holds (try_names e names s)"
  by (induction names arbitrary: s) (auto simp: try_open_holds)

text \<open>What the branches share: the opening leaves at most one reference, the one it holds.\<close>

lemma load_with_ok:
  assumes "crypto_ok s" and "s = crypto_start \<Longrightarrow> holds (opening s)"
  shows "crypto_ok (snd (load_with opening e s)) \<and> fst (load_with opening e s) = (cr_handle (snd (load_with opening e s)) \<noteq> None)
    \<and> (cr_handle s \<noteq> None \<longrightarrow> snd (load_with opening e s) = s)"
proof (cases "cr_handle s")
  case (Some lib)
  then show ?thesis using assms by (simp add: crypto_ok_def load_with_def)
next
  case None
  then have s: "s = crypto_start" using assms by (simp add: crypto_ok_def)
  then show ?thesis using assms(2) None
    by (cases "opening s"; cases "cr_handle (opening s)")
      (auto simp: load_with_def holds_def crypto_ok_def crypto_start_def dlsym_def Let_def split: if_splits)
qed

lemma crypto_start_holds: "holds crypto_start" "cr_handle crypto_start = None"
  by (simp_all add: holds_def crypto_start_def)

lemma with_prefix_holds:
  "holds (case prefix of None \<Rightarrow> crypto_start | Some p \<Rightarrow> if p = [] then crypto_start else try_open e (path p) crypto_start)"
  using try_open_holds [OF crypto_start_holds] by (auto simp: crypto_start_holds split: option.split)

lemma try_names_win_holds: "holds s \<Longrightarrow> cr_handle s = None \<Longrightarrow> holds (try_names_win e names s)"
  by (induction names arbitrary: s) (auto simp: try_open_holds Let_def)

lemma load_ok:
  assumes "crypto_ok s"
  shows "crypto_ok (snd (dd_load_crypto e s)) \<and> fst (dd_load_crypto e s) = (cr_handle (snd (dd_load_crypto e s)) \<noteq> None)
    \<and> (cr_handle s \<noteq> None \<longrightarrow> snd (dd_load_crypto e s) = s)"
  unfolding dd_load_crypto_def
  by (rule load_with_ok [OF assms]) (simp add: open_crypto_def try_names_holds with_prefix_holds)

text \<open>Loading on macOS and on Windows keeps the same order.\<close>

theorem crypto_both_or_neither_mac:
  "crypto_ok s \<Longrightarrow> crypto_ok (snd (dd_load_crypto_mac e s))
    \<and> fst (dd_load_crypto_mac e s) = (cr_handle (snd (dd_load_crypto_mac e s)) \<noteq> None)
    \<and> (cr_handle s \<noteq> None \<longrightarrow> snd (dd_load_crypto_mac e s) = s)"
  unfolding dd_load_crypto_mac_def
  by (rule load_with_ok) (simp_all add: open_crypto_mac_def try_names_holds with_prefix_holds)

theorem crypto_both_or_neither_win:
  "crypto_ok s \<Longrightarrow> crypto_ok (snd (dd_load_crypto_win e s))
    \<and> fst (dd_load_crypto_win e s) = (cr_handle (snd (dd_load_crypto_win e s)) \<noteq> None)
    \<and> (cr_handle s \<noteq> None \<longrightarrow> snd (dd_load_crypto_win e s) = s)"
  unfolding dd_load_crypto_win_def
  by (rule load_with_ok) (simp_all add: try_names_win_holds crypto_start_holds)

text \<open>With one library installed, the first name in the list that names it decides, and the loop tries no other.\<close>

theorem try_names_win_first:
  "(\<forall>n\<in>set before. ce_dlopen e n = None) \<Longrightarrow> ce_dlopen e name = Some lib \<Longrightarrow> cr_handle s = None \<Longrightarrow>
     try_names_win e (before @ name # after) s = s\<lparr>cr_handle := Some lib, cr_open := lib # cr_open s\<rparr>"
  by (induction before arbitrary: s) (auto simp: try_open_def Let_def)

lemma load_all_ok: "crypto_ok s \<Longrightarrow> crypto_ok (load_all es s) \<and> (cr_handle s \<noteq> None \<longrightarrow> load_all es s = s)"
proof (induction es arbitrary: s)
  case (Cons e es)
  show ?case using Cons.IH [of "snd (dd_load_crypto e s)"] load_ok [OF Cons.prems, of e] by auto
qed simp

lemma crypto_start_ok: "crypto_ok crypto_start"
  by (simp add: crypto_ok_def crypto_start_def)

section \<open>Properties\<close>

text \<open>C40: Over any number of calls in any environments, the loader holds either nothing or both functions of
  one library with exactly one reference to it, a call answers true exactly in the second case, and
  once it has answered true no later call changes anything.\<close>

theorem crypto_both_or_neither:
  assumes "s = load_all es crypto_start"
  shows "(if cr_handle s = None then s = crypto_start
      else \<exists>lib. s = \<lparr>cr_handle = Some lib, cr_sha256 = Some lib, cr_pbkdf2 = Some lib, cr_open = [lib]\<rparr>)
    \<and> fst (dd_load_crypto e s) = (cr_handle (snd (dd_load_crypto e s)) \<noteq> None)
    \<and> (fst (dd_load_crypto e s) \<longrightarrow> load_all es2 (snd (dd_load_crypto e s)) = snd (dd_load_crypto e s))"
proof -
  have s: "crypto_ok s" using load_all_ok [OF crypto_start_ok] by (simp add: assms)
  note one = load_ok [OF s, of e]
  have "load_all es2 (snd (dd_load_crypto e s)) = snd (dd_load_crypto e s)" if "fst (dd_load_crypto e s)"
    using load_all_ok [of "snd (dd_load_crypto e s)" es2] one that by simp
  with one s show ?thesis by (auto simp: crypto_ok_def split: option.splits)
qed

definition linux_env :: crypto_env where
  "linux_env = \<lparr>ce_prefix = None, ce_dlopen = (\<lambda>n. if n = ''libcrypto.so.1.1'' then Some 7 else None), ce_dlsym = (\<lambda>_ _. True)\<rparr>"

theorem crypto_both_or_neither_witness:
  "dd_load_crypto linux_env (load_all [linux_env\<lparr>ce_dlopen := (\<lambda>_. None)\<rparr>] crypto_start)
     = (True, \<lparr>cr_handle = Some 7, cr_sha256 = Some 7, cr_pbkdf2 = Some 7, cr_open = [7]\<rparr>)
   \<and> load_all [linux_env\<lparr>ce_prefix := Some ''/opt''\<rparr>] \<lparr>cr_handle = Some 7, cr_sha256 = Some 7, cr_pbkdf2 = Some 7, cr_open = [7]\<rparr>
     = \<lparr>cr_handle = Some 7, cr_sha256 = Some 7, cr_pbkdf2 = Some 7, cr_open = [7]\<rparr>"
proof -
  let ?s = "load_all [linux_env\<lparr>ce_dlopen := (\<lambda>_. None)\<rparr>] crypto_start"
  have run: "dd_load_crypto linux_env ?s = (True, \<lparr>cr_handle = Some 7, cr_sha256 = Some 7, cr_pbkdf2 = Some 7, cr_open = [7]\<rparr>)"
    by code_simp
  from crypto_both_or_neither [OF refl, where e = linux_env and es = "[linux_env\<lparr>ce_dlopen := (\<lambda>_. None)\<rparr>]" and ?es2.0 = "[linux_env\<lparr>ce_prefix := Some ''/opt''\<rparr>]"]
  show ?thesis by (simp only: run fst_conv snd_conv simp_thms)
qed

end
