(* ===== verification/Change_Watch.thy ===== *)
theory Change_Watch
  imports Perl_Value "HOL-Library.Multiset"
begin

section \<open>Directory watches (Native.xs)\<close>

text \<open>
  The XSUBs of IndicatorStore::Watch: inotify on Linux and change notifications on Windows. The state of the first
  is \<open>errno\<close> and the watches the kernel was asked for; of the second the saved error \<open>dd_windows_error\<close>, the
  notification handles, the wide buffers that are allocated, and the scalars that were made and belong to nobody.
  What the kernel or Windows answers is an argument.
\<close>

subsection \<open>inotify\<close>

record inotify_state =
  in_errno :: int
  in_asked :: "(int \<times> string \<times> 32 word) list"

definition ENOSYS :: int where "ENOSYS = 38"

text \<open>A system call answers a number, or -1 and an error.\<close>

definition answered :: "int + int \<Rightarrow> (inotify_state, int) xs" where
  "answered a = (case a of Inl err \<Rightarrow> xs_then (xs_modify (\<lambda>s. s\<lparr>in_errno := err\<rparr>)) (xs_return (- 1))
     | Inr r \<Rightarrow> xs_then (xs_modify (\<lambda>s. s\<lparr>in_errno := 0\<rparr>)) (xs_return r))"

definition xs_inotify_init :: "bool \<Rightarrow> int + int \<Rightarrow> (inotify_state, int) xs" where
  "xs_inotify_init linux init = (if linux then answered init else answered (Inl ENOSYS))"

text \<open>\<open>pvbyte\<close> is \<open>SvPVbyte\<close>, which dies on wide characters.\<close>

definition xs_inotify_add_watch :: "bool \<Rightarrow> ('nv perl_scalar \<Rightarrow> string option) \<Rightarrow> (int \<Rightarrow> string \<Rightarrow> 32 word \<Rightarrow> int + int)
    \<Rightarrow> int \<Rightarrow> 'nv perl_sv \<Rightarrow> u64 \<Rightarrow> (inotify_state, int) xs" where
  "xs_inotify_add_watch linux pvbyte add descriptor path event_mask =
     (if \<not> linux then answered (Inl ENOSYS)
      else case path of
        SV_Scalar p \<Rightarrow>
          if \<not> SvOK path then xs_croak ''inotify path must be a defined scalar''
          else (case pvbyte p of
                  None \<Rightarrow> xs_croak ''Wide character''
                | Some bytes \<Rightarrow>
                    if CHR 0x00 \<in> set bytes then xs_croak ''inotify path must not contain a null byte''
                    else xs_then (xs_modify (\<lambda>s. s\<lparr>in_asked := in_asked s @ [(descriptor, bytes, ucast event_mask)]\<rparr>))
                           (answered (add descriptor bytes (ucast event_mask))))
      | _ \<Rightarrow> xs_croak ''inotify path must be a defined scalar'')"

subsection \<open>Change notifications\<close>

type_synonym wide_text = "16 word list"

record change_state =
  cs_error :: "32 word"
  cs_handles :: "u64 multiset"
  cs_buffers :: nat
  cs_orphans :: nat

definition change_start :: change_state where
  "change_start = \<lparr>cs_error = 0, cs_handles = {#}, cs_buffers = 0, cs_orphans = 0\<rparr>"

text \<open>The two calls of \<open>MultiByteToWideChar\<close>, the first of which answers 0 on failure; the directory is the text up to
  the first NUL.\<close>

record change_os =
  co_measure :: "string \<Rightarrow> nat"
  co_convert :: "string \<Rightarrow> wide_text option"
  co_find_first :: "wide_text \<Rightarrow> u64"
  co_last_error :: "32 word"

definition INVALID_HANDLE_VALUE :: u64 where "INVALID_HANDLE_VALUE = - 1"

definition saved_error :: "32 word \<Rightarrow> (change_state, unit) xs" where
  "saved_error err = xs_modify (\<lambda>s. s\<lparr>cs_error := err\<rparr>)"

text \<open>\<open>RETVAL = newSV(0); XSRETURN_UNDEF\<close>: the scalar is made and the macro returns another one.\<close>

definition orphan_undef :: "(change_state, u64 option) xs" where
  "orphan_undef = xs_then (xs_modify (\<lambda>s. s\<lparr>cs_orphans := cs_orphans s + 1\<rparr>)) (xs_return None)"

definition free_wide :: "(change_state, unit) xs" where
  "free_wide s = (if cs_buffers s = 0 then (Fault, s) else (Ret (), s\<lparr>cs_buffers := cs_buffers s - 1\<rparr>))"

text \<open>\<open>wide_length + 1\<close> is an \<open>int\<close>. A conversion that does not fill the measured length would leave the buffer
  partly unset or run over it.\<close>

definition xs_win32_find_first_change :: "('nv perl_scalar \<Rightarrow> string) \<Rightarrow> change_os \<Rightarrow> 'nv perl_sv \<Rightarrow> (change_state, u64 option) xs" where
  "xs_win32_find_first_change pvutf8 os path =
     (case path of
        SV_Scalar p \<Rightarrow>
          if \<not> SvOK path then xs_croak ''Windows notification path must be a defined scalar''
          else (let bytes = pvutf8 p; wide_length = co_measure os bytes
            in if length bytes > INT_MAX then xs_croak ''Windows notification path is too large''
               else if wide_length = 0 then xs_then (saved_error (co_last_error os)) orphan_undef
               else if wide_length + 1 > INT_MAX then xs_fault
               else xs_then (xs_modify (\<lambda>s. s\<lparr>cs_buffers := cs_buffers s + 1\<rparr>))
                 (case co_convert os bytes of
                    None \<Rightarrow> xs_then (saved_error (co_last_error os)) (xs_then free_wide orphan_undef)
                  | Some wide \<Rightarrow>
                      if length wide \<noteq> wide_length then xs_fault
                      else (let handle = co_find_first os (takeWhile (\<lambda>c. c \<noteq> 0) (wide @ [0]))
                        in xs_then (xs_modify (\<lambda>s. if handle = INVALID_HANDLE_VALUE \<or> handle = 0 then s
                                                  else s\<lparr>cs_handles := add_mset handle (cs_handles s)\<rparr>))
                          (xs_then (saved_error (if handle = INVALID_HANDLE_VALUE then co_last_error os else 0))
                            (xs_then free_wide
                              (if handle = INVALID_HANDLE_VALUE \<or> handle = 0 then orphan_undef else xs_return (Some handle)))))))
      | _ \<Rightarrow> xs_croak ''Windows notification path must be a defined scalar'')"

definition WAIT_FAILED_status :: "32 word" where "WAIT_FAILED_status = 0xFFFFFFFF"

definition xs_win32_wait :: "bool \<Rightarrow> (u64 \<Rightarrow> 32 word) \<Rightarrow> 32 word \<Rightarrow> u64 \<Rightarrow> (change_state, u64) xs" where
  "xs_win32_wait windows wait err handle =
     (if \<not> windows then xs_return (- 1)
      else (let status = ucast (wait handle) :: u64
        in xs_then (saved_error (if status = ucast WAIT_FAILED_status then err else 0)) (xs_return status)))"

definition xs_win32_next_change :: "bool \<Rightarrow> (u64 \<Rightarrow> bool) \<Rightarrow> 32 word \<Rightarrow> u64 \<Rightarrow> (change_state, bool) xs" where
  "xs_win32_next_change windows next err handle =
     (if \<not> windows then xs_return False
      else xs_then (saved_error (if next handle then 0 else err)) (xs_return (next handle)))"

text \<open>Closing succeeds for the handles that are open.\<close>

definition xs_win32_close_change :: "bool \<Rightarrow> 32 word \<Rightarrow> u64 \<Rightarrow> (change_state, bool) xs" where
  "xs_win32_close_change windows err handle =
     (if \<not> windows then xs_return False
      else xs_bind xs_get (\<lambda>s.
        if handle \<in># cs_handles s
        then xs_then (xs_modify (\<lambda>s. s\<lparr>cs_handles := cs_handles s - {#handle#}\<rparr>)) (xs_then (saved_error 0) (xs_return True))
        else xs_then (saved_error err) (xs_return False)))"

definition xs_win32_last_error :: "bool \<Rightarrow> (change_state, u64) xs" where
  "xs_win32_last_error windows = xs_bind xs_get (\<lambda>s. xs_return (if windows then ucast (cs_error s) else 0))"

section \<open>Facts\<close>

text \<open>The kernel is asked for a watch exactly when the path is a defined scalar of bytes without a NUL, and then for
  that path; every other call leaves everything as it was.\<close>

theorem inotify_watch_exact:
  "xs_inotify_add_watch True pvbyte add d (SV_Scalar p) event_mask s =
     (if \<not> SvOK (SV_Scalar p) then (Croak ''inotify path must be a defined scalar'', s)
      else case pvbyte p of
        None \<Rightarrow> (Croak ''Wide character'', s)
      | Some bytes \<Rightarrow> if CHR 0x00 \<in> set bytes then (Croak ''inotify path must not contain a null byte'', s)
          else (let ask = in_asked s @ [(d, bytes, ucast event_mask)]
                in case add d bytes (ucast event_mask) of
                     Inl err \<Rightarrow> (Ret (- 1), \<lparr>in_errno = err, in_asked = ask\<rparr>)
                   | Inr wd \<Rightarrow> (Ret wd, \<lparr>in_errno = 0, in_asked = ask\<rparr>)))"
  by (auto simp: xs_inotify_add_watch_def answered_def xs_simps Let_def split: option.split sum.split)

definition converts :: "change_os \<Rightarrow> bool" where
  "converts os \<longleftrightarrow> (\<forall>bytes wide. co_convert os bytes = Some wide \<longrightarrow> length wide = co_measure os bytes)"

definition real_handle :: "u64 \<Rightarrow> bool" where
  "real_handle h \<longleftrightarrow> h \<noteq> INVALID_HANDLE_VALUE \<and> h \<noteq> 0"

text \<open>Starting a notification keeps no buffer. It returns a handle exactly when Windows gave one; when it returns
  \<open>undef\<close> there is no new handle, and one scalar is lost.\<close>

theorem find_first_change_accounts:
  assumes "converts os" and "co_measure os (pvutf8 p) < INT_MAX" and "SvOK (SV_Scalar p)"
  shows "case xs_win32_find_first_change pvutf8 os (SV_Scalar p) s of
      (Ret (Some h), t) \<Rightarrow> real_handle h \<and> t = s\<lparr>cs_error := 0, cs_handles := add_mset h (cs_handles s)\<rparr>
    | (Ret None, t) \<Rightarrow> t = s\<lparr>cs_error := cs_error t, cs_orphans := cs_orphans s + 1\<rparr>
    | (Croak _, t) \<Rightarrow> t = s \<and> length (pvutf8 p) > INT_MAX
    | _ \<Rightarrow> False"
proof -
  let ?b = "pvutf8 p"
  consider (large) "length ?b > INT_MAX" | (measure) "length ?b \<le> INT_MAX" "co_measure os ?b = 0"
    | (convert) "length ?b \<le> INT_MAX" "co_measure os ?b \<noteq> 0" "co_convert os ?b = None"
    | (find) w where "length ?b \<le> INT_MAX" "co_measure os ?b \<noteq> 0" "co_convert os ?b = Some w" by fastforce
  then show ?thesis
  proof cases
    case (find w)
    then show ?thesis using assms
      by (auto simp: xs_win32_find_first_change_def converts_def saved_error_def free_wide_def orphan_undef_def real_handle_def
          xs_simps Let_def simp del: SvOK.simps)
  qed (use assms in \<open>auto simp: xs_win32_find_first_change_def saved_error_def free_wide_def orphan_undef_def
          xs_simps Let_def simp del: SvOK.simps\<close>)
qed

definition ascii_os :: change_os where
  "ascii_os = \<lparr>co_measure = length, co_convert = (\<lambda>b. Some (map (\<lambda>c. of_nat (of_char c)) b)),
     co_find_first = (\<lambda>_. 64), co_last_error = 3\<rparr>"

theorem find_first_change_accounts_witness:
  "case xs_win32_find_first_change (SvPV int_rt) ascii_os (SV_Scalar (newSVpvn ''C:'')) change_start of
      (Ret (Some h), t) \<Rightarrow> real_handle h \<and> t = change_start\<lparr>cs_error := 0, cs_handles := add_mset h (cs_handles change_start)\<rparr>
    | (Ret None, t) \<Rightarrow> t = change_start\<lparr>cs_error := cs_error t, cs_orphans := cs_orphans change_start + 1\<rparr>
    | (Croak _, t) \<Rightarrow> t = change_start \<and> length (SvPV int_rt (newSVpvn ''C:'')) > INT_MAX
    | _ \<Rightarrow> False"
  by (rule find_first_change_accounts) (simp_all add: ascii_os_def converts_def INT_MAX_def newSVpvn_def SvPV_def)

text \<open>A path with a NUL, which inotify refuses, watches the directory named by the part before it.\<close>

theorem find_first_change_cuts_path:
  assumes "co_convert os (pvutf8 p) = Some (front @ 0 # rest)" and "0 \<notin> set front" and "real_handle (co_find_first os front)"
    and "converts os" and "length (pvutf8 p) \<le> INT_MAX" and "co_measure os (pvutf8 p) < INT_MAX" and "SvOK (SV_Scalar p)"
  shows "fst (xs_win32_find_first_change pvutf8 os (SV_Scalar p) s) = Ret (Some (co_find_first os front))"
proof -
  have cut: "takeWhile (\<lambda>c. c \<noteq> 0) ((front @ 0 # rest) @ [0]) = front"
    using takeWhile_append_stop [of front "\<lambda>c. c \<noteq> 0" 0 "rest @ [0]"] assms(2) by (metis append.assoc append_Cons)
  have len: "co_measure os (pvutf8 p) = length (front @ 0 # rest)" using assms(1,4) by (metis converts_def)
  show ?thesis using assms(1,3,5,6,7) cut len
    by (simp add: xs_win32_find_first_change_def saved_error_def free_wide_def real_handle_def
          xs_simps Let_def del: SvOK.simps)
qed

text \<open>Notifications opened and closed through these calls are balanced: what a handle was opened for is closed once.\<close>

theorem close_change_once:
  "h \<in># cs_handles s \<Longrightarrow> xs_win32_close_change True err h s = (Ret True, s\<lparr>cs_handles := cs_handles s - {#h#}, cs_error := 0\<rparr>)"
  "h \<notin># cs_handles s \<Longrightarrow> xs_win32_close_change True err h s = (Ret False, s\<lparr>cs_error := err\<rparr>)"
  by (simp_all add: xs_win32_close_change_def saved_error_def xs_simps)

end
