(* ===== verification/System_Menu.thy ===== *)
theory System_Menu
  imports Menu_Json "HOL-Library.Multiset"
begin

section \<open>The Perl side of the system menu (SystemMenuNative.h, SystemMenu.xs)\<close>

text \<open>
  The XSUBs start the helper with a pipe to its standard input and one from its standard output,
  send it lines of JSON and collect its events. Three globals under a mutex hold the state:
  the two descriptors and the process id, \<open>-1\<close> when unset. Beside them the model keeps what the
  system knows: the descriptors that are open (of those the code deals with), the children that
  nobody has waited for, and the bytes written to the current helper. Closing a descriptor that
  is not open is a fault. What a call gets from the system comes with it: the answers of
  \<open>waitpid\<close>, \<open>pipe\<close>, \<open>posix_spawn\<close>, \<open>write\<close> and \<open>read\<close>. This is the POSIX branch of the files.
\<close>

record sm_state =
  sm_helper_fd :: int
  sm_event_fd :: int
  sm_helper_pid :: int
  sm_locked :: bool
  sm_fds :: "int list"
  sm_children :: "int list"
  sm_pipe :: string

datatype wait_answer = Wait_Running | Wait_Reaped | Wait_Echild | Wait_Error

definition sm_init :: sm_state where
  "sm_init = \<lparr>sm_helper_fd = - 1, sm_event_fd = - 1, sm_helper_pid = - 1, sm_locked = False, sm_fds = [],
     sm_children = [], sm_pipe = []\<rparr>"

definition lock_helper :: "(sm_state, unit) xs" where
  "lock_helper s = (if sm_locked s then (Diverge, s) else (Ret (), s\<lparr>sm_locked := True\<rparr>))"

definition unlock_helper :: "(sm_state, unit) xs" where
  "unlock_helper = xs_modify (\<lambda>s. s\<lparr>sm_locked := False\<rparr>)"

definition close_fd :: "int \<Rightarrow> (sm_state, unit) xs" where
  "close_fd fd s = (if fd \<in> set (sm_fds s) then (Ret (), s\<lparr>sm_fds := remove1 fd (sm_fds s)\<rparr>) else (Fault, s))"

definition close_helper_fd :: "(sm_state, unit) xs" where
  "close_helper_fd s =
     (if sm_helper_fd s \<ge> 0 then xs_then (close_fd (sm_helper_fd s)) (xs_modify (\<lambda>s. s\<lparr>sm_helper_fd := - 1\<rparr>)) s
      else (Ret (), s))"

definition close_event_fd :: "(sm_state, unit) xs" where
  "close_event_fd s =
     (if sm_event_fd s \<ge> 0 then xs_then (close_fd (sm_event_fd s)) (xs_modify (\<lambda>s. s\<lparr>sm_event_fd := - 1\<rparr>)) s
      else (Ret (), s))"

definition close_helper_state_unlocked :: "(sm_state, unit) xs" where
  "close_helper_state_unlocked =
     xs_then close_helper_fd (xs_then close_event_fd (xs_modify (\<lambda>s. s\<lparr>sm_helper_pid := - 1\<rparr>)))"

text \<open>A successful \<open>waitpid\<close> takes the child off the system's list.\<close>

definition reap :: "int \<Rightarrow> (sm_state, unit) xs" where
  "reap pid = xs_modify (\<lambda>s. s\<lparr>sm_children := remove1 pid (sm_children s)\<rparr>)"

definition helper_is_running_unlocked :: "wait_answer \<Rightarrow> (sm_state, bool) xs" where
  "helper_is_running_unlocked w s =
     (if sm_helper_pid s \<le> 0 then (Ret False, s)
      else (case w of
              Wait_Running \<Rightarrow> (Ret True, s)
            | Wait_Reaped \<Rightarrow> xs_then (reap (sm_helper_pid s)) (xs_then close_helper_state_unlocked (xs_return False)) s
            | Wait_Echild \<Rightarrow> xs_then close_helper_state_unlocked (xs_return False) s
            | Wait_Error \<Rightarrow> (Ret False, s)))"

definition PATH_MAX :: nat where "PATH_MAX = 4096"

text \<open>What \<open>dladdr\<close> says of this library, \<open>dirname\<close>, and \<open>access(X_OK)\<close>.\<close>

definition find_helper_path :: "string option \<Rightarrow> (string \<Rightarrow> string) \<Rightarrow> (string \<Rightarrow> bool) \<Rightarrow> nat \<Rightarrow> string option" where
  "find_helper_path fname dirname executable out_size =
     (case fname of
        None \<Rightarrow> None
      | Some f \<Rightarrow>
          if length f \<ge> PATH_MAX then None
          else (let path = dirname f @ ''/system_menu_helper''
                in if length path \<ge> out_size then None else if executable path then Some path else None))"

text \<open>\<open>write_all_posix\<close>: what was written, and the result once the loop has ended; with no answer left it
  is still in the loop. Unlike the helper's own loop it also goes on after a write of no bytes.\<close>

fun write_all_posix :: "write_answer list \<Rightarrow> string \<Rightarrow> string \<times> bool option \<times> write_answer list" where
  "write_all_posix ws [] = ([], Some True, ws)"
| "write_all_posix [] (c # buf) = ([], None, [])"
| "write_all_posix (W_Eintr # ws) (c # buf) = write_all_posix ws (c # buf)"
| "write_all_posix (W_Err # ws) (c # buf) = ([], Some False, ws)"
| "write_all_posix (W_Took n # ws) (c # buf) =
     (let (out, ok, ws1) = write_all_posix ws (drop n (c # buf)) in (take n (c # buf) @ out, ok, ws1))"

definition send_bytes :: "write_answer list \<Rightarrow> string \<Rightarrow> (sm_state, bool \<times> write_answer list) xs" where
  "send_bytes ws buf s =
     (case write_all_posix ws buf of
        (out, res, ws1) \<Rightarrow>
          (case res of None \<Rightarrow> (Diverge, s\<lparr>sm_pipe := sm_pipe s @ out\<rparr>)
             | Some ok \<Rightarrow> (Ret (ok, ws1), s\<lparr>sm_pipe := sm_pipe s @ out\<rparr>)))"

subsection \<open>The XSUBs\<close>

record start_answers =
  sa_wait :: wait_answer
  sa_path :: "string option"
  sa_command :: "(int \<times> int) option"
  sa_events :: "(int \<times> int) option"
  sa_actions :: bool
  sa_pid :: "int option"

definition open_fds :: "int \<times> int \<Rightarrow> (sm_state, unit) xs" where
  "open_fds p = xs_modify (\<lambda>s. s\<lparr>sm_fds := fst p # snd p # sm_fds s\<rparr>)"

definition close_fds :: "int \<times> int \<Rightarrow> (sm_state, unit) xs" where
  "close_fds p = xs_then (close_fd (fst p)) (close_fd (snd p))"

definition unlock_croak :: "string \<Rightarrow> (sm_state, 'a) xs" where
  "unlock_croak msg = xs_then unlock_helper (xs_croak msg)"

definition start_helper :: "start_answers \<Rightarrow> (sm_state, unit) xs" where
  "start_helper a =
     (case sa_path a of
        None \<Rightarrow> unlock_croak ''cannot locate system_menu_helper next to System::Menu bundle''
      | Some path \<Rightarrow>
     (case sa_command a of
        None \<Rightarrow> unlock_croak ''command pipe() failed''
      | Some cp \<Rightarrow> xs_then (open_fds cp)
     (case sa_events a of
        None \<Rightarrow> xs_then (close_fds cp) (unlock_croak ''event pipe() failed'')
      | Some ep \<Rightarrow> xs_then (open_fds ep)
     (if \<not> sa_actions a
      then xs_then (close_fds cp) (xs_then (close_fds ep) (unlock_croak ''posix_spawn_file_actions_init() failed''))
      else (case sa_pid a of
        None \<Rightarrow> xs_then (close_fd (fst cp)) (xs_then (close_fd (snd ep))
          (xs_then (close_fd (snd cp)) (xs_then (close_fd (fst ep)) (unlock_croak ''posix_spawn() failed''))))
      | Some pid \<Rightarrow>
          xs_then (xs_modify (\<lambda>s. s\<lparr>sm_children := pid # sm_children s\<rparr>))
            (xs_then (close_fd (fst cp)) (xs_then (close_fd (snd ep))
              (xs_modify (\<lambda>s. s\<lparr>sm_helper_fd := snd cp, sm_event_fd := fst ep, sm_helper_pid := pid, sm_pipe := []\<rparr>)))))))))"

definition menu_start_xs :: "start_answers \<Rightarrow> (sm_state, bool) xs" where
  "menu_start_xs a =
     xs_then lock_helper
       (xs_bind (helper_is_running_unlocked (sa_wait a)) (\<lambda>running.
         xs_then (if running then xs_return () else start_helper a)
           (xs_then unlock_helper (xs_return True))))"

definition menu_running :: "wait_answer \<Rightarrow> (sm_state, bool) xs" where
  "menu_running w =
     xs_then lock_helper
       (xs_bind (helper_is_running_unlocked w) (\<lambda>running. xs_then unlock_helper (xs_return running)))"

definition menu_command_json :: "wait_answer \<Rightarrow> write_answer list \<Rightarrow> string \<Rightarrow> (sm_state, bool) xs" where
  "menu_command_json w ws value =
     xs_then lock_helper
       (xs_bind (helper_is_running_unlocked w) (\<lambda>running.
         xs_bind (if running then
                    xs_bind (send_bytes ws (c_str value)) (\<lambda>(ok1, ws1).
                    xs_bind (if ok1 then send_bytes ws1 [CHR 0x0A] else xs_return (False, ws1)) (\<lambda>(ok, ws2).
                      xs_then (if ok then xs_return () else close_helper_state_unlocked) (xs_return ok)))
                  else xs_return False) (\<lambda>ok.
           xs_then unlock_helper
             (if ok then xs_return True else xs_croak ''System::Menu helper is not running or command write failed''))))"

datatype event_answer = Ev_Bytes string | Ev_Eintr | Ev_Again | Ev_Eof | Ev_Err

text \<open>The read loop: the bytes collected, and whether the stream ended; no answer left is another turn.\<close>

fun read_loop :: "event_answer list \<Rightarrow> string \<times> bool option" where
  "read_loop [] = ([], None)"
| "read_loop (Ev_Bytes bs # as) = (case read_loop as of (out, eof) \<Rightarrow> (bs @ out, eof))"
| "read_loop (Ev_Eintr # as) = read_loop as"
| "read_loop (Ev_Again # as) = ([], Some False)"
| "read_loop (Ev_Eof # as) = ([], Some True)"
| "read_loop (Ev_Err # as) = ([], Some False)"

definition read_events_unlocked :: "event_answer list \<Rightarrow> (sm_state, string) xs" where
  "read_events_unlocked as s =
     (if sm_event_fd s < 0 then (Ret [], s)
      else (case read_loop as of
              (out, None) \<Rightarrow> (Diverge, s)
            | (out, Some eof) \<Rightarrow> xs_then (if eof then close_event_fd else xs_return ()) (xs_return out) s))"

definition menu_read_events :: "event_answer list \<Rightarrow> (sm_state, string) xs" where
  "menu_read_events as =
     xs_then lock_helper (xs_bind (read_events_unlocked as) (\<lambda>out. xs_then unlock_helper (xs_return out)))"

definition stop_line :: string where
  "stop_line = [CHR ''{'', QUO] @ ''op'' @ [QUO, CHR '':'', QUO] @ ''stop'' @ [QUO, CHR ''}'', CHR 0x0A]"

text \<open>The last wait: interrupted some times, then it answers whether it got the child.\<close>

fun final_wait :: "int \<Rightarrow> wait_answer option list \<Rightarrow> (sm_state, unit) xs" where
  "final_wait pid [] = xs_diverge"
| "final_wait pid (None # as) = final_wait pid as"
| "final_wait pid (Some w # as) = (if w = Wait_Reaped then reap pid else xs_return ())"

definition stop_unlocked :: "wait_answer \<Rightarrow> write_answer list \<Rightarrow> (sm_state, int) xs" where
  "stop_unlocked w ws =
     xs_bind (helper_is_running_unlocked w) (\<lambda>running.
       if running then
         xs_bind xs_get (\<lambda>s.
           xs_then (send_bytes ws stop_line)
             (xs_then close_helper_fd (xs_then close_event_fd
               (xs_then (xs_modify (\<lambda>s. s\<lparr>sm_helper_pid := - 1\<rparr>)) (xs_return (sm_helper_pid s))))))
       else xs_then close_helper_state_unlocked (xs_return (- 1)))"

definition menu_stop :: "wait_answer \<Rightarrow> write_answer list \<Rightarrow> wait_answer option list \<Rightarrow> (sm_state, bool) xs" where
  "menu_stop w ws waits =
     xs_then lock_helper
       (xs_bind (stop_unlocked w ws) (\<lambda>pid.
         xs_then unlock_helper
           (xs_then (if pid > 0 then final_wait pid waits else xs_return ()) (xs_return True))))"

text \<open>One call of the package.\<close>

datatype sm_op = Op_Start start_answers | Op_Running wait_answer | Op_Command wait_answer "write_answer list" string
  | Op_Read "event_answer list" | Op_Stop wait_answer "write_answer list" "wait_answer option list"

fun sm_call :: "sm_op \<Rightarrow> (sm_state, unit) xs" where
  "sm_call (Op_Start a) = xs_then (menu_start_xs a) (xs_return ())"
| "sm_call (Op_Running w) = xs_then (menu_running w) (xs_return ())"
| "sm_call (Op_Command w ws value) = xs_then (menu_command_json w ws value) (xs_return ())"
| "sm_call (Op_Read as) = xs_then (menu_read_events as) (xs_return ())"
| "sm_call (Op_Stop w ws waits) = xs_then (menu_stop w ws waits) (xs_return ())"

text \<open>
  What is relied on of the system: \<open>waitpid\<close> with a valid pid and \<open>WNOHANG\<close> fails with \<open>ECHILD\<close> only,
  new descriptors are not negative and differ, a new process id is positive and not that of a child nobody has waited
  for; and the loops get the answer that ends them.
\<close>

fun writes_end :: "write_answer list \<Rightarrow> string list \<Rightarrow> bool" where
  "writes_end ws [] = True"
| "writes_end ws (buf # bufs) =
     (case write_all_posix ws buf of (out, res, ws1) \<Rightarrow> res = Some False \<or> res = Some True \<and> writes_end ws1 bufs)"

definition pipe_fds :: "(int \<times> int) option \<Rightarrow> int list" where
  "pipe_fds p = (case p of None \<Rightarrow> [] | Some (a, b) \<Rightarrow> [a, b])"

definition pipes_ok :: "start_answers \<Rightarrow> bool" where
  "pipes_ok a \<longleftrightarrow> distinct (pipe_fds (sa_command a) @ pipe_fds (sa_events a))
     \<and> list_all (\<lambda>fd. fd \<ge> 0) (pipe_fds (sa_command a) @ pipe_fds (sa_events a))"

definition children_after :: "wait_answer \<Rightarrow> sm_state \<Rightarrow> int list" where
  "children_after w s = (if w = Wait_Reaped \<and> sm_helper_pid s > 0 then remove1 (sm_helper_pid s) (sm_children s) else sm_children s)"

fun answers_ok :: "sm_op \<Rightarrow> sm_state \<Rightarrow> bool" where
  "answers_ok (Op_Start a) s =
     (sa_wait a \<noteq> Wait_Error \<and> pipes_ok a
      \<and> (case sa_pid a of None \<Rightarrow> True
          | Some pid \<Rightarrow> pid > 0 \<and> pid \<notin> set (children_after (sa_wait a) s)))"
| "answers_ok (Op_Running w) s = (w \<noteq> Wait_Error)"
| "answers_ok (Op_Command w ws value) s = (w \<noteq> Wait_Error \<and> writes_end ws [c_str value, [CHR 0x0A]])"
| "answers_ok (Op_Read as) s = (snd (read_loop as) \<noteq> None)"
| "answers_ok (Op_Stop w ws waits) s = (w \<noteq> Wait_Error \<and> writes_end ws [stop_line] \<and> list_ex (\<lambda>a. a \<noteq> None) waits)"

text \<open>A history of calls, each of which has ended.\<close>

inductive sm_reach :: "sm_state \<Rightarrow> sm_state \<Rightarrow> bool" for s0 where
  sm_reach_start: "sm_reach s0 s0"
| sm_reach_call: "sm_reach s0 s \<Longrightarrow> answers_ok op s \<Longrightarrow> sm_call op s = (out, s') \<Longrightarrow> sm_reach s0 s'"

subsection \<open>Descriptors, lock and process id\<close>

definition fd_res :: "int \<Rightarrow> int multiset" where
  "fd_res fd = (if fd \<ge> 0 then {#fd#} else {#})"

definition sm_ok :: "bool \<Rightarrow> sm_state \<Rightarrow> bool" where
  "sm_ok locked s \<longleftrightarrow> sm_locked s = locked \<and> mset (sm_fds s) = fd_res (sm_helper_fd s) + fd_res (sm_event_fd s)
     \<and> sm_helper_fd s \<ge> - 1 \<and> sm_event_fd s \<ge> - 1
     \<and> (if sm_helper_pid s > 0 then sm_helper_fd s \<ge> 0
        else sm_helper_pid s = - 1 \<and> sm_helper_fd s = - 1 \<and> sm_event_fd s = - 1)"

text \<open>\<open>kept p\<close>: the child \<open>p\<close> has been dropped from the state and nobody has waited for it.\<close>

definition kept :: "int option \<Rightarrow> sm_state \<Rightarrow> bool" where
  "kept z s = (case z of None \<Rightarrow> True | Some p \<Rightarrow> p > 0 \<and> p \<in> set (sm_children s) \<and> sm_helper_pid s \<noteq> p)"

definition sm_good :: "bool \<Rightarrow> int option \<Rightarrow> sm_state \<Rightarrow> bool" where
  "sm_good locked z s \<longleftrightarrow> sm_ok locked s \<and> kept z s"

lemma close_fd_Ret: "fd \<in># mset (sm_fds s) \<Longrightarrow> close_fd fd s = (Ret (), s\<lparr>sm_fds := remove1 fd (sm_fds s)\<rparr>)"
  by (simp add: close_fd_def)

lemma close_helper_fd_ok:
  assumes "mset (sm_fds s) = fd_res (sm_helper_fd s) + M" and "sm_helper_fd s \<ge> - 1"
  shows "\<exists>fds. close_helper_fd s = (Ret (), s\<lparr>sm_fds := fds, sm_helper_fd := - 1\<rparr>) \<and> mset fds = M"
proof (cases "sm_helper_fd s \<ge> 0")
  case True
  then have "sm_helper_fd s \<in># mset (sm_fds s)" using assms by (simp add: fd_res_def)
  with True assms show ?thesis
    by (intro exI [of _ "remove1 (sm_helper_fd s) (sm_fds s)"]) (simp add: close_helper_fd_def xs_then_Ret [OF close_fd_Ret] xs_defs fd_res_def)
next
  case False
  then show ?thesis using assms by (intro exI [of _ "sm_fds s"]) (simp add: close_helper_fd_def fd_res_def)
qed

lemma close_event_fd_ok:
  assumes "mset (sm_fds s) = fd_res (sm_event_fd s) + M" and "sm_event_fd s \<ge> - 1"
  shows "\<exists>fds. close_event_fd s = (Ret (), s\<lparr>sm_fds := fds, sm_event_fd := - 1\<rparr>) \<and> mset fds = M"
proof (cases "sm_event_fd s \<ge> 0")
  case True
  then have "sm_event_fd s \<in># mset (sm_fds s)" using assms by (simp add: fd_res_def)
  with True assms show ?thesis
    by (intro exI [of _ "remove1 (sm_event_fd s) (sm_fds s)"]) (simp add: close_event_fd_def xs_then_Ret [OF close_fd_Ret] xs_defs fd_res_def)
next
  case False
  then show ?thesis using assms by (intro exI [of _ "sm_fds s"]) (simp add: close_event_fd_def fd_res_def)
qed

text \<open>The two descriptors closed, and the whole state unset.\<close>

definition no_fds :: "sm_state \<Rightarrow> sm_state" where
  "no_fds s = s\<lparr>sm_helper_fd := - 1, sm_event_fd := - 1, sm_fds := []\<rparr>"

definition unset :: "sm_state \<Rightarrow> sm_state" where
  "unset s = (no_fds s)\<lparr>sm_helper_pid := - 1\<rparr>"

lemma close_both:
  assumes "sm_ok b s"
  shows "xs_then close_helper_fd (xs_then close_event_fd k) s = k (no_fds s)"
proof -
  obtain fds where h: "close_helper_fd s = (Ret (), s\<lparr>sm_fds := fds, sm_helper_fd := - 1\<rparr>)" and fds: "mset fds = fd_res (sm_event_fd s)"
    using close_helper_fd_ok [of s "fd_res (sm_event_fd s)"] assms by (auto simp: sm_ok_def)
  let ?t = "s\<lparr>sm_fds := fds, sm_helper_fd := - 1\<rparr>"
  have e: "close_event_fd ?t = (Ret (), ?t\<lparr>sm_fds := [], sm_event_fd := - 1\<rparr>)"
    using close_event_fd_ok [of ?t "{#}"] fds assms by (auto simp: sm_ok_def)
  have "?t\<lparr>sm_fds := [], sm_event_fd := - 1\<rparr> = no_fds s" by (cases s) (simp add: no_fds_def)
  then show ?thesis by (simp add: xs_then_Ret [of close_helper_fd, OF h] xs_then_Ret [of close_event_fd, OF e])
qed

lemma close_state_ok: "sm_ok b s \<Longrightarrow> close_helper_state_unlocked s = (Ret (), unset s)"
  by (simp add: close_helper_state_unlocked_def close_both xs_defs unset_def)

lemma unset_ok: "sm_good b z s \<Longrightarrow> sm_good b z (unset s)"
  by (cases z) (auto simp: sm_good_def sm_ok_def kept_def unset_def no_fds_def fd_res_def)

lemma sm_unlock: "sm_good True z s \<Longrightarrow> sm_good False z (s\<lparr>sm_locked := False\<rparr>)"
  by (cases z) (auto simp: sm_good_def sm_ok_def kept_def)

lemma sm_lock: "sm_good False z s \<Longrightarrow> xs_then lock_helper k s = k (s\<lparr>sm_locked := True\<rparr>) \<and> sm_good True z (s\<lparr>sm_locked := True\<rparr>)"
  by (cases z) (auto simp: sm_good_def sm_ok_def kept_def lock_helper_def xs_then_def xs_bind_def)

text \<open>The check whether the helper runs; when it does, nothing has changed.\<close>

lemma running_check:
  assumes "sm_good True z s" and "w \<noteq> Wait_Error"
  obtains (runs) "helper_is_running_unlocked w s = (Ret True, s)" "sm_helper_pid s > 0"
  | (gone) t where "helper_is_running_unlocked w s = (Ret False, t)" "sm_good True z t" "sm_helper_pid t = - 1"
      "sm_children t = children_after w s"
proof (cases "sm_helper_pid s > 0")
  case False
  then have "helper_is_running_unlocked w s = (Ret False, s)" and "sm_helper_pid s = - 1"
    using assms(1) by (auto simp: helper_is_running_unlocked_def sm_good_def sm_ok_def split: if_splits)
  then show thesis using gone [of s] assms(1) False by (simp add: children_after_def)
next
  case True
  let ?r = "s\<lparr>sm_children := remove1 (sm_helper_pid s) (sm_children s)\<rparr>"
  have r: "sm_good True z ?r" using assms(1) True by (cases z) (auto simp: sm_good_def sm_ok_def kept_def)
  have pid: "sm_helper_pid (unset t) = - 1" for t by (simp add: unset_def)
  have kids: "sm_children (unset t) = sm_children t" for t by (simp add: unset_def no_fds_def)
  show thesis
  proof (cases w)
    case Wait_Running
    then show thesis using True by (intro runs) (simp_all add: helper_is_running_unlocked_def)
  next
    case Wait_Reaped
    have "helper_is_running_unlocked w s = (Ret False, unset ?r)"
      using True Wait_Reaped r close_state_ok [of True ?r]
      by (simp add: helper_is_running_unlocked_def reap_def xs_simps xs_then_Ret sm_good_def)
    then show thesis using unset_ok [OF r] by (rule gone) (simp_all add: pid kids children_after_def Wait_Reaped True)
  next
    case Wait_Echild
    have "helper_is_running_unlocked w s = (Ret False, unset s)"
      using True Wait_Echild assms(1) close_state_ok [of True s]
      by (simp add: helper_is_running_unlocked_def xs_simps xs_then_Ret sm_good_def)
    then show thesis using unset_ok [OF assms(1)] by (rule gone) (simp_all add: pid kids children_after_def Wait_Echild)
  qed (use assms(2) in simp)
qed

subsection \<open>Every call keeps the state in order\<close>

lemma bind_check: "helper_is_running_unlocked w s = (Ret x, t) \<Longrightarrow> xs_bind (helper_is_running_unlocked w) f s = f x t"
  by (rule xs_bind_Ret)

lemma then_close_state: "sm_ok b s \<Longrightarrow> xs_then close_helper_state_unlocked k s = k (unset s)"
  using close_state_ok by (rule xs_then_Ret)

lemma then_close_fd: "fd \<in># mset (sm_fds s) \<Longrightarrow> xs_then (close_fd fd) k s = k (s\<lparr>sm_fds := remove1 fd (sm_fds s)\<rparr>)"
  using close_fd_Ret by (rule xs_then_Ret)

lemma then_unlock: "xs_then unlock_helper k s = k (s\<lparr>sm_locked := False\<rparr>)"
  by (simp add: unlock_helper_def xs_simps)

lemma unlock_croak_ok: "sm_good True z s \<Longrightarrow> xs_ok (sm_good False z) R (unlock_croak msg s)"
  by (simp add: unlock_croak_def then_unlock xs_croak_def sm_unlock)

lemma pipe_stays [simp]: "sm_good b z (s\<lparr>sm_pipe := p\<rparr>) = sm_good b z s" "sm_ok b (s\<lparr>sm_pipe := p\<rparr>) = sm_ok b s"
  by (cases z; simp add: sm_good_def sm_ok_def kept_def)+

lemma then_open_fds: "xs_then (open_fds p) k s = k (s\<lparr>sm_fds := fst p # snd p # sm_fds s\<rparr>)"
  by (simp add: open_fds_def xs_then_simps)

lemma then_close_fds: "xs_then (close_fds p) k s = xs_then (close_fd (fst p)) (xs_then (close_fd (snd p)) k) s"
  by (simp add: close_fds_def xs_then_def xs_bind_assoc)

lemma start_helper_ok:
  assumes "sm_good True z s" and "sm_helper_pid s = - 1" and "pipes_ok a"
    and "\<And>pid. sa_pid a = Some pid \<Longrightarrow> pid > 0 \<and> pid \<notin> set (sm_children s)"
  shows "xs_ok (sm_good False z) (\<lambda>_. sm_good True z) (start_helper a s)"
proof -
  have s: "sm_fds s = []" "sm_helper_fd s = - 1" "sm_event_fd s = - 1" "sm_locked s"
    using assms(1,2) by (auto simp: sm_good_def sm_ok_def fd_res_def)
  have same: "s\<lparr>sm_fds := []\<rparr> = s" using s(1) by (cases s) simp
  have croak: "xs_ok (sm_good False z) R (unlock_croak msg s)" for R :: "unit \<Rightarrow> sm_state \<Rightarrow> bool" and msg
    using assms(1) by (rule unlock_croak_ok)
  have new: "sm_good True z (s\<lparr>sm_children := pid # sm_children s, sm_fds := [r, w], sm_helper_fd := w, sm_event_fd := r,
      sm_helper_pid := pid, sm_pipe := []\<rparr>)" if "sa_pid a = Some pid" "w \<ge> 0" "r \<ge> 0" for pid w r
    using assms(1) assms(4) [OF that(1)] that(2,3) s by (cases z) (auto simp: sm_good_def sm_ok_def kept_def fd_res_def)
  note steps = start_helper_def then_open_fds then_close_fds then_close_fd s same croak xs_then_simps pipe_fds_def pipes_ok_def
  show ?thesis
  proof (cases "sa_path a = None \<or> sa_command a = None \<or> sa_events a = None \<or> \<not> sa_actions a \<or> sa_pid a = None")
    case True
    then show ?thesis using assms(3) by (auto simp: steps split: option.split)
  next
    case False
    then obtain path r1 w1 r2 w2 pid where a: "sa_path a = Some path" "sa_command a = Some (r1, w1)" "sa_events a = Some (r2, w2)"
      "sa_actions a" "sa_pid a = Some pid"
      by auto
    then show ?thesis using assms(3) new [of pid w1 r2] by (simp add: steps xs_modify_def)
  qed
qed

lemma start_ok:
  assumes "sm_good False z s" and "answers_ok (Op_Start a) s"
  shows "xs_ok (sm_good False z) (\<lambda>_. sm_good False z) (menu_start_xs a s)"
proof -
  let ?l = "s\<lparr>sm_locked := True\<rparr>"
  have lock: "xs_then lock_helper k s = k ?l" "sm_good True z ?l" for k :: "(sm_state, bool) xs" using sm_lock [OF assms(1)] by auto
  have w: "sa_wait a \<noteq> Wait_Error" "pipes_ok a" using assms(2) by simp_all
  have after: "children_after (sa_wait a) ?l = children_after (sa_wait a) s" by (simp add: children_after_def)
  show ?thesis
  proof (cases rule: running_check [OF lock(2) w(1)])
    case 1
    then show ?thesis using sm_unlock [OF lock(2)] by (simp add: menu_start_xs_def lock(1) bind_check [OF 1(1)] xs_then_simps then_unlock xs_return_def)
  next
    case (2 t)
    have "xs_ok (sm_good False z) (\<lambda>_. sm_good False z) (xs_then (start_helper a) (xs_then unlock_helper (xs_return True)) t)"
    proof (rule xs_ok_then [where m = "start_helper a", OF start_helper_ok [OF 2(2,3) w(2)]])
      show "pid > 0 \<and> pid \<notin> set (sm_children t)" if "sa_pid a = Some pid" for pid
        using assms(2) that 2(4) after by simp
      show "xs_ok (sm_good False z) (\<lambda>_. sm_good False z) (xs_then unlock_helper (xs_return True) t')" if "sm_good True z t'" for t'
        using sm_unlock [OF that] by (simp add: then_unlock xs_return_def)
    qed
    then show ?thesis using 2 by (simp add: menu_start_xs_def lock(1) bind_check [OF 2(1)])
  qed
qed

lemma running_ok:
  assumes "sm_good False z s" and "w \<noteq> Wait_Error"
  shows "xs_ok (sm_good False z) (\<lambda>_. sm_good False z) (menu_running w s)"
proof -
  let ?l = "s\<lparr>sm_locked := True\<rparr>"
  have lock: "xs_then lock_helper k s = k ?l" "sm_good True z ?l" for k :: "(sm_state, bool) xs" using sm_lock [OF assms(1)] by auto
  show ?thesis
  proof (cases rule: running_check [OF lock(2) assms(2)])
    case 1
    then show ?thesis using sm_unlock [OF lock(2)] by (simp add: menu_running_def lock(1) bind_check [OF 1(1)] then_unlock xs_return_def)
  next
    case (2 t)
    then show ?thesis using sm_unlock [OF 2(2)] by (simp add: menu_running_def lock(1) bind_check [OF 2(1)] then_unlock xs_return_def)
  qed
qed

lemma send_bytes_eq:
  "write_all_posix ws buf = (out, Some ok, ws1) \<Longrightarrow> send_bytes ws buf s = (Ret (ok, ws1), s\<lparr>sm_pipe := sm_pipe s @ out\<rparr>)"
  by (simp add: send_bytes_def)

lemma send_ok:
  assumes "writes_end ws (buf # bufs)" and "sm_good True z s"
  shows "\<exists>ok ws1 out. send_bytes ws buf s = (Ret (ok, ws1), s\<lparr>sm_pipe := sm_pipe s @ out\<rparr>)"
  using assms(1) by (auto simp: send_bytes_def split: prod.splits option.splits)

lemma write_all_posix_all: "write_all_posix ws buf = (out, Some True, ws1) \<Longrightarrow> out = buf"
proof (induction ws buf arbitrary: out ws1 rule: write_all_posix.induct)
  case (5 n ws c buf)
  obtain o1 r w1 where rec: "write_all_posix ws (drop n (c # buf)) = (o1, r, w1)" by (metis prod_cases3)
  with 5 show ?case by (auto simp: Let_def)
qed auto

text \<open>A command to a running helper: everything is written, or the state is unset.\<close>

lemma command_runs:
  assumes "sm_good False z s" and "writes_end ws [c_str value, [CHR 0x0A]]" and "sm_helper_pid s > 0"
  obtains (sent) p where "menu_command_json Wait_Running ws value s = (Ret True, s\<lparr>sm_pipe := sm_pipe s @ c_str value @ [CHR 0x0A]\<rparr>)"
  | (failed) p where "menu_command_json Wait_Running ws value s
      = (Croak ''System::Menu helper is not running or command write failed'', unset (s\<lparr>sm_pipe := p\<rparr>))"
proof -
  let ?l = "s\<lparr>sm_locked := True\<rparr>"
  let ?m1 = "send_bytes ws (c_str value)"
  have lock: "xs_then lock_helper k s = k ?l" "sm_good True z ?l" for k :: "(sm_state, bool) xs" using sm_lock [OF assms(1)] by auto
  have check: "helper_is_running_unlocked Wait_Running ?l = (Ret True, ?l)" using assms(3) by (simp add: helper_is_running_unlocked_def)
  have free: "s\<lparr>sm_pipe := x, sm_locked := False\<rparr> = s\<lparr>sm_pipe := x\<rparr>"
    "s\<lparr>sm_pipe := x, sm_helper_fd := - 1, sm_event_fd := - 1, sm_fds := [], sm_helper_pid := - 1, sm_locked := False\<rparr>
      = s\<lparr>sm_pipe := x, sm_helper_fd := - 1, sm_event_fd := - 1, sm_fds := [], sm_helper_pid := - 1\<rparr>" for x
    using assms(1) by (cases s; simp add: sm_good_def sm_ok_def)+
  obtain out1 ok1 ws1 where w1: "write_all_posix ws (c_str value) = (out1, Some ok1, ws1)" and more: "ok1 \<longrightarrow> writes_end ws1 [[CHR 0x0A]]"
    using assms(2) by (auto split: prod.splits)
  let ?t = "?l\<lparr>sm_pipe := sm_pipe s @ out1\<rparr>"
  let ?m2 = "if ok1 then send_bytes ws1 [CHR 0x0A] else xs_return (False, ws1)"
  have one: "?m1 ?l = (Ret (ok1, ws1), ?t)" by (simp add: send_bytes_def w1)
  obtain out2 ok2 ws2 where w2: "ok1 \<longrightarrow> write_all_posix ws1 [CHR 0x0A] = (out2, Some ok2, ws2)"
    using more by (cases ok1) (auto split: prod.splits)
  let ?p = "if ok1 then sm_pipe s @ out1 @ out2 else sm_pipe s @ out1"
  let ?u = "?l\<lparr>sm_pipe := ?p\<rparr>"
  have two: "?m2 ?t = (Ret (ok1 \<and> ok2, if ok1 then ws2 else ws1), ?u)" by (cases ok1) (simp_all add: send_bytes_def w2 xs_return_def)
  have u: "sm_ok True ?u" using lock(2) by (simp add: sm_good_def)
  have run: "menu_command_json Wait_Running ws value s
      = (if ok1 \<and> ok2 then (Ret True, s\<lparr>sm_pipe := ?p\<rparr>)
         else (Croak ''System::Menu helper is not running or command write failed'', unset (s\<lparr>sm_pipe := ?p\<rparr>)))"
    by (simp add: free menu_command_json_def lock(1) bind_check [OF check] xs_bind_Ret [of ?m1, OF one] xs_bind_Ret [of ?m2, OF two]
        xs_bind_assoc xs_bind_then then_close_state [OF u] then_unlock xs_simps unset_def no_fds_def)
  show thesis
  proof (cases "ok1 \<and> ok2")
    case True
    with w1 w2 have "out1 = c_str value" "out2 = [CHR 0x0A]" by (auto dest: write_all_posix_all)
    with True run show thesis by (intro sent) simp
  qed (use run failed in auto)
qed

lemma command_ok:
  assumes "sm_good False z s" and "w \<noteq> Wait_Error" and "writes_end ws [c_str value, [CHR 0x0A]]"
  shows "xs_ok (sm_good False z) (\<lambda>_. sm_good False z) (menu_command_json w ws value s)"
proof -
  let ?l = "s\<lparr>sm_locked := True\<rparr>"
  have lock: "xs_then lock_helper k s = k ?l" "sm_good True z ?l" for k :: "(sm_state, bool) xs" using sm_lock [OF assms(1)] by auto
  show ?thesis
  proof (cases rule: running_check [OF lock(2) assms(2)])
    case 1
    have pid: "sm_helper_pid s > 0" using 1(2) by simp
    have same: "helper_is_running_unlocked w ?l = helper_is_running_unlocked Wait_Running ?l"
      using 1(1) pid by (simp add: helper_is_running_unlocked_def)
    have "menu_command_json w ws value s = menu_command_json Wait_Running ws value s"
      by (simp add: menu_command_json_def lock(1) xs_bind_def same)
    with unset_ok [of False z] assms(1) show ?thesis
      by (cases rule: command_runs [OF assms(1,3) pid]) simp_all
  next
    case (2 t)
    then show ?thesis using sm_unlock [OF 2(2)]
      by (simp add: menu_command_json_def lock(1) bind_check [OF 2(1)] xs_simps then_unlock)
  qed
qed

lemma close_event_good:
  assumes "sm_good True z s"
  shows "\<exists>t. close_event_fd s = (Ret (), t) \<and> sm_good True z t"
proof -
  obtain fds where "close_event_fd s = (Ret (), s\<lparr>sm_fds := fds, sm_event_fd := - 1\<rparr>)" and "mset fds = fd_res (sm_helper_fd s)"
    using close_event_fd_ok [of s "fd_res (sm_helper_fd s)"] assms by (auto simp: sm_good_def sm_ok_def add.commute)
  then show ?thesis using assms
    by (cases z) (auto simp: sm_good_def sm_ok_def kept_def fd_res_def)
qed

lemma read_ok:
  assumes "sm_good False z s" and "snd (read_loop as) \<noteq> None"
  shows "xs_ok (sm_good False z) (\<lambda>_. sm_good False z) (menu_read_events as s)"
proof -
  let ?l = "s\<lparr>sm_locked := True\<rparr>"
  have lock: "xs_then lock_helper k s = k ?l" "sm_good True z ?l" for k :: "(sm_state, string) xs" using sm_lock [OF assms(1)] by auto
  obtain out eof where loop: "read_loop as = (out, Some eof)" using assms(2) by (cases "read_loop as") auto
  obtain u where u: "close_event_fd ?l = (Ret (), u)" "sm_good True z u" using close_event_good [OF lock(2)] by blast
  have "\<exists>x t. read_events_unlocked as ?l = (Ret x, t) \<and> sm_good True z t"
    using lock(2) u by (cases eof) (auto simp: read_events_unlocked_def loop xs_then_Ret [of close_event_fd, OF u(1)] xs_then_simps xs_return_def)
  then obtain x t where t: "read_events_unlocked as ?l = (Ret x, t)" "sm_good True z t" by blast
  show ?thesis using sm_unlock [OF t(2)]
    by (simp add: menu_read_events_def lock(1) xs_bind_Ret [of "read_events_unlocked as", OF t(1)] then_unlock xs_return_def)
qed

lemma final_wait_ok:
  assumes "sm_good False z s" and "list_ex (\<lambda>a. a \<noteq> None) waits" and "\<And>p. z = Some p \<Longrightarrow> pid \<noteq> p"
  shows "xs_ok (sm_good False z) (\<lambda>_. sm_good False z) (xs_then (final_wait pid waits) (xs_return True) s)"
  using assms(2,3)
proof (induction pid waits rule: final_wait.induct)
  case (3 pid w as)
  have "sm_good False z (s\<lparr>sm_children := remove1 pid (sm_children s)\<rparr>)"
    using assms(1) 3(2) by (cases z) (auto simp: sm_good_def sm_ok_def kept_def)
  with assms(1) show ?case by (simp add: reap_def xs_then_simps xs_return_def)
qed simp_all

lemma stop_ok:
  assumes "sm_good False z s" and "answers_ok (Op_Stop w ws waits) s"
  shows "xs_ok (sm_good False z) (\<lambda>_. sm_good False z) (menu_stop w ws waits s)"
proof -
  let ?l = "s\<lparr>sm_locked := True\<rparr>"
  have lock: "xs_then lock_helper k s = k ?l" "sm_good True z ?l" for k :: "(sm_state, bool) xs" using sm_lock [OF assms(1)] by auto
  have ans: "w \<noteq> Wait_Error" "writes_end ws [stop_line]" "list_ex (\<lambda>a. a \<noteq> None) waits" using assms(2) by simp_all
  have "\<exists>pid t. stop_unlocked w ws ?l = (Ret pid, t) \<and> sm_good True z t \<and> (\<forall>p. z = Some p \<longrightarrow> pid \<noteq> p)"
  proof (cases rule: running_check [OF lock(2) ans(1)])
    case 1
    obtain ok ws1 out where send: "send_bytes ws stop_line ?l = (Ret (ok, ws1), ?l\<lparr>sm_pipe := sm_pipe s @ out\<rparr>)"
      using send_ok [OF ans(2) lock(2)] by auto
    let ?t = "?l\<lparr>sm_pipe := sm_pipe s @ out\<rparr>"
    have t: "sm_good True z ?t" using lock(2) by simp
    then have ok: "sm_ok True ?t" by (simp add: sm_good_def)
    have pid: "sm_helper_pid s \<noteq> p" if "z = Some p" for p using assms(1) that by (simp add: sm_good_def kept_def)
    have "stop_unlocked w ws ?l = (Ret (sm_helper_pid s), unset ?t)"
      by (simp add: stop_unlocked_def bind_check [OF 1(1)] xs_bind_simps xs_then_Ret [of "send_bytes ws stop_line", OF send] close_both [OF ok]
          xs_then_simps xs_return_def unset_def)
    with unset_ok [OF t] pid show ?thesis by auto
  next
    case (2 t)
    have "stop_unlocked w ws ?l = (Ret (- 1), unset t)"
      using 2(2) by (simp add: stop_unlocked_def bind_check [OF 2(1)] then_close_state [of True] sm_good_def xs_return_def)
    with unset_ok [OF 2(2)] assms(1) show ?thesis by (cases z) (auto simp: sm_good_def kept_def)
  qed
  then obtain pid t where t: "stop_unlocked w ws ?l = (Ret pid, t)" "sm_good True z t" "\<And>p. z = Some p \<Longrightarrow> pid \<noteq> p" by blast
  have "xs_ok (sm_good False z) (\<lambda>_. sm_good False z)
    (xs_then (if pid > 0 then final_wait pid waits else xs_return ()) (xs_return True) (t\<lparr>sm_locked := False\<rparr>))"
    using final_wait_ok [OF sm_unlock [OF t(2)] ans(3) t(3)] sm_unlock [OF t(2)] by (simp add: xs_then_simps xs_return_def)
  then show ?thesis
    by (simp add: menu_stop_def lock(1) xs_bind_Ret [of "stop_unlocked w ws", OF t(1)] then_unlock)
qed

lemma finish_call: "xs_ok E (\<lambda>_. E) (m s) \<Longrightarrow> xs_ok E (\<lambda>_. E) (xs_then m (xs_return ()) s)"
  by (erule xs_ok_then) (simp add: xs_return_def)

lemma sm_call_ok:
  assumes "sm_good False z s" and "answers_ok op s"
  shows "xs_ok (sm_good False z) (\<lambda>_. sm_good False z) (sm_call op s)"
proof (cases op)
  case (Op_Start a)
  with assms show ?thesis by (simp only: sm_call.simps finish_call start_ok)
next
  case (Op_Running w)
  with assms show ?thesis by (simp only: sm_call.simps finish_call running_ok answers_ok.simps simp_thms)
next
  case (Op_Command w ws v)
  with assms show ?thesis by (simp only: sm_call.simps finish_call command_ok answers_ok.simps simp_thms)
next
  case (Op_Read as)
  with assms show ?thesis by (simp only: sm_call.simps finish_call read_ok answers_ok.simps simp_thms)
next
  case (Op_Stop w ws waits)
  with assms show ?thesis by (simp only: sm_call.simps finish_call stop_ok)
qed

lemma sm_reach_good:
  assumes "sm_reach s0 s" and "sm_good False z s0"
  shows "sm_good False z s"
  using assms(1)
proof (induction rule: sm_reach.induct)
  case sm_reach_start
  show ?case by (rule assms(2))
next
  case (sm_reach_call s op out s')
  from sm_call_ok [OF sm_reach_call.IH sm_reach_call.hyps(2)] sm_reach_call.hyps(3) show ?case
    by (cases out) simp_all
qed

lemma sm_init_good: "sm_good False None sm_init"
  by (simp add: sm_good_def sm_ok_def kept_def sm_init_def fd_res_def)

section \<open>Properties\<close>

text \<open>C36: Whatever calls the package has made before, a call of it returns or croaks, with the mutex free: no
  descriptor is closed twice, the open descriptors are exactly those the globals name, and without a
  helper process nothing is open.\<close>

theorem menu_calls_keep_order:
  assumes "sm_reach sm_init s" and "answers_ok op s"
  shows "xs_ok (sm_ok False) (\<lambda>_. sm_ok False) (sm_call op s)"
  by (rule xs_ok_mono [OF sm_call_ok [OF sm_reach_good [OF assms(1) sm_init_good] assms(2)]]) (simp_all add: sm_good_def)

text \<open>A start that succeeds, with the given descriptors and process id.\<close>

definition started_helper :: sm_state where
  "started_helper = \<lparr>sm_helper_fd = 4, sm_event_fd = 5, sm_helper_pid = 77, sm_locked = False, sm_fds = [5, 4],
     sm_children = [77], sm_pipe = []\<rparr>"

definition start_ok_answers :: start_answers where
  "start_ok_answers = \<lparr>sa_wait = Wait_Running, sa_path = Some ''/opt/system_menu_helper'', sa_command = Some (3, 4),
     sa_events = Some (5, 6), sa_actions = True, sa_pid = Some 77\<rparr>"

lemma reach_started: "sm_reach sm_init started_helper"
proof -
  have ok: "answers_ok (Op_Start start_ok_answers) sm_init"
    by (simp add: start_ok_answers_def sm_init_def pipes_ok_def pipe_fds_def children_after_def)
  have "sm_call (Op_Start start_ok_answers) sm_init = (Ret (), started_helper)" by code_simp
  from sm_reach_call [OF sm_reach_start ok this] show ?thesis .
qed

theorem menu_calls_keep_order_witness:
  "\<exists>out s'. sm_call (Op_Stop Wait_Running [W_Took 5, W_Err] [None, Some Wait_Reaped]) started_helper = (out, s')
     \<and> sm_fds s' = [] \<and> sm_children s' = []"
proof -
  let ?op = "Op_Stop Wait_Running [W_Took 5, W_Err] [None, Some Wait_Reaped]"
  define s' where "s' = snd (sm_call ?op started_helper)"
  have "fst (sm_call ?op started_helper) = Ret ()" by code_simp
  then have run: "sm_call ?op started_helper = (Ret (), s')" by (simp add: s'_def prod_eq_iff)
  have kids: "sm_children s' = []" and pid: "sm_helper_pid s' = - 1" unfolding s'_def by code_simp+
  have "answers_ok ?op started_helper" by code_simp
  from menu_calls_keep_order [OF reach_started this] have "sm_ok False s'" by (simp add: run del: sm_call.simps)
  with run kids pid show ?thesis by (auto simp: sm_ok_def fd_res_def)
qed

text \<open>When writing a command fails, the package forgets the helper process without waiting for it: whatever
  calls follow, the process stays on the system's list of children that nobody has waited for.\<close>

theorem menu_write_failure_zombie:
  assumes "sm_reach sm_init s" and "sm_helper_pid s = p" and "p > 0" and "p \<in> set (sm_children s)"
    and "answers_ok (Op_Command Wait_Running ws value) s" and "menu_command_json Wait_Running ws value s = (Croak msg, s1)"
    and "sm_reach s1 s2"
  shows "p \<in> set (sm_children s2)"
proof -
  have good: "sm_good False None s" by (rule sm_reach_good [OF assms(1) sm_init_good])
  have ends: "writes_end ws [c_str value, [CHR 0x0A]]" using assms(5) by (simp only: answers_ok.simps)
  have pid: "sm_helper_pid s > 0" using assms(2,3) by simp
  obtain q where s1: "s1 = unset (s\<lparr>sm_pipe := q\<rparr>)"
    using assms(6) by (cases rule: command_runs [OF good ends pid]) auto
  have "sm_good False None s1" using unset_ok good unfolding s1 by simp
  then have "sm_good False (Some p) s1"
    using assms(3,4) by (simp add: sm_good_def kept_def) (simp add: s1 unset_def no_fds_def)
  from sm_reach_good [OF assms(7) this] show ?thesis by (simp add: sm_good_def kept_def)
qed

theorem menu_write_failure_zombie_witness:
  "\<exists>msg s1. menu_command_json Wait_Running [W_Took 1, W_Err] ''{}'' started_helper = (Croak msg, s1)
     \<and> 77 \<in> set (sm_children s1) \<and> sm_helper_pid s1 = - 1"
proof -
  define s1 where "s1 = snd (menu_command_json Wait_Running [W_Took 1, W_Err] ''{}'' started_helper)"
  have "fst (menu_command_json Wait_Running [W_Took 1, W_Err] ''{}'' started_helper)
      = Croak ''System::Menu helper is not running or command write failed''" by code_simp
  then have run: "menu_command_json Wait_Running [W_Took 1, W_Err] ''{}'' started_helper
      = (Croak ''System::Menu helper is not running or command write failed'', s1)" by (simp add: s1_def prod_eq_iff)
  have pid: "sm_helper_pid s1 = - 1" unfolding s1_def by code_simp
  have ok: "answers_ok (Op_Command Wait_Running [W_Took 1, W_Err] ''{}'') started_helper" by code_simp
  have "77 \<in> set (sm_children s1)"
    using menu_write_failure_zombie [OF reach_started _ _ _ ok run sm_reach_start, where p = 77] by (simp add: started_helper_def)
  with run pid show ?thesis by blast
qed

end
