(* ===== verification/System_Menu_Win.thy ===== *)
theory System_Menu_Win
  imports System_Menu
begin

section \<open>The Perl side of the system menu on Windows (SystemMenuNative.h, SystemMenu.xs)\<close>

text \<open>
  The Windows branch of the files that System_Menu models for POSIX. The globals are three handles,
  \<open>NULL\<close> when unset, under a lock. The model keeps the handles that are open, those of the code only, the
  bytes written to the helper, and the processes that have ended or were terminated. Closing a handle that is not
  open is a fault. Wide texts are lists of characters.
\<close>

record wm_state =
  wm_write :: "nat option"
  wm_read :: "nat option"
  wm_process :: "nat option"
  wm_locked :: bool
  wm_handles :: "nat multiset"
  wm_ended :: "nat list"
  wm_pipe :: string

datatype wm_wait = WAIT_TIMEOUT | WAIT_OBJECT_0 | WAIT_FAILED

definition wm_init :: wm_state where
  "wm_init = \<lparr>wm_write = None, wm_read = None, wm_process = None, wm_locked = False, wm_handles = {#}, wm_ended = [], wm_pipe = []\<rparr>"

definition wm_lock :: "(wm_state, unit) xs" where
  "wm_lock s = (if wm_locked s then (Diverge, s) else (Ret (), s\<lparr>wm_locked := True\<rparr>))"

definition wm_unlock :: "(wm_state, unit) xs" where
  "wm_unlock = xs_modify (\<lambda>s. s\<lparr>wm_locked := False\<rparr>)"

text \<open>\<open>CloseHandle\<close>, and the same for a handle that may be \<open>NULL\<close>.\<close>

definition CloseHandle :: "nat \<Rightarrow> (wm_state, unit) xs" where
  "CloseHandle h s = (if h \<in># wm_handles s then (Ret (), s\<lparr>wm_handles := wm_handles s - {#h#}\<rparr>) else (Fault, s))"

definition close_opt :: "nat option \<Rightarrow> (wm_state, unit) xs" where
  "close_opt h = (case h of None \<Rightarrow> xs_return () | Some h \<Rightarrow> CloseHandle h)"

definition wm_close_write :: "(wm_state, unit) xs" where
  "wm_close_write s = (xs_then (close_opt (wm_write s)) (xs_modify (\<lambda>s. s\<lparr>wm_write := None\<rparr>))) s"

definition wm_close_read :: "(wm_state, unit) xs" where
  "wm_close_read s = (xs_then (close_opt (wm_read s)) (xs_modify (\<lambda>s. s\<lparr>wm_read := None\<rparr>))) s"

definition wm_close_process :: "(wm_state, unit) xs" where
  "wm_close_process s = (xs_then (close_opt (wm_process s)) (xs_modify (\<lambda>s. s\<lparr>wm_process := None\<rparr>))) s"

definition wm_close_state :: "(wm_state, unit) xs" where
  "wm_close_state = xs_then wm_close_write (xs_then wm_close_read wm_close_process)"

definition wm_is_running :: "wm_wait \<Rightarrow> (wm_state, bool) xs" where
  "wm_is_running w s = (if wm_process s = None then (Ret False, s)
     else if w = WAIT_TIMEOUT then (Ret True, s) else xs_then wm_close_state (xs_return False) s)"

text \<open>\<open>wcsrchr\<close>: the text up to the last \<open>c\<close>, with it.\<close>

definition upto_last :: "char \<Rightarrow> string \<Rightarrow> string option" where
  "upto_last c s = (if c \<in> set s then Some (rev (dropWhile (\<lambda>x. x \<noteq> c) (rev s))) else None)"

definition win_helper_path :: "string option \<Rightarrow> (string \<Rightarrow> bool) \<Rightarrow> nat \<Rightarrow> string option" where
  "win_helper_path file_name exists out_count =
     (case file_name of
        None \<Rightarrow> None
      | Some out \<Rightarrow>
          if out = [] \<or> length out \<ge> out_count then None
          else (case (case upto_last (CHR 0x5C) out of Some d \<Rightarrow> Some d | None \<Rightarrow> upto_last (CHR ''/'') out) of
                  None \<Rightarrow> None
                | Some dir \<Rightarrow>
                    if length dir + length ''system_menu_helper.exe'' + 1 > out_count then None
                    else if exists (dir @ ''system_menu_helper.exe'') then Some (dir @ ''system_menu_helper.exe'') else None))"

text \<open>\<open>write_all_win\<close>: each answer of \<open>WriteFile\<close> is a failure or the number of bytes written, at
  most what was asked for; a write of no bytes ends the loop.\<close>

fun write_all_win :: "nat option list \<Rightarrow> string \<Rightarrow> string \<times> bool option \<times> nat option list" where
  "write_all_win ws [] = ([], Some True, ws)"
| "write_all_win [] (c # buf) = ([], None, [])"
| "write_all_win (None # ws) (c # buf) = ([], Some False, ws)"
| "write_all_win (Some n # ws) (c # buf) =
     (let k = min n (min (length (c # buf)) 0x7fffffff)
      in if k = 0 then ([], Some False, ws)
         else let (out, ok, ws1) = write_all_win ws (drop k (c # buf)) in (take k (c # buf) @ out, ok, ws1))"

definition wm_send :: "nat option list \<Rightarrow> string \<Rightarrow> (wm_state, bool \<times> nat option list) xs" where
  "wm_send ws buf s = (if wm_write s = None then (Fault, s)
     else case write_all_win ws buf of
        (out, None, ws1) \<Rightarrow> (Diverge, s\<lparr>wm_pipe := wm_pipe s @ out\<rparr>)
      | (out, Some ok, ws1) \<Rightarrow> (Ret (ok, ws1), s\<lparr>wm_pipe := wm_pipe s @ out\<rparr>))"

subsection \<open>The XSUBs\<close>

record wm_answers =
  wa_wait :: wm_wait
  wa_path :: "string option"
  wa_stdin :: "(nat \<times> nat) option"
  wa_stdin_info :: bool
  wa_stdout :: "(nat \<times> nat) option"
  wa_stdout_info :: bool
  wa_process :: "(nat \<times> nat) option"

definition wm_open :: "nat list \<Rightarrow> (wm_state, unit) xs" where
  "wm_open hs = xs_modify (\<lambda>s. s\<lparr>wm_handles := wm_handles s + mset hs\<rparr>)"

fun close_all_of :: "nat list \<Rightarrow> (wm_state, unit) xs" where
  "close_all_of [] = xs_return ()"
| "close_all_of (h # hs) = xs_then (CloseHandle h) (close_all_of hs)"

definition wm_unlock_croak :: "string \<Rightarrow> (wm_state, 'a) xs" where
  "wm_unlock_croak msg = xs_then wm_unlock (xs_croak msg)"

text \<open>The two pipes, the first failure closing what was opened before it: the ends of the child and of
  the parent in the order of the code.\<close>

definition wm_pipes :: "wm_answers \<Rightarrow> (wm_state, (nat \<times> nat) \<times> (nat \<times> nat)) xs" where
  "wm_pipes a =
     (let fail = (\<lambda>hs. xs_then (close_all_of hs) (wm_unlock_croak ''CreatePipe() failed''))
      in case wa_stdin a of
           None \<Rightarrow> fail []
         | Some (cr, pw) \<Rightarrow> xs_then (wm_open [cr, pw])
             (if \<not> wa_stdin_info a then fail [cr, pw]
              else case wa_stdout a of
                     None \<Rightarrow> fail [cr, pw]
                   | Some (pr, cw) \<Rightarrow> xs_then (wm_open [pr, cw])
                       (if \<not> wa_stdout_info a then fail [cr, pw, pr, cw] else xs_return ((cr, pw), (pr, cw)))))"

definition wm_start_helper :: "wm_answers \<Rightarrow> (wm_state, unit) xs" where
  "wm_start_helper a =
     (case wa_path a of
        None \<Rightarrow> wm_unlock_croak ''cannot locate system_menu_helper.exe next to System::Menu bundle''
      | Some path \<Rightarrow>
          xs_bind (wm_pipes a) (\<lambda>((cr, pw), (pr, cw)).
            case wa_process a of
              None \<Rightarrow> xs_then (close_all_of [cr, pw, pr, cw]) (wm_unlock_croak ''CreateProcessW() failed'')
            | Some (process, thread) \<Rightarrow>
                xs_then (wm_open [process, thread])
               (xs_then (close_all_of [thread, cr, cw])
                  (xs_modify (\<lambda>s. s\<lparr>wm_process := Some process, wm_write := Some pw, wm_read := Some pr, wm_pipe := []\<rparr>)))))"

definition wm_start :: "wm_answers \<Rightarrow> (wm_state, bool) xs" where
  "wm_start a =
     xs_then wm_lock
       (xs_bind (wm_is_running (wa_wait a)) (\<lambda>running.
         xs_then (if running then xs_return () else wm_start_helper a)
           (xs_then wm_unlock (xs_return True))))"

definition wm_running :: "wm_wait \<Rightarrow> (wm_state, bool) xs" where
  "wm_running w = xs_then wm_lock (xs_bind (wm_is_running w) (\<lambda>running. xs_then wm_unlock (xs_return running)))"

definition wm_command_json :: "wm_wait \<Rightarrow> nat option list \<Rightarrow> string \<Rightarrow> (wm_state, bool) xs" where
  "wm_command_json w ws value =
     xs_then wm_lock
       (xs_bind (wm_is_running w) (\<lambda>running.
         xs_bind (if running then
                    xs_bind (wm_send ws (c_str value)) (\<lambda>(ok1, ws1).
                    xs_bind (if ok1 then wm_send ws1 [CHR 0x0A] else xs_return (False, ws1)) (\<lambda>(ok, ws2).
                      xs_then (if ok then xs_return () else wm_close_state) (xs_return ok)))
                  else xs_return False) (\<lambda>ok.
           xs_then wm_unlock
             (if ok then xs_return True else xs_croak ''System::Menu helper is not running or command write failed''))))"

text \<open>One turn of the read loop: how much \<open>PeekNamedPipe\<close> finds, nothing when it fails, and what
  \<open>ReadFile\<close> then gives, no bytes when it fails.\<close>

type_synonym wm_peek = "nat \<times> string"

fun wm_read_loop :: "wm_peek list \<Rightarrow> string option" where
  "wm_read_loop [] = None"
| "wm_read_loop ((available, bs) # ps) =
     (if available = 0 then Some []
      else let got = take (min available 8192) bs
           in if got = [] then Some [] else map_option (\<lambda>rest. got @ rest) (wm_read_loop ps))"

definition wm_read_events :: "wm_peek list \<Rightarrow> (wm_state, string) xs" where
  "wm_read_events ps =
     xs_then wm_lock
       (xs_bind (\<lambda>s. if wm_read s = None then (Ret [], s)
                     else case wm_read_loop ps of None \<Rightarrow> (Diverge, s) | Some out \<Rightarrow> (Ret out, s)) (\<lambda>out.
         xs_then wm_unlock (xs_return out)))"

text \<open>\<open>_stop\<close>: the handle of the process leaves the globals first; after the lock is released the process has
  five seconds to end.\<close>

definition wm_ends :: "nat \<Rightarrow> (wm_state, unit) xs" where
  "wm_ends p = xs_modify (\<lambda>s. s\<lparr>wm_ended := p # wm_ended s\<rparr>)"

definition wm_stop_unlocked :: "wm_wait \<Rightarrow> nat option list \<Rightarrow> (wm_state, nat option) xs" where
  "wm_stop_unlocked w ws =
     xs_bind (wm_is_running w) (\<lambda>running.
       if running then
         xs_bind xs_get (\<lambda>s.
         xs_then (wm_send ws stop_line)
        (xs_then wm_close_write
        (xs_then wm_close_read
        (xs_then (xs_modify (\<lambda>s. s\<lparr>wm_process := None\<rparr>)) (xs_return (wm_process s))))))
       else xs_then wm_close_state (xs_return None))"

definition wm_stop :: "wm_wait \<Rightarrow> nat option list \<Rightarrow> wm_wait \<Rightarrow> (wm_state, bool) xs" where
  "wm_stop w ws fin =
     xs_then wm_lock
       (xs_bind (wm_stop_unlocked w ws) (\<lambda>process.
         xs_then wm_unlock
           (xs_then (case process of
                       None \<Rightarrow> xs_return ()
                     | Some p \<Rightarrow> xs_then (if fin \<noteq> WAIT_FAILED then wm_ends p else xs_return ()) (CloseHandle p))
              (xs_return True))))"

datatype wm_op = Wm_Start wm_answers | Wm_Running wm_wait | Wm_Command wm_wait "nat option list" string
  | Wm_Read "wm_peek list" | Wm_Stop wm_wait "nat option list" wm_wait

fun wm_call :: "wm_op \<Rightarrow> (wm_state, unit) xs" where
  "wm_call (Wm_Start a) = xs_then (wm_start a) (xs_return ())"
| "wm_call (Wm_Running w) = xs_then (wm_running w) (xs_return ())"
| "wm_call (Wm_Command w ws value) = xs_then (wm_command_json w ws value) (xs_return ())"
| "wm_call (Wm_Read ps) = xs_then (wm_read_events ps) (xs_return ())"
| "wm_call (Wm_Stop w ws fin) = xs_then (wm_stop w ws fin) (xs_return ())"

subsection \<open>Handles and lock\<close>

definition opt_handle :: "nat option \<Rightarrow> nat multiset" where
  "opt_handle h = (case h of None \<Rightarrow> {#} | Some h \<Rightarrow> {#h#})"

text \<open>The globals are all set or all unset, and the open handles are theirs.\<close>

definition wm_ok :: "bool \<Rightarrow> wm_state \<Rightarrow> bool" where
  "wm_ok locked s \<longleftrightarrow> wm_locked s = locked \<and> wm_handles s = opt_handle (wm_write s) + opt_handle (wm_read s) + opt_handle (wm_process s)
     \<and> (wm_write s = None \<longleftrightarrow> wm_process s = None) \<and> (wm_read s = None \<longleftrightarrow> wm_process s = None)"

text \<open>The loops get an answer that ends them; a write needs no more answers than bytes.\<close>

fun wm_answered :: "wm_op \<Rightarrow> bool" where
  "wm_answered (Wm_Command w ws value) \<longleftrightarrow> length (c_str value) < length ws"
| "wm_answered (Wm_Read ps) \<longleftrightarrow> wm_read_loop ps \<noteq> None"
| "wm_answered (Wm_Stop w ws fin) \<longleftrightarrow> length stop_line \<le> length ws"
| "wm_answered _ \<longleftrightarrow> True"

lemma write_all_win_ends:
  "length buf \<le> length ws \<Longrightarrow> write_all_win ws buf = (out, res, ws1) \<Longrightarrow> res \<noteq> None \<and> (res = Some True \<longrightarrow> length ws \<le> length buf + length ws1)"
proof (induction ws buf arbitrary: out rule: write_all_win.induct)
  case (4 n ws c buf)
  define k where "k = min n (min (length (c # buf)) 0x7fffffff)"
  show ?case
  proof (cases "k = 0")
    case True
    then have "write_all_win (Some n # ws) (c # buf) = ([], Some False, ws)"
      unfolding write_all_win.simps Let_def k_def [symmetric] by simp
    then show ?thesis using 4(3) by auto
  next
    case False
    obtain out1 ok ws2 where rec: "write_all_win ws (drop k (c # buf)) = (out1, ok, ws2)" by (cases "write_all_win ws (drop k (c # buf))") auto
    then have "write_all_win (Some n # ws) (c # buf) = (take k (c # buf) @ out1, ok, ws2)"
      unfolding write_all_win.simps Let_def k_def [symmetric] using False by simp
    then have "res = ok" "ws1 = ws2" using 4(3) by auto
    moreover have "length (drop k (c # buf)) \<le> length ws" using 4(2) False by simp
    ultimately show ?thesis using 4(1) [of k out1] k_def rec False by fastforce
  qed
qed auto


lemmas wm_ops = CloseHandle_def close_opt_def wm_close_write_def wm_close_read_def wm_close_process_def xs_then_def xs_bind_def xs_defs

definition wm_unset :: "wm_state \<Rightarrow> wm_state" where
  "wm_unset s = s\<lparr>wm_write := None, wm_read := None, wm_process := None, wm_handles := {#}\<rparr>"

lemma wm_close_state_run: "wm_ok b s \<Longrightarrow> wm_close_state s = (Ret (), wm_unset s)"
  by (cases "wm_write s"; cases "wm_read s"; cases "wm_process s")
    (auto simp: wm_ok_def opt_handle_def wm_close_state_def wm_ops wm_unset_def)

lemma wm_unset_ok: "wm_ok b s \<Longrightarrow> wm_ok b (wm_unset s)"
  by (simp add: wm_ok_def wm_unset_def opt_handle_def)

lemma wm_is_running_ok:
  assumes "wm_ok b s"
  shows "xs_ok E (\<lambda>r t. wm_ok b t \<and> (if r then t = s \<and> wm_process s \<noteq> None else wm_process t = None)) (wm_is_running w s)"
  using assms wm_close_state_run [OF assms] wm_unset_ok [OF assms]
  by (auto simp: wm_is_running_def xs_simps wm_unset_def)

lemma wm_lock_ok: "wm_ok False s \<Longrightarrow> xs_ok E (\<lambda>_. wm_ok True) (wm_lock s)"
  by (simp add: wm_lock_def wm_ok_def)

lemma wm_unlock_ok: "wm_ok True s \<Longrightarrow> xs_ok E (\<lambda>_. wm_ok False) (wm_unlock s)"
  by (simp add: wm_unlock_def wm_ok_def xs_defs)

lemma wm_finish: "wm_ok True s \<Longrightarrow> xs_ok E (\<lambda>_. wm_ok False) (xs_then wm_unlock (xs_return x) s)"
  by (simp add: wm_unlock_def wm_ok_def xs_defs xs_then_def xs_bind_def)

lemma close_all_of_run: "close_all_of hs (s\<lparr>wm_handles := M + mset hs\<rparr>) = (Ret (), s\<lparr>wm_handles := M\<rparr>)"
proof (induction hs)
  case (Cons h hs)
  then show ?case by (simp add: CloseHandle_def xs_then_def xs_bind_def)
qed (simp add: xs_defs)

lemma wm_fail_ok:
  assumes "wm_ok True s" and "wm_process s = None" and "t = s\<lparr>wm_handles := mset hs\<rparr>"
  shows "xs_ok (wm_ok False) R (xs_then (close_all_of hs) (wm_unlock_croak msg) t)"
  using close_all_of_run [where s = s and M = "{#}" and hs = hs] assms
  by (auto simp: wm_unlock_croak_def wm_unlock_def xs_then_def xs_bind_def xs_defs wm_ok_def opt_handle_def)

lemma wm_pipes_ok:
  assumes "wm_ok True s" and "wm_process s = None"
  shows "xs_ok (wm_ok False) (\<lambda>((cr, pw), (pr, cw)) t. t = s\<lparr>wm_handles := mset [cr, pw, pr, cw]\<rparr>) (wm_pipes a s)"
proof -
  have none: "wm_handles s = {#}" using assms by (simp add: wm_ok_def opt_handle_def)
  have fail: "xs_ok (wm_ok False) R (xs_then (close_all_of hs) (wm_unlock_croak msg) (s\<lparr>wm_handles := mset hs\<rparr>))" for hs msg R
    using wm_fail_ok [OF assms refl] .
  have "s\<lparr>wm_handles := mset []\<rparr> = s" using none by (cases s) simp
  then have fail0: "xs_ok (wm_ok False) R (xs_then (close_all_of []) (wm_unlock_croak msg) s)" for msg R
    using wm_fail_ok [OF assms refl, of R "[]" msg] by simp
  have open1: "wm_open [x, y] s = (Ret (), s\<lparr>wm_handles := mset [x, y]\<rparr>)" for x y
    using none by (simp add: wm_open_def xs_defs)
  have open2: "wm_open [u, v] (s\<lparr>wm_handles := mset [x, y]\<rparr>) = (Ret (), s\<lparr>wm_handles := mset [x, y, u, v]\<rparr>)" for x y u v
    by (simp add: wm_open_def xs_defs ac_simps)
  show ?thesis
    unfolding wm_pipes_def Let_def
    by (auto split: option.split intro: fail0 simp: xs_then_Ret [where m = "wm_open hs" for hs, OF open1]
        xs_then_Ret [where m = "wm_open hs" for hs, OF open2] fail xs_defs simp del: close_all_of.simps mset.simps)
qed


lemma wm_ok_pipe: "wm_ok b s \<Longrightarrow> wm_ok b (s\<lparr>wm_pipe := q\<rparr>)"
  by (simp add: wm_ok_def)

lemma wm_send_ok:
  assumes "wm_ok b s" and "wm_process s \<noteq> None" and "length buf \<le> length ws"
  shows "xs_ok E (\<lambda>(ok, ws1) t. (\<exists>q. t = s\<lparr>wm_pipe := q\<rparr>) \<and> (ok \<longrightarrow> length ws \<le> length buf + length ws1)) (wm_send ws buf s)"
proof -
  obtain out res ws1 where run: "write_all_win ws buf = (out, res, ws1)" by (cases "write_all_win ws buf") auto
  have "wm_write s \<noteq> None" using assms(1,2) by (auto simp: wm_ok_def)
  moreover obtain ok where "res = Some ok" "ok \<longrightarrow> length ws \<le> length buf + length ws1"
    using write_all_win_ends [OF assms(3) run] by auto
  ultimately show ?thesis using run by (auto simp: wm_send_def)
qed

lemma wm_start_helper_ok:
  assumes "wm_ok True s" and "wm_process s = None"
  shows "xs_ok (wm_ok False) (\<lambda>_. wm_ok True) (wm_start_helper a s)"
proof (cases "wa_path a")
  case None
  then show ?thesis using assms
    by (simp add: wm_start_helper_def wm_unlock_croak_def wm_unlock_def xs_simps) (simp add: wm_ok_def)
next
  case (Some path)
  show ?thesis unfolding wm_start_helper_def Some option.case
  proof (rule xs_ok_bind, rule wm_pipes_ok [OF assms], clarify)
    fix cr pw pr cw
    show "xs_ok (wm_ok False) (\<lambda>_. wm_ok True) ((case wa_process a of
              None \<Rightarrow> xs_then (close_all_of [cr, pw, pr, cw]) (wm_unlock_croak ''CreateProcessW() failed'')
            | Some (process, thread) \<Rightarrow>
                xs_then (wm_open [process, thread])
               (xs_then (close_all_of [thread, cr, cw])
                  (xs_modify (\<lambda>s. s\<lparr>wm_process := Some process, wm_write := Some pw, wm_read := Some pr, wm_pipe := []\<rparr>))))
              (s\<lparr>wm_handles := mset [cr, pw, pr, cw]\<rparr>))"
    proof (cases "wa_process a")
      case None
      then show ?thesis using wm_fail_ok [OF assms refl] by (simp del: close_all_of.simps mset.simps)
    next
      case (Some ph)
      obtain process thread where ph: "ph = (process, thread)" by fastforce
      have opened: "wm_open [process, thread] (s\<lparr>wm_handles := mset [cr, pw, pr, cw]\<rparr>)
          = (Ret (), s\<lparr>wm_handles := {#process, pw, pr#} + mset [thread, cr, cw]\<rparr>)"
        by (simp add: wm_open_def xs_defs ac_simps)
      show ?thesis using assms
        unfolding Some ph option.case prod.case xs_then_Ret [where m = "wm_open [process, thread]", OF opened]
          xs_then_Ret [where m = "close_all_of [thread, cr, cw]", OF close_all_of_run]
        by (simp add: xs_defs wm_ok_def opt_handle_def)
    qed
  qed
qed

lemma wm_start_ok: "wm_ok False s \<Longrightarrow> xs_ok (wm_ok False) (\<lambda>_. wm_ok False) (wm_start a s)"
  unfolding wm_start_def
  by (rule xs_ok_then, rule wm_lock_ok, assumption, rule xs_ok_bind, rule wm_is_running_ok, assumption,
      rule xs_ok_then [where Q = "\<lambda>_. wm_ok True"]) (auto simp: xs_defs wm_start_helper_ok wm_finish split: if_splits)

lemma wm_running_ok: "wm_ok False s \<Longrightarrow> xs_ok (wm_ok False) (\<lambda>_. wm_ok False) (wm_running w s)"
  unfolding wm_running_def
  by (rule xs_ok_then, rule wm_lock_ok, assumption, rule xs_ok_bind, rule wm_is_running_ok, assumption) (auto intro: wm_finish)

lemma wm_read_events_ok:
  "wm_ok False s \<Longrightarrow> wm_read_loop ps \<noteq> None \<Longrightarrow> xs_ok (wm_ok False) (\<lambda>_. wm_ok False) (wm_read_events ps s)"
  unfolding wm_read_events_def
  by (rule xs_ok_then, rule wm_lock_ok, assumption, rule xs_ok_bind [where Q = "\<lambda>_. wm_ok True"]) (auto intro: wm_finish)

text \<open>The two writes of a command.\<close>

lemma wm_sent_ok:
  assumes "wm_ok True s" and "wm_process s \<noteq> None" and "length buf < length ws"
  shows "xs_ok (wm_ok False) (\<lambda>_. wm_ok True)
     (xs_bind (wm_send ws buf) (\<lambda>(ok1, ws1).
      xs_bind (if ok1 then wm_send ws1 [CHR 0x0A] else xs_return (False, ws1)) (\<lambda>(ok, ws2).
        xs_then (if ok then xs_return () else wm_close_state) (xs_return ok))) s)"
proof (rule xs_ok_bind, rule wm_send_ok [OF assms(1,2) less_imp_le [OF assms(3)]], clarify)
  fix ok1 t q and ws1 :: "nat option list"
  assume len: "ok1 \<longrightarrow> length ws \<le> length buf + length ws1"
  let ?t = "s\<lparr>wm_pipe := q\<rparr>"
  have t: "wm_ok True ?t" "wm_process ?t \<noteq> None" using assms(1,2) wm_ok_pipe by simp_all
  show "xs_ok (wm_ok False) (\<lambda>_. wm_ok True)
     (xs_bind (if ok1 then wm_send ws1 [CHR 0x0A] else xs_return (False, ws1)) (\<lambda>(ok, ws2).
        xs_then (if ok then xs_return () else wm_close_state) (xs_return ok)) ?t)"
  proof (rule xs_ok_bind [where Q = "\<lambda>_. wm_ok True"])
    have one: "length [CHR 0x0A] \<le> length ws1" if ok1 using len assms(3) that by simp
    show "xs_ok (wm_ok False) (\<lambda>_. wm_ok True) ((if ok1 then wm_send ws1 [CHR 0x0A] else xs_return (False, ws1)) ?t)"
    proof (cases ok1)
      case True
      have "xs_ok (wm_ok False) (\<lambda>_. wm_ok True) (wm_send ws1 [CHR 0x0A] ?t)"
        by (rule xs_ok_mono [OF wm_send_ok [OF t one [OF True], of "wm_ok False"]]) (use wm_ok_pipe [OF t(1)] in auto)
      then show ?thesis using True by simp
    qed (use t(1) in \<open>simp add: xs_defs\<close>)
  next
    fix u and r :: "bool \<times> nat option list"
    assume u: "wm_ok True u"
    obtain ok ws2 where r: "r = (ok, ws2)" by fastforce
    show "xs_ok (wm_ok False) (\<lambda>_. wm_ok True) ((case r of (ok, ws2) \<Rightarrow>
        xs_then (if ok then xs_return () else wm_close_state) (xs_return ok)) u)"
      using u wm_close_state_run [OF u] wm_unset_ok [OF u] by (simp add: r xs_simps)
  qed
qed

lemma wm_command_ok:
  assumes "wm_ok False s" and "length (c_str value) < length ws"
  shows "xs_ok (wm_ok False) (\<lambda>_. wm_ok False) (wm_command_json w ws value s)"
  unfolding wm_command_json_def
proof (rule xs_ok_then, rule wm_lock_ok [OF assms(1)], rule xs_ok_bind, rule wm_is_running_ok, assumption)
  fix x t r u
  assume u: "wm_ok True u \<and> (if r then u = t \<and> wm_process t \<noteq> None else wm_process u = None)"
  show "xs_ok (wm_ok False) (\<lambda>_. wm_ok False)
     (xs_bind (if r then
                    xs_bind (wm_send ws (c_str value)) (\<lambda>(ok1, ws1).
                    xs_bind (if ok1 then wm_send ws1 [CHR 0x0A] else xs_return (False, ws1)) (\<lambda>(ok, ws2).
                      xs_then (if ok then xs_return () else wm_close_state) (xs_return ok)))
                  else xs_return False) (\<lambda>ok.
           xs_then wm_unlock
             (if ok then xs_return True else xs_croak ''System::Menu helper is not running or command write failed'')) u)"
  proof (rule xs_ok_bind [where Q = "\<lambda>_. wm_ok True"])
    show "xs_ok (wm_ok False) (\<lambda>_. wm_ok True) ((if r then
                    xs_bind (wm_send ws (c_str value)) (\<lambda>(ok1, ws1).
                    xs_bind (if ok1 then wm_send ws1 [CHR 0x0A] else xs_return (False, ws1)) (\<lambda>(ok, ws2).
                      xs_then (if ok then xs_return () else wm_close_state) (xs_return ok)))
                  else xs_return False) u)"
      using u wm_sent_ok [of u "c_str value" ws] assms(2) by (simp add: xs_defs split: if_splits)
  next
    fix ok v
    assume "wm_ok True v"
    then show "xs_ok (wm_ok False) (\<lambda>_. wm_ok False) (xs_then wm_unlock
        (if ok then xs_return True else xs_croak ''System::Menu helper is not running or command write failed'') v)"
      by (simp add: wm_unlock_def wm_ok_def xs_defs xs_then_def xs_bind_def)
  qed
qed


lemma wm_stop_unlocked_ok:
  assumes "wm_ok True s" and "length stop_line \<le> length ws"
  shows "xs_ok (wm_ok False) (\<lambda>p t. wm_locked t \<and> wm_write t = None \<and> wm_read t = None \<and> wm_process t = None \<and> wm_handles t = opt_handle p)
     (wm_stop_unlocked w ws s)"
  unfolding wm_stop_unlocked_def
proof (rule xs_ok_bind, rule wm_is_running_ok [OF assms(1)])
  fix r t
  assume t: "wm_ok True t \<and> (if r then t = s \<and> wm_process s \<noteq> None else wm_process t = None)"
  show "xs_ok (wm_ok False) (\<lambda>p t. wm_locked t \<and> wm_write t = None \<and> wm_read t = None \<and> wm_process t = None \<and> wm_handles t = opt_handle p)
     ((if r then xs_bind xs_get (\<lambda>s.
         xs_then (wm_send ws stop_line)
        (xs_then wm_close_write
        (xs_then wm_close_read
        (xs_then (xs_modify (\<lambda>s. s\<lparr>wm_process := None\<rparr>)) (xs_return (wm_process s))))))
       else xs_then wm_close_state (xs_return None)) t)"
  proof (cases r)
    case False
    then show ?thesis using t wm_close_state_run [of True t]
      by (simp add: xs_simps) (simp add: wm_ok_def wm_unset_def opt_handle_def)
  next
    case True
    then have s: "wm_ok True t" "wm_process t \<noteq> None" using t by auto
    obtain out u where run: "wm_send ws stop_line t = (out, u)" by fastforce
    then obtain v q where u: "out = Ret v" "u = t\<lparr>wm_pipe := q\<rparr>"
      using wm_send_ok [OF s assms(2), of "\<lambda>_. False"] by (cases out) auto
    show ?thesis using True s run u
      by (cases "wm_write t"; cases "wm_read t"; cases "wm_process t")
        (auto simp: wm_ok_def opt_handle_def wm_ops)
  qed
qed

lemma wm_stop_ok:
  assumes "wm_ok False s" and "length stop_line \<le> length ws"
  shows "xs_ok (wm_ok False) (\<lambda>_ t. wm_ok False t \<and> wm_process t = None) (wm_stop w ws fin s)"
  unfolding wm_stop_def
proof (rule xs_ok_then, rule wm_lock_ok [OF assms(1)], rule xs_ok_bind, rule wm_stop_unlocked_ok [OF _ assms(2)], assumption)
  fix p and t :: wm_state
  assume "wm_locked t \<and> wm_write t = None \<and> wm_read t = None \<and> wm_process t = None \<and> wm_handles t = opt_handle p"
  then show "xs_ok (wm_ok False) (\<lambda>_ t. wm_ok False t \<and> wm_process t = None) (xs_then wm_unlock
           (xs_then (case p of
                       None \<Rightarrow> xs_return ()
                     | Some p \<Rightarrow> xs_then (if fin \<noteq> WAIT_FAILED then wm_ends p else xs_return ()) (CloseHandle p))
              (xs_return True)) t)"
    by (cases p) (auto simp: wm_ops wm_unlock_def wm_ends_def wm_ok_def opt_handle_def)
qed

section \<open>Facts\<close>

text \<open>C37: Whatever the system answers, a call of the package on Windows never closes a handle twice, and when it returns
  or croaks the lock is free, the globals are all set or all unset, and the open handles are theirs.\<close>

theorem win_menu_calls_keep_order:
  assumes "wm_ok False s" and "wm_answered op"
  shows "xs_ok (wm_ok False) (\<lambda>_. wm_ok False) (wm_call op s)"
proof -
  have fin: "xs_ok (wm_ok False) (\<lambda>_. wm_ok False) (xs_then m (xs_return ()) s)"
    if "xs_ok (wm_ok False) (\<lambda>_. wm_ok False) (m s)" for m :: "(wm_state, bool) xs"
    using that by (rule xs_ok_then) (simp add: xs_defs)
  have fin': "xs_ok (wm_ok False) (\<lambda>_. wm_ok False) (xs_then m (xs_return ()) s)"
    if "xs_ok (wm_ok False) (\<lambda>_. wm_ok False) (m s)" for m :: "(wm_state, string) xs"
    using that by (rule xs_ok_then) (simp add: xs_defs)
  show ?thesis
    using assms fin [OF wm_start_ok] fin [OF wm_running_ok] fin [OF wm_command_ok] fin' [OF wm_read_events_ok]
      fin [OF xs_ok_mono [OF wm_stop_ok]]
    by (cases op) auto
qed

theorem win_menu_calls_keep_order_witness:
  "xs_ok (wm_ok False) (\<lambda>_. wm_ok False) (wm_call (Wm_Start \<lparr>wa_wait = WAIT_TIMEOUT, wa_path = Some ''C:/h.exe'',
     wa_stdin = Some (4, 5), wa_stdin_info = True, wa_stdout = Some (6, 7), wa_stdout_info = False, wa_process = None\<rparr>) wm_init)"
  by (rule win_menu_calls_keep_order) (simp_all add: wm_ok_def wm_init_def opt_handle_def)

text \<open>After \<open>_stop\<close> the helper has ended by itself or was terminated, unless the wait itself fails.\<close>

theorem win_menu_stop_ends_helper:
  assumes "wm_ok False s" and "wm_process s = Some p" and "length stop_line \<le> length ws" and "fin \<noteq> WAIT_FAILED"
  shows "\<exists>t. wm_stop WAIT_TIMEOUT ws fin s = (Ret True, t) \<and> wm_ok False t \<and> p \<in> set (wm_ended t)"
proof -
  let ?s = "s\<lparr>wm_locked := True\<rparr>"
  have ok: "wm_ok True ?s" "wm_process ?s \<noteq> None" using assms(1,2) by (simp_all add: wm_ok_def)
  obtain out u where run: "wm_send ws stop_line ?s = (out, u)" by fastforce
  then obtain v q where u: "out = Ret v" "u = ?s\<lparr>wm_pipe := q\<rparr>"
    using wm_send_ok [OF ok assms(3), of "\<lambda>_. False"] by (cases out) auto
  show ?thesis using assms(1,2,4) run u
    by (cases "wm_write s"; cases "wm_read s")
      (auto simp: wm_ok_def opt_handle_def wm_ops wm_stop_def wm_stop_unlocked_def wm_lock_def wm_unlock_def wm_is_running_def wm_ends_def)
qed

end
