(* ===== verification/Win_Pipe.thy ===== *)
theory Win_Pipe
  imports Menu_Json
begin

section \<open>The pipes of the Windows menu helper (native/system_menu_helper_win.c)\<close>

text \<open>
  A thread reads commands from standard input, cuts the stream into lines and posts each line to
  the window of the helper; events go out through \<open>write_all\<close>. The thread's buffer is the list of
  the bytes allocated; a copy outside it is \<open>None\<close>. Bytes that \<open>realloc\<close> adds are shown as zero
  bytes and are never read. Allocation failure ends the process and is not modelled. A read that
  fails, or gets nothing, ends the thread; so does the end of the list of answers.
\<close>

definition LF :: char where "LF = CHR 0x0A"
definition CR :: char where "CR = CHR 0x0D"

subsection \<open>The reader\<close>

datatype read_file = Read_Got string | Read_Failed

datatype posted = Post_Command string | Post_Close

definition put_at :: "string \<Rightarrow> nat \<Rightarrow> string \<Rightarrow> string option" where
  "put_at buf off bs =
     (if off + length bs \<le> length buf then Some (take off buf @ bs @ drop (off + length bs) buf) else None)"

definition reader_room :: "nat \<Rightarrow> string \<Rightarrow> string" where
  "reader_room need buf =
     (if need > length buf
      then (let cap = grow_buf need need (if length buf = 0 then 8192 else length buf)
            in buf @ replicate (cap - length buf) NUL)
      else buf)"

text \<open>\<open>while (line_len && buf[start + line_len - 1] == '\r') line_len--\<close>\<close>

primrec cut_cr :: "string \<Rightarrow> nat \<Rightarrow> nat \<Rightarrow> nat" where
  "cut_cr buf start 0 = 0"
| "cut_cr buf start (Suc k) = (if buf ! (start + k) = CR then cut_cr buf start k else Suc k)"

text \<open>The scan for line ends: \<open>k\<close> bytes from \<open>i\<close> on are left, the current line begins at \<open>start\<close>.\<close>

primrec line_loop :: "string \<Rightarrow> nat \<Rightarrow> nat \<Rightarrow> nat \<Rightarrow> nat \<times> string list" where
  "line_loop buf 0 i start = (start, [])"
| "line_loop buf (Suc k) i start =
     (if buf ! i = LF
      then (let (end_start, ls) = line_loop buf k (i + 1) (i + 1)
            in (end_start, take (cut_cr buf start (i - start)) (drop start buf) # ls))
      else line_loop buf k (i + 1) start)"

text \<open>One read of \<open>n > 0\<close> bytes, with the buffer and the number of pending bytes.\<close>

definition reader_step :: "string \<Rightarrow> string \<Rightarrow> nat \<Rightarrow> (string list \<times> string \<times> nat) option" where
  "reader_step tmp buf len =
     (case put_at (reader_room (len + length tmp + 1) buf) len tmp of
        None \<Rightarrow> None
      | Some buf1 \<Rightarrow>
          (let len1 = len + length tmp
           in case put_at buf1 len1 [NUL] of
                None \<Rightarrow> None
              | Some buf2 \<Rightarrow>
                  (let (start, ls) = line_loop buf2 len1 0 0
                   in if start = 0 then Some (ls, buf2, len1)
                      else case put_at buf2 0 (take (len1 - start) (drop start buf2)) of
                             None \<Rightarrow> None
                           | Some buf3 \<Rightarrow>
                               (let len2 = len1 - start
                                in case put_at buf3 len2 [NUL] of
                                     None \<Rightarrow> None
                                   | Some buf4 \<Rightarrow> Some (ls, buf4, len2)))))"

fun reader_loop :: "read_file list \<Rightarrow> string \<Rightarrow> nat \<Rightarrow> posted list option" where
  "reader_loop (Read_Got (c # cs) # rs) buf len =
     (case reader_step (c # cs) buf len of
        None \<Rightarrow> None
      | Some (ls, buf1, len1) \<Rightarrow> map_option (\<lambda>ps. map Post_Command ls @ ps) (reader_loop rs buf1 len1))"
| "reader_loop _ buf len = Some [Post_Close]"

definition stdin_reader :: "read_file list \<Rightarrow> posted list option" where
  "stdin_reader rs = reader_loop rs [] 0"

subsection \<open>The writer\<close>

text \<open>What \<open>WriteFile\<close> answers: the number of bytes taken, never more than it was offered.\<close>

datatype write_file = Write_Took nat | Write_Failed

fun win_write_all :: "write_file list \<Rightarrow> string \<Rightarrow> string \<times> bool \<times> write_file list" where
  "win_write_all ws [] = ([], True, ws)"
| "win_write_all [] (c # buf) = ([], False, [])"
| "win_write_all (Write_Failed # ws) (c # buf) = ([], False, ws)"
| "win_write_all (Write_Took k # ws) (c # buf) =
     (let want = min (length (c # buf)) 0x7FFFFFFF; n = min k want
      in if n = 0 then ([], False, ws)
         else let (out, ok, ws1) = win_write_all ws (drop n (c # buf)) in (take n (c # buf) @ out, ok, ws1))"

subsection \<open>What the stream means\<close>

text \<open>The reference: the lines of a stream behind pending bytes, and the bytes pending after it.\<close>

definition strip_cr :: "string \<Rightarrow> string" where
  "strip_cr s = rev (dropWhile (\<lambda>c. c = CR) (rev s))"

fun lines_from :: "string \<Rightarrow> string \<Rightarrow> string list \<times> string" where
  "lines_from pending [] = ([], pending)"
| "lines_from pending (c # s) =
     (if c = LF then (let (ls, r) = lines_from [] s in (strip_cr pending # ls, r))
      else lines_from (pending @ [c]) s)"

fun received :: "read_file list \<Rightarrow> string" where
  "received (Read_Got (c # cs) # rs) = (c # cs) @ received rs"
| "received _ = []"

lemma lines_from_append:
  "lines_from pending (s @ t) =
     (let (ls, r) = lines_from pending s; (ms, q) = lines_from r t in (ls @ ms, q))"
  by (induction pending s rule: lines_from.induct) (auto split: prod.splits)

lemma length_put_at: "put_at buf off bs = Some buf1 \<Longrightarrow> length buf1 = length buf"
  by (auto simp: put_at_def split: if_splits)

lemma take_put_at: "off + length bs \<le> length buf \<Longrightarrow>
    \<exists>buf1. put_at buf off bs = Some buf1 \<and> length buf1 = length buf \<and> take (off + length bs) buf1 = take off buf @ bs"
  by (simp add: put_at_def)

lemma put_at_NUL: "off < length buf \<Longrightarrow>
    \<exists>buf1. put_at buf off [NUL] = Some buf1 \<and> length buf1 = length buf \<and> take off buf1 = take off buf"
  by (simp add: put_at_def)

lemma cut_cr_strip: "start + n \<le> length buf \<Longrightarrow>
    take (cut_cr buf start n) (drop start buf) = strip_cr (take n (drop start buf))"
proof (induction n)
  case (Suc n)
  then have "take (Suc n) (drop start buf) = take n (drop start buf) @ [buf ! (start + n)]"
    by (simp add: take_Suc_conv_app_nth)
  with Suc show ?case by (simp add: strip_cr_def)
qed (simp add: strip_cr_def)

lemma line_loop_lines:
  assumes "start \<le> i" and "i + k \<le> length buf"
    and "line_loop buf k i start = (st, ls)"
  shows "st \<le> i + k \<and> lines_from (take (i - start) (drop start buf)) (take k (drop i buf)) = (ls, take (i + k - st) (drop st buf))"
  using assms
proof (induction k arbitrary: i start st ls)
  case (Suc k)
  have byte: "take (Suc k) (drop i buf) = buf ! i # take k (drop (Suc i) buf)"
    using Suc.prems(2) by (simp add: Cons_nth_drop_Suc [symmetric])
  have pend: "take (Suc i - start) (drop start buf) = take (i - start) (drop start buf) @ [buf ! i]"
    using Suc.prems(1,2) by (simp add: Suc_diff_le take_Suc_conv_app_nth)
  show ?case
  proof (cases "buf ! i = LF")
    case True
    obtain st1 ls1 where rec: "line_loop buf k (Suc i) (Suc i) = (st1, ls1)" by fastforce
    with Suc.IH [of "Suc i" "Suc i" st1 ls1] Suc.prems(2)
    have "st1 \<le> Suc i + k" and "lines_from [] (take k (drop (Suc i) buf)) = (ls1, take (Suc i + k - st1) (drop st1 buf))"
      by simp_all
    with True rec byte Suc.prems show ?thesis by (auto simp: cut_cr_strip)
  next
    case False
    with Suc.IH [of start "Suc i" st ls] Suc.prems show ?thesis by (simp add: byte pend)
  qed
qed simp

lemma reader_room_length: "need \<le> length (reader_room need buf) \<and> take (length buf) (reader_room need buf) = buf"
  by (simp add: reader_room_def Let_def grow_buf_enough le_diff_conv2 grow_buf_ge)

lemma lines_from_pending: "LF \<notin> set s \<Longrightarrow> lines_from pending s = ([], pending @ s)"
  by (induction s arbitrary: pending) auto

lemma lines_from_rest: "LF \<notin> set pending \<Longrightarrow> lines_from pending s = (ls, r) \<Longrightarrow> LF \<notin> set r"
  by (induction pending s arbitrary: ls rule: lines_from.induct) (auto split: if_splits prod.splits)

lemma reader_step_lines:
  assumes "take len buf = pending" and "length pending = len" and "LF \<notin> set pending"
  obtains ls buf1 len1 where "reader_step tmp buf len = Some (ls, buf1, len1)"
    and "len1 \<le> length buf1" and "lines_from pending tmp = (ls, take len1 buf1)"
proof -
  let ?room = "reader_room (len + length tmp + 1) buf" and ?n = "len + length tmp"
  have room: "?n + 1 \<le> length ?room" and "take (length buf) ?room = buf"
    using reader_room_length [of "?n + 1" buf] by auto
  then have head: "take len ?room = pending"
    using assms by (metis length_take min.absorb1 min_def take_take)
  obtain b1 where b1: "put_at ?room len tmp = Some b1" "length b1 = length ?room" "take ?n b1 = pending @ tmp"
    using take_put_at [of len tmp ?room] room head by auto
  obtain b2 where b2: "put_at b1 ?n [NUL] = Some b2" "length b2 = length ?room" "take ?n b2 = pending @ tmp"
    using put_at_NUL [of ?n b1] b1 room by auto
  obtain st ls where loop: "line_loop b2 ?n 0 0 = (st, ls)" by fastforce
  with line_loop_lines [of 0 0 ?n b2 st ls] b2 room
  have st: "st \<le> ?n" and "lines_from [] (pending @ tmp) = (ls, take (?n - st) (drop st b2))" by auto
  then have spec: "lines_from pending tmp = (ls, take (?n - st) (drop st b2))"
    using lines_from_pending [OF assms(3), of "[]"] by (simp add: lines_from_append split: prod.splits)
  show thesis
  proof (cases "st = 0")
    case True
    with spec have "lines_from pending tmp = (ls, take ?n b2)" by simp
    moreover have "reader_step tmp buf len = Some (ls, b2, ?n)"
      using b1 b2 loop True by (simp add: reader_step_def Let_def)
    ultimately show thesis using that b2 room by simp
  next
    case False
    let ?rest = "take (?n - st) (drop st b2)"
    have len: "length ?rest = ?n - st" using st room b2 by simp
    have "?n - st \<le> length b2" using room b2 by simp
    then have "\<exists>b3. put_at b2 0 ?rest = Some b3 \<and> length b3 = length b2 \<and> take (?n - st) b3 = ?rest"
      using take_put_at [of 0 ?rest b2] unfolding len by simp
    then obtain b3 where b3: "put_at b2 0 ?rest = Some b3" "length b3 = length b2" "take (?n - st) b3 = ?rest"
      by blast
    have "?n - st < length b3" using b3 b2 room by arith
    then obtain b4 where b4: "put_at b3 (?n - st) [NUL] = Some b4" "length b4 = length b2" "take (?n - st) b4 = ?rest"
      using put_at_NUL [of "?n - st" b3] b3 by auto
    have "reader_step tmp buf len = Some (ls, b4, ?n - st)"
      using b1 b2 b3 b4 loop False by (simp add: reader_step_def Let_def)
    then show thesis using that spec b4 b2 room by simp
  qed
qed

lemma reader_loop_lines:
  assumes "take len buf = pending" and "length pending = len" and "LF \<notin> set pending"
  shows "reader_loop rs buf len = Some (map Post_Command (fst (lines_from pending (received rs))) @ [Post_Close])"
  using assms
proof (induction rs buf len arbitrary: pending rule: reader_loop.induct)
  case (1 c cs rs buf len)
  obtain ls buf1 len1 where step: "reader_step (c # cs) buf len = Some (ls, buf1, len1)"
    and fits: "len1 \<le> length buf1" and spec: "lines_from pending (c # cs) = (ls, take len1 buf1)"
    by (rule reader_step_lines [OF "1.prems"])
  from "1.IH" [OF step] fits lines_from_rest [OF "1.prems"(3) spec]
  have "reader_loop rs buf1 len1 = Some (map Post_Command (fst (lines_from (take len1 buf1) (received rs))) @ [Post_Close])"
    by simp
  moreover have "lines_from pending (received (Read_Got (c # cs) # rs)) =
      (let (ms, q) = lines_from (take len1 buf1) (received rs) in (ls @ ms, q))"
    unfolding received.simps by (subst lines_from_append, subst spec) simp
  ultimately show ?case using step by (simp split: prod.splits del: received.simps)
qed simp_all

subsection \<open>Written bytes\<close>

lemma win_write_all_prefix:
  "win_write_all ws buf = (out, ok, ws1) \<Longrightarrow> (\<exists>rest. buf = out @ rest) \<and> (ok \<longrightarrow> out = buf)"
proof (induction ws buf arbitrary: out ok ws1 rule: win_write_all.induct)
  case (4 k ws c buf)
  define n where "n = min k (min (length (c # buf)) 0x7FFFFFFF)"
  show ?case
  proof (cases "n = 0")
    case True
    with 4 show ?thesis by (simp add: n_def Let_def split: if_splits)
  next
    case False
    obtain o1 b w1 where rec: "win_write_all ws (drop n (c # buf)) = (o1, b, w1)" by (metis prod_cases3)
    from "4.IH" [OF refl refl, folded n_def, OF False rec]
    have IH: "(\<exists>rest. drop n (c # buf) = o1 @ rest) \<and> (b \<longrightarrow> o1 = drop n (c # buf))" .
    have "out = take n (c # buf) @ o1" and "ok = b"
      using "4.prems" rec False unfolding win_write_all.simps Let_def n_def [symmetric] by simp_all
    with IH show ?thesis by (metis append_take_drop_id append.assoc)
  qed
qed auto

section \<open>Properties\<close>

text \<open>C33: However the reads of standard input cut the stream into pieces, the reader thread of the
  Windows helper never writes or reads outside its growing buffer, and it posts exactly the
  complete lines of the whole stream, in order, each without its line end and carriage returns,
  then a request to close; an unfinished last line is dropped.\<close>

theorem stdin_reader_lines:
  "stdin_reader rs = Some (map Post_Command (fst (lines_from [] (received rs))) @ [Post_Close])"
  by (simp add: stdin_reader_def reader_loop_lines)

end
