(* ===== verification/Win_Commands.thy ===== *)
theory Win_Commands
  imports System_Menu_Win Win_Pipe
begin

section \<open>Commands from the package to the Windows helper\<close>

text \<open>
  The two ends of the command pipe on Windows: \<open>_command_json\<close> of SystemMenu.xs writes a text and a newline in any
  number of writes, which may fail half way; the reader thread of the helper reads in any number of reads.
\<close>

text \<open>Calls one after the other, with the answers of Windows; the result lists the texts that were answered as sent.\<close>

fun send_commands :: "(wm_wait \<times> nat option list \<times> string) list \<Rightarrow> wm_state \<Rightarrow> string list \<times> wm_state" where
  "send_commands [] s = ([], s)"
| "send_commands ((w, ws, v) # cs) s =
     (case wm_command_json w ws v s of
        (Ret _, t) \<Rightarrow> (let (sent, u) = send_commands cs t in (v # sent, u))
      | (_, t) \<Rightarrow> send_commands cs t)"

lemma write_all_win_prefix:
  "write_all_win ws buf = (out, res, ws1) \<Longrightarrow> \<exists>rest. buf = out @ rest \<and> (res = Some True \<longleftrightarrow> rest = [])"
proof (induction ws buf arbitrary: out rule: write_all_win.induct)
  case (4 n ws c buf)
  define k where "k = min n (min (length (c # buf)) 0x7fffffff)"
  show ?case
  proof (cases "k = 0")
    case True
    then have "write_all_win (Some n # ws) (c # buf) = ([], Some False, ws)"
      unfolding write_all_win.simps Let_def k_def [symmetric] by simp
    then show ?thesis using 4(2) by auto
  next
    case False
    obtain out1 ok ws2 where rec: "write_all_win ws (drop k (c # buf)) = (out1, ok, ws2)" by (cases "write_all_win ws (drop k (c # buf))") auto
    then have "write_all_win (Some n # ws) (c # buf) = (take k (c # buf) @ out1, ok, ws2)"
      unfolding write_all_win.simps Let_def k_def [symmetric] using False by simp
    then have res: "out = take k (c # buf) @ out1" "res = ok" "ws1 = ws2" using 4(2) by auto
    obtain rest where "drop k (c # buf) = out1 @ rest" "res = Some True \<longleftrightarrow> rest = []"
      using 4(1) [of k out1] k_def rec False res by fastforce
    then show ?thesis unfolding res(1) by (metis append_take_drop_id append.assoc)
  qed
qed auto

lemma wm_send_run:
  assumes "wm_ok b s" and "wm_process s \<noteq> None" and "length buf \<le> length ws"
  obtains ok ws1 out rest where "wm_send ws buf s = (Ret (ok, ws1), s\<lparr>wm_pipe := wm_pipe s @ out\<rparr>)" and "buf = out @ rest"
    and "ok \<longleftrightarrow> rest = []" and "ok \<Longrightarrow> length ws \<le> length buf + length ws1"
proof -
  obtain out res ws1 where run: "write_all_win ws buf = (out, res, ws1)" by (cases "write_all_win ws buf") auto
  have "wm_write s \<noteq> None" using assms(1,2) by (auto simp: wm_ok_def)
  moreover obtain ok where "res = Some ok" "ok \<longrightarrow> length ws \<le> length buf + length ws1"
    using write_all_win_ends [OF assms(3) run] by auto
  moreover obtain rest where "buf = out @ rest" "res = Some True \<longleftrightarrow> rest = []" using write_all_win_prefix [OF run] by blast
  ultimately show ?thesis using run that by (simp add: wm_send_def)
qed

text \<open>A call either sends the text and its newline, or croaks, forgets the helper, and has written less than that.\<close>

lemma wm_command_run:
  assumes ok: "wm_ok False s" and len: "length (c_str v) < length ws"
  shows "wm_process s \<noteq> None \<and> wm_command_json w ws v s = (Ret True, s\<lparr>wm_pipe := wm_pipe s @ c_str v @ [LF]\<rparr>)
    \<or> (\<exists>t part rest. wm_command_json w ws v s = (Croak ''System::Menu helper is not running or command write failed'', t)
        \<and> wm_ok False t \<and> wm_process t = None \<and> wm_pipe t = wm_pipe s @ part \<and> c_str v @ [LF] = part @ rest \<and> rest \<noteq> []
        \<and> (wm_process s = None \<longrightarrow> part = []))"
proof -
  define s1 where "s1 = s\<lparr>wm_locked := True\<rparr>"
  have lock: "wm_lock s = (Ret (), s1)" and ok1: "wm_ok True s1" and same: "wm_process s1 = wm_process s" "wm_pipe s1 = wm_pipe s"
    using ok by (simp_all add: wm_lock_def wm_ok_def s1_def)
  have unlocked: "s1\<lparr>wm_pipe := p, wm_locked := False\<rparr> = s\<lparr>wm_pipe := p\<rparr>" for p
    using ok by (simp add: s1_def wm_ok_def)
  define fin where "fin = (\<lambda>ok. xs_then wm_unlock (if ok then xs_return True else xs_croak ''System::Menu helper is not running or command write failed''))"
  define body where "body = (\<lambda>running. if running then
                    xs_bind (wm_send ws (c_str v)) (\<lambda>(ok1, ws1).
                    xs_bind (if ok1 then wm_send ws1 [CHR 0x0A] else xs_return (False, ws1)) (\<lambda>(ok, ws2).
                      xs_then (if ok then xs_return () else wm_close_state) (xs_return ok)))
                  else xs_return False)"
  have shape: "wm_command_json w ws v s = xs_bind (wm_is_running w) (\<lambda>running. xs_bind (body running) fin) s1"
    unfolding wm_command_json_def body_def fin_def by (simp add: xs_then_Ret [where m = wm_lock, OF lock])
  have lost: "\<exists>t. fin False u = (Croak ''System::Menu helper is not running or command write failed'', t) \<and> wm_ok False t \<and> wm_process t = None
      \<and> wm_pipe t = wm_pipe u" if "wm_ok True u" "wm_process u = None" for u
    using that by (auto simp: fin_def wm_unlock_def xs_simps wm_ok_def)
  show ?thesis
  proof (cases "wm_process s \<noteq> None \<and> w = WAIT_TIMEOUT")
    case False
    have "\<exists>u. wm_is_running w s1 = (Ret False, u) \<and> wm_ok True u \<and> wm_process u = None \<and> wm_pipe u = wm_pipe s1"
    proof (cases "wm_process s1 = None")
      case True
      then show ?thesis using ok1 by (simp add: wm_is_running_def)
    next
      case set: False
      then show ?thesis using False same ok1 wm_close_state_run [OF ok1] wm_unset_ok [OF ok1]
        by (auto simp: wm_is_running_def xs_simps wm_unset_def)
    qed
    then obtain u where u: "wm_is_running w s1 = (Ret False, u)" "wm_ok True u" "wm_process u = None" "wm_pipe u = wm_pipe s1" by blast
    have "wm_command_json w ws v s = fin False u"
      unfolding shape by (simp add: xs_bind_Ret [where m = "wm_is_running w", OF u(1)] body_def xs_simps)
    then show ?thesis using lost [OF u(2,3)] u(4) same by auto
  next
    case True
    then have run: "wm_is_running w s1 = (Ret True, s1)" using same by (simp add: wm_is_running_def)
    have go: "wm_process s1 \<noteq> None" using True same by simp
    have shape1: "wm_command_json w ws v s = xs_bind (body True) fin s1"
      unfolding shape by (simp add: xs_bind_Ret [where m = "wm_is_running w", OF run])
    have gone: "\<exists>t. fin False (wm_unset u) = (Croak ''System::Menu helper is not running or command write failed'', t) \<and> wm_ok False t
        \<and> wm_process t = None \<and> wm_pipe t = wm_pipe u" if "wm_ok True u" for u
      using lost [OF wm_unset_ok [OF that]] by (simp add: wm_unset_def)
    obtain ok1' ws1 out rest where one: "wm_send ws (c_str v) s1 = (Ret (ok1', ws1), s1\<lparr>wm_pipe := wm_pipe s1 @ out\<rparr>)"
        "c_str v = out @ rest" "ok1' \<longleftrightarrow> rest = []" "ok1' \<Longrightarrow> length ws \<le> length (c_str v) + length ws1"
      using wm_send_run [OF ok1 go, of "c_str v" ws] len by (metis less_imp_le)
    let ?s2 = "s1\<lparr>wm_pipe := wm_pipe s1 @ out\<rparr>"
    have ok2: "wm_ok True ?s2" "wm_process ?s2 \<noteq> None" using wm_ok_pipe [OF ok1] go by simp_all
    show ?thesis
    proof (cases ok1')
      case False
      have "body True s1 = (Ret False, wm_unset ?s2)"
        using False wm_close_state_run [OF ok2(1)] one(1) by (simp add: body_def xs_simps)
      then have "wm_command_json w ws v s = fin False (wm_unset ?s2)"
        unfolding shape1 by (rule xs_bind_Ret)
      then show ?thesis using gone [OF ok2(1)] one(2,3) False same True by auto
    next
      case sent: True
      have "length [CHR 0x0A] \<le> length ws1" using one(4) [OF sent] len by simp
      then obtain ok2' ws2 out2 rest2 where two: "wm_send ws1 [CHR 0x0A] ?s2 = (Ret (ok2', ws2), ?s2\<lparr>wm_pipe := wm_pipe ?s2 @ out2\<rparr>)"
          "[CHR 0x0A] = out2 @ rest2" "ok2' \<longleftrightarrow> rest2 = []"
        by (rule wm_send_run [OF ok2])
      let ?s3 = "?s2\<lparr>wm_pipe := wm_pipe ?s2 @ out2\<rparr>"
      have ok3: "wm_ok True ?s3" using wm_ok_pipe [OF ok1] by simp
      have out: "out = c_str v" using one(2,3) sent by simp
      show ?thesis
      proof (cases ok2')
        case True
        then have "body True s1 = (Ret True, ?s3)" using sent one(1) two(1) by (simp add: body_def xs_simps)
        then have "wm_command_json w ws v s = fin True ?s3" unfolding shape1 by (rule xs_bind_Ret)
        then show ?thesis using True two(2,3) out same go unlocked [of "wm_pipe s @ c_str v @ [LF]"]
          by (simp add: fin_def wm_unlock_def xs_simps LF_def)
      next
        case False
        then have "body True s1 = (Ret False, wm_unset ?s3)"
          using sent one(1) two(1) wm_close_state_run [OF ok3] by (simp add: body_def xs_simps)
        then have "wm_command_json w ws v s = fin False (wm_unset ?s3)" unfolding shape1 by (rule xs_bind_Ret)
        moreover have "out2 = []" using two(2,3) False by (cases out2) auto
        ultimately show ?thesis using gone [OF ok3] out same go by (auto simp: LF_def)
      qed
    qed
  qed
qed

lemma lines_from_plain: "LF \<notin> set v \<Longrightarrow> lines_from p (v @ t) = lines_from (p @ v) t"
  by (induction v arbitrary: p) auto

lemma lines_of_commands:
  "\<forall>v\<in>set vs. LF \<notin> set v \<Longrightarrow> LF \<notin> set part \<Longrightarrow> fst (lines_from [] (concat (map (\<lambda>v. v @ [LF]) vs) @ part)) = map strip_cr vs"
proof (induction vs)
  case Nil
  then show ?case using lines_from_plain [of part "[]" "[]"] by simp
next
  case (Cons v vs)
  then show ?case using lines_from_plain [of v "[]"] by (simp add: split_beta)
qed

lemma send_commands_pipe:
  assumes "wm_ok False s" and "wm_pipe s = pre @ part" and "LF \<notin> set part" and "wm_process s \<noteq> None \<longrightarrow> part = []"
    and "\<forall>(w, ws, v)\<in>set cs. length (c_str v) < length ws \<and> LF \<notin> set (c_str v)"
    and "send_commands cs s = (sent, t)"
  shows "\<exists>part. wm_pipe t = pre @ concat (map (\<lambda>v. c_str v @ [LF]) sent) @ part \<and> LF \<notin> set part
    \<and> (\<forall>v\<in>set sent. LF \<notin> set (c_str v)) \<and> wm_ok False t"
  using assms
proof (induction cs arbitrary: s pre part sent)
  case Nil
  then show ?case by auto
next
  case (Cons c cs)
  obtain w ws v where c: "c = (w, ws, v)" by (cases c) auto
  have len: "length (c_str v) < length ws" and clean: "LF \<notin> set (c_str v)" using Cons.prems(5) c by auto
  have rest: "\<forall>(w, ws, v)\<in>set cs. length (c_str v) < length ws \<and> LF \<notin> set (c_str v)" using Cons.prems(5) by simp
  from wm_command_run [OF Cons.prems(1) len, of w] show ?case
  proof (elim disjE exE conjE)
    let ?u = "s\<lparr>wm_pipe := wm_pipe s @ c_str v @ [LF]\<rparr>"
    assume go: "wm_process s \<noteq> None" and run: "wm_command_json w ws v s = (Ret True, ?u)"
    obtain sent1 where sent: "send_commands cs ?u = (sent1, t)" "sent = v # sent1"
      using Cons.prems(6) run c by (auto split: prod.splits)
    have "wm_ok False ?u" by (rule wm_ok_pipe [OF Cons.prems(1)])
    moreover have "wm_pipe ?u = (pre @ c_str v @ [LF]) @ []" using Cons.prems(2,4) go by simp
    ultimately obtain part2 where "wm_pipe t = (pre @ c_str v @ [LF]) @ concat (map (\<lambda>v. c_str v @ [LF]) sent1) @ part2"
      "LF \<notin> set part2" "\<forall>v\<in>set sent1. LF \<notin> set (c_str v)" "wm_ok False t"
      using Cons.IH [of ?u "pre @ c_str v @ [LF]" "[]" sent1] rest sent(1) by auto
    then show ?thesis using sent(2) clean by auto
  next
    fix u part1 rest1
    assume run: "wm_command_json w ws v s = (Croak ''System::Menu helper is not running or command write failed'', u)"
      and u: "wm_ok False u" "wm_process u = None" "wm_pipe u = wm_pipe s @ part1" "c_str v @ [LF] = part1 @ rest1" "rest1 \<noteq> []"
        "wm_process s = None \<longrightarrow> part1 = []"
    have "part1 = butlast (part1 @ rest1) \<or> set part1 \<subseteq> set (butlast (part1 @ rest1))" using u(5) by (auto simp: butlast_append)
    then have "set part1 \<subseteq> set (c_str v)" using u(4) by (metis butlast_snoc subset_refl)
    then have "LF \<notin> set (part @ part1)" using clean Cons.prems(3) by auto
    moreover have "send_commands cs u = (sent, t)" using Cons.prems(6) run c by simp
    ultimately show ?thesis using Cons.IH [OF u(1), of pre "part @ part1", OF _ _ _ rest] u(2,3) Cons.prems(2) by simp
  qed
qed

section \<open>Properties\<close>

text \<open>C39: Commands arrive exactly as they were sent: after any sequence of commands to a started helper, with writes of
  any sizes, failures and a helper that ends at any time, the helper's reader thread posts, in order, exactly the
  texts whose calls were answered as sent, however its reads cut the pipe; of a command that croaked nothing is
  handled.\<close>

theorem win_commands_arrive:
  assumes "wm_ok False s" and "wm_pipe s = []"
    and "\<forall>(w, ws, v)\<in>set cs. length (c_str v) < length ws \<and> LF \<notin> set (c_str v)"
    and "send_commands cs s = (sent, t)" and "received rs = wm_pipe t"
  shows "stdin_reader rs = Some (map (\<lambda>v. Post_Command (strip_cr (c_str v))) sent @ [Post_Close])"
proof -
  obtain part where pipe: "wm_pipe t = concat (map (\<lambda>v. c_str v @ [LF]) sent) @ part" and "LF \<notin> set part" "\<forall>v\<in>set sent. LF \<notin> set (c_str v)"
    using send_commands_pipe [OF assms(1), of "[]" "[]" cs sent t] assms(2,3,4) by auto
  then have "fst (lines_from [] (wm_pipe t)) = map strip_cr (map c_str sent)"
    using lines_of_commands [of "map c_str sent" part] by (simp add: o_def)
  then show ?thesis using assms(5) reader_loop_lines by (simp add: stdin_reader_def o_def)
qed

text \<open>Three commands: the first in two writes, the second cut off by a failing write, the third after that.\<close>

definition started_win :: wm_state where
  "started_win = wm_init\<lparr>wm_write := Some 5, wm_read := Some 6, wm_process := Some 9, wm_handles := {#5, 6, 9#}\<rparr>"

definition three_commands :: "(wm_wait \<times> nat option list \<times> string) list" where
  "three_commands = [(WAIT_TIMEOUT, [Some 1, Some 1, Some 7], ''{}''), (WAIT_TIMEOUT, [Some 1, None, None], ''[]''),
     (WAIT_TIMEOUT, [Some 9, Some 9, Some 1], ''{}'')]"

theorem win_commands_arrive_witness:
  "stdin_reader [Read_Got ''{}'', Read_Got [LF, CHR ''['']] = Some [Post_Command ''{}'', Post_Close]"
proof -
  obtain sent t where run: "send_commands three_commands started_win = (sent, t)" by fastforce
  have "fst (send_commands three_commands started_win) = [''{}''] \<and> wm_pipe (snd (send_commands three_commands started_win)) = ''{}'' @ [LF, CHR ''['']"
    by (simp add: three_commands_def started_win_def wm_init_def wm_command_json_def wm_is_running_def wm_send_def wm_lock_def wm_unlock_def
        wm_close_state_def wm_ops c_str_def NUL_def LF_def Let_def)
  then have sent: "sent = [''{}'']" and pipe: "received [Read_Got ''{}'', Read_Got [LF, CHR ''['']] = wm_pipe t" by (simp_all add: run)
  have ok: "wm_ok False started_win" "wm_pipe started_win = []" by (simp_all add: started_win_def wm_ok_def wm_init_def opt_handle_def)
  have lens: "\<forall>(w, ws, v)\<in>set three_commands. length (c_str v) < length ws \<and> LF \<notin> set (c_str v)" by code_simp
  have "strip_cr (c_str ''{}'') = ''{}''" by code_simp
  with win_commands_arrive [OF ok lens run pipe] sent show ?thesis by simp
qed

end
