(* ===== verification/Win_Items.thy ===== *)
theory Win_Items
  imports Menu_Items
begin

section \<open>The item tree of the Windows menu helper (native/system_menu_helper_win.c)\<close>

text \<open>
  The Windows helper has the JSON parser and the event printer of the Linux one, line for line
  (\<open>Menu_Json\<close> holds them), and an item tree of its own. A \<open>DDItem *\<close> is the path to the item
  through the arrays of children, from the roots down, together with the number of times the
  tree had been thrown away when the pointer was made: after \<open>clear_all\<close> every older pointer
  dangles. \<open>item->parent\<close> is null exactly for paths of length one. Wide strings are lists of
  16-bit units; \<open>utf8_to_wide\<close> is a system call and so a parameter, \<open>None\<close> when it gives up.
\<close>

type_synonym wide = "16 word list"

record win_data =
  win_name :: string
  win_wide_name :: "wide option"
  win_label :: "wide option"
  win_clickable :: bool
  win_stay :: bool
  win_removed :: bool
  win_tray_id :: "32 word"
  win_tray_icon :: "wide option option"

datatype win_item = Win_Item (win_data: win_data) (win_children: "win_item list")

type_synonym item_ptr = "nat \<times> nat list"

subsection \<open>From JSON\<close>

definition win_new_data :: "(string \<Rightarrow> wide option) \<Rightarrow> string \<Rightarrow> string \<Rightarrow> bool \<Rightarrow> bool \<Rightarrow> win_data" where
  "win_new_data to_wide name icon click stay = \<lparr>win_name = name, win_wide_name = to_wide name,
     win_label = to_wide icon, win_clickable = click, win_stay = stay, win_removed = False,
     win_tray_id = 0, win_tray_icon = None\<rparr>"

function win_item_from_json :: "(string \<Rightarrow> wide option) \<Rightarrow> jvalue \<Rightarrow> win_item option" where
  "win_item_from_json to_wide obj =
     (case (j_get_string obj ''name'', j_get_string obj ''icon'') of
        (Some name, Some icon) \<Rightarrow>
          Some (Win_Item (win_new_data to_wide name icon (j_get obj ''click'' \<noteq> None) (j_get_bool obj ''click_stay'' False))
                         (keep_somes (map (win_item_from_json to_wide) (menu_values obj))))
      | _ \<Rightarrow> None)"
  by pat_completeness auto
termination by (relation "measure (size \<circ> snd)") (auto dest: menu_values_size)

declare win_item_from_json.simps [simp del]

subsection \<open>Pointers into the tree\<close>

fun item_in :: "nat list \<Rightarrow> win_item list \<Rightarrow> win_item option" where
  "item_in [] ts = None"
| "item_in (i # p) ts =
     (if i < length ts then (if p = [] then Some (ts ! i) else item_in p (win_children (ts ! i))) else None)"

fun map_data :: "(win_data \<Rightarrow> win_data) \<Rightarrow> win_item \<Rightarrow> win_item" where
  "map_data f (Win_Item d cs) = Win_Item (f d) cs"

fun map_children :: "(win_item list \<Rightarrow> win_item list) \<Rightarrow> win_item \<Rightarrow> win_item" where
  "map_children f (Win_Item d cs) = Win_Item d (f cs)"

fun item_change :: "nat list \<Rightarrow> (win_data \<Rightarrow> win_data) \<Rightarrow> win_item list \<Rightarrow> win_item list" where
  "item_change [] f ts = ts"
| "item_change (i # p) f ts =
     (if i < length ts
      then ts[i := (if p = [] then map_data f (ts ! i) else map_children (item_change p f) (ts ! i))]
      else ts)"

text \<open>\<open>find_item\<close>: the first item with the name in preorder, removed or not.\<close>

fun win_find_rec :: "string \<Rightarrow> win_item \<Rightarrow> nat list option"
  and win_find_from :: "string \<Rightarrow> nat \<Rightarrow> win_item list \<Rightarrow> nat list option" where
  "win_find_rec name (Win_Item d cs) = (if win_name d = name then Some [] else win_find_from name 0 cs)"
| "win_find_from name i [] = None"
| "win_find_from name i (c # cs) =
     (case win_find_rec name c of Some p \<Rightarrow> Some (i # p) | None \<Rightarrow> win_find_from name (Suc i) cs)"

definition win_find :: "string \<Rightarrow> win_item list \<Rightarrow> nat list option" where
  "win_find name ts = win_find_from name 0 ts"

text \<open>\<open>item_visible_child_count\<close>, and the array \<open>popup_open\<close> fills: the children not removed.\<close>

definition is_shown :: "win_item \<Rightarrow> bool" where
  "is_shown t \<longleftrightarrow> \<not> win_removed (win_data t)"

definition item_visible_child_count :: "win_item \<Rightarrow> nat" where
  "item_visible_child_count t = length (filter is_shown (win_children t))"

definition visible_children :: "item_ptr \<Rightarrow> win_item \<Rightarrow> item_ptr list" where
  "visible_children ptr t =
     map (\<lambda>i. (fst ptr, snd ptr @ [i])) (filter (\<lambda>i. is_shown (win_children t ! i)) [0..<length (win_children t)])"

subsection \<open>Facts on pointers\<close>

lemma nth_filter_index: "map ((!) cs) (filter (\<lambda>i. P (cs ! i)) [0..<length cs]) = filter P cs"
  by (metis (no_types, lifting) filter_map comp_def filter_cong map_nth)

lemma length_visible_children [simp]: "length (visible_children ptr t) = item_visible_child_count t"
  using arg_cong [OF nth_filter_index [of "win_children t" is_shown], of length]
  by (simp add: visible_children_def item_visible_child_count_def)

lemma item_in_child:
  "item_in p ts = Some t \<Longrightarrow> i < length (win_children t) \<Longrightarrow> item_in (p @ [i]) ts = Some (win_children t ! i)"
  by (induction p ts rule: item_in.induct) (auto split: if_splits)

lemma visible_children_valid:
  assumes "item_in p ts = Some t" and "c \<in> set (visible_children (g, p) t)"
  obtains i where "c = (g, p @ [i])" and "item_in (p @ [i]) ts = Some (win_children t ! i)" and "is_shown (win_children t ! i)"
  using assms item_in_child [OF assms(1)] by (auto simp: visible_children_def)

lemma visible_children_nth:
  assumes "item_in p ts = Some t" and "k < item_visible_child_count t"
  shows "item_in (snd (visible_children (g, p) t ! k)) ts = Some (filter is_shown (win_children t) ! k)"
proof -
  let ?cs = "win_children t" and ?is = "filter (\<lambda>i. is_shown (win_children t ! i)) [0..<length (win_children t)]"
  have k: "k < length ?is" using assms(2) length_visible_children [of "(g, p)" t] by (simp add: visible_children_def)
  then have "?is ! k < length ?cs" using nth_mem [OF k] by auto
  from item_in_child [OF assms(1) this] have "item_in (p @ [?is ! k]) ts = Some (?cs ! (?is ! k))" .
  also have "?cs ! (?is ! k) = map ((!) ?cs) ?is ! k" using k by simp
  finally show ?thesis using k by (simp add: visible_children_def nth_filter_index)
qed

lemma length_item_change [simp]: "length (item_change p f ts) = length ts"
  by (cases p) simp_all

lemma win_children_map [simp]:
  "win_children (map_data f t) = win_children t" "win_children (map_children h t) = h (win_children t)"
  "win_data (map_data f t) = f (win_data t)" "win_data (map_children h t) = win_data t"
  by (cases t; simp)+

text \<open>A change that leaves \<open>removed\<close> alone leaves every pointer and every popup's rows as they were.\<close>

lemma item_change_same_shown:
  assumes "\<And>d. win_removed (f d) = win_removed d" and "i < length ts"
  shows "is_shown (item_change p f ts ! i) = is_shown (ts ! i)"
  using assms by (cases p) (auto simp: nth_list_update is_shown_def)

lemma visible_children_cong:
  assumes "length (win_children t1) = length (win_children t)"
    and "\<And>i. i < length (win_children t) \<Longrightarrow> is_shown (win_children t1 ! i) = is_shown (win_children t ! i)"
  shows "visible_children ptr t1 = visible_children ptr t"
proof -
  have "filter (\<lambda>i. is_shown (win_children t1 ! i)) [0..<length (win_children t)]
      = filter (\<lambda>i. is_shown (win_children t ! i)) [0..<length (win_children t)]"
    by (rule filter_cong) (use assms in auto)
  then show ?thesis by (simp add: visible_children_def assms(1))
qed

lemma item_change_in:
  assumes keep: "\<And>d. win_removed (f d) = win_removed d"
    and "item_in q ts = Some t"
  shows "\<exists>t1. item_in q (item_change p f ts) = Some t1 \<and> (\<forall>ptr. visible_children ptr t1 = visible_children ptr t)
      \<and> is_shown t1 = is_shown t"
  using assms(2)
proof (induction q ts arbitrary: p rule: item_in.induct)
  case (2 j q ts)
  then have j: "j < length ts" by (simp split: if_splits)
  show ?case
  proof (cases p)
    case Nil
    with 2(2) show ?thesis by simp
  next
    case (Cons i p1)
    show ?thesis
    proof (cases "i = j")
      case False
      with 2(2) j Cons show ?thesis by (auto split: if_splits)
    next
      case True
      show ?thesis
      proof (cases "q = []")
        case True
        with 2(2) j \<open>i = j\<close> Cons have "t = ts ! j" by simp
        moreover have "visible_children ptr (map_children (item_change p1 f) t) = visible_children ptr t" for ptr
          by (rule visible_children_cong) (simp_all add: item_change_same_shown [OF keep])
        moreover have "visible_children ptr (map_data f t) = visible_children ptr t" for ptr
          by (rule visible_children_cong) simp_all
        ultimately show ?thesis using j \<open>i = j\<close> Cons True keep by (simp add: is_shown_def)
      next
        case False
        with 2(2) j have sub: "item_in q (win_children (ts ! j)) = Some t" by simp
        show ?thesis
        proof (cases "p1 = []")
          case True
          with sub j False Cons \<open>i = j\<close> show ?thesis by simp
        next
          case p1: False
          from "2.IH" [OF j False sub, of p1] j False Cons \<open>i = j\<close> p1
          show ?thesis by (auto simp: visible_children_def)
        qed
      qed
    qed
  qed
qed simp

lemma item_in_change_other:
  "item_in p ts = Some t \<Longrightarrow> item_in p (item_change p f ts) = Some (map_data f t)"
  by (induction p ts rule: item_in.induct) (auto split: if_splits)

lemma win_find_valid:
  "win_find_rec name t = Some p \<Longrightarrow> p \<noteq> [] \<Longrightarrow> \<exists>u. item_in p (win_children t) = Some u"
  "win_find_from name i ts = Some p \<Longrightarrow> \<exists>k q. p = (i + k) # q \<and> (\<exists>u. item_in (k # q) ts = Some u)"
proof (induction name t and name i ts arbitrary: p and p rule: win_find_rec_win_find_from.induct)
  case (1 name d cs)
  then show ?case by (auto split: if_splits)
next
  case (3 name i c cs)
  show ?case
  proof (cases "win_find_rec name c")
    case None
    with 3 obtain k q u where "p = (Suc i + k) # q" and "item_in (k # q) cs = Some u" by auto
    then have "p = (i + Suc k) # q \<and> (\<exists>u. item_in (Suc k # q) (c # cs) = Some u)" by (auto split: if_splits)
    then show ?thesis by blast
  next
    case (Some q)
    with 3 have "p = i # q" by simp
    moreover have "\<exists>u. item_in (0 # q) (c # cs) = Some u" using 3(1) [OF Some] by auto
    ultimately show ?thesis by (metis add_0_right)
  qed
qed simp

lemma win_find_in: "win_find name ts = Some p \<Longrightarrow> \<exists>t. item_in p ts = Some t"
  using win_find_valid(2) [of name 0 ts p] by (auto simp: win_find_def)

end
