(* ===== verification/Win_Popup.thy ===== *)
theory Win_Popup
  imports Win_Items
begin

section \<open>Popup menus of the Windows menu helper (native/system_menu_helper_win.c)\<close>

text \<open>
  The menus of the Windows helper are its own windows: one popup per open level, in the array
  \<open>g_popups\<close>, each an allocated \<open>DDPopup\<close> that its window points back to. The model keeps the
  array, the allocated structs by number, the live windows with their place, their pointer to the struct and
  what was painted into them, and the window that has captured the mouse; a pointer to a freed struct, to an item
  of a tree that has been freed, or outside the array is \<open>Fault\<close>. A window has the number of the
  struct it is created for. Coordinates are unbounded (those of a desktop are small).

  What the desktop answers while one message is handled is the record \<open>desk\<close>: the cursor, the
  work area of the monitor nearest a point, text widths, and which windows can be created.

  \<open>DestroyWindow\<close> and \<open>ReleaseCapture\<close> send \<open>WM_CAPTURECHANGED\<close> to the window that loses the mouse, and the
  helper's answer to it closes popups in turn: the handler is the argument \<open>proc\<close> of what can
  send it, and \<open>capture_changed n\<close> is the handler when such calls may nest \<open>n\<close> deep (two is never reached).
\<close>

record rect =
  r_left :: int
  r_top :: int
  r_right :: int
  r_bottom :: int

type_synonym point = "int \<times> int"

record popup =
  pop_hwnd :: nat
  pop_owner :: item_ptr
  pop_items :: "item_ptr list"
  pop_count :: nat
  pop_hover :: int
  pop_depth :: nat

datatype painted = Painted (pt_text: wide) (pt_high: bool) (pt_grey: bool) (pt_arrow: bool)

record window =
  wnd_rect :: rect
  wnd_user :: nat
  wnd_picture :: "painted list"

record win_state =
  g_roots :: "win_item list"
  g_tree :: nat
  g_next_tray_id :: "32 word"
  g_popups :: "nat option list"
  g_popup_count :: nat
  g_closing_popups :: bool
  g_host :: bool
  popup_heap :: "nat \<Rightarrow> popup option"
  popup_fresh :: nat
  windows :: "nat \<Rightarrow> window option"
  capture :: "nat option"
  tray :: "32 word \<Rightarrow> wide option option"
  taskbar :: bool
  taskbar_told :: bool
  g_out :: "string list"
  quitting :: bool

record desk =
  d_wide :: "string \<Rightarrow> wide option"
  d_text_width :: "wide \<Rightarrow> int option"
  d_create :: "nat \<Rightarrow> bool"
  d_work_area :: "point \<Rightarrow> rect"
  d_cursor :: point

type_synonym 'a win = "(win_state, 'a) xs"

definition DD_MAX_POPUPS :: nat where "DD_MAX_POPUPS = 16"
definition DD_ROW_HEIGHT :: int where "DD_ROW_HEIGHT = 28"

subsection \<open>Memory\<close>

definition w_item :: "item_ptr \<Rightarrow> win_item win" where
  "w_item ptr = xs_bind xs_get (\<lambda>s.
     case (if fst ptr = g_tree s then item_in (snd ptr) (g_roots s) else None) of
       None \<Rightarrow> xs_fault
     | Some t \<Rightarrow> xs_return t)"

definition popup_ref :: "nat \<Rightarrow> popup win" where
  "popup_ref p = xs_bind xs_get (\<lambda>s. case popup_heap s p of None \<Rightarrow> xs_fault | Some q \<Rightarrow> xs_return q)"

definition popup_set :: "nat \<Rightarrow> popup \<Rightarrow> unit win" where
  "popup_set p q = xs_modify (\<lambda>s. s\<lparr>popup_heap := (popup_heap s)(p := Some q)\<rparr>)"

definition popup_slot :: "nat \<Rightarrow> nat option win" where
  "popup_slot i = xs_bind xs_get (\<lambda>s. if i < length (g_popups s) then xs_return (g_popups s ! i) else xs_fault)"

definition set_slot :: "nat \<Rightarrow> nat option \<Rightarrow> unit win" where
  "set_slot i v = xs_bind xs_get (\<lambda>s.
     if i < length (g_popups s) then xs_modify (\<lambda>s. s\<lparr>g_popups := (g_popups s)[i := v]\<rparr>) else xs_fault)"

definition popup_row :: "popup \<Rightarrow> nat \<Rightarrow> item_ptr win" where
  "popup_row q i = (if i < length (pop_items q) then xs_return (pop_items q ! i) else xs_fault)"

definition popup_free :: "nat option \<Rightarrow> unit win" where
  "popup_free p = (case p of None \<Rightarrow> xs_return ()
     | Some p \<Rightarrow> xs_then (popup_ref p) (xs_modify (\<lambda>s. s\<lparr>popup_heap := (popup_heap s)(p := None)\<rparr>)))"

subsection \<open>Closing\<close>

definition release_capture :: "(nat \<Rightarrow> unit win) \<Rightarrow> unit win" where
  "release_capture proc = xs_bind xs_get (\<lambda>s. case capture s of None \<Rightarrow> xs_return ()
     | Some h \<Rightarrow> xs_then (xs_modify (\<lambda>s. s\<lparr>capture := None\<rparr>)) (proc h))"

definition destroy_window :: "(nat \<Rightarrow> unit win) \<Rightarrow> nat \<Rightarrow> unit win" where
  "destroy_window proc h = xs_bind xs_get (\<lambda>s. case windows s h of None \<Rightarrow> xs_return ()
     | Some w \<Rightarrow> xs_then (if capture s = Some h then release_capture proc else xs_return ())
                       (xs_modify (\<lambda>s. s\<lparr>windows := (windows s)(h := None)\<rparr>)))"

definition close_window :: "(nat \<Rightarrow> unit win) \<Rightarrow> nat option \<Rightarrow> unit win" where
  "close_window proc p = (case p of None \<Rightarrow> xs_return ()
     | Some p \<Rightarrow> xs_bind (popup_ref p) (\<lambda>q. destroy_window proc (pop_hwnd q)))"

primrec close_loop :: "(nat \<Rightarrow> unit win) \<Rightarrow> nat \<Rightarrow> nat \<Rightarrow> unit win" where
  "close_loop proc depth 0 = xs_return ()"
| "close_loop proc depth (Suc i) =
     (if i < depth then xs_return ()
      else xs_bind (popup_slot i) (\<lambda>p.
           xs_then (set_slot i None)
           (xs_then (close_window proc p)
           (xs_then (popup_free p)
             (close_loop proc depth i)))))"

definition close_from :: "(nat \<Rightarrow> unit win) \<Rightarrow> nat \<Rightarrow> unit win" where
  "close_from proc depth = xs_bind xs_get (\<lambda>s.
     xs_then (close_loop proc depth (g_popup_count s))
       (xs_modify (\<lambda>s. if g_popup_count s > depth then s\<lparr>g_popup_count := depth\<rparr> else s)))"

definition close_all :: "(nat \<Rightarrow> unit win) \<Rightarrow> unit win" where
  "close_all proc = xs_bind xs_get (\<lambda>s.
     if g_closing_popups s then xs_return ()
     else xs_then (xs_modify (\<lambda>s. s\<lparr>g_closing_popups := True\<rparr>))
         (xs_then (release_capture proc)
         (xs_then (close_from proc 0)
           (xs_modify (\<lambda>s. s\<lparr>g_closing_popups := False\<rparr>)))))"

text \<open>\<open>PopupProc\<close> on \<open>WM_CAPTURECHANGED\<close>.\<close>

primrec capture_changed :: "nat \<Rightarrow> nat \<Rightarrow> unit win" where
  "capture_changed 0 h = xs_diverge"
| "capture_changed (Suc n) h = xs_bind xs_get (\<lambda>s.
     if \<not> g_closing_popups s \<and> g_popup_count s \<noteq> 0 then close_all (capture_changed n) else xs_return ())"

definition popup_close_from :: "nat \<Rightarrow> unit win" where
  "popup_close_from depth = close_from (capture_changed 2) depth"

definition popup_close_all :: "unit win" where
  "popup_close_all = close_all (capture_changed 2)"

subsection \<open>Pointing\<close>

definition in_rect :: "rect \<Rightarrow> point \<Rightarrow> bool" where
  "in_rect r pt \<longleftrightarrow> r_left r \<le> fst pt \<and> fst pt < r_right r \<and> r_top r \<le> snd pt \<and> snd pt < r_bottom r"

definition row_at :: "rect \<Rightarrow> point \<Rightarrow> int" where
  "row_at r pt = (snd pt - r_top r) div DD_ROW_HEIGHT"

primrec point_loop :: "point \<Rightarrow> nat \<Rightarrow> (nat \<times> nat) option win" where
  "point_loop pt 0 = xs_return None"
| "point_loop pt (Suc d) = xs_bind (popup_slot d) (\<lambda>slot.
     case slot of None \<Rightarrow> point_loop pt d
     | Some p \<Rightarrow> xs_bind (popup_ref p) (\<lambda>q. xs_bind xs_get (\<lambda>s.
         case windows s (pop_hwnd q) of None \<Rightarrow> point_loop pt d
         | Some w \<Rightarrow>
             if in_rect (wnd_rect w) pt \<and> 0 \<le> row_at (wnd_rect w) pt \<and> row_at (wnd_rect w) pt < int (pop_count q)
             then xs_return (Some (p, nat (row_at (wnd_rect w) pt)))
             else point_loop pt d)))"

definition popup_at_point :: "point \<Rightarrow> (nat \<times> nat) option win" where
  "popup_at_point pt = xs_bind xs_get (\<lambda>s. point_loop pt (g_popup_count s))"

definition popup_set_hover :: "nat option \<Rightarrow> int \<Rightarrow> unit win" where
  "popup_set_hover p row = (case p of None \<Rightarrow> xs_return ()
     | Some p \<Rightarrow> xs_bind (popup_ref p) (\<lambda>q. if pop_hover q = row then xs_return () else popup_set p (q\<lparr>pop_hover := row\<rparr>)))"

primrec unhover_loop :: "nat \<Rightarrow> unit win" where
  "unhover_loop 0 = xs_return ()"
| "unhover_loop (Suc i) = xs_then (unhover_loop i) (xs_bind (popup_slot i) (\<lambda>p. popup_set_hover p (-1)))"

subsection \<open>Opening\<close>

definition label_text :: "win_data \<Rightarrow> wide" where
  "label_text d = (case win_label d of None \<Rightarrow> [] | Some w \<Rightarrow> w)"

fun measure_loop :: "(wide \<Rightarrow> int option) \<Rightarrow> win_item list \<Rightarrow> int \<Rightarrow> int \<Rightarrow> int \<times> int" where
  "measure_loop width [] w n = (w, n * DD_ROW_HEIGHT)"
| "measure_loop width (c # cs) w n =
     (if win_removed (win_data c) then measure_loop width cs w n
      else measure_loop width cs
        (case width (label_text (win_data c)) of None \<Rightarrow> w
         | Some cx \<Rightarrow> (let need = cx + (if win_children c \<noteq> [] then 52 else 38) in if need > w then need else w))
        (n + 1))"

definition popup_measure :: "desk \<Rightarrow> win_item \<Rightarrow> int \<times> int" where
  "popup_measure d t = measure_loop (d_text_width d) (win_children t) 140 0"

definition popup_adjust_position :: "rect \<Rightarrow> int \<Rightarrow> int \<Rightarrow> int \<Rightarrow> int \<Rightarrow> bool \<Rightarrow> rect option \<Rightarrow> point" where
  "popup_adjust_position work x y w h child parent =
     (let x1 = (if child \<and> parent \<noteq> None \<and> x + w > r_right work then r_left (the parent) - w + 1
                else if x + w > r_right work then r_right work - w else x);
          x2 = (if x1 < r_left work then r_left work else x1);
          y1 = (if y + h > r_bottom work then r_bottom work - h else y);
          y2 = (if y1 < r_top work then r_top work else y1)
      in (x2, y2))"

text \<open>\<open>PopupProc\<close> on \<open>WM_PAINT\<close>.\<close>

definition paint_row :: "popup \<Rightarrow> nat \<Rightarrow> painted win" where
  "paint_row q i = xs_bind (popup_row q i) (\<lambda>item. xs_bind (w_item item) (\<lambda>t.
     xs_return (Painted (label_text (win_data t)) (int i = pop_hover q)
       (int i \<noteq> pop_hover q \<and> \<not> win_clickable (win_data t) \<and> win_children t = [])
       (item_visible_child_count t \<noteq> 0))))"

primrec paint_loop :: "popup \<Rightarrow> nat \<Rightarrow> painted list win" where
  "paint_loop q 0 = xs_return []"
| "paint_loop q (Suc i) = xs_bind (paint_loop q i) (\<lambda>rows. xs_bind (paint_row q i) (\<lambda>r. xs_return (rows @ [r])))"

definition popup_paint :: "nat \<Rightarrow> unit win" where
  "popup_paint h = xs_bind xs_get (\<lambda>s. case windows s h of None \<Rightarrow> xs_return ()
     | Some w \<Rightarrow> xs_bind (popup_ref (wnd_user w)) (\<lambda>q. xs_bind (paint_loop q (pop_count q)) (\<lambda>rows.
         xs_modify (\<lambda>s. s\<lparr>windows := (windows s)(h := Some (w\<lparr>wnd_picture := rows\<rparr>))\<rparr>))))"

definition popup_alloc :: "item_ptr \<Rightarrow> win_item \<Rightarrow> nat \<Rightarrow> nat win" where
  "popup_alloc owner t depth = xs_bind xs_get (\<lambda>s.
     xs_then (xs_modify (\<lambda>s. s\<lparr>popup_fresh := popup_fresh s + 1\<rparr>))
     (xs_then (popup_set (popup_fresh s) \<lparr>pop_hwnd = 0, pop_owner = owner, pop_items = visible_children owner t,
                 pop_count = item_visible_child_count t, pop_hover = -1, pop_depth = depth\<rparr>)
       (xs_return (popup_fresh s))))"

definition create_window :: "desk \<Rightarrow> nat \<Rightarrow> rect \<Rightarrow> bool win" where
  "create_window d p r =
     (if d_create d p
      then xs_then (xs_modify (\<lambda>s. s\<lparr>windows := (windows s)(p := Some \<lparr>wnd_rect = r, wnd_user = p, wnd_picture = []\<rparr>)\<rparr>))
                   (xs_return True)
      else xs_return False)"

definition popup_open :: "desk \<Rightarrow> item_ptr \<Rightarrow> int \<Rightarrow> int \<Rightarrow> nat \<Rightarrow> rect option \<Rightarrow> nat option win" where
  "popup_open d owner x y depth parent =
     (if depth \<ge> DD_MAX_POPUPS then xs_return None
      else xs_bind (w_item owner) (\<lambda>t.
        if item_visible_child_count t = 0 then xs_return None
        else xs_then (popup_close_from depth)
        (xs_bind (popup_alloc owner t depth) (\<lambda>p.
          let (w, h) = popup_measure d t;
              (x1, y1) = popup_adjust_position (d_work_area d (x, y)) x y w h (depth > 0) parent
          in xs_bind (create_window d p \<lparr>r_left = x1, r_top = y1, r_right = x1 + w, r_bottom = y1 + h\<rparr>) (\<lambda>ok.
             if \<not> ok then xs_then (popup_free (Some p)) (xs_return None)
             else xs_bind (popup_ref p) (\<lambda>q.
               xs_then (popup_set p (q\<lparr>pop_hwnd := p\<rparr>))
               (xs_then (set_slot depth (Some p))
               (xs_then (xs_modify (\<lambda>s. if g_popup_count s < depth + 1 then s\<lparr>g_popup_count := depth + 1\<rparr> else s))
               (xs_then (popup_paint p)
                 (xs_return (Some p)))))))))))"

text \<open>\<open>g_popups[p->depth + 1]->owner == item\<close>, where there is such a popup.\<close>

definition submenu_open :: "popup \<Rightarrow> item_ptr \<Rightarrow> bool win" where
  "submenu_open q item = xs_bind xs_get (\<lambda>s.
     if pop_depth q + 1 < g_popup_count s
     then xs_bind (popup_slot (pop_depth q + 1)) (\<lambda>c.
       case c of None \<Rightarrow> xs_return False
       | Some c \<Rightarrow> xs_bind (popup_ref c) (\<lambda>cq. xs_return (pop_owner cq = item)))
     else xs_return False)"

definition popup_open_child :: "desk \<Rightarrow> nat \<Rightarrow> nat \<Rightarrow> unit win" where
  "popup_open_child d p row = xs_bind (popup_ref p) (\<lambda>q.
     if row \<ge> pop_count q then xs_return ()
     else xs_bind (popup_row q row) (\<lambda>item. xs_bind (w_item item) (\<lambda>t.
       if item_visible_child_count t = 0 then popup_close_from (pop_depth q + 1)
       else xs_bind (submenu_open q item) (\<lambda>open_already.
         if open_already then xs_return ()
         else xs_bind xs_get (\<lambda>s.
           case windows s (pop_hwnd q) of
             None \<Rightarrow> xs_fault
           | Some w \<Rightarrow>
               (let r = wnd_rect w
                in xs_then (popup_open d item (r_right r - 1) (r_top r + int row * DD_ROW_HEIGHT) (pop_depth q + 1) (Some r))
                  (xs_return ())))))))"

definition win_emit_click :: "win_item \<Rightarrow> unit win" where
  "win_emit_click t = xs_modify (\<lambda>s. s\<lparr>g_out := g_out s @ emit_click_line (win_name (win_data t))\<rparr>)"

definition popup_enter :: "desk \<Rightarrow> nat \<Rightarrow> popup \<Rightarrow> nat \<Rightarrow> win_item \<Rightarrow> unit win" where
  "popup_enter d p q row t =
     (if item_visible_child_count t > 0 then popup_open_child d p row else popup_close_from (pop_depth q + 1))"

definition handle_popup_mouse :: "desk \<Rightarrow> point \<Rightarrow> bool \<Rightarrow> unit win" where
  "handle_popup_mouse d pt click = xs_bind (popup_at_point pt) (\<lambda>hit.
     case hit of
       None \<Rightarrow> xs_bind xs_get (\<lambda>s.
         xs_then (unhover_loop (g_popup_count s)) (if click then popup_close_all else xs_return ()))
     | Some (p, row) \<Rightarrow>
         xs_then (popup_set_hover (Some p) (int row))
         (xs_bind (popup_ref p) (\<lambda>q. xs_bind (popup_row q row) (\<lambda>item. xs_bind (w_item item) (\<lambda>t.
           xs_then (popup_enter d p q row t)
           (if \<not> click \<or> win_removed (win_data t) \<or> item_visible_child_count t > 0 \<or> \<not> win_clickable (win_data t)
            then xs_return ()
            else xs_then (if win_stay (win_data t) then xs_return () else popup_close_all)
              (xs_bind (w_item item) win_emit_click)))))))"

definition set_capture :: "nat \<Rightarrow> unit win" where
  "set_capture h = xs_bind xs_get (\<lambda>s.
     xs_then (xs_modify (\<lambda>s. s\<lparr>capture := Some h\<rparr>))
       (case capture s of None \<Rightarrow> xs_return ()
        | Some old \<Rightarrow> if old = h then xs_return () else capture_changed 2 old))"

definition popup_show_root :: "desk \<Rightarrow> item_ptr \<Rightarrow> unit win" where
  "popup_show_root d root = xs_bind (w_item root) (\<lambda>t.
     if item_visible_child_count t = 0 then xs_return ()
     else xs_then popup_close_all
       (xs_bind (popup_open d root (fst (d_cursor d)) (snd (d_cursor d)) 0 None) (\<lambda>p.
          case p of None \<Rightarrow> xs_return ()
          | Some p \<Rightarrow> xs_bind (popup_ref p) (\<lambda>q. set_capture (pop_hwnd q)))))"

end
