(* ===== verification/Win_Stack.thy ===== *)
theory Win_Stack
  imports Win_Popup
begin

section \<open>The stack of open popups\<close>

text \<open>
  Between two messages the array, the structs and the windows of the popups are the image of a
  stack: a list of popups with their windows, the root's first. \<open>with_popups n ps s\<close> is the
  state \<open>s\<close> with that image put in and \<open>g_popup_count\<close> equal to \<open>n\<close>; each operation on popups is an
  equation on such states.
\<close>

type_synonym entry = "nat \<times> popup \<times> window"

definition structs :: "entry list \<Rightarrow> nat \<Rightarrow> popup option" where
  "structs ps = map_of (map (\<lambda>(p, q, w). (p, q)) ps)"

definition frames :: "entry list \<Rightarrow> nat \<Rightarrow> window option" where
  "frames ps = map_of (map (\<lambda>(p, q, w). (p, w)) ps)"

definition slots :: "entry list \<Rightarrow> nat option list" where
  "slots ps = map (Some \<circ> fst) ps @ replicate (DD_MAX_POPUPS - length ps) None"

definition with_popups :: "nat \<Rightarrow> entry list \<Rightarrow> win_state \<Rightarrow> win_state" where
  "with_popups n ps s = s\<lparr>g_popups := slots ps, g_popup_count := n, popup_heap := structs ps, windows := frames ps\<rparr>"

definition entry_ok :: "entry \<Rightarrow> bool" where
  "entry_ok e = (case e of (p, q, w) \<Rightarrow> pop_hwnd q = p \<and> wnd_user w = p \<and> pop_count q = length (pop_items q))"

definition stack_ok :: "entry list \<Rightarrow> bool" where
  "stack_ok ps \<longleftrightarrow> distinct (map fst ps) \<and> length ps \<le> DD_MAX_POPUPS \<and> (\<forall>e \<in> set ps. entry_ok e)"

lemma with_popups_twice [simp]: "with_popups n ps (with_popups m qs s) = with_popups n ps s"
  by (simp add: with_popups_def)

lemma with_popups_fields [simp]:
  "g_roots (with_popups n ps s) = g_roots s"
  "g_tree (with_popups n ps s) = g_tree s"
  "g_next_tray_id (with_popups n ps s) = g_next_tray_id s"
  "g_popups (with_popups n ps s) = slots ps"
  "g_popup_count (with_popups n ps s) = n"
  "g_closing_popups (with_popups n ps s) = g_closing_popups s"
  "g_host (with_popups n ps s) = g_host s"
  "popup_heap (with_popups n ps s) = structs ps"
  "popup_fresh (with_popups n ps s) = popup_fresh s"
  "windows (with_popups n ps s) = frames ps"
  "capture (with_popups n ps s) = capture s"
  "tray (with_popups n ps s) = tray s"
  "taskbar (with_popups n ps s) = taskbar s"
  "taskbar_told (with_popups n ps s) = taskbar_told s"
  "g_out (with_popups n ps s) = g_out s"
  "quitting (with_popups n ps s) = quitting s"
  by (simp_all add: with_popups_def)

lemma with_popups_updates [simp]:
  "(with_popups n ps s)\<lparr>g_popup_count := m\<rparr> = with_popups m ps s"
  "(with_popups n ps s)\<lparr>g_closing_popups := b\<rparr> = with_popups n ps (s\<lparr>g_closing_popups := b\<rparr>)"
  "(with_popups n ps s)\<lparr>capture := c\<rparr> = with_popups n ps (s\<lparr>capture := c\<rparr>)"
  "(with_popups n ps s)\<lparr>popup_fresh := k\<rparr> = with_popups n ps (s\<lparr>popup_fresh := k\<rparr>)"
  "(with_popups n ps s)\<lparr>g_out := ls\<rparr> = with_popups n ps (s\<lparr>g_out := ls\<rparr>)"
  by (cases s; simp add: with_popups_def)+

lemma structs_snoc: "p \<notin> fst ` set ps \<Longrightarrow> structs (ps @ [(p, q, w)]) = (structs ps)(p \<mapsto> q)"
proof -
  assume "p \<notin> fst ` set ps"
  then have "structs ps p = None" by (auto simp: structs_def map_of_eq_None_iff image_image split_beta)
  then show ?thesis by (auto simp: structs_def map_add_def fun_eq_iff split: option.splits)
qed

lemma frames_snoc: "p \<notin> fst ` set ps \<Longrightarrow> frames (ps @ [(p, q, w)]) = (frames ps)(p \<mapsto> w)"
proof -
  assume "p \<notin> fst ` set ps"
  then have "frames ps p = None" by (auto simp: frames_def map_of_eq_None_iff image_image split_beta)
  then show ?thesis by (auto simp: frames_def map_add_def fun_eq_iff split: option.splits)
qed

lemma structs_fresh: "p \<notin> fst ` set ps \<Longrightarrow> (structs ps)(p := None) = structs ps"
  by (auto simp: structs_def map_of_eq_None_iff image_image split_beta fun_upd_idem)

lemma frames_fresh: "p \<notin> fst ` set ps \<Longrightarrow> (frames ps)(p := None) = frames ps"
  by (auto simp: frames_def map_of_eq_None_iff image_image split_beta fun_upd_idem)

lemma stack_ok_snoc: "stack_ok (ps @ [e]) \<longleftrightarrow>
    stack_ok ps \<and> length ps < DD_MAX_POPUPS \<and> fst e \<notin> fst ` set ps \<and> entry_ok e"
  by (auto simp: stack_ok_def)

lemma stack_ok_take: "stack_ok ps \<Longrightarrow> stack_ok (take d ps)"
  by (auto simp: stack_ok_def take_map [symmetric] dest: in_set_takeD)

lemma stack_ok_Nil [simp]: "stack_ok []"
  by (simp add: stack_ok_def)

lemma length_slots: "length ps \<le> DD_MAX_POPUPS \<Longrightarrow> length (slots ps) = DD_MAX_POPUPS"
  by (simp add: slots_def)

lemma slots_nth: "i < length ps \<Longrightarrow> slots ps ! i = Some (fst (ps ! i))"
  by (simp add: slots_def nth_append)

lemma slots_put: "length ps < DD_MAX_POPUPS \<Longrightarrow> (slots ps)[length ps := Some p] = slots (ps @ [(p, q, w)])"
proof -
  assume "length ps < DD_MAX_POPUPS"
  then obtain k where "DD_MAX_POPUPS - length ps = Suc k" and "DD_MAX_POPUPS - Suc (length ps) = k"
    by (metis Suc_diff_Suc)
  then show ?thesis by (simp add: slots_def list_update_append)
qed

lemma slots_drop: "length ps < DD_MAX_POPUPS \<Longrightarrow> (slots (ps @ [e]))[length ps := None] = slots ps"
proof -
  assume "length ps < DD_MAX_POPUPS"
  then obtain k where "DD_MAX_POPUPS - length ps = Suc k" and "DD_MAX_POPUPS - Suc (length ps) = k"
    by (metis Suc_diff_Suc)
  then show ?thesis by (simp add: slots_def list_update_append)
qed

lemma structs_nth: "stack_ok ps \<Longrightarrow> i < length ps \<Longrightarrow> structs ps (fst (ps ! i)) = Some (fst (snd (ps ! i)))"
proof -
  assume "stack_ok ps" "i < length ps"
  moreover have "fst \<circ> (\<lambda>(p, q, w). (p, q)) = (fst :: entry \<Rightarrow> nat)" by auto
  ultimately show ?thesis
    unfolding structs_def by (intro map_of_is_SomeI) (auto simp: stack_ok_def split_beta intro!: image_eqI [where x = "ps ! i"])
qed

lemma frames_nth: "stack_ok ps \<Longrightarrow> i < length ps \<Longrightarrow> frames ps (fst (ps ! i)) = Some (snd (snd (ps ! i)))"
proof -
  assume "stack_ok ps" "i < length ps"
  moreover have "fst \<circ> (\<lambda>(p, q, w). (p, w)) = (fst :: entry \<Rightarrow> nat)" by auto
  ultimately show ?thesis
    unfolding frames_def by (intro map_of_is_SomeI) (auto simp: stack_ok_def split_beta intro!: image_eqI [where x = "ps ! i"])
qed

subsection \<open>Closing\<close>

text \<open>Popups above the root's never have the mouse, and when all are closed it has been released
  before: no message is sent on the way, whatever the handler.\<close>

lemma close_loop_stack:
  assumes "stack_ok ps" and "\<forall>e \<in> set (drop d ps). capture s \<noteq> Some (fst e)"
  shows "close_loop proc d (length ps) (with_popups n ps s) = (Ret (), with_popups n (take d ps) s)"
  using assms
proof (induction ps rule: rev_induct)
  case Nil
  then show ?case by (simp add: xs_simps)
next
  case (snoc e ps)
  obtain p q w where e: "e = (p, q, w)" by (cases e)
  from snoc.prems e have ok: "stack_ok ps" "length ps < DD_MAX_POPUPS" "p \<notin> fst ` set ps" and q: "pop_hwnd q = p"
    by (auto simp: stack_ok_snoc entry_ok_def)
  show ?case
  proof (cases "length ps < d")
    case True
    then show ?thesis by (simp add: xs_simps)
  next
    case False
    then have free: "capture s \<noteq> Some p" using snoc.prems(2) e by simp
    have slot: "popup_slot (length ps) (with_popups n (ps @ [e]) s) = (Ret (Some p), with_popups n (ps @ [e]) s)"
      using ok e by (simp add: popup_slot_def xs_simps length_slots slots_nth)
    let ?sn = "(with_popups n (ps @ [e]) s)\<lparr>g_popups := slots ps\<rparr>"
    have set: "set_slot (length ps) None (with_popups n (ps @ [e]) s) = (Ret (), ?sn)"
      using ok by (simp add: set_slot_def xs_simps length_slots slots_drop)
    let ?s2 = "?sn\<lparr>windows := frames ps\<rparr>"
    have destroy: "close_window proc (Some p) ?sn = (Ret (), ?s2)"
      using ok q free e by (simp add: close_window_def popup_ref_def destroy_window_def xs_simps structs_snoc frames_snoc frames_fresh)
    have free: "popup_free (Some p) ?s2 = (Ret (), with_popups n ps s)"
      using ok e by (simp add: popup_free_def popup_ref_def xs_simps structs_snoc structs_fresh with_popups_def)
    have "close_loop proc d (length (ps @ [e])) (with_popups n (ps @ [e]) s) = close_loop proc d (length ps) (with_popups n ps s)"
      using False by (simp add: xs_bind_Ret [where m = "popup_slot (length ps)", OF slot] xs_then_Ret [where m = "set_slot (length ps) None", OF set]
          xs_then_Ret [where m = "close_window proc (Some p)", OF destroy] xs_then_Ret [where m = "popup_free (Some p)", OF free])
    with snoc.IH [OF ok(1)] snoc.prems(2) False show ?thesis by simp
  qed
qed

lemma close_from_stack:
  assumes "stack_ok ps" and "\<forall>e \<in> set (drop d ps). capture s \<noteq> Some (fst e)"
  shows "close_from proc d (with_popups (length ps) ps s) = (Ret (), with_popups (length (take d ps)) (take d ps) s)"
proof -
  have "close_from proc d (with_popups (length ps) ps s) = (Ret (),
      (if length ps > d then (with_popups (length ps) (take d ps) s)\<lparr>g_popup_count := d\<rparr> else with_popups (length ps) (take d ps) s))"
    by (simp add: close_from_def xs_simps xs_then_Ret [where m = "close_loop proc d (length ps)", OF close_loop_stack [OF assms]])
  then show ?thesis by (simp add: min_def)
qed

text \<open>The root's popup, or nothing, has the mouse.\<close>

definition capture_ok :: "entry list \<Rightarrow> win_state \<Rightarrow> bool" where
  "capture_ok ps s \<longleftrightarrow> (case capture s of None \<Rightarrow> True | Some h \<Rightarrow> ps \<noteq> [] \<and> h = fst (hd ps))"

lemma capture_ok_above:
  assumes "stack_ok ps" and "capture_ok ps s"
  shows "\<forall>e \<in> set (drop (Suc d) ps). capture s \<noteq> Some (fst e)"
proof (cases ps)
  case (Cons e es)
  with assms show ?thesis
    by (auto simp: capture_ok_def stack_ok_def split: option.splits dest!: in_set_dropD intro: rev_image_eqI)
qed simp

lemma popup_close_from_stack:
  assumes "stack_ok ps" and "capture_ok ps s"
  shows "popup_close_from (Suc d) (with_popups (length ps) ps s) = (Ret (), with_popups (length (take (Suc d) ps)) (take (Suc d) ps) s)"
  unfolding popup_close_from_def by (rule close_from_stack [OF assms(1) capture_ok_above [OF assms]])

lemma popup_close_from_empty: "popup_close_from d (with_popups 0 [] s) = (Ret (), with_popups 0 [] s)"
  using close_from_stack [of "[]" d s "capture_changed 2"] by (simp add: popup_close_from_def)

lemma release_closing:
  assumes "g_closing_popups s"
  shows "release_capture (capture_changed (Suc n)) s = (Ret (), s\<lparr>capture := None\<rparr>)"
  using assms by (cases "capture s") (simp_all add: release_capture_def xs_simps)

lemma popup_close_all_stack:
  assumes "stack_ok ps" and "\<not> g_closing_popups s"
  shows "popup_close_all (with_popups (length ps) ps s) = (Ret (), with_popups 0 [] (s\<lparr>capture := None\<rparr>))"
proof -
  let ?sn = "with_popups (length ps) ps (s\<lparr>g_closing_popups := True\<rparr>)"
  have release: "release_capture (capture_changed (Suc (Suc 0))) ?sn = (Ret (), with_popups (length ps) ps (s\<lparr>g_closing_popups := True, capture := None\<rparr>))"
    by (simp add: release_closing)
  have close: "close_from (capture_changed (Suc (Suc 0))) 0 (with_popups (length ps) ps (s\<lparr>g_closing_popups := True, capture := None\<rparr>))
      = (Ret (), with_popups 0 [] (s\<lparr>g_closing_popups := True, capture := None\<rparr>))"
    using close_from_stack [OF assms(1), of 0 "s\<lparr>g_closing_popups := True, capture := None\<rparr>"] by simp
  have "s\<lparr>g_closing_popups := False, capture := None\<rparr> = s\<lparr>capture := None\<rparr>" using assms(2) by (cases s) simp
  then show ?thesis
    using assms(2) by (simp add: popup_close_all_def close_all_def numeral_2_eq_2 xs_simps
        xs_then_Ret [where m = "release_capture (capture_changed (Suc (Suc 0)))", OF release]
        xs_then_Ret [where m = "close_from (capture_changed (Suc (Suc 0))) 0", OF close] del: capture_changed.simps)
qed

subsection \<open>Looking up and hovering\<close>

lemma w_item_Some: "fst ptr = g_tree s \<Longrightarrow> item_in (snd ptr) (g_roots s) = Some t \<Longrightarrow> w_item ptr s = (Ret t, s)"
  by (simp add: w_item_def xs_simps)

lemma popup_ref_stack: "stack_ok ps \<Longrightarrow> i < length ps \<Longrightarrow> ps ! i = (p, q, w) \<Longrightarrow>
    popup_ref p (with_popups n ps s) = (Ret q, with_popups n ps s)"
  using structs_nth [of ps i] by (simp add: popup_ref_def xs_simps)

lemma popup_slot_stack: "stack_ok ps \<Longrightarrow> i < length ps \<Longrightarrow>
    popup_slot i (with_popups n ps s) = (Ret (Some (fst (ps ! i))), with_popups n ps s)"
  by (simp add: popup_slot_def xs_simps length_slots slots_nth stack_ok_def)

lemma entry_ok_nth:
  assumes "stack_ok ps" and "i < length ps" and "ps ! i = (p, q, w)"
  shows "pop_hwnd q = p" and "wnd_user w = p" and "pop_count q = length (pop_items q)"
proof -
  have "entry_ok (ps ! i)" using assms(1,2) by (simp add: stack_ok_def)
  with assms(3) show "pop_hwnd q = p" and "wnd_user w = p" and "pop_count q = length (pop_items q)"
    by (simp_all add: entry_ok_def)
qed

lemma popup_row_nth: "i < length (pop_items q) \<Longrightarrow> popup_row q i s = (Ret (pop_items q ! i), s)"
  by (simp add: popup_row_def xs_simps)

lemma map_of_list_update:
  "distinct (map fst xs) \<Longrightarrow> i < length xs \<Longrightarrow> fst (xs ! i) = k \<Longrightarrow> map_of (xs[i := (k, v)]) = (map_of xs)(k \<mapsto> v)"
proof (induction xs arbitrary: i)
  case (Cons x xs)
  show ?case
  proof (cases i)
    case 0
    with Cons.prems show ?thesis by (auto simp: fun_eq_iff)
  next
    case (Suc j)
    with Cons.prems have "k \<in> fst ` set xs" by (metis Suc_less_eq image_eqI length_Cons nth_Cons_Suc nth_mem)
    moreover have "fst x \<notin> fst ` set xs" using Cons.prems(1) by simp
    ultimately have "k \<noteq> fst x" by metis
    with Cons Suc show ?thesis by (cases x) (auto simp: fun_eq_iff)
  qed
qed simp

lemma keys_of_entries [simp]:
  "map (fst \<circ> (\<lambda>(p, q, w). (p, q))) (ps :: entry list) = map fst ps"
  "map (fst \<circ> (\<lambda>(p, q, w). (p, w))) (ps :: entry list) = map fst ps"
  by auto

lemma structs_update:
  assumes "stack_ok ps" and "i < length ps" and "fst (ps ! i) = p"
  shows "structs (ps[i := (p, q, w)]) = (structs ps)(p \<mapsto> q)"
  unfolding structs_def map_update using assms
  by (subst map_of_list_update [where k = p and v = q, symmetric]) (auto simp: stack_ok_def split: prod.splits)

lemma frames_update:
  assumes "stack_ok ps" and "i < length ps" and "fst (ps ! i) = p"
  shows "frames (ps[i := (p, q, w)]) = (frames ps)(p \<mapsto> w)"
  unfolding frames_def map_update using assms
  by (subst map_of_list_update [where k = p and v = w, symmetric]) (auto simp: stack_ok_def split: prod.splits)

lemma slots_update: "i < length ps \<Longrightarrow> fst (ps ! i) = p \<Longrightarrow> slots (ps[i := (p, q, w)]) = slots ps"
  by (simp add: slots_def map_update list_update_same_conv)

lemma stack_ok_update:
  assumes "stack_ok ps" and "i < length ps" and "fst (ps ! i) = p" and "entry_ok (p, q, w)"
  shows "stack_ok (ps[i := (p, q, w)])"
proof -
  have "map fst (ps[i := (p, q, w)]) = map fst ps" using assms by (simp add: map_update list_update_same_conv)
  then show ?thesis using assms by (auto simp: stack_ok_def dest!: set_update_subset_insert [THEN subsetD])
qed

definition hover_at :: "nat \<Rightarrow> int \<Rightarrow> entry list \<Rightarrow> entry list" where
  "hover_at i r ps = (case ps ! i of (p, q, w) \<Rightarrow> ps[i := (p, q\<lparr>pop_hover := r\<rparr>, w)])"

lemma length_hover_at [simp]: "length (hover_at i r ps) = length ps"
  by (simp add: hover_at_def split: prod.splits)

lemma hover_at_nth: "i < length ps \<Longrightarrow> ps ! i = (p, q, w) \<Longrightarrow> hover_at i r ps ! i = (p, q\<lparr>pop_hover := r\<rparr>, w)"
  by (simp add: hover_at_def)

lemma hover_at_other: "i \<noteq> j \<Longrightarrow> hover_at i r ps ! j = ps ! j"
  by (simp add: hover_at_def split: prod.splits)

lemma stack_ok_hover: "stack_ok ps \<Longrightarrow> i < length ps \<Longrightarrow> stack_ok (hover_at i r ps)"
proof -
  assume ok: "stack_ok ps" "i < length ps"
  obtain p q w where e: "ps ! i = (p, q, w)" by (cases "ps ! i")
  then have "entry_ok (p, q, w)" using ok by (metis nth_mem stack_ok_def)
  then show ?thesis using stack_ok_update [OF ok, of p "q\<lparr>pop_hover := r\<rparr>" w] e by (simp add: hover_at_def entry_ok_def)
qed

lemma popup_set_hover_stack:
  assumes "stack_ok ps" and "i < length ps" and "ps ! i = (p, q, w)"
  shows "popup_set_hover (Some p) r (with_popups n ps s) = (Ret (), with_popups n (hover_at i r ps) s)"
proof (cases "pop_hover q = r")
  case True
  then have "q\<lparr>pop_hover := r\<rparr> = q" by (cases q) simp
  then have "hover_at i r ps = ps" using assms by (simp add: hover_at_def list_update_same_conv)
  then show ?thesis using True
    by (simp add: popup_set_hover_def xs_bind_Ret [where m = "popup_ref p", OF popup_ref_stack [OF assms]] xs_simps)
next
  case False
  have "(with_popups n ps s)\<lparr>popup_heap := (structs ps)(p \<mapsto> q\<lparr>pop_hover := r\<rparr>)\<rparr> = with_popups n (hover_at i r ps) s"
    using assms frames_nth [of ps i]
    by (cases s) (simp add: hover_at_def with_popups_def slots_update structs_update frames_update fun_upd_idem)
  with False show ?thesis
    by (simp add: popup_set_hover_def popup_set_def xs_bind_Ret [where m = "popup_ref p", OF popup_ref_stack [OF assms]] xs_simps)
qed

primrec unhovered :: "nat \<Rightarrow> entry list \<Rightarrow> entry list" where
  "unhovered 0 ps = ps"
| "unhovered (Suc i) ps = hover_at i (-1) (unhovered i ps)"

lemma length_unhovered [simp]: "length (unhovered i ps) = length ps"
  by (induction i) simp_all

lemma stack_ok_unhovered: "stack_ok ps \<Longrightarrow> i \<le> length ps \<Longrightarrow> stack_ok (unhovered i ps)"
  by (induction i) (simp_all add: stack_ok_hover)

lemma unhover_loop_stack:
  "stack_ok ps \<Longrightarrow> i \<le> length ps \<Longrightarrow> unhover_loop i (with_popups n ps s) = (Ret (), with_popups n (unhovered i ps) s)"
proof (induction i)
  case (Suc i)
  then have ok: "stack_ok (unhovered i ps)" "i < length (unhovered i ps)" by (simp_all add: stack_ok_unhovered)
  obtain p q w where e: "unhovered i ps ! i = (p, q, w)" by (cases "unhovered i ps ! i")
  with popup_slot_stack [OF ok, of n s] have "popup_slot i (with_popups n (unhovered i ps) s) = (Ret (Some p), with_popups n (unhovered i ps) s)"
    by simp
  with popup_set_hover_stack [OF ok e, of "-1" n s] Suc show ?case by (simp add: xs_simps)
qed (simp add: xs_simps)

subsection \<open>Pointing\<close>

text \<open>The topmost popup under the point, and the row there.\<close>

primrec hit :: "point \<Rightarrow> entry list \<Rightarrow> nat \<Rightarrow> (nat \<times> nat) option" where
  "hit pt ps 0 = None"
| "hit pt ps (Suc d) =
     (case ps ! d of (p, q, w) \<Rightarrow>
        if in_rect (wnd_rect w) pt \<and> 0 \<le> row_at (wnd_rect w) pt \<and> row_at (wnd_rect w) pt < int (pop_count q)
        then Some (d, nat (row_at (wnd_rect w) pt))
        else hit pt ps d)"

lemma hit_Some: "hit pt ps d = Some (i, row) \<Longrightarrow> i < d \<and> row < pop_count (fst (snd (ps ! i)))"
  by (induction d) (auto split: prod.splits if_splits)

lemma point_loop_stack:
  assumes "stack_ok ps"
  shows "d \<le> length ps \<Longrightarrow> point_loop pt d (with_popups n ps s)
    = (Ret (map_option (\<lambda>(i, row). (fst (ps ! i), row)) (hit pt ps d)), with_popups n ps s)"
proof (induction d)
  case (Suc d)
  then have d: "d < length ps" by simp
  obtain p q w where e: "ps ! d = (p, q, w)" by (cases "ps ! d")
  note hwnd = entry_ok_nth(1) [OF assms d e]
  have slot: "popup_slot d (with_popups n ps s) = (Ret (Some p), with_popups n ps s)"
    using popup_slot_stack [OF assms d] e by simp
  have "frames ps p = Some w" using frames_nth [OF assms d] e by simp
  then show ?case using Suc hwnd e
    by (simp add: xs_bind_Ret [where m = "popup_slot d", OF slot] xs_bind_Ret [where m = "popup_ref p", OF popup_ref_stack [OF assms d e]] xs_simps
        split: if_splits)
qed (simp add: xs_simps)

lemma popup_at_point_stack: "stack_ok ps \<Longrightarrow> popup_at_point pt (with_popups (length ps) ps s)
    = (Ret (map_option (\<lambda>(i, row). (fst (ps ! i), row)) (hit pt ps (length ps))), with_popups (length ps) ps s)"
  by (simp add: popup_at_point_def xs_simps point_loop_stack)

subsection \<open>Painting\<close>

definition items_ok :: "win_state \<Rightarrow> item_ptr list \<Rightarrow> bool" where
  "items_ok s ptrs \<longleftrightarrow> (\<forall>ptr \<in> set ptrs. fst ptr = g_tree s \<and> item_in (snd ptr) (g_roots s) \<noteq> None)"

definition painted_row :: "popup \<Rightarrow> win_item \<Rightarrow> nat \<Rightarrow> painted" where
  "painted_row q t i = Painted (label_text (win_data t)) (int i = pop_hover q)
     (int i \<noteq> pop_hover q \<and> \<not> win_clickable (win_data t) \<and> win_children t = []) (item_visible_child_count t \<noteq> 0)"

definition picture :: "win_state \<Rightarrow> popup \<Rightarrow> nat \<Rightarrow> painted list" where
  "picture s q n = map (\<lambda>i. painted_row q (the (item_in (snd (pop_items q ! i)) (g_roots s))) i) [0..<n]"

lemma items_ok_nth: "items_ok s ptrs \<Longrightarrow> i < length ptrs \<Longrightarrow>
    \<exists>t. item_in (snd (ptrs ! i)) (g_roots s) = Some t \<and> w_item (ptrs ! i) s = (Ret t, s)"
  using w_item_Some [of "ptrs ! i" s] by (fastforce simp: items_ok_def)

lemma items_ok_with [simp]: "items_ok (with_popups n ps s) = items_ok s"
  by (simp add: fun_eq_iff items_ok_def)

lemma items_ok_fields [simp]: "items_ok (s\<lparr>popup_fresh := k\<rparr>) = items_ok s" "items_ok (s\<lparr>capture := c\<rparr>) = items_ok s"
  by (simp_all add: fun_eq_iff items_ok_def)

lemma paint_loop_rows: "items_ok s (pop_items q) \<Longrightarrow> n \<le> length (pop_items q) \<Longrightarrow> paint_loop q n s = (Ret (picture s q n), s)"
proof (induction n)
  case (Suc i)
  then obtain t where t: "item_in (snd (pop_items q ! i)) (g_roots s) = Some t" "w_item (pop_items q ! i) s = (Ret t, s)"
    using items_ok_nth [of s "pop_items q" i] by auto
  have row: "popup_row q i s = (Ret (pop_items q ! i), s)" using Suc.prems by (simp add: popup_row_nth)
  have "paint_row q i s = (Ret (painted_row q t i), s)"
    by (simp add: paint_row_def painted_row_def xs_bind_Ret [where m = "popup_row q i", OF row] xs_bind_Ret [where m = "w_item (pop_items q ! i)", OF t(2)] xs_simps)
  with Suc t(1) show ?case by (simp add: xs_simps picture_def)
qed (simp add: xs_simps picture_def)

lemma picture_fields [simp]: "picture (with_popups n ps s) = picture s" "picture (s\<lparr>popup_fresh := k\<rparr>) = picture s"
  by (simp_all add: fun_eq_iff picture_def)

lemma popup_paint_stack:
  assumes "stack_ok ps" and "i < length ps" and "ps ! i = (p, q, w)" and "items_ok s (pop_items q)"
  shows "popup_paint p (with_popups n ps s)
    = (Ret (), with_popups n (ps[i := (p, q, w\<lparr>wnd_picture := picture s q (pop_count q)\<rparr>)]) s)"
proof -
  note e = entry_ok_nth [OF assms(1-3)]
  let ?w = "w\<lparr>wnd_picture := picture s q (pop_count q)\<rparr>"
  have frame: "frames ps p = Some w" using frames_nth [OF assms(1,2)] assms(3) by simp
  have rows: "paint_loop q (pop_count q) (with_popups n ps s) = (Ret (picture s q (pop_count q)), with_popups n ps s)"
    using paint_loop_rows [of "with_popups n ps s" q "pop_count q"] assms(4) e(3) by simp
  have "(with_popups n ps s)\<lparr>windows := (frames ps)(p \<mapsto> ?w)\<rparr> = with_popups n (ps[i := (p, q, ?w)]) s"
    using assms structs_nth [of ps i]
    by (cases s) (simp add: with_popups_def slots_update structs_update frames_update fun_upd_idem)
  then show ?thesis using frame e(2)
    by (simp add: popup_paint_def xs_bind_Ret [where m = "popup_ref p", OF popup_ref_stack [OF assms(1-3)]]
        xs_bind_Ret [where m = "paint_loop q (pop_count q)", OF rows] xs_simps)
qed

subsection \<open>Opening\<close>

definition new_popup :: "nat \<Rightarrow> item_ptr \<Rightarrow> win_item \<Rightarrow> nat \<Rightarrow> popup" where
  "new_popup p owner t depth = \<lparr>pop_hwnd = p, pop_owner = owner, pop_items = visible_children owner t,
     pop_count = item_visible_child_count t, pop_hover = -1, pop_depth = depth\<rparr>"

definition new_rect :: "desk \<Rightarrow> win_item \<Rightarrow> int \<Rightarrow> int \<Rightarrow> nat \<Rightarrow> rect option \<Rightarrow> rect" where
  "new_rect d t x y depth parent =
     (let (w, h) = popup_measure d t;
          (x1, y1) = popup_adjust_position (d_work_area d (x, y)) x y w h (depth > 0) parent
      in \<lparr>r_left = x1, r_top = y1, r_right = x1 + w, r_bottom = y1 + h\<rparr>)"

definition new_entry :: "desk \<Rightarrow> win_state \<Rightarrow> item_ptr \<Rightarrow> win_item \<Rightarrow> int \<Rightarrow> int \<Rightarrow> nat \<Rightarrow> rect option \<Rightarrow> entry" where
  "new_entry d s owner t x y depth parent =
     (let p = popup_fresh s; q = new_popup p owner t depth
      in (p, q, \<lparr>wnd_rect = new_rect d t x y depth parent, wnd_user = p, wnd_picture = picture s q (pop_count q)\<rparr>))"

lemma visible_children_ok: "fst owner = g_tree s \<Longrightarrow> item_in (snd owner) (g_roots s) = Some t \<Longrightarrow>
    items_ok s (visible_children owner t)"
  unfolding items_ok_def
proof
  fix ptr assume "fst owner = g_tree s" and t: "item_in (snd owner) (g_roots s) = Some t" and "ptr \<in> set (visible_children owner t)"
  then show "fst ptr = g_tree s \<and> item_in (snd ptr) (g_roots s) \<noteq> None"
    using visible_children_valid [OF t, of ptr "fst owner"] by (metis fst_conv option.distinct(1) prod.collapse snd_conv)
qed

text \<open>What \<open>popup_open\<close> does once the popups in the way are closed.\<close>

lemma popup_enter_stack:
  assumes ok: "stack_ok ps" and room: "length ps < DD_MAX_POPUPS" and fresh: "popup_fresh s \<notin> fst ` set ps"
    and owner: "fst owner = g_tree s" "item_in (snd owner) (g_roots s) = Some t"
  shows "xs_bind (popup_alloc owner t (length ps)) (\<lambda>p.
          xs_bind (create_window d p r) (\<lambda>ok.
             if \<not> ok then xs_then (popup_free (Some p)) (xs_return None)
             else xs_bind (popup_ref p) (\<lambda>q.
               xs_then (popup_set p (q\<lparr>pop_hwnd := p\<rparr>))
               (xs_then (set_slot (length ps) (Some p))
               (xs_then (xs_modify (\<lambda>s. if g_popup_count s < length ps + 1 then s\<lparr>g_popup_count := length ps + 1\<rparr> else s))
               (xs_then (popup_paint p)
                 (xs_return (Some p))))))))
      (with_popups (length ps) ps s) =
    (if d_create d (popup_fresh s)
     then (Ret (Some (popup_fresh s)),
           with_popups (Suc (length ps)) (ps @ [(popup_fresh s, new_popup (popup_fresh s) owner t (length ps),
             \<lparr>wnd_rect = r, wnd_user = popup_fresh s,
              wnd_picture = picture s (new_popup (popup_fresh s) owner t (length ps)) (item_visible_child_count t)\<rparr>)])
             (s\<lparr>popup_fresh := popup_fresh s + 1\<rparr>))
     else (Ret None, with_popups (length ps) ps (s\<lparr>popup_fresh := popup_fresh s + 1\<rparr>)))" (is "?lhs = _")
proof -
  let ?p = "popup_fresh s" and ?sn = "s\<lparr>popup_fresh := popup_fresh s + 1\<rparr>"
  let ?qz = "new_popup 0 owner t (length ps)" and ?q = "new_popup ?p owner t (length ps)"
  let ?w = "\<lparr>wnd_rect = r, wnd_user = ?p, wnd_picture = []\<rparr>"
  let ?base = "with_popups (length ps) ps ?sn"
  let ?a = "?base\<lparr>popup_heap := (structs ps)(?p \<mapsto> ?qz)\<rparr>"
  have alloc: "popup_alloc owner t (length ps) (with_popups (length ps) ps s) = (Ret ?p, ?a)"
    by (simp add: popup_alloc_def popup_set_def xs_simps new_popup_def)
  have undo: "?a\<lparr>popup_heap := structs ps\<rparr> = ?base" by (cases s) (simp add: with_popups_def)
  show ?thesis
  proof (cases "d_create d ?p")
    case False
    then show ?thesis using fresh
      by (simp add: xs_bind_Ret [where m = "popup_alloc owner t (length ps)", OF alloc] create_window_def popup_free_def
          popup_ref_def xs_simps structs_fresh undo)
  next
    case True
    let ?e = "(?p, ?q, ?w)"
    have okN: "stack_ok (ps @ [?e])" using ok room fresh by (simp add: stack_ok_snoc entry_ok_def new_popup_def)
    have paint: "popup_paint ?p (with_popups (Suc (length ps)) (ps @ [?e]) ?sn)
      = (Ret (), with_popups (Suc (length ps)) (ps @ [(?p, ?q, ?w\<lparr>wnd_picture := picture s ?q (pop_count ?q)\<rparr>)]) ?sn)"
      using popup_paint_stack [OF okN, of "length ps" ?p ?q ?w ?sn "Suc (length ps)"] visible_children_ok [OF owner]
      by (simp add: new_popup_def)
    let ?b = "?a\<lparr>windows := (frames ps)(?p \<mapsto> ?w)\<rparr>"
    have create: "create_window d ?p r ?a = (Ret True, ?b)" using True by (simp add: create_window_def xs_simps)
    have ref: "popup_ref ?p ?b = (Ret ?qz, ?b)" by (simp add: popup_ref_def xs_simps)
    let ?c = "?b\<lparr>popup_heap := (structs ps)(?p \<mapsto> ?q)\<rparr>"
    have set: "popup_set ?p (?qz\<lparr>pop_hwnd := ?p\<rparr>) ?b = (Ret (), ?c)" by (simp add: popup_set_def xs_simps new_popup_def)
    have slot: "set_slot (length ps) (Some ?p) ?c = (Ret (), ?c\<lparr>g_popups := slots (ps @ [?e])\<rparr>)"
      using room ok by (simp add: set_slot_def xs_simps length_slots stack_ok_def slots_put)
    have fin: "?c\<lparr>g_popups := slots (ps @ [?e]), g_popup_count := Suc (length ps)\<rparr> = with_popups (Suc (length ps)) (ps @ [?e]) ?sn"
      using fresh by (cases s) (simp add: with_popups_def structs_snoc frames_snoc)
    have count: "(\<lambda>s. if g_popup_count s < length ps + 1 then s\<lparr>g_popup_count := length ps + 1\<rparr> else s) (?c\<lparr>g_popups := slots (ps @ [?e])\<rparr>)
      = with_popups (Suc (length ps)) (ps @ [?e]) ?sn"
      unfolding fin [symmetric] by simp
    have "?lhs = (Ret (Some ?p), with_popups (Suc (length ps)) (ps @ [(?p, ?q, ?w\<lparr>wnd_picture := picture s ?q (pop_count ?q)\<rparr>)]) ?sn)"
      by (simp only: xs_bind_Ret [where m = "popup_alloc owner t (length ps)", OF alloc] xs_bind_Ret [where m = "create_window d ?p r", OF create]
          xs_bind_Ret [where m = "popup_ref ?p", OF ref] xs_then_Ret [where m = "popup_set ?p (?qz\<lparr>pop_hwnd := ?p\<rparr>)", OF set]
          xs_then_Ret [where m = "set_slot (length ps) (Some ?p)", OF slot] xs_then_Ret [where m = "popup_paint ?p", OF paint]
          not_True_eq_False if_False xs_then_simps count xs_return_def)
    with True show ?thesis by (simp add: new_popup_def)
  qed
qed

lemma popup_open_stack:
  assumes ok: "stack_ok ps" "capture_ok ps s" and depth: "depth \<le> length ps" "depth < DD_MAX_POPUPS" "depth = 0 \<Longrightarrow> ps = []"
    and fresh: "popup_fresh s \<notin> fst ` set ps"
    and owner: "fst owner = g_tree s" "item_in (snd owner) (g_roots s) = Some t" "item_visible_child_count t \<noteq> 0"
  shows "popup_open d owner x y depth parent (with_popups (length ps) ps s) =
    (if d_create d (popup_fresh s)
     then (Ret (Some (popup_fresh s)), with_popups (Suc depth) (take depth ps @ [new_entry d s owner t x y depth parent])
             (s\<lparr>popup_fresh := popup_fresh s + 1\<rparr>))
     else (Ret None, with_popups depth (take depth ps) (s\<lparr>popup_fresh := popup_fresh s + 1\<rparr>)))"
proof -
  let ?qs = "take depth ps"
  have len: "length ?qs = depth" using depth(1) by simp
  have item: "w_item owner (with_popups (length ps) ps s) = (Ret t, with_popups (length ps) ps s)"
    using owner by (simp add: w_item_Some)
  have close: "popup_close_from depth (with_popups (length ps) ps s) = (Ret (), with_popups depth ?qs s)"
  proof (cases depth)
    case 0
    with depth(3) show ?thesis by (simp add: popup_close_from_empty)
  next
    case (Suc i)
    with popup_close_from_stack [OF ok, of i] len show ?thesis by simp
  qed
  obtain w h x1 y1 where size: "popup_measure d t = (w, h)" and place: "popup_adjust_position (d_work_area d (x, y)) x y w h (depth > 0) parent = (x1, y1)"
    by fastforce
  have room: "length ?qs < DD_MAX_POPUPS" and new: "popup_fresh s \<notin> fst ` set ?qs" using depth fresh by (auto dest: in_set_takeD)
  from popup_enter_stack [OF stack_ok_take [OF ok(1)] room new owner(1,2), where d = d and r = "new_rect d t x y depth parent", unfolded len]
  show ?thesis using depth(2) owner(3)
    by (simp add: popup_open_def xs_bind_Ret [where m = "w_item owner", OF item] xs_then_Ret [where m = "popup_close_from depth", OF close]
        size place new_entry_def new_rect_def len new_popup_def Let_def min_absorb2 depth(1))
qed

subsection \<open>The invariant of the popups\<close>

text \<open>
  A popup shows exactly the children of its owner that have not been removed, in their order, in
  a window high enough for its rows; it has at least one row; the highlighted row exists; the
  popup above belongs to one of its rows; and the first popup belongs to a root.
\<close>

definition entry_wf :: "win_state \<Rightarrow> nat \<Rightarrow> entry \<Rightarrow> bool" where
  "entry_wf s i e = (case e of (p, q, w) \<Rightarrow>
     p < popup_fresh s \<and> pop_depth q = i \<and> -1 \<le> pop_hover q \<and> pop_hover q < int (pop_count q)
     \<and> r_bottom (wnd_rect w) = r_top (wnd_rect w) + int (pop_count q) * DD_ROW_HEIGHT
     \<and> fst (pop_owner q) = g_tree s \<and> pop_items q \<noteq> []
     \<and> (\<exists>t. item_in (snd (pop_owner q)) (g_roots s) = Some t \<and> pop_items q = visible_children (pop_owner q) t))"

definition linked :: "entry list \<Rightarrow> bool" where
  "linked ps \<longleftrightarrow>
     (\<forall>i. Suc i < length ps \<longrightarrow> pop_owner (fst (snd (ps ! Suc i))) \<in> set (pop_items (fst (snd (ps ! i)))))
     \<and> (ps \<noteq> [] \<longrightarrow> length (snd (pop_owner (fst (snd (ps ! 0))))) = 1)"

definition wins_ok :: "win_state \<Rightarrow> entry list \<Rightarrow> bool" where
  "wins_ok s ps \<longleftrightarrow> stack_ok ps \<and> capture_ok ps s \<and> \<not> g_closing_popups s
     \<and> (\<forall>i < length ps. entry_wf s i (ps ! i)) \<and> linked ps"

definition win_ok :: "win_state \<Rightarrow> bool" where
  "win_ok s \<longleftrightarrow> (\<exists>ps. s = with_popups (length ps) ps s \<and> wins_ok s ps)"

lemma measure_height: "measure_loop width cs w n = (w1, h) \<Longrightarrow> h = (n + int (length (filter is_shown cs))) * DD_ROW_HEIGHT"
proof (induction width cs w n rule: measure_loop.induct)
  case (2 width c cs w n)
  then show ?case by (auto simp: is_shown_def algebra_simps split: if_splits)
qed simp

lemma new_rect_height: "r_bottom (new_rect d t x y depth parent)
    = r_top (new_rect d t x y depth parent) + int (item_visible_child_count t) * DD_ROW_HEIGHT"
  using measure_height [of "d_text_width d" "win_children t" 140 0]
  by (auto simp: new_rect_def popup_measure_def item_visible_child_count_def split: prod.splits)

lemma entry_wf_more: "entry_wf s i e \<Longrightarrow> entry_wf (s\<lparr>popup_fresh := popup_fresh s + 1\<rparr>) i e"
  "entry_wf s i e \<Longrightarrow> entry_wf (s\<lparr>capture := c\<rparr>) i e"
  by (auto simp: entry_wf_def)

lemma entry_wf_items: "entry_wf s i (p, q, w) \<Longrightarrow> items_ok s (pop_items q)"
  by (auto simp: entry_wf_def visible_children_ok)

lemma wins_ok_fresh: "wins_ok s ps \<Longrightarrow> popup_fresh s \<notin> fst ` set ps"
proof
  assume ok: "wins_ok s ps" and "popup_fresh s \<in> fst ` set ps"
  then obtain i where i: "i < length ps" and "fst (ps ! i) = popup_fresh s" by (auto simp: in_set_conv_nth)
  moreover from ok i have "entry_wf s i (ps ! i)" by (simp add: wins_ok_def)
  ultimately show False by (cases "ps ! i") (simp add: entry_wf_def)
qed

lemma wins_ok_take: "wins_ok s ps \<Longrightarrow> wins_ok s (take (Suc d) ps)"
  unfolding wins_ok_def
proof (intro conjI; elim conjE)
  assume "capture_ok ps s"
  then show "capture_ok (take (Suc d) ps) s" by (cases ps) (auto simp: capture_ok_def split: option.splits)
next
  assume "linked ps"
  then show "linked (take (Suc d) ps)" by (simp add: linked_def)
qed (auto simp: stack_ok_take)

lemma wins_ok_empty: "\<not> g_closing_popups s \<Longrightarrow> capture s = None \<Longrightarrow> wins_ok s []"
  by (simp add: wins_ok_def capture_ok_def linked_def)

lemma wins_ok_snoc:
  assumes ok: "wins_ok s ps" and room: "length ps < DD_MAX_POPUPS"
    and owner: "fst owner = g_tree s" "item_in (snd owner) (g_roots s) = Some t" "item_visible_child_count t \<noteq> 0"
    and link: "if ps = [] then length (snd owner) = 1 \<and> capture s = None else owner \<in> set (pop_items (fst (snd (last ps))))"
  shows "wins_ok (s\<lparr>popup_fresh := popup_fresh s + 1\<rparr>) (ps @ [new_entry d s owner t x y (length ps) parent])" (is "wins_ok ?s (ps @ [?e])")
proof -
  have "visible_children owner t \<noteq> []" using owner(3) by (metis length_visible_children list.size(3))
  then have e: "entry_wf ?s (length ps) ?e" and "entry_ok ?e"
    using owner by (auto simp: entry_wf_def entry_ok_def new_entry_def new_popup_def new_rect_height Let_def)
  moreover have "fst ?e \<notin> fst ` set ps" using wins_ok_fresh [OF ok] by (simp add: new_entry_def Let_def)
  moreover have "entry_wf ?s i ((ps @ [?e]) ! i)" if "i < length (ps @ [?e])" for i
    using that e ok entry_wf_more(1) [of s i "ps ! i"] by (auto simp: nth_append wins_ok_def less_Suc_eq)
  moreover have "capture_ok (ps @ [?e]) ?s" using ok link by (cases ps) (auto simp: wins_ok_def capture_ok_def split: option.splits)
  moreover have "linked (ps @ [?e])"
  proof (cases "ps = []")
    case True
    with link show ?thesis by (simp add: linked_def new_entry_def new_popup_def Let_def)
  next
    case False
    then obtain n where n: "length ps = Suc n" and "last ps = ps ! n" by (cases "length ps") (auto simp: last_conv_nth)
    with False link have last: "owner \<in> set (pop_items (fst (snd (ps ! n))))" by simp
    have "pop_owner (fst (snd ?e)) = owner" by (simp add: new_entry_def new_popup_def Let_def)
    with last n False ok show ?thesis by (auto simp: linked_def wins_ok_def nth_append less_Suc_eq)
  qed
  ultimately show ?thesis using ok room by (auto simp: wins_ok_def stack_ok_snoc)
qed

lemma wins_ok_hover:
  assumes ok: "wins_ok s ps" and i: "i < length ps" and r: "-1 \<le> r" "r < int (pop_count (fst (snd (ps ! i))))"
  shows "wins_ok s (hover_at i r ps)"
proof -
  obtain p q w where e: "ps ! i = (p, q, w)" by (cases "ps ! i")
  have same: "fst (hover_at i r ps ! j) = fst (ps ! j)"
    "pop_owner (fst (snd (hover_at i r ps ! j))) = pop_owner (fst (snd (ps ! j)))"
    "pop_items (fst (snd (hover_at i r ps ! j))) = pop_items (fst (snd (ps ! j)))" for j
    using e i by (cases "i = j"; simp add: hover_at_nth hover_at_other)+
  have "entry_wf s j (hover_at i r ps ! j)" if "j < length ps" for j
    using that ok e r i by (cases "i = j") (auto simp: wins_ok_def hover_at_nth hover_at_other entry_wf_def)
  moreover have "capture_ok (hover_at i r ps) s"
  proof -
    have "hover_at i r ps \<noteq> []" using i by (metis length_0_conv length_hover_at not_less_zero)
    moreover from this have "fst (hd (hover_at i r ps)) = fst (hd ps)" using same(1) [of 0] i by (metis hd_conv_nth length_0_conv length_hover_at)
    ultimately show ?thesis using ok i by (auto simp: wins_ok_def capture_ok_def split: option.splits)
  qed
  moreover have "linked (hover_at i r ps)"
    using ok same by (metis length_0_conv length_hover_at linked_def wins_ok_def)
  ultimately show ?thesis using ok i by (simp add: wins_ok_def stack_ok_hover)
qed

end
