(* ===== verification/Win_Mouse.thy ===== *)
theory Win_Mouse
  imports Win_Stack
begin

section \<open>The mouse over the popups\<close>

text \<open>
  \<open>handle_popup_mouse\<close> on a stack of popups: what it highlights, opens and closes, and which event
  it writes, against the description a user would give: the topmost popup under the pointer
  takes the click.
\<close>

subsection \<open>Reading the stack off the state\<close>

definition shown_popups :: "win_state \<Rightarrow> entry list" where
  "shown_popups s = map (\<lambda>i. case g_popups s ! i of
       Some p \<Rightarrow> (p, the (popup_heap s p), the (windows s p))
     | None \<Rightarrow> undefined) [0..<g_popup_count s]"

lemma shown_popups_with: "stack_ok ps \<Longrightarrow> shown_popups (with_popups (length ps) ps s) = ps"
  by (rule nth_equalityI) (simp_all add: shown_popups_def slots_nth structs_nth frames_nth)

lemma win_ok_shown:
  assumes "win_ok s"
  shows "s = with_popups (length (shown_popups s)) (shown_popups s) s" and "wins_ok s (shown_popups s)"
proof -
  from assms obtain ps where ps: "s = with_popups (length ps) ps s" "wins_ok s ps" by (auto simp: win_ok_def)
  with shown_popups_with [of ps s] have "shown_popups s = ps" by (simp add: wins_ok_def)
  with ps show "s = with_popups (length (shown_popups s)) (shown_popups s) s" and "wins_ok s (shown_popups s)" by simp_all
qed

lemma wins_ok_with [simp]: "wins_ok (with_popups n qs s) ps = wins_ok s ps"
  by (simp add: wins_ok_def capture_ok_def entry_wf_def)

lemma win_ok_with: "wins_ok s ps \<Longrightarrow> win_ok (with_popups (length ps) ps s)"
  by (auto simp: win_ok_def)

lemma wins_ok_out [simp]: "wins_ok (s\<lparr>g_out := ls\<rparr>) ps = wins_ok s ps"
  by (simp add: wins_ok_def capture_ok_def entry_wf_def)

subsection \<open>Which row is under the pointer\<close>

definition topmost :: "point \<Rightarrow> entry list \<Rightarrow> nat option" where
  "topmost pt ps = find (\<lambda>i. in_rect (wnd_rect (snd (snd (ps ! i)))) pt) (rev [0..<length ps])"

definition row_under :: "point \<Rightarrow> entry list \<Rightarrow> nat \<Rightarrow> nat" where
  "row_under pt ps i = nat ((snd pt - r_top (wnd_rect (snd (snd (ps ! i))))) div DD_ROW_HEIGHT)"

lemma in_rect_row:
  assumes "in_rect r pt" and "r_bottom r = r_top r + int n * DD_ROW_HEIGHT"
  shows "0 \<le> row_at r pt \<and> row_at r pt < int n"
proof -
  have "0 \<le> snd pt - r_top r" and "snd pt - r_top r < int n * 28"
    using assms by (auto simp: in_rect_def DD_ROW_HEIGHT_def)
  then show ?thesis by (simp add: row_at_def DD_ROW_HEIGHT_def div_less_iff_less_mult pos_imp_zdiv_nonneg_iff)
qed

lemma hit_topmost:
  assumes "\<And>i. i < length ps \<Longrightarrow> entry_wf s i (ps ! i)"
  shows "n \<le> length ps \<Longrightarrow> hit pt ps n = map_option (\<lambda>i. (i, row_under pt ps i))
      (find (\<lambda>i. in_rect (wnd_rect (snd (snd (ps ! i)))) pt) (rev [0..<n]))"
proof (induction n)
  case (Suc n)
  obtain p q w where e: "ps ! n = (p, q, w)" by (cases "ps ! n")
  with assms [of n] Suc.prems have "r_bottom (wnd_rect w) = r_top (wnd_rect w) + int (pop_count q) * DD_ROW_HEIGHT"
    by (simp add: entry_wf_def)
  with in_rect_row [of "wnd_rect w" pt "pop_count q"] Suc e show ?case by (auto simp: row_under_def row_at_def)
qed simp

text \<open>The item of a row, and the event a click on it writes.\<close>

definition row_item :: "win_state \<Rightarrow> entry \<Rightarrow> nat \<Rightarrow> win_item" where
  "row_item s e row = the (item_in (snd (pop_items (fst (snd e)) ! row)) (g_roots s))"

definition activates :: "win_item \<Rightarrow> bool" where
  "activates t \<longleftrightarrow> win_clickable (win_data t) \<and> item_visible_child_count t = 0"

definition clicked_item :: "win_state \<Rightarrow> point \<Rightarrow> entry list \<Rightarrow> win_item option" where
  "clicked_item s pt ps =
     (case topmost pt ps of
        None \<Rightarrow> None
      | Some i \<Rightarrow> (let t = row_item s (ps ! i) (row_under pt ps i) in if activates t then Some t else None))"

definition click_lines :: "win_item option \<Rightarrow> string list" where
  "click_lines t = (case t of None \<Rightarrow> [] | Some t \<Rightarrow> emit_click_line (win_name (win_data t)))"

text \<open>A click closes the menus when it misses them, and when it activates an item without \<open>click_stay\<close>.\<close>

definition click_closes :: "win_state \<Rightarrow> point \<Rightarrow> entry list \<Rightarrow> bool" where
  "click_closes s pt ps \<longleftrightarrow> topmost pt ps = None
     \<or> (case clicked_item s pt ps of None \<Rightarrow> False | Some t \<Rightarrow> \<not> win_stay (win_data t))"

definition moved :: "win_state \<Rightarrow> nat \<Rightarrow> nat option \<Rightarrow> string list \<Rightarrow> win_state" where
  "moved s k c ls = s\<lparr>popup_fresh := k, capture := c, g_out := g_out s @ ls\<rparr>"

lemma moved_simps [simp]:
  "moved s (popup_fresh s) (capture s) [] = s"
  "moved s k (capture s) [] = s\<lparr>popup_fresh := k\<rparr>"
  "moved s (popup_fresh s) c [] = s\<lparr>capture := c\<rparr>"
  "moved (s\<lparr>popup_fresh := k\<rparr>) k1 c ls = moved s k1 c ls"
  "popup_fresh (moved s k c ls) = k" "capture (moved s k c ls) = c" "g_out (moved s k c ls) = g_out s @ ls"
  "g_roots (moved s k c ls) = g_roots s" "g_tree (moved s k c ls) = g_tree s"
  "tray (moved s k c ls) = tray s" "taskbar (moved s k c ls) = taskbar s" "taskbar_told (moved s k c ls) = taskbar_told s"
  "g_next_tray_id (moved s k c ls) = g_next_tray_id s" "quitting (moved s k c ls) = quitting s" "g_host (moved s k c ls) = g_host s"
  by (cases s; simp add: moved_def)+

lemma moved_nil: "moved s k c [] = s\<lparr>popup_fresh := k, capture := c\<rparr>"
  by (cases s) (simp add: moved_def)

subsection \<open>Opening a submenu\<close>

lemma wins_ok_entry:
  assumes "wins_ok s ps" and "i < length ps" and "ps ! i = (p, q, w)"
  shows "stack_ok ps" and "capture_ok ps s" and "pop_depth q = i" and "items_ok s (pop_items q)"
    and "pop_count q = length (pop_items q)" and "pop_hwnd q = p" and "popup_fresh s \<notin> fst ` set ps"
proof -
  show ok: "stack_ok ps" "capture_ok ps s" using assms(1) by (simp_all add: wins_ok_def)
  have "entry_wf s i (p, q, w)" using assms by (metis wins_ok_def)
  then show "pop_depth q = i" and "items_ok s (pop_items q)" by (simp_all add: entry_wf_items) (simp add: entry_wf_def)
  show "pop_count q = length (pop_items q)" "pop_hwnd q = p" using entry_ok_nth [OF ok(1) assms(2,3)] by simp_all
  show "popup_fresh s \<notin> fst ` set ps" by (rule wins_ok_fresh [OF assms(1)])
qed

lemma shown_child_of_entry:
  assumes "wins_ok s ps" and "i < length ps" and "ps ! i = (p, q, w)" and "row < length (pop_items q)"
  obtains t where "item_in (snd (pop_items q ! row)) (g_roots s) = Some t" and "fst (pop_items q ! row) = g_tree s"
    and "is_shown t"
proof -
  have "entry_wf s i (p, q, w)" using assms by (metis wins_ok_def)
  then obtain u where u: "item_in (snd (pop_owner q)) (g_roots s) = Some u" "pop_items q = visible_children (pop_owner q) u"
    and tree: "fst (pop_owner q) = g_tree s" by (auto simp: entry_wf_def)
  have "pop_items q ! row \<in> set (visible_children (fst (pop_owner q), snd (pop_owner q)) u)" using assms(4) u(2) by simp
  from visible_children_valid [OF u(1) this] tree that show thesis by (metis fst_conv snd_conv)
qed

lemma wins_ok_same: "s\<lparr>popup_fresh := popup_fresh s\<rparr> = s"
  by simp

lemma popup_open_child_stack:
  assumes ok: "wins_ok s ps" and i: "i < length ps" and e: "ps ! i = (p, q, w)" and row: "row < length (pop_items q)"
    and t: "item_in (snd (pop_items q ! row)) (g_roots s) = Some t" "item_visible_child_count t \<noteq> 0"
  obtains qs k where "popup_open_child d p row (with_popups (length ps) ps s) = (Ret (), with_popups (length qs) qs (s\<lparr>popup_fresh := k\<rparr>))"
    and "wins_ok (s\<lparr>popup_fresh := k\<rparr>) qs" and "i < length qs" and "qs ! i = ps ! i"
proof -
  note we = wins_ok_entry [OF ok i e]
  let ?item = "pop_items q ! row" and ?s = "with_popups (length ps) ps s"
  have tree: "fst ?item = g_tree s" using shown_child_of_entry [OF ok i e row] by blast
  have ref: "popup_ref p ?s = (Ret q, ?s)" by (rule popup_ref_stack [OF we(1) i e])
  have item: "w_item ?item ?s = (Ret t, ?s)" using t tree by (simp add: w_item_Some)
  let ?already = "Suc i < length ps \<and> pop_owner (fst (snd (ps ! Suc i))) = ?item"
  have already: "submenu_open q ?item ?s = (Ret ?already, ?s)"
  proof (cases "Suc i < length ps")
    case True
    obtain c cq cw where c: "ps ! Suc i = (c, cq, cw)" by (cases "ps ! Suc i")
    have slot: "popup_slot (Suc i) ?s = (Ret (Some c), ?s)" using popup_slot_stack [OF we(1) True] c by simp
    show ?thesis using True c we(3)
      by (simp add: submenu_open_def xs_bind_Ret [where m = "popup_slot (Suc i)", OF slot] xs_bind_Ret [where m = "popup_ref c", OF popup_ref_stack [OF we(1) True c]] xs_simps)
  qed (simp add: submenu_open_def we(3) xs_simps)
  have frame: "frames ps p = Some w" using frames_nth [OF we(1) i] e by simp
  let ?r = "wnd_rect w"
  have split: "popup_open_child d p row ?s =
      (if ?already then (Ret (), ?s)
       else xs_then (popup_open d ?item (r_right ?r - 1) (r_top ?r + int row * DD_ROW_HEIGHT) (Suc i) (Some ?r)) (xs_return ()) ?s)"
    using row we(3,5,6) t(2) frame
    by (simp add: popup_open_child_def xs_bind_Ret [where m = "popup_ref p", OF ref] popup_row_nth xs_bind_Ret [where m = "popup_row q row", OF popup_row_nth]
        xs_bind_Ret [where m = "w_item ?item", OF item] xs_bind_Ret [where m = "submenu_open q ?item", OF already] xs_simps Let_def)
  consider (kept) "?already \<or> DD_MAX_POPUPS \<le> Suc i" | (opened) "\<not> ?already" "Suc i < DD_MAX_POPUPS" by linarith
  then show thesis
  proof cases
    case kept
    then have "popup_open_child d p row ?s = (Ret (), ?s)"
      using split by (auto simp: popup_open_def xs_simps)
    then show thesis using that [of ps "popup_fresh s"] ok i by simp
  next
    case opened
    let ?qs = "take (Suc i) ps" and ?k = "popup_fresh s + 1"
    let ?e = "new_entry d s ?item t (r_right ?r - 1) (r_top ?r + int row * DD_ROW_HEIGHT) (Suc i) (Some ?r)"
    have len: "length ?qs = Suc i" using i by simp
    have "popup_open d ?item (r_right ?r - 1) (r_top ?r + int row * DD_ROW_HEIGHT) (Suc i) (Some ?r) ?s =
      (if d_create d (popup_fresh s) then (Ret (Some (popup_fresh s)), with_popups (Suc (Suc i)) (?qs @ [?e]) (s\<lparr>popup_fresh := ?k\<rparr>))
       else (Ret None, with_popups (Suc i) ?qs (s\<lparr>popup_fresh := ?k\<rparr>)))"
      by (rule popup_open_stack [OF we(1,2) _ opened(2) _ we(7) tree t]) (use i in simp_all)
    then have result: "popup_open_child d p row ?s =
      (Ret (), if d_create d (popup_fresh s) then with_popups (Suc (Suc i)) (?qs @ [?e]) (s\<lparr>popup_fresh := ?k\<rparr>)
               else with_popups (Suc i) ?qs (s\<lparr>popup_fresh := ?k\<rparr>))"
      using split opened(1) by (simp add: xs_then_def xs_bind_def xs_return_def)
    have taken: "wins_ok s ?qs" by (rule wins_ok_take [OF ok])
    have "last ?qs = ps ! i" using i by (simp add: take_Suc_conv_app_nth)
    then have grown: "wins_ok (s\<lparr>popup_fresh := ?k\<rparr>) (?qs @ [?e])"
      using wins_ok_snoc [OF taken, of ?item t d "r_right ?r - 1" "r_top ?r + int row * DD_ROW_HEIGHT" "Some ?r"] opened(2) tree t row e i
      unfolding len by (auto simp: take_Suc_conv_app_nth)
    have kept: "wins_ok (s\<lparr>popup_fresh := ?k\<rparr>) ?qs"
      using taken entry_wf_more(1) [of s] by (auto simp: wins_ok_def capture_ok_def)
    show thesis
    proof (cases "d_create d (popup_fresh s)")
      case True
      have "(?qs @ [?e]) ! i = ps ! i" and "length (?qs @ [?e]) = Suc (Suc i)" using i by (simp_all add: nth_append)
      then show thesis using that [of "?qs @ [?e]" ?k] result True grown by simp
    next
      case False
      then show thesis using that [of ?qs ?k] result kept len by simp
    qed
  qed
qed

subsection \<open>A mouse message\<close>

lemma unhovered_nth: "n \<le> i \<Longrightarrow> unhovered n ps ! i = ps ! i"
  by (induction n) (simp_all add: hover_at_other)

lemma wins_ok_unhovered: "wins_ok s ps \<Longrightarrow> n \<le> length ps \<Longrightarrow> wins_ok s (unhovered n ps)"
proof (induction n)
  case (Suc n)
  then have ok: "wins_ok s (unhovered n ps)" and n: "n < length (unhovered n ps)" by simp_all
  then have "entry_wf s n (unhovered n ps ! n)" by (simp add: wins_ok_def)
  then have "-1 < int (pop_count (fst (snd (unhovered n ps ! n))))" by simp
  with wins_ok_hover [OF ok n, of "-1"] show ?case by simp
qed simp

lemma wins_ok_closed: "wins_ok s ps \<Longrightarrow> wins_ok (moved s k None ls) []"
  by (rule wins_ok_empty) (simp_all add: wins_ok_def moved_def)

lemma handle_popup_mouse_miss:
  assumes ok: "wins_ok s ps" and miss: "topmost pt ps = None"
  obtains qs c where "handle_popup_mouse d pt click (with_popups (length ps) ps s) = (Ret (), with_popups (length qs) qs (moved s (popup_fresh s) c []))"
    and "wins_ok (moved s (popup_fresh s) c []) qs" and "click \<Longrightarrow> qs = []"
proof -
  let ?us = "unhovered (length ps) ps"
  have st: "stack_ok ps" and wf: "\<And>i. i < length ps \<Longrightarrow> entry_wf s i (ps ! i)" using ok by (simp_all add: wins_ok_def)
  have "hit pt ps (length ps) = None" using hit_topmost [OF wf, of "length ps" pt] miss by (simp add: topmost_def)
  then have hit: "popup_at_point pt (with_popups (length ps) ps s) = (Ret None, with_popups (length ps) ps s)"
    using popup_at_point_stack [OF st, of pt s] by simp
  have unhover: "unhover_loop (length ps) (with_popups (length ps) ps s) = (Ret (), with_popups (length ps) ?us s)"
    by (rule unhover_loop_stack [OF st]) simp
  have us: "wins_ok s ?us" by (rule wins_ok_unhovered [OF ok]) simp
  show thesis
  proof (cases click)
    case True
    have close: "popup_close_all (with_popups (length ?us) ?us s) = (Ret (), with_popups 0 [] (s\<lparr>capture := None\<rparr>))"
      by (rule popup_close_all_stack) (use us in \<open>simp_all add: wins_ok_def\<close>)
    have "handle_popup_mouse d pt click (with_popups (length ps) ps s) = (Ret (), with_popups 0 [] (s\<lparr>capture := None\<rparr>))"
      using True close by (simp add: handle_popup_mouse_def xs_bind_Ret [where m = "popup_at_point pt", OF hit]
          xs_then_Ret [where m = "unhover_loop (length ps)", OF unhover] xs_simps)
    then show thesis using that [of "[]" None] wins_ok_closed [OF ok, of "popup_fresh s" "[]"] by simp
  next
    case False
    have "handle_popup_mouse d pt click (with_popups (length ps) ps s) = (Ret (), with_popups (length ps) ?us s)"
      using False by (simp add: handle_popup_mouse_def xs_bind_Ret [where m = "popup_at_point pt", OF hit]
          xs_then_Ret [where m = "unhover_loop (length ps)", OF unhover] xs_simps)
    then show thesis using that [of ?us "capture s"] us False by simp
  qed
qed

text \<open>Over a row: the highlight, and the submenu that opens or the submenus that close.\<close>

lemma popup_enter_row:
  assumes ok: "wins_ok s ps" and i: "i < length ps" and e: "ps ! i = (p, q, w)" and row: "row < length (pop_items q)"
    and t: "item_in (snd (pop_items q ! row)) (g_roots s) = Some t"
  obtains qs k where "popup_enter d p q row t (with_popups (length ps) ps s) = (Ret (), with_popups (length qs) qs (s\<lparr>popup_fresh := k\<rparr>))"
    and "wins_ok (s\<lparr>popup_fresh := k\<rparr>) qs" and "i < length qs" and "qs ! i = ps ! i"
    and "item_visible_child_count t = 0 \<Longrightarrow> length qs = Suc i"
proof (cases "item_visible_child_count t = 0")
  case True
  note we = wins_ok_entry [OF ok i e]
  from popup_close_from_stack [OF we(1,2), of i]
  have "popup_close_from (pop_depth q + 1) (with_popups (length ps) ps s) = (Ret (), with_popups (length (take (Suc i) ps)) (take (Suc i) ps) s)"
    using we(3) by simp
  then have "popup_enter d p q row t (with_popups (length ps) ps s) = (Ret (), with_popups (length (take (Suc i) ps)) (take (Suc i) ps) s)"
    using True by (simp add: popup_enter_def)
  then show thesis using that [of "take (Suc i) ps" "popup_fresh s"] True wins_ok_take [OF ok, of i] i by simp
next
  case False
  from popup_open_child_stack [OF ok i e row t False, of d] obtain qs k
    where "popup_open_child d p row (with_popups (length ps) ps s) = (Ret (), with_popups (length qs) qs (s\<lparr>popup_fresh := k\<rparr>))"
      and "wins_ok (s\<lparr>popup_fresh := k\<rparr>) qs" and "i < length qs" and "qs ! i = ps ! i" by metis
  then show thesis using that [of qs k] False by (simp add: popup_enter_def)
qed

lemma handle_popup_mouse_hit:
  assumes ok: "wins_ok s ps" and top: "topmost pt ps = Some i"
  obtains qs k c where "handle_popup_mouse d pt click (with_popups (length ps) ps s)
      = (Ret (), with_popups (length qs) qs (moved s k c (if click then click_lines (clicked_item s pt ps) else [])))"
    and "wins_ok (moved s k c []) qs"
    and "if click \<and> click_closes s pt ps then qs = []
         else i < length qs \<and> pop_hover (fst (snd (qs ! i))) = int (row_under pt ps i)"
proof -
  let ?row = "row_under pt ps i"
  obtain p q w where e: "ps ! i = (p, q, w)" by (cases "ps ! i")
  have wf: "\<And>i. i < length ps \<Longrightarrow> entry_wf s i (ps ! i)" using ok by (simp add: wins_ok_def)
  have hit: "hit pt ps (length ps) = Some (i, ?row)" using hit_topmost [OF wf, of "length ps" pt] top by (simp add: topmost_def)
  from hit_Some [OF hit] e have i: "i < length ps" and row: "?row < pop_count q" by simp_all
  note we = wins_ok_entry [OF ok i e]
  let ?hs = "hover_at i (int ?row) ps"
  have hs: "wins_ok s ?hs" by (rule wins_ok_hover [OF ok i]) (use row e in simp_all)
  let ?q = "q\<lparr>pop_hover := int ?row\<rparr>"
  have eh: "?hs ! i = (p, ?q, w)" and ih: "i < length ?hs" using hover_at_nth [OF i e] i by simp_all
  have rowh: "?row < length (pop_items ?q)" using row we(5) by simp
  let ?item = "pop_items q ! ?row"
  obtain t where t: "item_in (snd ?item) (g_roots s) = Some t" and tree: "fst ?item = g_tree s" and shown: "is_shown t"
    using shown_child_of_entry [OF hs ih eh rowh] by auto
  have at: "popup_at_point pt (with_popups (length ps) ps s) = (Ret (Some (p, ?row)), with_popups (length ps) ps s)"
    using popup_at_point_stack [OF we(1), of pt s] hit e by simp
  have hover: "popup_set_hover (Some p) (int ?row) (with_popups (length ps) ps s) = (Ret (), with_popups (length ps) ?hs s)"
    by (rule popup_set_hover_stack [OF we(1) i e])
  have ref: "popup_ref p (with_popups (length ps) ?hs s) = (Ret ?q, with_popups (length ps) ?hs s)"
    using popup_ref_stack [OF _ ih eh, of "length ps" s] hs by (simp add: wins_ok_def)
  have item: "w_item ?item (with_popups (length ps) ?hs s) = (Ret t, with_popups (length ps) ?hs s)"
    using t tree by (simp add: w_item_Some)
  have titem: "item_in (snd (pop_items ?q ! ?row)) (g_roots s) = Some t" using t by simp
  obtain qs k where "popup_enter d p ?q ?row t (with_popups (length ?hs) ?hs s) = (Ret (), with_popups (length qs) qs (s\<lparr>popup_fresh := k\<rparr>))"
    and qs: "wins_ok (s\<lparr>popup_fresh := k\<rparr>) qs" "i < length qs" "qs ! i = ?hs ! i"
    by (rule popup_enter_row [OF hs ih eh rowh titem])
  then have enter: "popup_enter d p ?q ?row t (with_popups (length ps) ?hs s) = (Ret (), with_popups (length qs) qs (s\<lparr>popup_fresh := k\<rparr>))"
    by simp
  let ?s = "with_popups (length qs) qs (s\<lparr>popup_fresh := k\<rparr>)"
  have split: "handle_popup_mouse d pt click (with_popups (length ps) ps s) =
     (if click \<and> activates t
      then xs_then (if win_stay (win_data t) then xs_return () else popup_close_all) (xs_bind (w_item ?item) win_emit_click) ?s
      else (Ret (), ?s))"
    using shown rowh by (simp add: handle_popup_mouse_def xs_bind_Ret [where m = "popup_at_point pt", OF at]
        xs_then_Ret [where m = "popup_set_hover (Some p) (int ?row)", OF hover] xs_bind_Ret [where m = "popup_ref p", OF ref]
        xs_bind_Ret [where m = "popup_row ?q ?row", OF popup_row_nth [OF rowh]] xs_bind_Ret [where m = "w_item ?item", OF item]
        xs_then_Ret [where m = "popup_enter d p ?q ?row t", OF enter] activates_def is_shown_def xs_return_def)
  have clicked: "clicked_item s pt ps = (if activates t then Some t else None)"
    using top t e by (simp add: clicked_item_def row_item_def)
  have closes: "click_closes s pt ps = (activates t \<and> \<not> win_stay (win_data t))"
    using top by (simp add: click_closes_def clicked)
  have hovered: "pop_hover (fst (snd (qs ! i))) = int ?row" using qs(3) eh by simp
  have item1: "w_item ?item (with_popups n rs u) = (Ret t, with_popups n rs u)" if "g_roots u = g_roots s" "g_tree u = g_tree s" for n rs u
    using t tree that by (simp add: w_item_Some)
  consider (none) "\<not> (click \<and> activates t)" | (stay) "click" "activates t" "win_stay (win_data t)"
    | (close) "click" "activates t" "\<not> win_stay (win_data t)" by blast
  then show thesis
  proof cases
    case none
    then have "(click \<and> activates t) = False" by simp
    with split have "handle_popup_mouse d pt click (with_popups (length ps) ps s) = (Ret (), ?s)" by (simp only: if_False)
    then show thesis using that [of qs k "capture s"] none clicked closes qs hovered by (auto simp: click_lines_def)
  next
    case stay
    then have "handle_popup_mouse d pt click (with_popups (length ps) ps s)
        = (Ret (), with_popups (length qs) qs (moved s k (capture s) (emit_click_line (win_name (win_data t)))))"
      using split by (simp add: xs_simps xs_bind_Ret [where m = "w_item ?item", OF item1] win_emit_click_def moved_def)
    then show thesis using that [of qs k "capture s"] stay clicked closes qs hovered by (simp add: click_lines_def)
  next
    case close
    have "popup_close_all ?s = (Ret (), with_popups 0 [] (s\<lparr>popup_fresh := k, capture := None\<rparr>))"
      by (rule popup_close_all_stack) (use qs(1) in \<open>simp_all add: wins_ok_def\<close>)
    then have "handle_popup_mouse d pt click (with_popups (length ps) ps s)
        = (Ret (), with_popups 0 [] (moved s k None (emit_click_line (win_name (win_data t)))))"
      using split close by (simp add: xs_then_Ret [where m = popup_close_all] xs_bind_Ret [where m = "w_item ?item", OF item1] win_emit_click_def moved_def xs_simps)
    then show thesis using that [of "[]" k None] close clicked closes wins_ok_closed [OF ok, of k "[]"] by (simp add: click_lines_def)
  qed
qed

lemma handle_popup_mouse_stack:
  assumes ok: "wins_ok s ps"
  obtains qs k c where "handle_popup_mouse d pt click (with_popups (length ps) ps s)
      = (Ret (), with_popups (length qs) qs (moved s k c (if click then click_lines (clicked_item s pt ps) else [])))"
    and "wins_ok (moved s k c []) qs"
    and "click \<Longrightarrow> click_closes s pt ps \<Longrightarrow> qs = []"
    and "\<And>i. topmost pt ps = Some i \<Longrightarrow> \<not> (click \<and> click_closes s pt ps) \<Longrightarrow>
      i < length qs \<and> pop_hover (fst (snd (qs ! i))) = int (row_under pt ps i)"
proof (cases "topmost pt ps")
  case None
  then have "click_lines (clicked_item s pt ps) = []" and "click_closes s pt ps"
    by (simp_all add: clicked_item_def click_lines_def click_closes_def)
  from handle_popup_mouse_miss [OF ok None, of d click] obtain qs c
    where qs: "handle_popup_mouse d pt click (with_popups (length ps) ps s) = (Ret (), with_popups (length qs) qs (moved s (popup_fresh s) c []))"
      "wins_ok (moved s (popup_fresh s) c []) qs" "click \<Longrightarrow> qs = []" by blast
  show thesis by (rule that [of qs "popup_fresh s" c]) (use qs None \<open>click_lines _ = []\<close> in simp_all)
next
  case (Some i)
  from handle_popup_mouse_hit [OF ok Some, of d click] obtain qs k c
    where qs: "handle_popup_mouse d pt click (with_popups (length ps) ps s)
      = (Ret (), with_popups (length qs) qs (moved s k c (if click then click_lines (clicked_item s pt ps) else [])))"
      "wins_ok (moved s k c []) qs"
      "if click \<and> click_closes s pt ps then qs = [] else i < length qs \<and> pop_hover (fst (snd (qs ! i))) = int (row_under pt ps i)"
    by blast
  show thesis by (rule that [OF qs(1,2)]) (use qs(3) Some in \<open>auto split: if_splits\<close>)
qed

lemma wins_ok_moved: "wins_ok (moved s k c ls) ps = wins_ok (moved s k c []) ps"
proof -
  have "moved s k c ls = (moved s k c [])\<lparr>g_out := g_out s @ ls\<rparr>" by (simp add: moved_def)
  then show ?thesis by (metis wins_ok_out)
qed

subsection \<open>Showing a root's menu\<close>

lemma popup_show_root_stack:
  assumes ok: "wins_ok s ps" and root: "fst root = g_tree s" "length (snd root) = 1" "item_in (snd root) (g_roots s) = Some t"
  obtains qs k c where "popup_show_root d root (with_popups (length ps) ps s) = (Ret (), with_popups (length qs) qs (moved s k c []))"
    and "wins_ok (moved s k c []) qs"
    and "item_visible_child_count t \<noteq> 0 \<Longrightarrow> d_create d (popup_fresh s) \<Longrightarrow>
      qs = [new_entry d s root t (fst (d_cursor d)) (snd (d_cursor d)) 0 None] \<and> c = Some (popup_fresh s)"
proof (cases "item_visible_child_count t = 0")
  case True
  have item: "w_item root (with_popups (length ps) ps s) = (Ret t, with_popups (length ps) ps s)" using root by (simp add: w_item_Some)
  have "popup_show_root d root (with_popups (length ps) ps s) = (Ret (), with_popups (length ps) ps s)"
    using True by (simp add: popup_show_root_def xs_bind_Ret [where m = "w_item root", OF item] xs_simps)
  then show thesis using that [of ps "popup_fresh s" "capture s"] ok True by simp
next
  case False
  let ?x = "fst (d_cursor d)" and ?y = "snd (d_cursor d)" and ?z = "s\<lparr>capture := None\<rparr>" and ?k = "popup_fresh s + 1"
  have item: "w_item root (with_popups (length ps) ps s) = (Ret t, with_popups (length ps) ps s)" using root by (simp add: w_item_Some)
  have close: "popup_close_all (with_popups (length ps) ps s) = (Ret (), with_popups 0 [] ?z)"
    by (rule popup_close_all_stack) (use ok in \<open>simp_all add: wins_ok_def\<close>)
  have empty: "wins_ok ?z []" by (rule wins_ok_empty) (use ok in \<open>simp_all add: wins_ok_def\<close>)
  let ?e = "new_entry d ?z root t ?x ?y 0 None"
  have same: "?e = new_entry d s root t ?x ?y 0 None" by (simp add: new_entry_def picture_def)
  have opens: "popup_open d root ?x ?y 0 None (with_popups 0 [] ?z) =
    (if d_create d (popup_fresh s) then (Ret (Some (popup_fresh s)), with_popups (Suc 0) [?e] (?z\<lparr>popup_fresh := ?k\<rparr>))
     else (Ret None, with_popups 0 [] (?z\<lparr>popup_fresh := ?k\<rparr>)))"
    using popup_open_stack [of "[]" ?z 0 root t d ?x ?y None] root False by (simp add: capture_ok_def DD_MAX_POPUPS_def)
  have split: "popup_show_root d root (with_popups (length ps) ps s) = xs_bind (popup_open d root ?x ?y 0 None) (\<lambda>p.
          case p of None \<Rightarrow> xs_return ()
          | Some p \<Rightarrow> xs_bind (popup_ref p) (\<lambda>q. set_capture (pop_hwnd q))) (with_popups 0 [] ?z)"
    using False by (simp add: popup_show_root_def xs_bind_Ret [where m = "w_item root", OF item] xs_then_Ret [where m = popup_close_all, OF close])
  show thesis
  proof (cases "d_create d (popup_fresh s)")
    case False
    then have fails: "popup_open d root ?x ?y 0 None (with_popups 0 [] ?z) = (Ret None, with_popups 0 [] (?z\<lparr>popup_fresh := ?k\<rparr>))"
      using opens by (simp only: if_False)
    have "popup_show_root d root (with_popups (length ps) ps s) = (Ret (), with_popups 0 [] (moved s ?k None []))"
      unfolding split xs_bind_Ret [where m = "popup_open d root ?x ?y 0 None", OF fails] option.case xs_return_def
      by (simp add: moved_nil)
    then show thesis using that [of "[]" ?k None] False wins_ok_closed [OF ok, of ?k "[]"] by simp
  next
    case True
    have grown: "wins_ok (?z\<lparr>popup_fresh := ?k\<rparr>) [?e]"
      using wins_ok_snoc [OF empty, of root t d ?x ?y None] root False by (simp add: DD_MAX_POPUPS_def)
    have e: "[?e] ! 0 = (popup_fresh s, fst (snd ?e), snd (snd ?e))" by (simp add: new_entry_def Let_def)
    have ref: "popup_ref (popup_fresh s) (with_popups (Suc 0) [?e] (?z\<lparr>popup_fresh := ?k\<rparr>))
        = (Ret (fst (snd ?e)), with_popups (Suc 0) [?e] (?z\<lparr>popup_fresh := ?k\<rparr>))"
      by (rule popup_ref_stack [OF _ _ e]) (use grown in \<open>simp_all add: wins_ok_def\<close>)
    have hwnd: "pop_hwnd (fst (snd ?e)) = popup_fresh s" by (simp add: new_entry_def new_popup_def Let_def)
    have works: "popup_open d root ?x ?y 0 None (with_popups 0 [] ?z)
        = (Ret (Some (popup_fresh s)), with_popups (Suc 0) [?e] (?z\<lparr>popup_fresh := ?k\<rparr>))"
      using opens True by (simp only: if_True)
    have "popup_show_root d root (with_popups (length ps) ps s) = (Ret (), with_popups (Suc 0) [?e] (moved s ?k (Some (popup_fresh s)) []))"
      unfolding split xs_bind_Ret [where m = "popup_open d root ?x ?y 0 None", OF works] option.case
        xs_bind_Ret [where m = "popup_ref (popup_fresh s)", OF ref] hwnd
      by (simp add: set_capture_def xs_simps moved_nil)
    moreover have "wins_ok (moved s ?k (Some (popup_fresh s)) []) [?e]"
      using grown e by (auto simp: wins_ok_def capture_ok_def entry_wf_def new_entry_def Let_def moved_nil)
    ultimately show thesis using that [of "[?e]" ?k "Some (popup_fresh s)"] same by simp
  qed
qed

section \<open>Properties\<close>

text \<open>A popup's top left corner is always inside the work area of its monitor; a popup that is not
  wider than the work area ends inside it, provided a submenu's parent begins inside it, and a popup
  that is not higher ends inside it too.\<close>

theorem popup_stays_on_screen:
  assumes "popup_adjust_position work x y w h child parent = (x1, y1)"
  shows "r_left work \<le> x1 \<and> r_top work \<le> y1
    \<and> (w \<le> r_right work - r_left work \<longrightarrow> (\<forall>r. child \<and> parent = Some r \<longrightarrow> r_left r < r_right work) \<longrightarrow> x1 + w \<le> r_right work)
    \<and> (h \<le> r_bottom work - r_top work \<longrightarrow> y1 + h \<le> r_bottom work)"
  using assms by (auto simp: popup_adjust_position_def Let_def split: if_splits)

theorem popup_stays_on_screen_witness:
  "popup_adjust_position \<lparr>r_left = 0, r_top = 0, r_right = 1000, r_bottom = 700\<rparr> 950 690 140 56 True
     (Some \<lparr>r_left = 800, r_top = 600, r_right = 951, r_bottom = 684\<rparr>) = (661, 644)
   \<and> (661 :: int) + 140 \<le> 1000 \<and> (644 :: int) + 56 \<le> 700"
  using popup_stays_on_screen [of "\<lparr>r_left = 0, r_top = 0, r_right = 1000, r_bottom = 700\<rparr>" 950 690 140 56 True
     "Some \<lparr>r_left = 800, r_top = 600, r_right = 951, r_bottom = 684\<rparr>" 661 644]
  by (simp add: popup_adjust_position_def)

end
