(* ===== verification/Win_Menu.thy ===== *)
theory Win_Menu
  imports Win_Mouse
begin

section \<open>Commands and messages of the Windows menu helper (native/system_menu_helper_win.c)\<close>

text \<open>
  The helper is a message loop. Its host window receives the commands the reader thread posts, the
  clicks on tray icons and the broadcast that the taskbar has been created anew; its popup windows
  receive the mouse, Escape, the loss of the capture and paint requests. One \<open>win_event\<close> is
  one message, or a change in the desktop that sends one. The notification area is a map from
  the ids of the host's icons to the text they were drawn from; it is empty while there is no
  taskbar. A new taskbar starts empty, and \<open>taskbar_told\<close> says whether its broadcast has
  been handled. The drawing of an icon from its text (\<open>create_text_icon\<close>) is in Win_Icon.
\<close>

subsection \<open>Tray icons\<close>

definition change_item :: "nat list \<Rightarrow> (win_data \<Rightarrow> win_data) \<Rightarrow> unit win" where
  "change_item p f = xs_modify (\<lambda>s. s\<lparr>g_roots := item_change p f (g_roots s)\<rparr>)"

definition shell_notify :: "bool \<Rightarrow> 32 word \<Rightarrow> wide option \<Rightarrow> unit win" where
  "shell_notify add i label = xs_modify (\<lambda>s.
     if taskbar s \<and> (tray s i = None) = add then s\<lparr>tray := (tray s)(i := Some label)\<rparr> else s)"

definition add_or_modify_tray :: "item_ptr \<Rightarrow> bool \<Rightarrow> unit win" where
  "add_or_modify_tray ptr add = xs_bind (w_item ptr) (\<lambda>t.
     if win_removed (win_data t) then xs_return ()
     else xs_then (change_item (snd ptr) (\<lambda>d. d\<lparr>win_tray_icon := Some (win_label d)\<rparr>))
            (shell_notify add (win_tray_id (win_data t)) (win_label (win_data t))))"

definition delete_tray :: "item_ptr \<Rightarrow> unit win" where
  "delete_tray ptr = xs_bind (w_item ptr) (\<lambda>t.
     if win_tray_id (win_data t) = 0 then xs_return ()
     else xs_modify (\<lambda>s. s\<lparr>tray := (tray s)(win_tray_id (win_data t) := None)\<rparr>))"

fun root_from :: "32 word \<Rightarrow> nat \<Rightarrow> win_item list \<Rightarrow> nat option" where
  "root_from i k [] = None"
| "root_from i k (t # ts) =
     (if \<not> win_removed (win_data t) \<and> win_tray_id (win_data t) = i then Some k else root_from i (Suc k) ts)"

definition find_root_by_tray_id :: "32 word \<Rightarrow> item_ptr option win" where
  "find_root_by_tray_id i = xs_bind xs_get (\<lambda>s.
     xs_return (map_option (\<lambda>k. (g_tree s, [k])) (root_from i 0 (g_roots s))))"

subsection \<open>Commands\<close>

text \<open>\<open>clear_all\<close>: the tree is gone at the end, and with it every pointer into it.\<close>

primrec clear_loop :: "nat \<Rightarrow> unit win" where
  "clear_loop 0 = xs_return ()"
| "clear_loop (Suc k) = xs_then (clear_loop k) (xs_bind xs_get (\<lambda>s. delete_tray (g_tree s, [k])))"

definition clear_all :: "unit win" where
  "clear_all = xs_then popup_close_all
     (xs_bind xs_get (\<lambda>s.
       xs_then (clear_loop (length (g_roots s)))
         (xs_modify (\<lambda>s. s\<lparr>g_roots := [], g_tree := g_tree s + 1, g_next_tray_id := 1\<rparr>))))"

definition add_root :: "win_item \<Rightarrow> unit win" where
  "add_root t = xs_modify (\<lambda>s. s\<lparr>g_roots := g_roots s @ [map_data (\<lambda>d. d\<lparr>win_tray_id := g_next_tray_id s\<rparr>) t],
     g_next_tray_id := g_next_tray_id s + 1\<rparr>)"

fun win_install_loop :: "desk \<Rightarrow> jvalue list \<Rightarrow> unit win" where
  "win_install_loop d [] = xs_return ()"
| "win_install_loop d (v # vs) =
     (case win_item_from_json (d_wide d) v of
        None \<Rightarrow> win_install_loop d vs
      | Some t \<Rightarrow> xs_bind xs_get (\<lambda>s.
          xs_then (add_root t)
          (xs_then (add_or_modify_tray (g_tree s, [length (g_roots s)]) True)
            (win_install_loop d vs))))"

definition install_run :: "desk \<Rightarrow> jvalue \<Rightarrow> unit win" where
  "install_run d cmd = xs_then clear_all
     (case j_get cmd ''items'' of Some (J_Array vs) \<Rightarrow> win_install_loop d vs | _ \<Rightarrow> xs_return ())"

text \<open>\<open>invalidate_popups\<close> reads every popup and asks the live windows to be painted again; painting is a message of its own.\<close>

fun invalidate_from :: "nat \<Rightarrow> nat \<Rightarrow> unit win" where
  "invalidate_from i 0 = xs_return ()"
| "invalidate_from i (Suc n) = xs_bind (popup_slot i) (\<lambda>slot.
     xs_then (case slot of None \<Rightarrow> xs_return () | Some p \<Rightarrow> xs_then (popup_ref p) (xs_return ())) (invalidate_from (Suc i) n))"

definition invalidate_popups :: "unit win" where
  "invalidate_popups = xs_bind xs_get (\<lambda>s. invalidate_from 0 (g_popup_count s))"

definition command_icon :: "desk \<Rightarrow> jvalue \<Rightarrow> unit win" where
  "command_icon d cmd =
     (case (j_get_string cmd ''name'', j_get_string cmd ''icon'') of
        (Some name, Some icon) \<Rightarrow> xs_bind xs_get (\<lambda>s.
          case win_find name (g_roots s) of
            None \<Rightarrow> xs_return ()
          | Some p \<Rightarrow> xs_bind (w_item (g_tree s, p)) (\<lambda>t.
              if win_removed (win_data t) then xs_return ()
              else case d_wide d icon of
                  None \<Rightarrow> xs_return ()
                | Some w \<Rightarrow>
                    xs_then (change_item p (\<lambda>e. e\<lparr>win_label := Some w\<rparr>))
                      (xs_then (if length p = 1 then add_or_modify_tray (g_tree s, p) False else xs_return ()) invalidate_popups)))
      | _ \<Rightarrow> xs_return ())"

definition command_remove :: "jvalue \<Rightarrow> unit win" where
  "command_remove cmd =
     (case j_get_string cmd ''name'' of
        None \<Rightarrow> xs_return ()
      | Some name \<Rightarrow> xs_bind xs_get (\<lambda>s.
          case win_find name (g_roots s) of
            None \<Rightarrow> xs_return ()
          | Some p \<Rightarrow> xs_bind (w_item (g_tree s, p)) (\<lambda>t.
              if win_removed (win_data t) then xs_return ()
              else xs_then (change_item p (\<lambda>e. e\<lparr>win_removed := True\<rparr>))
                (xs_then (if length p = 1 then delete_tray (g_tree s, p) else xs_return ())
                  popup_close_all))))"

text \<open>\<open>DestroyWindow(g_host)\<close> sends \<open>WM_DESTROY\<close>, which asks the loop to end.\<close>

definition destroy_host :: "unit win" where
  "destroy_host = xs_modify (\<lambda>s. s\<lparr>g_host := False, quitting := True\<rparr>)"

definition handle_command_line :: "desk \<Rightarrow> string \<Rightarrow> unit win" where
  "handle_command_line d line =
     (case j_parse line of
        Parsed cmd \<Rightarrow>
          (case j_get_string cmd ''op'' of
             None \<Rightarrow> xs_return ()
           | Some op \<Rightarrow>
               if op = ''run'' then install_run d cmd
               else if op = ''icon'' then command_icon d cmd
               else if op = ''remove'' then command_remove cmd
               else if op = ''stop'' then xs_then clear_all destroy_host
               else xs_return ())
      | Not_Parsed \<Rightarrow> xs_return ()
      | Parse_Deep \<Rightarrow> xs_diverge
      | Parse_Fault \<Rightarrow> xs_fault)"

subsection \<open>Messages\<close>

datatype win_event =
    Ev_Command string
  | Ev_Tray "32 word" bool
  | Ev_Taskbar_Gone
  | Ev_Taskbar_Back
  | Ev_Taskbar_Created
  | Ev_Close
  | Ev_Mouse nat point bool
  | Ev_Escape nat
  | Ev_Capture_Taken
  | Ev_Paint nat

primrec readd_loop :: "nat \<Rightarrow> unit win" where
  "readd_loop 0 = xs_return ()"
| "readd_loop (Suc k) = xs_then (readd_loop k) (xs_bind xs_get (\<lambda>s.
     xs_bind (w_item (g_tree s, [k])) (\<lambda>t.
       if win_removed (win_data t) then xs_return () else add_or_modify_tray (g_tree s, [k]) True)))"

text \<open>A click on an icon: the root's menu, or its own event when there is nothing to show.\<close>

definition tray_click :: "desk \<Rightarrow> 32 word \<Rightarrow> unit win" where
  "tray_click d i = xs_bind (find_root_by_tray_id i) (\<lambda>root.
     case root of
       None \<Rightarrow> xs_return ()
     | Some ptr \<Rightarrow> xs_bind (w_item ptr) (\<lambda>t.
         if item_visible_child_count t \<noteq> 0 then popup_show_root d ptr
         else if win_clickable (win_data t) then win_emit_click t
         else xs_return ()))"

definition host_proc :: "desk \<Rightarrow> win_event \<Rightarrow> unit win" where
  "host_proc d e = xs_bind xs_get (\<lambda>s.
     if \<not> g_host s then xs_return ()
     else case e of
         Ev_Command line \<Rightarrow> handle_command_line d line
       | Ev_Tray i click \<Rightarrow> if click then tray_click d i else xs_return ()
       | Ev_Taskbar_Created \<Rightarrow> xs_then (readd_loop (length (g_roots s))) (xs_modify (\<lambda>s. s\<lparr>taskbar_told := True\<rparr>))
       | Ev_Close \<Rightarrow> xs_then clear_all destroy_host
       | _ \<Rightarrow> xs_return ())"

text \<open>\<open>PopupProc\<close> on the mouse: only while the root's popup has captured it.\<close>

definition popup_mouse :: "desk \<Rightarrow> point \<Rightarrow> bool \<Rightarrow> unit win" where
  "popup_mouse d pt click = xs_bind xs_get (\<lambda>s.
     if g_popup_count s = 0 then xs_return ()
     else xs_bind (popup_slot 0) (\<lambda>slot.
       case slot of
         None \<Rightarrow> xs_fault
       | Some p \<Rightarrow> xs_bind (popup_ref p) (\<lambda>q.
           if capture s = Some (pop_hwnd q) then handle_popup_mouse d pt click else xs_return ())))"

text \<open>The message for a popup window: none for a window that is gone.\<close>

definition to_window :: "nat \<Rightarrow> unit win \<Rightarrow> unit win" where
  "to_window h m = xs_bind xs_get (\<lambda>s. if windows s h = None then xs_return () else m)"

definition win_step :: "desk \<Rightarrow> win_event \<Rightarrow> unit win" where
  "win_step d e =
     (case e of
        Ev_Mouse h pt click \<Rightarrow> to_window h (popup_mouse d pt click)
      | Ev_Escape h \<Rightarrow> to_window h popup_close_all
      | Ev_Capture_Taken \<Rightarrow> release_capture (capture_changed 3)
      | Ev_Paint h \<Rightarrow> popup_paint h
      | Ev_Taskbar_Gone \<Rightarrow> xs_modify (\<lambda>s. s\<lparr>tray := (\<lambda>_. None), taskbar := False\<rparr>)
      | Ev_Taskbar_Back \<Rightarrow> xs_modify (\<lambda>s. s\<lparr>tray := (\<lambda>_. None), taskbar := True, taskbar_told := False\<rparr>)
      | _ \<Rightarrow> host_proc d e)"

definition win_start :: win_state where
  "win_start = \<lparr>g_roots = [], g_tree = 0, g_next_tray_id = 1, g_popups = replicate DD_MAX_POPUPS None, g_popup_count = 0,
     g_closing_popups = False, g_host = True, popup_heap = (\<lambda>_. None), popup_fresh = 1, windows = (\<lambda>_. None), capture = None,
     tray = (\<lambda>_. None), taskbar = True, taskbar_told = True, g_out = [], quitting = False\<rparr>"

text \<open>The loop of \<open>main\<close>, for the messages that arrive.\<close>

fun win_loop :: "(desk \<times> win_event) list \<Rightarrow> unit win" where
  "win_loop [] = xs_return ()"
| "win_loop ((d, e) # es) = xs_bind xs_get (\<lambda>s. if quitting s then xs_return () else xs_then (win_step d e) (win_loop es))"

definition win_main :: "(desk \<times> win_event) list \<Rightarrow> unit win" where
  "win_main es = xs_then (win_loop es) clear_all"

end
