(* ===== verification/Win_Safe.thy ===== *)
theory Win_Safe
  imports Win_Menu
begin

section \<open>Invariants of the Windows menu helper\<close>

text \<open>
  Two invariants hold between messages: the popups are a well-formed stack over the current tree
  (\<open>win_ok\<close>), and the notification area shows the roots that have not been removed
  (\<open>tray_ok\<close>). No message runs into a fault.
\<close>

subsection \<open>Messages that only touch the popups\<close>

definition ui_only :: "win_state \<Rightarrow> unit outcome \<times> win_state \<Rightarrow> bool" where
  "ui_only s res \<longleftrightarrow> (\<exists>qs k c ls. res = (Ret (), with_popups (length qs) qs (moved s k c ls)) \<and> wins_ok (moved s k c []) qs)"

lemma ui_onlyI: "res = (Ret (), with_popups (length qs) qs (moved s k c ls)) \<Longrightarrow> wins_ok (moved s k c []) qs \<Longrightarrow> ui_only s res"
  by (auto simp: ui_only_def)

lemma ui_only_same: "wins_ok s ps \<Longrightarrow> ui_only s (Ret (), with_popups (length ps) ps s)"
  by (rule ui_onlyI [of _ ps s "popup_fresh s" "capture s" "[]"]) simp_all

lemma popup_close_all_ui: "wins_ok s ps \<Longrightarrow> ui_only s (popup_close_all (with_popups (length ps) ps s))"
proof -
  assume ok: "wins_ok s ps"
  have "popup_close_all (with_popups (length ps) ps s) = (Ret (), with_popups 0 [] (moved s (popup_fresh s) None []))"
    using popup_close_all_stack [of ps s] ok by (simp add: wins_ok_def)
  then show ?thesis by (intro ui_onlyI [of _ "[]" s "popup_fresh s" None "[]"]) (use wins_ok_closed [OF ok, of "popup_fresh s" "[]"] in simp_all)
qed

lemma popup_mouse_ui:
  assumes ok: "wins_ok s ps"
  shows "ui_only s (popup_mouse d pt click (with_popups (length ps) ps s))"
proof (cases ps)
  case Nil
  then show ?thesis using ui_only_same [OF ok] by (simp add: popup_mouse_def xs_simps)
next
  case (Cons e es)
  obtain p q w where e: "ps ! 0 = (p, q, w)" by (cases "ps ! 0")
  have i: "0 < length ps" using Cons by simp
  note we = wins_ok_entry [OF ok i e]
  have slot: "popup_slot 0 (with_popups (length ps) ps s) = (Ret (Some p), with_popups (length ps) ps s)"
    using popup_slot_stack [OF we(1) i] e by simp
  have split: "popup_mouse d pt click (with_popups (length ps) ps s) =
      (if capture s = Some p then handle_popup_mouse d pt click (with_popups (length ps) ps s) else (Ret (), with_popups (length ps) ps s))"
    using i we(6) by (simp add: popup_mouse_def xs_bind_Ret [where m = "popup_slot 0", OF slot]
        xs_bind_Ret [where m = "popup_ref p", OF popup_ref_stack [OF we(1) i e]] xs_simps)
  obtain qs k c ls where "handle_popup_mouse d pt click (with_popups (length ps) ps s) = (Ret (), with_popups (length qs) qs (moved s k c ls))"
    and "wins_ok (moved s k c []) qs"
    by (rule handle_popup_mouse_stack [OF ok, of d pt click])
  then have "ui_only s (handle_popup_mouse d pt click (with_popups (length ps) ps s))" by (rule ui_onlyI)
  then show ?thesis using split ui_only_same [OF ok] by simp
qed

lemma capture_taken_ui:
  assumes ok: "wins_ok s ps"
  shows "ui_only s (release_capture (capture_changed 3) (with_popups (length ps) ps s))"
proof (cases "capture s")
  case None
  then show ?thesis using ui_only_same [OF ok] by (simp add: release_capture_def xs_simps)
next
  case (Some h)
  then have ps: "ps \<noteq> []" using ok by (auto simp: wins_ok_def capture_ok_def)
  let ?s = "s\<lparr>capture := None\<rparr>"
  have ok1: "wins_ok ?s ps" using ok entry_wf_more(2) by (auto simp: wins_ok_def capture_ok_def)
  have "release_capture (capture_changed 3) (with_popups (length ps) ps s) = popup_close_all (with_popups (length ps) ps ?s)"
    using Some ok ps by (simp add: release_capture_def numeral_3_eq_3 numeral_2_eq_2 xs_simps wins_ok_def popup_close_all_def)
  also have "\<dots> = (Ret (), with_popups 0 [] (moved s (popup_fresh s) None []))"
    using popup_close_all_stack [of ps ?s] ok1 by (simp add: wins_ok_def)
  finally show ?thesis by (intro ui_onlyI [of _ "[]" s "popup_fresh s" None "[]"]) (use wins_ok_closed [OF ok, of "popup_fresh s" "[]"] in simp_all)
qed

lemma wins_ok_paint:
  assumes ok: "wins_ok s ps" and i: "i < length ps" and e: "ps ! i = (p, q, w)"
  shows "wins_ok s (ps[i := (p, q, w\<lparr>wnd_picture := rows\<rparr>)])" (is "wins_ok s ?qs")
proof -
  note we = wins_ok_entry [OF ok i e]
  have same: "fst (?qs ! j) = fst (ps ! j)" "fst (snd (?qs ! j)) = fst (snd (ps ! j))" if "j < length ps" for j
    using e that by (cases "i = j"; simp)+
  have "entry_wf s j (?qs ! j)" if "j < length ?qs" for j
  proof -
    have "entry_wf s j (ps ! j)" using that ok by (simp add: wins_ok_def)
    with that e show ?thesis by (cases "i = j") (simp_all add: entry_wf_def)
  qed
  moreover have "stack_ok ?qs"
    using stack_ok_update [OF we(1) i, of p q "w\<lparr>wnd_picture := rows\<rparr>"] entry_ok_nth [OF we(1) i e] e by (simp add: entry_ok_def)
  moreover have "capture_ok ?qs s"
  proof -
    have "?qs \<noteq> []" "ps \<noteq> []" using i by auto
    then have "fst (hd ?qs) = fst (hd ps)" using same(1) [of 0] by (simp add: hd_conv_nth)
    then show ?thesis using we(2) \<open>?qs \<noteq> []\<close> \<open>ps \<noteq> []\<close> by (auto simp: capture_ok_def split: option.splits)
  qed
  moreover have "linked ?qs" using ok i same(2) by (auto simp: wins_ok_def linked_def)
  ultimately show ?thesis using ok by (simp add: wins_ok_def)
qed

lemma frames_Some: "stack_ok ps \<Longrightarrow> frames ps h = Some w \<Longrightarrow> \<exists>i q. i < length ps \<and> ps ! i = (h, q, w)"
proof -
  assume "frames ps h = Some w"
  then have "(h, w) \<in> set (map (\<lambda>(p, q, w). (p, w)) ps)" unfolding frames_def by (rule map_of_SomeD)
  then show ?thesis by (fastforce simp: in_set_conv_nth)
qed

lemma popup_paint_ui:
  assumes ok: "wins_ok s ps"
  shows "ui_only s (popup_paint h (with_popups (length ps) ps s))"
proof (cases "frames ps h")
  case None
  then show ?thesis using ui_only_same [OF ok] by (simp add: popup_paint_def xs_simps)
next
  case (Some w)
  have st: "stack_ok ps" using ok by (simp add: wins_ok_def)
  obtain i q where i: "i < length ps" and e: "ps ! i = (h, q, w)" using frames_Some [OF st Some] by blast
  note we = wins_ok_entry [OF ok i e]
  from popup_paint_stack [OF st i e we(4), of "length ps"] wins_ok_paint [OF ok i e] show ?thesis
    by (intro ui_onlyI [of _ "ps[i := (h, q, w\<lparr>wnd_picture := picture s q (pop_count q)\<rparr>)]" s "popup_fresh s" "capture s" "[]"]) simp_all
qed

lemma root_from_Some: "root_from i k ts = Some j \<Longrightarrow> k \<le> j \<and> j < k + length ts \<and> win_tray_id (win_data (ts ! (j - k))) = i
    \<and> is_shown (ts ! (j - k))"
proof (induction i k ts rule: root_from.induct)
  case (2 i k t ts)
  show ?case
  proof (cases "\<not> win_removed (win_data t) \<and> win_tray_id (win_data t) = i")
    case True
    with 2 show ?thesis by (auto simp: is_shown_def)
  next
    case False
    with 2 have "Suc k \<le> j \<and> j < Suc k + length ts \<and> win_tray_id (win_data (ts ! (j - Suc k))) = i \<and> is_shown (ts ! (j - Suc k))"
      by (simp split: if_splits)
    then show ?thesis by (auto simp: Suc_le_eq nth_Cons' is_shown_def)
  qed
qed simp

lemma tray_click_ui:
  assumes ok: "wins_ok s ps"
  shows "ui_only s (tray_click d i (with_popups (length ps) ps s))"
proof (cases "root_from i 0 (g_roots s)")
  case None
  then show ?thesis using ui_only_same [OF ok] by (simp add: tray_click_def find_root_by_tray_id_def xs_simps)
next
  case (Some r)
  let ?ptr = "(g_tree s, [r])" and ?t = "g_roots s ! r" and ?s = "with_popups (length ps) ps s"
  have r: "r < length (g_roots s)" using root_from_Some [OF Some] by simp
  then have item: "w_item ?ptr ?s = (Ret ?t, ?s)" by (simp add: w_item_Some)
  have split: "tray_click d i ?s = (if item_visible_child_count ?t \<noteq> 0 then popup_show_root d ?ptr ?s
      else if win_clickable (win_data ?t) then win_emit_click ?t ?s else (Ret (), ?s))"
    using Some by (simp add: tray_click_def find_root_by_tray_id_def xs_bind_Ret [where m = "w_item ?ptr", OF item] xs_simps)
  obtain qs k c where "popup_show_root d ?ptr ?s = (Ret (), with_popups (length qs) qs (moved s k c []))" and "wins_ok (moved s k c []) qs"
    by (rule popup_show_root_stack [OF ok, of ?ptr "?t" d]) (use r in simp_all)
  then have "ui_only s (popup_show_root d ?ptr ?s)" by (rule ui_onlyI)
  moreover have "ui_only s (win_emit_click ?t ?s)"
    by (rule ui_onlyI [of _ ps s "popup_fresh s" "capture s" "emit_click_line (win_name (win_data ?t))"])
      (use ok in \<open>simp_all add: win_emit_click_def xs_simps moved_def\<close>)
  ultimately show ?thesis using split ui_only_same [OF ok] by simp
qed

subsection \<open>The notification area\<close>

text \<open>What matters of a root for its icon: its id, its label, and whether it has been removed.\<close>

type_synonym icon_row = "32 word \<times> wide option \<times> bool"

definition tray_row :: "win_item \<Rightarrow> icon_row" where
  "tray_row t = (win_tray_id (win_data t), win_label (win_data t), is_shown t)"

definition icons_ok :: "icon_row list \<Rightarrow> bool \<Rightarrow> (32 word \<Rightarrow> wide option option) \<Rightarrow> bool" where
  "icons_ok v tb tr \<longleftrightarrow> length v < 2 ^ 32 \<and> (\<forall>k < length v. fst (v ! k) = of_nat (Suc k)) \<and> (\<not> tb \<longrightarrow> tr = (\<lambda>_. None))
     \<and> (\<forall>i l. tr i = Some l \<longrightarrow> (\<exists>k < length v. v ! k = (i, l, True)))"

definition icons_done :: "nat \<Rightarrow> icon_row list \<Rightarrow> bool \<Rightarrow> (32 word \<Rightarrow> wide option option) \<Rightarrow> bool" where
  "icons_done n v tb tr \<longleftrightarrow> (\<forall>k < n. tb \<longrightarrow> snd (snd (v ! k)) \<longrightarrow> tr (fst (v ! k)) = Some (fst (snd (v ! k))))"

definition tray_ok :: "win_state \<Rightarrow> bool" where
  "tray_ok s \<longleftrightarrow> g_next_tray_id s = of_nat (Suc (length (g_roots s)))
     \<and> icons_ok (map tray_row (g_roots s)) (taskbar s) (tray s)
     \<and> (taskbar_told s \<longrightarrow> icons_done (length (g_roots s)) (map tray_row (g_roots s)) (taskbar s) (tray s))"

lemma tray_id_inj: "a < 2 ^ 32 \<Longrightarrow> b < 2 ^ 32 \<Longrightarrow> (of_nat a :: 32 word) = of_nat b \<longleftrightarrow> a = b"
proof -
  have "unat (of_nat x :: 32 word) = x" if "x < 2 ^ 32" for x using that by (simp add: unat_of_nat take_bit_nat_eq_self)
  then show "a < 2 ^ 32 \<Longrightarrow> b < 2 ^ 32 \<Longrightarrow> ?thesis" by metis
qed

lemma icons_ok_sound: "icons_ok v tb tr \<Longrightarrow> tr i = Some l \<Longrightarrow> \<exists>k < length v. v ! k = (i, l, True)"
  by (simp add: icons_ok_def)

lemma icons_ok_id_inj:
  assumes "icons_ok v tb tr" and "j < length v" and "k < length v"
  shows "fst (v ! j) = fst (v ! k) \<longleftrightarrow> j = k"
  using assms tray_id_inj [of "Suc j" "Suc k"] by (auto simp: icons_ok_def)

lemma icons_ok_id_nonzero:
  assumes "icons_ok v tb tr" and "k < length v"
  shows "fst (v ! k) \<noteq> 0"
  using assms tray_id_inj [of "Suc k" 0] by (auto simp: icons_ok_def)

text \<open>\<open>Shell_NotifyIconW\<close> for one root: adding, a new label, removal.\<close>

lemma icons_add:
  assumes ok: "icons_ok v tb tr" and k: "k < length v" and row: "v ! k = (i, l, True)"
  defines "tr1 \<equiv> if tb \<and> tr i = None then tr(i := Some l) else tr"
  shows "icons_ok v tb tr1" and "icons_done n v tb tr \<Longrightarrow> n \<le> length v \<Longrightarrow> icons_done n v tb tr1"
    and "tb \<Longrightarrow> tr1 i = Some l"
proof -
  show here: "tb \<Longrightarrow> tr1 i = Some l"
  proof (cases "tr i")
    case (Some m)
    then obtain j where j: "j < length v" "v ! j = (i, m, True)" using icons_ok_sound [OF ok] by blast
    with icons_ok_id_inj [OF ok j(1) k] row have "m = l" by auto
    with Some show ?thesis by (simp add: tr1_def)
  qed (simp add: tr1_def)
  show "icons_ok v tb tr1" using ok k row by (auto simp: icons_ok_def tr1_def split: if_splits)
  show "icons_done n v tb tr1" if "icons_done n v tb tr" and "n \<le> length v"
    using that by (auto simp: icons_done_def tr1_def)
qed

lemma icons_relabel:
  fixes m :: "wide option"
  assumes ok: "icons_ok v tb tr" and k: "k < length v" and row: "v ! k = (i, l, b)"
  defines "tr1 \<equiv> if tb \<and> (tr i = None) = False then tr(i := Some m) else tr"
  shows "icons_ok (v[k := (i, m, b)]) tb tr1"
    and "icons_done n v tb tr \<Longrightarrow> n \<le> length v \<Longrightarrow> icons_done n (v[k := (i, m, b)]) tb tr1"
proof -
  have ids: "j < length v \<Longrightarrow> fst (v ! j) = i \<longleftrightarrow> j = k" for j using icons_ok_id_inj [OF ok _ k] row by simp
  have sound: "\<exists>j < length v. v[k := (i, m, b)] ! j = (h, x, True)" if h: "tr1 h = Some x" for h x
  proof (cases "h = i")
    case True
    then have "tr i \<noteq> None" using h by (auto simp: tr1_def split: if_splits)
    then obtain y j where j: "j < length v" "v ! j = (i, y, True)" using icons_ok_sound [OF ok] by blast
    then have "j = k" using ids [of j] by simp
    then have "b" using j row by simp
    moreover have "tb" using ok \<open>tr i \<noteq> None\<close> by (auto simp: icons_ok_def)
    ultimately show ?thesis using h True k \<open>tr i \<noteq> None\<close> by (auto simp: tr1_def intro!: exI [of _ k])
  next
    case False
    then have "tr h = Some x" using h by (auto simp: tr1_def split: if_splits)
    then obtain j where "j < length v" "v ! j = (h, x, True)" using icons_ok_sound [OF ok] by blast
    moreover from this have "j \<noteq> k" using row False by auto
    ultimately show ?thesis by (auto intro!: exI [of _ j])
  qed
  show "icons_ok (v[k := (i, m, b)]) tb tr1"
    using ok sound row k by (auto simp: icons_ok_def nth_list_update tr1_def)
  show "icons_done n (v[k := (i, m, b)]) tb tr1" if old: "icons_done n v tb tr" and n: "n \<le> length v"
    unfolding icons_done_def
  proof (intro allI impI)
    fix j assume j: "j < n" and tb and shown: "snd (snd (v[k := (i, m, b)] ! j))"
    show "tr1 (fst (v[k := (i, m, b)] ! j)) = Some (fst (snd (v[k := (i, m, b)] ! j)))"
    proof (cases "j = k")
      case True
      then have "tr i = Some l" using old j \<open>tb\<close> shown row k by (auto simp: icons_done_def)
      then show ?thesis using True k \<open>tb\<close> by (simp add: tr1_def)
    next
      case False
      then show ?thesis using old j \<open>tb\<close> shown n ids [of j] by (auto simp: icons_done_def tr1_def)
    qed
  qed
qed

lemma icons_remove:
  assumes ok: "icons_ok v tb tr" and k: "k < length v" and row: "v ! k = (i, l, b)"
  shows "icons_ok (v[k := (i, l, False)]) tb (tr(i := None))"
    and "icons_done n v tb tr \<Longrightarrow> n \<le> length v \<Longrightarrow> icons_done n (v[k := (i, l, False)]) tb (tr(i := None))"
proof -
  have ids: "j < length v \<Longrightarrow> fst (v ! j) = i \<longleftrightarrow> j = k" for j using icons_ok_id_inj [OF ok _ k] row by simp
  have "\<exists>j < length v. v[k := (i, l, False)] ! j = (h, x, True)" if h: "(tr(i := None)) h = Some x" for h x
  proof -
    from h have "h \<noteq> i" and "tr h = Some x" by (auto split: if_splits)
    then obtain j where "j < length v" "v ! j = (h, x, True)" using icons_ok_sound [OF ok] by blast
    moreover from this have "j \<noteq> k" using row \<open>h \<noteq> i\<close> by auto
    ultimately show ?thesis by (auto intro!: exI [of _ j])
  qed
  then show "icons_ok (v[k := (i, l, False)]) tb (tr(i := None))"
    using ok row k by (auto simp: icons_ok_def nth_list_update)
  show "icons_done n (v[k := (i, l, False)]) tb (tr(i := None))" if old: "icons_done n v tb tr" and n: "n \<le> length v"
    unfolding icons_done_def
  proof (intro allI impI)
    fix j assume j: "j < n" and tb and shown: "snd (snd (v[k := (i, l, False)] ! j))"
    then have "j \<noteq> k" using k by auto
    with ids [of j] j n have "fst (v ! j) \<noteq> i" by simp
    then show "(tr(i := None)) (fst (v[k := (i, l, False)] ! j)) = Some (fst (snd (v[k := (i, l, False)] ! j)))"
      using old j \<open>tb\<close> shown \<open>j \<noteq> k\<close> by (simp add: icons_done_def)
  qed
qed

lemma icons_append:
  assumes ok: "icons_ok v tb tr" and room: "Suc (length v) < 2 ^ 32"
  defines "i \<equiv> of_nat (Suc (length v)) :: 32 word"
  shows "icons_ok (v @ [(i, l, b)]) tb tr" and "tr i = None"
    and "icons_done (length v) v tb tr \<Longrightarrow> icons_done (length v) (v @ [(i, l, b)]) tb tr"
proof -
  show "tr i = None"
  proof (rule ccontr)
    assume "tr i \<noteq> None"
    then obtain l k where "k < length v" "v ! k = (i, l, True)" using icons_ok_sound [OF ok] by blast
    then have "of_nat (Suc k) = (of_nat (Suc (length v)) :: 32 word)" using ok by (auto simp: icons_ok_def i_def)
    with tray_id_inj [of "Suc k" "Suc (length v)"] room \<open>k < length v\<close> show False by simp
  qed
  have sound: "\<exists>k < length (v @ [(i, l, b)]). (v @ [(i, l, b)]) ! k = (h, x, True)" if h: "tr h = Some x" for h x
  proof -
    from icons_ok_sound [OF ok h] obtain k where "k < length v" and "v ! k = (h, x, True)" by blast
    then show ?thesis by (intro exI [of _ k]) (simp add: nth_append)
  qed
  have ids: "fst ((v @ [(i, l, b)]) ! k) = of_nat (Suc k)" if "k < length (v @ [(i, l, b)])" for k
    using that ok by (cases "k = length v") (simp_all add: nth_append icons_ok_def i_def)
  have "\<not> tb \<longrightarrow> tr = (\<lambda>_. None)" using ok by (simp add: icons_ok_def)
  then show "icons_ok (v @ [(i, l, b)]) tb tr"
    unfolding icons_ok_def using sound ids room by auto
  show "icons_done (length v) v tb tr \<Longrightarrow> icons_done (length v) (v @ [(i, l, b)]) tb tr"
    by (auto simp: icons_done_def nth_append)
qed

subsection \<open>Messages that change the tree\<close>

definition keeps :: "win_state \<Rightarrow> unit outcome \<times> win_state \<Rightarrow> bool" where
  "keeps s res \<longleftrightarrow> (\<exists>qs s1. res = (Ret (), with_popups (length qs) qs s1) \<and> wins_ok s1 qs
     \<and> (tray_ok s \<longrightarrow> length (g_roots s1) < 2 ^ 32 \<longrightarrow> tray_ok s1))"

lemma keepsI: "res = (Ret (), with_popups (length qs) qs s1) \<Longrightarrow> wins_ok s1 qs \<Longrightarrow>
    (tray_ok s \<Longrightarrow> length (g_roots s1) < 2 ^ 32 \<Longrightarrow> tray_ok s1) \<Longrightarrow> keeps s res"
  by (auto simp: keeps_def)

lemma tray_ok_moved [simp]: "tray_ok (moved s k c ls) = tray_ok s"
  by (simp add: tray_ok_def)

lemma ui_only_keeps: "ui_only s res \<Longrightarrow> keeps s res"
proof -
  assume "ui_only s res"
  then obtain qs k c ls where res: "res = (Ret (), with_popups (length qs) qs (moved s k c ls))" and ok: "wins_ok (moved s k c []) qs"
    by (auto simp: ui_only_def)
  show ?thesis by (rule keepsI [OF res]) (use ok wins_ok_moved [of s k c ls] in simp_all)
qed

lemma keeps_same: "wins_ok s ps \<Longrightarrow> keeps s (Ret (), with_popups (length ps) ps s)"
  by (rule ui_only_keeps, rule ui_only_same)

lemma with_popups_updates2 [simp]:
  "(with_popups n ps s)\<lparr>g_roots := r\<rparr> = with_popups n ps (s\<lparr>g_roots := r\<rparr>)"
  "(with_popups n ps s)\<lparr>tray := t\<rparr> = with_popups n ps (s\<lparr>tray := t\<rparr>)"
  "(with_popups n ps s)\<lparr>g_tree := g\<rparr> = with_popups n ps (s\<lparr>g_tree := g\<rparr>)"
  "(with_popups n ps s)\<lparr>g_next_tray_id := i\<rparr> = with_popups n ps (s\<lparr>g_next_tray_id := i\<rparr>)"
  "(with_popups n ps s)\<lparr>g_host := b\<rparr> = with_popups n ps (s\<lparr>g_host := b\<rparr>)"
  "(with_popups n ps s)\<lparr>quitting := b\<rparr> = with_popups n ps (s\<lparr>quitting := b\<rparr>)"
  "(with_popups n ps s)\<lparr>taskbar := b\<rparr> = with_popups n ps (s\<lparr>taskbar := b\<rparr>)"
  "(with_popups n ps s)\<lparr>taskbar_told := b\<rparr> = with_popups n ps (s\<lparr>taskbar_told := b\<rparr>)"
  by (cases s; simp add: with_popups_def)+

lemma wins_ok_ignores [simp]:
  "wins_ok (s\<lparr>tray := t\<rparr>) ps = wins_ok s ps"
  "wins_ok (s\<lparr>g_next_tray_id := i\<rparr>) ps = wins_ok s ps"
  "wins_ok (s\<lparr>g_host := b\<rparr>) ps = wins_ok s ps"
  "wins_ok (s\<lparr>quitting := b\<rparr>) ps = wins_ok s ps"
  "wins_ok (s\<lparr>taskbar := b\<rparr>) ps = wins_ok s ps"
  "wins_ok (s\<lparr>taskbar_told := b\<rparr>) ps = wins_ok s ps"
  by (simp_all add: wins_ok_def capture_ok_def entry_wf_def)

lemma wins_ok_no_popups: "wins_ok s [] \<longleftrightarrow> \<not> g_closing_popups s \<and> capture s = None"
  by (auto simp: wins_ok_def capture_ok_def linked_def split: option.splits)

lemma wins_ok_change:
  assumes ok: "wins_ok s ps" and keep: "\<And>d. win_removed (f d) = win_removed d"
  shows "wins_ok (s\<lparr>g_roots := item_change p f (g_roots s)\<rparr>) ps"
proof -
  have "entry_wf (s\<lparr>g_roots := item_change p f (g_roots s)\<rparr>) i e" if "entry_wf s i e" for i e
  proof -
    obtain a q w where e: "e = (a, q, w)" by (cases e)
    with that obtain t where t: "item_in (snd (pop_owner q)) (g_roots s) = Some t" "pop_items q = visible_children (pop_owner q) t"
      by (auto simp: entry_wf_def)
    from item_change_in [where f = f and p = p, OF keep t(1)] obtain t1
      where "item_in (snd (pop_owner q)) (item_change p f (g_roots s)) = Some t1"
        and "visible_children (pop_owner q) t1 = visible_children (pop_owner q) t" by blast
    then show ?thesis using that e t(2) by (auto simp: entry_wf_def)
  qed
  then show ?thesis using ok by (auto simp: wins_ok_def capture_ok_def)
qed

lemma tray_rows_change_root: "k < length ts \<Longrightarrow> map tray_row (item_change [k] f ts) = (map tray_row ts)[k := tray_row (map_data f (ts ! k))]"
  by (simp add: map_update)

lemma tray_rows_change_below: "p \<noteq> [] \<Longrightarrow> map tray_row (item_change (k # p) f ts) = map tray_row ts"
proof (cases "k < length ts")
  case True
  assume "p \<noteq> []"
  with True have "map tray_row (item_change (k # p) f ts) = (map tray_row ts)[k := tray_row (ts ! k)]"
    by (simp add: map_update tray_row_def is_shown_def)
  also have "\<dots> = map tray_row ts" using True by (metis list_update_id nth_map)
  finally show ?thesis .
qed simp

abbreviation set_icon :: "win_data \<Rightarrow> win_data" where
  "set_icon \<equiv> \<lambda>d. d\<lparr>win_tray_icon := Some (win_label d)\<rparr>"

lemma tray_rows_set_icon: "map tray_row (item_change [k] set_icon ts) = map tray_row ts"
proof (cases "k < length ts")
  case True
  have row: "tray_row (map_data set_icon (ts ! k)) = map tray_row ts ! k" using True by (simp add: tray_row_def is_shown_def)
  show ?thesis unfolding tray_rows_change_root [OF True] row by (rule list_update_id)
qed simp

definition notified :: "bool \<Rightarrow> win_item \<Rightarrow> win_state \<Rightarrow> 32 word \<Rightarrow> wide option option" where
  "notified add t s = (if taskbar s \<and> (tray s (win_tray_id (win_data t)) = None) = add
     then (tray s)(win_tray_id (win_data t) := Some (win_label (win_data t))) else tray s)"

lemma add_or_modify_tray_run:
  assumes "k < length (g_roots s)"
  defines "t \<equiv> g_roots s ! k"
  shows "add_or_modify_tray (g_tree s, [k]) add (with_popups n ps s) = (Ret (), with_popups n ps
    (if win_removed (win_data t) then s else s\<lparr>g_roots := item_change [k] set_icon (g_roots s), tray := notified add t s\<rparr>))"
proof -
  have item: "w_item (g_tree s, [k]) (with_popups n ps s) = (Ret t, with_popups n ps s)"
    using assms by (simp add: w_item_Some)
  show ?thesis
  proof (cases "win_removed (win_data t)")
    case True
    then show ?thesis by (simp add: add_or_modify_tray_def xs_bind_Ret [where m = "w_item (g_tree s, [k])", OF item] xs_simps)
  next
    case False
    have "s\<lparr>g_roots := r\<rparr> = s\<lparr>g_roots := r, tray := tray s\<rparr>" for r by (cases s) simp
    with False show ?thesis
      by (simp add: add_or_modify_tray_def xs_bind_Ret [where m = "w_item (g_tree s, [k])", OF item] change_item_def shell_notify_def
          notified_def xs_simps)
  qed
qed

lemma delete_tray_run:
  assumes "k < length (g_roots s)"
  defines "i \<equiv> win_tray_id (win_data (g_roots s ! k))"
  shows "delete_tray (g_tree s, [k]) (with_popups n ps s) = (Ret (), with_popups n ps
    (if i = 0 then s else s\<lparr>tray := (tray s)(i := None)\<rparr>))"
proof -
  have "w_item (g_tree s, [k]) (with_popups n ps s) = (Ret (g_roots s ! k), with_popups n ps s)"
    using assms by (simp add: w_item_Some)
  then show ?thesis
    by (simp add: delete_tray_def xs_bind_Ret [where m = "w_item (g_tree s, [k])"] i_def xs_simps)
qed

subsection \<open>Clearing and installing\<close>

lemma clear_loop_run:
  "k \<le> length (g_roots s) \<Longrightarrow> clear_loop k (with_popups n ps s) = (Ret (), with_popups n ps
    (s\<lparr>tray := (\<lambda>i. if i \<noteq> 0 \<and> (\<exists>j < k. win_tray_id (win_data (g_roots s ! j)) = i) then None else tray s i)\<rparr>))"
proof (induction k)
  case (Suc k)
  let ?tr = "\<lambda>i. if i \<noteq> 0 \<and> (\<exists>j < k. win_tray_id (win_data (g_roots s ! j)) = i) then None else tray s i"
  have "delete_tray (g_tree s, [k]) (with_popups n ps (s\<lparr>tray := ?tr\<rparr>)) = (Ret (), with_popups n ps
     (if win_tray_id (win_data (g_roots s ! k)) = 0 then s\<lparr>tray := ?tr\<rparr>
      else s\<lparr>tray := ?tr(win_tray_id (win_data (g_roots s ! k)) := None)\<rparr>))"
    using delete_tray_run [of k "s\<lparr>tray := ?tr\<rparr>" n ps] Suc.prems by simp
  moreover have "(if win_tray_id (win_data (g_roots s ! k)) = 0 then ?tr else ?tr(win_tray_id (win_data (g_roots s ! k)) := None))
     = (\<lambda>i. if i \<noteq> 0 \<and> (\<exists>j < Suc k. win_tray_id (win_data (g_roots s ! j)) = i) then None else tray s i)"
    by (auto simp: less_Suc_eq fun_eq_iff)
  ultimately show ?case using Suc by (auto simp: xs_simps split: if_splits)
qed (simp add: xs_simps)

definition cleared :: "win_state \<Rightarrow> (32 word \<Rightarrow> wide option option) \<Rightarrow> win_state" where
  "cleared s tr = s\<lparr>capture := None, tray := tr, g_roots := [], g_tree := g_tree s + 1, g_next_tray_id := 1\<rparr>"

lemma clear_all_run:
  assumes ok: "wins_ok s ps"
  obtains tr where "clear_all (with_popups (length ps) ps s) = (Ret (), with_popups 0 [] (cleared s tr))"
    and "wins_ok (cleared s tr) []" and "tray_ok s \<Longrightarrow> tr = (\<lambda>_. None) \<and> tray_ok (cleared s tr)"
proof -
  let ?tr = "\<lambda>i. if i \<noteq> 0 \<and> (\<exists>j < length (g_roots s). win_tray_id (win_data (g_roots s ! j)) = i) then None else tray s i"
  have close: "popup_close_all (with_popups (length ps) ps s) = (Ret (), with_popups 0 [] (s\<lparr>capture := None\<rparr>))"
    by (rule popup_close_all_stack) (use ok in \<open>simp_all add: wins_ok_def\<close>)
  have loop: "clear_loop (length (g_roots s)) (with_popups 0 [] (s\<lparr>capture := None\<rparr>)) = (Ret (), with_popups 0 [] (s\<lparr>capture := None, tray := ?tr\<rparr>))"
    using clear_loop_run [of "length (g_roots s)" "s\<lparr>capture := None\<rparr>" 0 "[]"] by (simp cong del: if_weak_cong)
  have run: "clear_all (with_popups (length ps) ps s) = (Ret (), with_popups 0 [] (cleared s ?tr))"
    unfolding clear_all_def xs_then_Ret [where m = popup_close_all, OF close]
    by (simp add: xs_simps xs_then_Ret [where m = "clear_loop (length (g_roots s))", OF loop] cleared_def)
  have none: "?tr = (\<lambda>_. None)" if tray: "tray_ok s"
  proof
    fix i
    have icons: "icons_ok (map tray_row (g_roots s)) (taskbar s) (tray s)" using tray by (simp add: tray_ok_def)
    show "?tr i = None"
    proof (cases "tray s i")
      case (Some l)
      from icons_ok_sound [OF icons Some] obtain k where k: "k < length (g_roots s)" "tray_row (g_roots s ! k) = (i, l, True)" by auto
      with icons_ok_id_nonzero [OF icons, of k] show ?thesis by (auto simp: tray_row_def)
    qed simp
  qed
  have "tray_ok (cleared s (\<lambda>_. None))" by (simp add: tray_ok_def cleared_def icons_ok_def icons_done_def)
  with none have "tray_ok s \<Longrightarrow> ?tr = (\<lambda>_. None) \<and> tray_ok (cleared s ?tr)" by metis
  moreover have "wins_ok (cleared s ?tr) []" unfolding wins_ok_no_popups using ok by (simp add: cleared_def wins_ok_def)
  ultimately show thesis using that [OF run] by blast
qed

text \<open>A new icon for a root keeps what the notification area promises.\<close>

lemma tray_ok_add:
  assumes icons: "icons_ok (map tray_row (g_roots s)) (taskbar s) (tray s)" and k: "k < length (g_roots s)"
    and shown: "is_shown (g_roots s ! k)"
  shows "icons_ok (map tray_row (g_roots s)) (taskbar s) (notified True (g_roots s ! k) s)"
    and "n \<le> length (g_roots s) \<Longrightarrow> icons_done n (map tray_row (g_roots s)) (taskbar s) (tray s) \<Longrightarrow>
      icons_done n (map tray_row (g_roots s)) (taskbar s) (notified True (g_roots s ! k) s)"
    and "taskbar s \<Longrightarrow> notified True (g_roots s ! k) s (win_tray_id (win_data (g_roots s ! k))) = Some (win_label (win_data (g_roots s ! k)))"
proof -
  let ?t = "g_roots s ! k"
  have row: "map tray_row (g_roots s) ! k = (win_tray_id (win_data ?t), win_label (win_data ?t), True)"
    using k shown by (simp add: tray_row_def)
  have eq: "notified True ?t s = (if taskbar s \<and> tray s (win_tray_id (win_data ?t)) = None
      then (tray s)(win_tray_id (win_data ?t) := Some (win_label (win_data ?t))) else tray s)"
    by (simp add: notified_def)
  show "icons_ok (map tray_row (g_roots s)) (taskbar s) (notified True ?t s)"
    and "n \<le> length (g_roots s) \<Longrightarrow> icons_done n (map tray_row (g_roots s)) (taskbar s) (tray s) \<Longrightarrow>
      icons_done n (map tray_row (g_roots s)) (taskbar s) (notified True ?t s)"
    and "taskbar s \<Longrightarrow> notified True ?t s (win_tray_id (win_data ?t)) = Some (win_label (win_data ?t))"
    unfolding eq using icons_add(1,3) [OF icons _ row] icons_add(2) [OF icons _ row, of n] k by simp_all
qed

lemma tray_ok_update: "tray_ok (s\<lparr>g_roots := r, tray := t\<rparr>) \<longleftrightarrow> g_next_tray_id s = of_nat (Suc (length r))
     \<and> icons_ok (map tray_row r) (taskbar s) t \<and> (taskbar_told s \<longrightarrow> icons_done (length r) (map tray_row r) (taskbar s) t)"
  by (simp add: tray_ok_def)

definition rooted :: "win_item \<Rightarrow> win_state \<Rightarrow> win_state" where
  "rooted t s = s\<lparr>g_roots := g_roots s @ [map_data (\<lambda>d. d\<lparr>win_tray_id := g_next_tray_id s\<rparr>) t], g_next_tray_id := g_next_tray_id s + 1\<rparr>"

definition installed :: "win_item \<Rightarrow> win_state \<Rightarrow> win_state" where
  "installed t s = (let s1 = rooted t s; k = length (g_roots s); u = g_roots s1 ! k
     in if win_removed (win_data u) then s1
        else s1\<lparr>g_roots := item_change [k] set_icon (g_roots s1), tray := notified True u s1\<rparr>)"

lemma installed_fields:
  "length (g_roots (installed t s)) = Suc (length (g_roots s))"
  "wins_ok (installed t s) [] = wins_ok s []"
  "g_tree (installed t s) = g_tree s"
  by (simp_all add: installed_def rooted_def Let_def wins_ok_no_popups)

lemma tray_ok_installed:
  assumes ok: "tray_ok s" and room: "Suc (length (g_roots s)) < 2 ^ 32"
  shows "tray_ok (installed t s)"
proof -
  let ?v = "map tray_row (g_roots s)" and ?k = "length (g_roots s)" and ?s = "rooted t s"
  let ?u = "map_data (\<lambda>d. d\<lparr>win_tray_id := g_next_tray_id s\<rparr>) t"
  have next_id: "g_next_tray_id s = of_nat (Suc (length ?v))" using ok by (simp add: tray_ok_def)
  have icons: "icons_ok ?v (taskbar s) (tray s)" using ok by (simp add: tray_ok_def)
  have roots: "g_roots ?s = g_roots s @ [?u]" "g_roots ?s ! ?k = ?u" by (simp_all add: rooted_def)
  have row: "tray_row ?u = (of_nat (Suc (length ?v)), win_label (win_data t), is_shown t)"
    by (simp add: tray_row_def is_shown_def next_id)
  then have rows: "map tray_row (g_roots ?s) = ?v @ [(of_nat (Suc (length ?v)), win_label (win_data t), is_shown t)]"
    by (simp add: roots)
  have room': "Suc (length ?v) < 2 ^ 32" using room by simp
  have grown: "icons_ok (map tray_row (g_roots ?s)) (taskbar ?s) (tray ?s)"
    unfolding rows using icons_append(1) [OF icons room'] by (simp add: rooted_def)
  have old: "icons_done ?k (map tray_row (g_roots ?s)) (taskbar ?s) (tray ?s)" if "taskbar_told s"
    unfolding rows using icons_append(3) [OF icons room'] ok that by (simp add: tray_ok_def rooted_def)
  have told: "taskbar_told ?s = taskbar_told s" "g_next_tray_id ?s = of_nat (Suc (Suc ?k))" by (simp_all add: rooted_def next_id)
  have len: "length (g_roots ?s) = Suc ?k" by (simp add: rooted_def)
  show ?thesis
  proof (cases "win_removed (win_data ?u)")
    case True
    have "icons_done (Suc ?k) (map tray_row (g_roots ?s)) (taskbar ?s) (tray ?s)" if "taskbar_told s"
      using old [OF that] True by (auto simp: icons_done_def less_Suc_eq roots nth_append tray_row_def is_shown_def)
    then have "tray_ok ?s" using grown told len by (simp add: tray_ok_def)
    then show ?thesis using True by (simp add: installed_def Let_def roots)
  next
    case False
    then have shown: "is_shown (g_roots ?s ! ?k)" and k: "?k < length (g_roots ?s)" by (simp_all add: roots is_shown_def)
    let ?tr = "notified True (g_roots ?s ! ?k) ?s"
    note add = tray_ok_add [OF grown k shown]
    have "icons_done (Suc ?k) (map tray_row (g_roots ?s)) (taskbar ?s) ?tr" if "taskbar_told s"
      unfolding icons_done_def
    proof (intro allI impI)
      fix j assume j: "j < Suc ?k" and tb: "taskbar ?s" and "snd (snd (map tray_row (g_roots ?s) ! j))"
      then show "?tr (fst (map tray_row (g_roots ?s) ! j)) = Some (fst (snd (map tray_row (g_roots ?s) ! j)))"
        using add(2) [OF _ old [OF that]] add(3) [OF tb] k by (cases "j = ?k") (simp_all add: icons_done_def len tray_row_def)
    qed
    then have "tray_ok (?s\<lparr>g_roots := item_change [?k] set_icon (g_roots ?s), tray := ?tr\<rparr>)"
      unfolding tray_ok_update tray_rows_set_icon using add(1) told len by simp
    then show ?thesis using False by (simp add: installed_def Let_def roots)
  qed
qed

lemma install_loop_run:
  assumes "wins_ok s []"
  obtains s1 where "win_install_loop d vs (with_popups 0 [] s) = (Ret (), with_popups 0 [] s1)" and "wins_ok s1 []"
    and "length (g_roots s) \<le> length (g_roots s1)" and "tray_ok s \<Longrightarrow> length (g_roots s1) < 2 ^ 32 \<Longrightarrow> tray_ok s1"
proof -
  have "\<exists>s1. win_install_loop d vs (with_popups 0 [] s) = (Ret (), with_popups 0 [] s1) \<and> wins_ok s1 []
    \<and> length (g_roots s) \<le> length (g_roots s1) \<and> (tray_ok s \<longrightarrow> length (g_roots s1) < 2 ^ 32 \<longrightarrow> tray_ok s1)"
    using assms
  proof (induction vs arbitrary: s)
    case Nil
    then show ?case by (auto simp: xs_simps)
  next
    case (Cons v vs)
    show ?case
    proof (cases "win_item_from_json (d_wide d) v")
      case None
      with Cons show ?thesis by simp
    next
      case (Some t)
      have root: "add_root t (with_popups 0 [] s) = (Ret (), with_popups 0 [] (rooted t s))"
        by (simp add: add_root_def rooted_def xs_simps)
      have tree: "g_tree (rooted t s) = g_tree s" by (simp add: rooted_def)
      have tray: "add_or_modify_tray (g_tree s, [length (g_roots s)]) True (with_popups 0 [] (rooted t s)) = (Ret (), with_popups 0 [] (installed t s))"
        using add_or_modify_tray_run [of "length (g_roots s)" "rooted t s" True 0 "[]"]
        by (simp add: tree installed_def Let_def) (simp add: rooted_def)
      have step: "win_install_loop d (v # vs) (with_popups 0 [] s) = win_install_loop d vs (with_popups 0 [] (installed t s))"
        using Some by (simp add: xs_simps xs_then_Ret [where m = "add_root t", OF root]
            xs_then_Ret [where m = "add_or_modify_tray (g_tree s, [length (g_roots s)]) True", OF tray])
      from Cons.IH [of "installed t s"] Cons.prems obtain s1
        where "win_install_loop d vs (with_popups 0 [] (installed t s)) = (Ret (), with_popups 0 [] s1)" and "wins_ok s1 []"
          and "Suc (length (g_roots s)) \<le> length (g_roots s1)" and "tray_ok (installed t s) \<longrightarrow> length (g_roots s1) < 2 ^ 32 \<longrightarrow> tray_ok s1"
        by (auto simp: installed_fields)
      with step tray_ok_installed [of s t] show ?thesis by (intro exI [of _ s1]) auto
    qed
  qed
  with that show thesis by blast
qed

lemma install_run_keeps: "wins_ok s ps \<Longrightarrow> keeps s (install_run d cmd (with_popups (length ps) ps s))"
proof -
  assume ok: "wins_ok s ps"
  obtain tr where clear: "clear_all (with_popups (length ps) ps s) = (Ret (), with_popups 0 [] (cleared s tr))"
    and cl: "wins_ok (cleared s tr) []" "tray_ok s \<Longrightarrow> tr = (\<lambda>_. None) \<and> tray_ok (cleared s tr)"
    using clear_all_run [OF ok] by blast
  have rest: "keeps s (win_install_loop d vs (with_popups 0 [] (cleared s tr)))" for vs
  proof -
    obtain s1 where s1: "win_install_loop d vs (with_popups 0 [] (cleared s tr)) = (Ret (), with_popups 0 [] s1)" "wins_ok s1 []"
      and tray: "tray_ok (cleared s tr) \<Longrightarrow> length (g_roots s1) < 2 ^ 32 \<Longrightarrow> tray_ok s1"
      using install_loop_run [OF cl(1), of d vs] by blast
    show ?thesis by (rule keepsI [of _ "[]" s1]) (use s1 tray cl(2) in auto)
  qed
  have "keeps s (Ret (), with_popups 0 [] (cleared s tr))" by (rule keepsI [of _ "[]" "cleared s tr"]) (use cl in auto)
  with rest show ?thesis
    by (simp add: install_run_def xs_then_Ret [where m = clear_all, OF clear] xs_simps split: option.splits jvalue.splits)
qed

subsection \<open>Icons, removals, a new taskbar\<close>

lemma root_of_path: "item_in [k] ts = Some t \<longleftrightarrow> k < length ts \<and> t = ts ! k"
  by auto

lemma invalidate_popups_run:
  assumes "stack_ok ps"
  shows "invalidate_popups (with_popups (length ps) ps s) = (Ret (), with_popups (length ps) ps s)"
proof -
  have "invalidate_from i n (with_popups (length ps) ps s) = (Ret (), with_popups (length ps) ps s)" if "i + n = length ps" for i n
    using that
  proof (induction n arbitrary: i)
    case (Suc n)
    obtain p q w where e: "ps ! i = (p, q, w)" by (cases "ps ! i")
    have slot: "popup_slot i (with_popups (length ps) ps s) = (Ret (Some p), with_popups (length ps) ps s)"
      using popup_slot_stack [OF assms, of i] Suc.prems e by simp
    have "popup_ref p (with_popups (length ps) ps s) = (Ret q, with_popups (length ps) ps s)"
      using popup_ref_stack [OF assms _ e] Suc.prems by simp
    then have "xs_then (popup_ref p) (xs_return ()) (with_popups (length ps) ps s) = (Ret (), with_popups (length ps) ps s)"
      by (simp add: xs_simps)
    then show ?case using Suc.IH [of "Suc i"] Suc.prems by (simp add: xs_bind_Ret [where m = "popup_slot i", OF slot] xs_simps)
  qed (simp add: xs_simps)
  then show ?thesis by (simp add: invalidate_popups_def xs_simps)
qed

lemma command_icon_keeps:
  assumes ok: "wins_ok s ps"
  shows "keeps s (command_icon d cmd (with_popups (length ps) ps s))"
proof (cases "(j_get_string cmd ''name'', j_get_string cmd ''icon'')")
  case (Pair a b)
  let ?S = "with_popups (length ps) ps s"
  have stack: "stack_ok ps" using ok by (simp add: wins_ok_def)
  have idle: "keeps s (Ret (), ?S)" by (rule keeps_same [OF ok])
  consider (skip) "command_icon d cmd ?S = (Ret (), ?S)" | (go) name icon p t where "a = Some name" "b = Some icon"
      "win_find name (g_roots s) = Some p" "item_in p (g_roots s) = Some t"
  proof (cases "a = None \<or> b = None")
    case True
    then show ?thesis using Pair skip by (auto simp: command_icon_def xs_simps split: option.splits)
  next
    case False
    then obtain name icon where ab: "a = Some name" "b = Some icon" by auto
    show ?thesis
    proof (cases "win_find name (g_roots s)")
      case None
      with ab Pair show ?thesis using skip by (simp add: command_icon_def xs_simps)
    next
      case found: (Some p)
      with win_find_in [OF found] ab go show ?thesis by blast
    qed
  qed
  then show ?thesis
  proof cases
    case skip
    with idle show ?thesis by simp
  next
    case (go name icon p t)
    have item: "w_item (g_tree s, p) ?S = (Ret t, ?S)" using go by (simp add: w_item_Some)
    consider (still) "win_removed (win_data t) \<or> d_wide d icon = None" | (set) w where "\<not> win_removed (win_data t)" "d_wide d icon = Some w" by auto
    then show ?thesis
    proof cases
      case still
      then have "command_icon d cmd ?S = (Ret (), ?S)"
        using Pair go by (auto simp: command_icon_def xs_bind_Ret [where m = "w_item (g_tree s, p)", OF item] xs_simps)
      with idle show ?thesis by simp
    next
      case (set w)
      let ?f = "\<lambda>e. e\<lparr>win_label := Some w\<rparr>" and ?s = "s\<lparr>g_roots := item_change p (\<lambda>e. e\<lparr>win_label := Some w\<rparr>) (g_roots s)\<rparr>"
      have change: "change_item p ?f ?S = (Ret (), with_popups (length ps) ps ?s)" by (simp add: change_item_def xs_simps)
      have split: "command_icon d cmd ?S = xs_then (if length p = 1 then add_or_modify_tray (g_tree s, p) False else xs_return ()) invalidate_popups (with_popups (length ps) ps ?s)"
        using Pair go set by (simp add: command_icon_def xs_bind_Ret [where m = "w_item (g_tree s, p)", OF item]
            xs_then_Ret [where m = "change_item p ?f", OF change] xs_simps)
      have win: "wins_ok ?s ps" by (rule wins_ok_change [OF ok]) simp
      obtain k q where p: "p = k # q" using go(4) by (cases p) auto
      then have k: "k < length (g_roots s)" using go(4) by (auto split: if_splits)
      show ?thesis
      proof (cases "q = []")
        case False
        then have "command_icon d cmd ?S = (Ret (), with_popups (length ps) ps ?s)" using split p invalidate_popups_run [OF stack] by (simp add: xs_simps)
        moreover have "tray_ok ?s = tray_ok s"
          using tray_rows_change_below [OF False, of k ?f "g_roots s"] p by (simp add: tray_ok_def)
        ultimately show ?thesis using win by (intro keepsI) simp_all
      next
        case True
        let ?u = "g_roots ?s ! k" and ?v = "map tray_row (g_roots s)"
        have t: "t = g_roots s ! k" using go(4) p True k by simp
        have u: "?u = map_data ?f t" using p True k t by simp
        let ?s2 = "?s\<lparr>g_roots := item_change [k] set_icon (g_roots ?s), tray := notified False ?u ?s\<rparr>"
        have "add_or_modify_tray (g_tree ?s, [k]) False (with_popups (length ps) ps ?s) = (Ret (), with_popups (length ps) ps ?s2)"
          using add_or_modify_tray_run [of k ?s False "length ps" ps] k u set by simp
        then have run: "command_icon d cmd ?S = (Ret (), with_popups (length ps) ps ?s2)" using split p True invalidate_popups_run [OF stack] by (simp add: xs_then_Ret)
        have "wins_ok (?s\<lparr>g_roots := item_change [k] set_icon (g_roots ?s)\<rparr>) ps" by (rule wins_ok_change [OF win]) simp
        then have win2: "wins_ok ?s2 ps" by simp
        have row: "?v ! k = (win_tray_id (win_data t), win_label (win_data t), is_shown t)" using k t by (simp add: tray_row_def)
        have rows: "map tray_row (g_roots ?s) = ?v[k := (win_tray_id (win_data t), Some w, is_shown t)]"
          using p True tray_rows_change_root [OF k, of ?f] t by (simp add: tray_row_def is_shown_def)
        have tr: "notified False ?u ?s = (if taskbar s \<and> (tray s (win_tray_id (win_data t)) = None) = False
            then (tray s)(win_tray_id (win_data t) := Some (Some w)) else tray s)"
          unfolding u by (auto simp: notified_def)
        have "tray_ok ?s2" if "tray_ok s"
          unfolding tray_ok_update tray_rows_set_icon rows tr
          using that icons_relabel(1) [where v = ?v and tb = "taskbar s" and tr = "tray s" and m = "Some w", OF _ _ row]
            icons_relabel(2) [where v = ?v and tb = "taskbar s" and tr = "tray s" and m = "Some w" and n = "length (g_roots s)", OF _ _ row] k
          by (simp add: tray_ok_def)
        with run win2 show ?thesis by (intro keepsI) simp_all
      qed
    qed
  qed
qed

lemma command_remove_keeps:
  assumes ok: "wins_ok s ps"
  shows "keeps s (command_remove cmd (with_popups (length ps) ps s))"
proof -
  let ?S = "with_popups (length ps) ps s"
  have idle: "keeps s (Ret (), ?S)" by (rule keeps_same [OF ok])
  consider (skip) "command_remove cmd ?S = (Ret (), ?S)" | (go) name p t where "j_get_string cmd ''name'' = Some name"
      "win_find name (g_roots s) = Some p" "item_in p (g_roots s) = Some t"
  proof (cases "j_get_string cmd ''name''")
    case None
    then show ?thesis using skip by (simp add: command_remove_def xs_simps)
  next
    case (Some name)
    show ?thesis
    proof (cases "win_find name (g_roots s)")
      case None
      with Some show ?thesis using skip by (simp add: command_remove_def xs_simps)
    next
      case found: (Some p)
      with win_find_in [OF found] Some go show ?thesis by blast
    qed
  qed
  then show ?thesis
  proof cases
    case skip
    with idle show ?thesis by simp
  next
    case (go name p t)
    have item: "w_item (g_tree s, p) ?S = (Ret t, ?S)" using go by (simp add: w_item_Some)
    show ?thesis
    proof (cases "win_removed (win_data t)")
      case True
      then have "command_remove cmd ?S = (Ret (), ?S)"
        using go by (simp add: command_remove_def xs_bind_Ret [where m = "w_item (g_tree s, p)", OF item] xs_simps)
      with idle show ?thesis by simp
    next
      case False
      let ?f = "\<lambda>e. e\<lparr>win_removed := True\<rparr>"
      define r where "r = item_change p ?f (g_roots s)"
      let ?s = "s\<lparr>g_roots := r\<rparr>"
      have change: "change_item p ?f ?S = (Ret (), with_popups (length ps) ps ?s)" by (simp add: change_item_def xs_simps r_def)
      have split: "command_remove cmd ?S = xs_then (if length p = 1 then delete_tray (g_tree s, p) else xs_return ()) popup_close_all (with_popups (length ps) ps ?s)"
        using go False by (simp add: command_remove_def xs_bind_Ret [where m = "w_item (g_tree s, p)", OF item]
            xs_then_Ret [where m = "change_item p ?f", OF change] xs_simps)
      have close: "popup_close_all (with_popups (length ps) ps u) = (Ret (), with_popups 0 [] (u\<lparr>capture := None\<rparr>))"
        if "g_closing_popups u = g_closing_popups s" for u
        by (rule popup_close_all_stack) (use ok that in \<open>simp_all add: wins_ok_def\<close>)
      obtain k q where p: "p = k # q" using go(3) by (cases p) auto
      then have k: "k < length (g_roots s)" using go(3) by (auto split: if_splits)
      have closed: "\<not> g_closing_popups s" using ok by (simp add: wins_ok_def)
      show ?thesis
      proof (cases "q = []")
        case below: False
        then have run: "command_remove cmd ?S = (Ret (), with_popups 0 [] (?s\<lparr>capture := None\<rparr>))"
          using split p close [of ?s] by (simp add: xs_simps)
        have "tray_ok (?s\<lparr>capture := None\<rparr>) = tray_ok s"
          using tray_rows_change_below [OF below, of k ?f "g_roots s"] p by (simp add: tray_ok_def r_def)
        with run closed show ?thesis
          by (intro keepsI [of _ "[]" "?s\<lparr>capture := None\<rparr>"]) (simp_all add: wins_ok_no_popups)
      next
        case True
        let ?v = "map tray_row (g_roots s)" and ?i = "win_tray_id (win_data t)"
        have t: "t = g_roots s ! k" using go(3) p True k by simp
        have len: "length r = length (g_roots s)" by (simp add: r_def)
        have kr: "k < length (g_roots ?s)" and ri: "win_tray_id (win_data (g_roots ?s ! k)) = ?i" using k p True t by (simp_all add: r_def)
        let ?tr = "if ?i = 0 then tray s else (tray s)(?i := None)"
        let ?s2 = "?s\<lparr>tray := ?tr, capture := None\<rparr>"
        have del: "delete_tray (g_tree s, p) (with_popups (length ps) ps ?s) = (Ret (), with_popups (length ps) ps (?s\<lparr>tray := ?tr\<rparr>))"
          using delete_tray_run [OF kr, of "length ps" ps, unfolded ri] p True by (cases s) simp
        have "command_remove cmd ?S = xs_then (delete_tray (g_tree s, p)) popup_close_all (with_popups (length ps) ps ?s)"
          using split p True by simp
        then have run: "command_remove cmd ?S = (Ret (), with_popups 0 [] ?s2)"
          unfolding xs_then_Ret [where m = "delete_tray (g_tree s, p)", OF del] using close [of "?s\<lparr>tray := ?tr\<rparr>"] by simp
        have row: "?v ! k = (?i, win_label (win_data t), is_shown t)" using k t by (simp add: tray_row_def)
        have rows: "map tray_row (g_roots ?s) = ?v[k := (?i, win_label (win_data t), False)]"
          using p True tray_rows_change_root [OF k, of ?f] t by (simp add: tray_row_def is_shown_def r_def)
        have "tray_ok ?s2" if tray: "tray_ok s"
        proof -
          have icons: "icons_ok ?v (taskbar s) (tray s)" using tray by (simp add: tray_ok_def)
          have "?i \<noteq> 0" using icons_ok_id_nonzero [OF icons, of k] k row by simp
          then have "?tr = (tray s)(?i := None)" by simp
          moreover note icons_remove(1) [OF icons _ row] icons_remove(2) [OF icons _ row, of "length (g_roots s)"]
          ultimately show ?thesis
            using tray rows k by (simp add: tray_ok_def len)
        qed
        with run closed show ?thesis
          by (intro keepsI [of _ "[]" ?s2]) (simp_all add: wins_ok_no_popups)
      qed
    qed
  qed
qed

definition same_but_icons :: "win_state \<Rightarrow> win_state \<Rightarrow> bool" where
  "same_but_icons s s1 \<longleftrightarrow> map tray_row (g_roots s1) = map tray_row (g_roots s) \<and> taskbar s1 = taskbar s \<and> taskbar_told s1 = taskbar_told s
     \<and> g_next_tray_id s1 = g_next_tray_id s \<and> g_tree s1 = g_tree s"

lemma same_but_icons_length: "same_but_icons s s1 \<Longrightarrow> length (g_roots s1) = length (g_roots s)"
  by (metis length_map same_but_icons_def)

lemma readd_loop_run:
  assumes ok: "wins_ok s ps" and "n \<le> length (g_roots s)"
  obtains s1 where "readd_loop n (with_popups (length ps) ps s) = (Ret (), with_popups (length ps) ps s1)" and "wins_ok s1 ps"
    and "same_but_icons s s1"
    and "icons_ok (map tray_row (g_roots s)) (taskbar s) (tray s) \<Longrightarrow>
      icons_ok (map tray_row (g_roots s)) (taskbar s) (tray s1) \<and> icons_done n (map tray_row (g_roots s)) (taskbar s) (tray s1)"
proof -
  let ?v = "map tray_row (g_roots s)"
  have "\<exists>s1. readd_loop n (with_popups (length ps) ps s) = (Ret (), with_popups (length ps) ps s1) \<and> wins_ok s1 ps \<and> same_but_icons s s1
    \<and> (icons_ok ?v (taskbar s) (tray s) \<longrightarrow> icons_ok ?v (taskbar s) (tray s1) \<and> icons_done n ?v (taskbar s) (tray s1))"
    using assms(2)
  proof (induction n)
    case 0
    then show ?case using ok by (auto simp: xs_simps same_but_icons_def icons_done_def)
  next
    case (Suc n)
    then obtain s1 where s1: "readd_loop n (with_popups (length ps) ps s) = (Ret (), with_popups (length ps) ps s1)" "wins_ok s1 ps"
      "same_but_icons s s1" and tray: "icons_ok ?v (taskbar s) (tray s) \<Longrightarrow> icons_ok ?v (taskbar s) (tray s1) \<and> icons_done n ?v (taskbar s) (tray s1)"
      by auto
    let ?t = "g_roots s1 ! n"
    have n: "n < length (g_roots s1)" "n < length (g_roots s)" using Suc.prems same_but_icons_length [OF s1(3)] by simp_all
    have rows: "map tray_row (g_roots s1) = ?v" and bar: "taskbar s1 = taskbar s" using s1(3) by (simp_all add: same_but_icons_def)
    have row: "?v ! n = tray_row ?t" using n by (simp add: rows [symmetric])
    have item: "w_item (g_tree s1, [n]) (with_popups (length ps) ps s1) = (Ret ?t, with_popups (length ps) ps s1)"
      using n by (simp add: w_item_Some)
    have step: "readd_loop (Suc n) (with_popups (length ps) ps s) =
        (if win_removed (win_data ?t) then xs_return () else add_or_modify_tray (g_tree s1, [n]) True) (with_popups (length ps) ps s1)"
      by (simp add: xs_then_Ret [where m = "readd_loop n", OF s1(1)] xs_bind_Ret [where m = "w_item (g_tree s1, [n])", OF item] xs_simps)
    show ?case
    proof (cases "win_removed (win_data ?t)")
      case True
      have "icons_done (Suc n) ?v (taskbar s) (tray s1)" if "icons_done n ?v (taskbar s) (tray s1)"
        using that row True by (auto simp: icons_done_def less_Suc_eq tray_row_def is_shown_def)
      with True step s1 tray show ?thesis by (intro exI [of _ s1]) (simp add: xs_simps)
    next
      case False
      let ?s2 = "s1\<lparr>g_roots := item_change [n] set_icon (g_roots s1), tray := notified True ?t s1\<rparr>"
      have run: "readd_loop (Suc n) (with_popups (length ps) ps s) = (Ret (), with_popups (length ps) ps ?s2)"
        using step False add_or_modify_tray_run [OF n(1), of True "length ps" ps] by simp
      have "wins_ok (s1\<lparr>g_roots := item_change [n] set_icon (g_roots s1)\<rparr>) ps" by (rule wins_ok_change [OF s1(2)]) simp
      then have win: "wins_ok ?s2 ps" by simp
      have same: "same_but_icons s ?s2" using s1(3) tray_rows_set_icon [of n "g_roots s1"] by (simp add: same_but_icons_def del: item_change.simps)
      have "icons_ok ?v (taskbar s) (tray ?s2) \<and> icons_done (Suc n) ?v (taskbar s) (tray ?s2)" if start: "icons_ok ?v (taskbar s) (tray s)"
      proof -
        have icons: "icons_ok (map tray_row (g_roots s1)) (taskbar s1) (tray s1)" and old: "icons_done n ?v (taskbar s) (tray s1)"
          using tray [OF start] by (simp_all add: rows bar)
        have shown: "is_shown ?t" using False by (simp add: is_shown_def)
        have new: "icons_done n ?v (taskbar s) (notified True ?t s1)"
          using tray_ok_add(2) [OF icons n(1) shown, of n] n old by (simp add: rows bar)
        have "icons_done (Suc n) ?v (taskbar s) (notified True ?t s1)"
          unfolding icons_done_def
        proof (intro allI impI)
          fix k assume "k < Suc n" and tb: "taskbar s" and "snd (snd (?v ! k))"
          then show "notified True ?t s1 (fst (?v ! k)) = Some (fst (snd (?v ! k)))"
            using new tray_ok_add(3) [OF icons n(1) shown] row by (cases "k = n") (auto simp: icons_done_def bar tray_row_def)
        qed
        then show ?thesis using tray_ok_add(1) [OF icons n(1) shown] by (simp add: rows bar)
      qed
      with run win same show ?thesis by (intro exI [of _ ?s2]) blast
    qed
  qed
  with that show thesis by blast
qed

subsection \<open>Every message keeps the invariants\<close>

lemma clear_destroy_keeps:
  assumes ok: "wins_ok s ps"
  shows "keeps s (xs_then clear_all destroy_host (with_popups (length ps) ps s))"
proof -
  obtain tr where clear: "clear_all (with_popups (length ps) ps s) = (Ret (), with_popups 0 [] (cleared s tr))"
    and cl: "wins_ok (cleared s tr) []" "tray_ok s \<Longrightarrow> tr = (\<lambda>_. None) \<and> tray_ok (cleared s tr)"
    using clear_all_run [OF ok] by blast
  let ?s = "(cleared s tr)\<lparr>g_host := False, quitting := True\<rparr>"
  have "xs_then clear_all destroy_host (with_popups (length ps) ps s) = (Ret (), with_popups 0 [] ?s)"
    by (simp add: xs_then_Ret [where m = clear_all, OF clear] destroy_host_def xs_simps)
  moreover have "tray_ok ?s = tray_ok (cleared s tr)" by (simp add: tray_ok_def)
  ultimately show ?thesis by (intro keepsI [of _ "[]" ?s]) (use cl in auto)
qed

lemma handle_command_line_keeps:
  assumes ok: "wins_ok s ps"
  shows "keeps s (handle_command_line d line (with_popups (length ps) ps s))"
  using j_parse_never_bad [of line] keeps_same [OF ok] install_run_keeps [OF ok] command_icon_keeps [OF ok] command_remove_keeps [OF ok]
    clear_destroy_keeps [OF ok]
  by (auto simp: handle_command_line_def xs_return_def split: parse_out.split option.split)

lemma taskbar_created_keeps:
  assumes ok: "wins_ok s ps" and host: "g_host s"
  shows "keeps s (win_step d Ev_Taskbar_Created (with_popups (length ps) ps s))"
proof -
  obtain s1 where s1: "readd_loop (length (g_roots s)) (with_popups (length ps) ps s) = (Ret (), with_popups (length ps) ps s1)" "wins_ok s1 ps"
    "same_but_icons s s1"
    and tray: "icons_ok (map tray_row (g_roots s)) (taskbar s) (tray s) \<Longrightarrow> icons_ok (map tray_row (g_roots s)) (taskbar s) (tray s1)
      \<and> icons_done (length (g_roots s)) (map tray_row (g_roots s)) (taskbar s) (tray s1)"
    using readd_loop_run [OF ok order.refl] by blast
  let ?s = "s1\<lparr>taskbar_told := True\<rparr>"
  have "win_step d Ev_Taskbar_Created (with_popups (length ps) ps s) = (Ret (), with_popups (length ps) ps ?s)"
    using host by (simp add: win_step_def host_proc_def xs_simps xs_then_Ret [where m = "readd_loop (length (g_roots s))", OF s1(1)])
  moreover have "tray_ok ?s" if "tray_ok s"
    using that tray s1(3) same_but_icons_length [OF s1(3)] by (simp add: tray_ok_def same_but_icons_def)
  ultimately show ?thesis using s1(2) by (intro keepsI [of _ ps ?s]) simp_all
qed

lemma win_step_keeps:
  assumes ok: "wins_ok s ps"
  shows "keeps s (win_step d e (with_popups (length ps) ps s))"
proof -
  let ?S = "with_popups (length ps) ps s"
  have same: "keeps s (Ret (), ?S)" by (rule keeps_same [OF ok])
  show ?thesis
  proof (cases e)
    case (Ev_Command line)
    then show ?thesis using same handle_command_line_keeps [OF ok] by (simp add: win_step_def host_proc_def xs_simps)
  next
    case (Ev_Tray i click)
    then show ?thesis using same ui_only_keeps [OF tray_click_ui [OF ok, of d i]] by (simp add: win_step_def host_proc_def xs_simps)
  next
    case Ev_Taskbar_Gone
    let ?s = "s\<lparr>tray := (\<lambda>_. None), taskbar := False\<rparr>"
    have "tray_ok ?s" if "tray_ok s" using that by (simp add: tray_ok_def icons_ok_def icons_done_def)
    then show ?thesis using ok Ev_Taskbar_Gone by (intro keepsI [of _ ps ?s]) (simp_all add: win_step_def xs_simps)
  next
    case Ev_Taskbar_Back
    let ?s = "s\<lparr>tray := (\<lambda>_. None), taskbar := True, taskbar_told := False\<rparr>"
    have "tray_ok ?s" if "tray_ok s" using that by (simp add: tray_ok_def icons_ok_def)
    then show ?thesis using ok Ev_Taskbar_Back by (intro keepsI [of _ ps ?s]) (simp_all add: win_step_def xs_simps)
  next
    case Ev_Taskbar_Created
    then show ?thesis using same taskbar_created_keeps [OF ok] by (cases "g_host s") (simp_all add: win_step_def host_proc_def xs_simps)
  next
    case Ev_Close
    then show ?thesis using same clear_destroy_keeps [OF ok] by (simp add: win_step_def host_proc_def xs_simps)
  next
    case (Ev_Mouse h pt click)
    then show ?thesis using same ui_only_keeps [OF popup_mouse_ui [OF ok, of d pt click]] by (simp add: win_step_def to_window_def xs_simps)
  next
    case (Ev_Escape h)
    then show ?thesis using same ui_only_keeps [OF popup_close_all_ui [OF ok]] by (simp add: win_step_def to_window_def xs_simps)
  next
    case Ev_Capture_Taken
    then show ?thesis using ui_only_keeps [OF capture_taken_ui [OF ok]] by (simp add: win_step_def)
  next
    case (Ev_Paint h)
    then show ?thesis using ui_only_keeps [OF popup_paint_ui [OF ok]] by (simp add: win_step_def)
  qed
qed

subsection \<open>The whole run\<close>

text \<open>The states between the messages of a run.\<close>

fun win_states :: "(desk \<times> win_event) list \<Rightarrow> win_state \<Rightarrow> win_state list" where
  "win_states [] s = []"
| "win_states ((d, e) # es) s =
     (if quitting s then [] else (let s1 = snd (win_step d e s) in s1 # win_states es s1))"

lemma win_step_ok:
  assumes "win_ok s"
  obtains s1 where "win_step d e s = (Ret (), s1)" and "win_ok s1" and "tray_ok s \<Longrightarrow> length (g_roots s1) < 2 ^ 32 \<Longrightarrow> tray_ok s1"
proof -
  from assms obtain ps where ps: "s = with_popups (length ps) ps s" "wins_ok s ps" by (auto simp: win_ok_def)
  from win_step_keeps [OF ps(2), of d e] obtain qs s1 where "win_step d e (with_popups (length ps) ps s) = (Ret (), with_popups (length qs) qs s1)"
    and "wins_ok s1 qs" and "tray_ok s \<longrightarrow> length (g_roots s1) < 2 ^ 32 \<longrightarrow> tray_ok s1"
    by (auto simp: keeps_def)
  moreover have "tray_ok (with_popups (length qs) qs s1) = tray_ok s1" by (simp add: tray_ok_def)
  moreover have "win_ok (with_popups (length qs) qs s1)" by (rule win_ok_with) fact
  ultimately show thesis using that [of "with_popups (length qs) qs s1"] ps(1) by simp
qed

lemma win_start_ok: "win_ok win_start" "tray_ok win_start"
proof -
  have "win_start = with_popups (length []) [] win_start"
    by (simp add: win_start_def with_popups_def slots_def structs_def frames_def)
  moreover have "wins_ok win_start []" by (simp add: wins_ok_no_popups win_start_def)
  ultimately show "win_ok win_start" unfolding win_ok_def by blast
  show "tray_ok win_start" by (simp add: tray_ok_def win_start_def icons_ok_def icons_done_def)
qed

lemma win_loop_ok:
  assumes "win_ok s"
  shows "list_all win_ok (win_states es s) \<and> (\<exists>s1. win_loop es s = (Ret (), s1) \<and> win_ok s1)"
  using assms
proof (induction es arbitrary: s)
  case (Cons de es)
  obtain d e where de: "de = (d, e)" by (cases de)
  obtain s1 where step: "win_step d e s = (Ret (), s1)" and ok: "win_ok s1" using win_step_ok [OF Cons.prems, of d e] by metis
  from Cons.IH [OF ok] step ok Cons.prems de show ?case by (auto simp: xs_simps xs_then_Ret [where m = "win_step d e", OF step] Let_def)
qed (simp add: xs_simps)

lemma win_states_tray:
  assumes "win_ok s" and "tray_ok s" and "list_all (\<lambda>s. length (g_roots s) < 2 ^ 32) (win_states es s)"
  shows "list_all tray_ok (win_states es s)"
  using assms
proof (induction es arbitrary: s)
  case (Cons de es)
  obtain d e where de: "de = (d, e)" by (cases de)
  obtain s1 where step: "win_step d e s = (Ret (), s1)" "win_ok s1" "tray_ok s \<Longrightarrow> length (g_roots s1) < 2 ^ 32 \<Longrightarrow> tray_ok s1"
    using win_step_ok [OF Cons.prems(1), of d e] by metis
  show ?case
  proof (cases "quitting s")
    case False
    with de step Cons.prems have "length (g_roots s1) < 2 ^ 32" and rest: "list_all (\<lambda>s. length (g_roots s) < 2 ^ 32) (win_states es s1)"
      by (simp_all add: Let_def)
    with step Cons.prems(2) have "tray_ok s1" by simp
    with Cons.IH [OF step(2) _ rest] de step(1) False show ?thesis by (simp add: Let_def)
  qed (simp add: de)
qed simp

subsection \<open>From the tray to an item\<close>

lemma tray_opens:
  assumes ok: "wins_ok s ps" and live: "\<not> quitting s" "g_host s"
    and root: "root_from i 0 (g_roots s) = Some r" "g_roots s ! r = t" "item_visible_child_count t \<noteq> 0"
    and window: "d_create d (popup_fresh s)"
  defines "e \<equiv> new_entry d s (g_tree s, [r]) t (fst (d_cursor d)) (snd (d_cursor d)) 0 None"
  shows "\<exists>k. win_step d (Ev_Tray i True) (with_popups (length ps) ps s)
      = (Ret (), with_popups (length [e]) [e] (moved s k (Some (popup_fresh s)) []))
    \<and> wins_ok (moved s k (Some (popup_fresh s)) []) [e]"
proof -
  let ?S = "with_popups (length ps) ps s" and ?ptr = "(g_tree s, [r])"
  have r: "r < length (g_roots s)" using root_from_Some [OF root(1)] by simp
  then have item: "w_item ?ptr ?S = (Ret t, ?S)" using root(2) by (simp add: w_item_Some)
  have step: "win_step d (Ev_Tray i True) ?S = popup_show_root d ?ptr ?S"
    using live root by (simp add: win_step_def host_proc_def tray_click_def find_root_by_tray_id_def
        xs_bind_Ret [where m = "w_item ?ptr", OF item] xs_simps)
  show ?thesis
  proof (rule popup_show_root_stack [OF ok, of ?ptr t d])
    fix qs k c
    assume run: "popup_show_root d ?ptr ?S = (Ret (), with_popups (length qs) qs (moved s k c []))" and win: "wins_ok (moved s k c []) qs"
      and "item_visible_child_count t \<noteq> 0 \<Longrightarrow> d_create d (popup_fresh s) \<Longrightarrow>
        qs = [new_entry d s ?ptr t (fst (d_cursor d)) (snd (d_cursor d)) 0 None] \<and> c = Some (popup_fresh s)"
    with root(3) window have "qs = [e]" and "c = Some (popup_fresh s)" by (simp_all add: e_def)
    with run win step show ?thesis by (intro exI [of _ k]) simp
  qed (use r root(2) in simp_all)
qed

lemma mouse_clicks:
  assumes ok: "wins_ok s ps" and ps: "ps \<noteq> []" and capture: "capture s = Some (fst (ps ! 0))"
  shows "\<exists>s1. win_step d (Ev_Mouse (fst (ps ! 0)) pt True) (with_popups (length ps) ps s) = (Ret (), s1)
    \<and> g_out s1 = g_out s @ click_lines (clicked_item s pt ps)"
proof -
  obtain p q w where e: "ps ! 0 = (p, q, w)" by (cases "ps ! 0")
  have i: "0 < length ps" using ps by simp
  note we = wins_ok_entry [OF ok i e]
  let ?S = "with_popups (length ps) ps s"
  have slot: "popup_slot 0 ?S = (Ret (Some p), ?S)" using popup_slot_stack [OF we(1) i] e by simp
  have frame: "frames ps p = Some w" using frames_nth [OF we(1) i] e by simp
  have "win_step d (Ev_Mouse (fst (ps ! 0)) pt True) ?S = handle_popup_mouse d pt True ?S"
    using i we(6) e frame capture by (simp add: win_step_def to_window_def popup_mouse_def xs_bind_Ret [where m = "popup_slot 0", OF slot]
        xs_bind_Ret [where m = "popup_ref p", OF popup_ref_stack [OF we(1) i e]] xs_simps)
  moreover have "\<exists>s1. handle_popup_mouse d pt True ?S = (Ret (), s1) \<and> g_out s1 = g_out s @ click_lines (clicked_item s pt ps)"
    by (rule handle_popup_mouse_stack [OF ok, of d pt True]) simp
  ultimately show ?thesis by simp
qed

subsection \<open>A small desktop\<close>

definition demo_desk :: desk where
  "demo_desk = \<lparr>d_wide = (\<lambda>s. Some (map (\<lambda>c. of_nat (of_char c)) s)), d_text_width = (\<lambda>w. Some (8 * int (length w))),
     d_create = (\<lambda>_. True), d_work_area = (\<lambda>_. \<lparr>r_left = 0, r_top = 0, r_right = 1000, r_bottom = 700\<rparr>), d_cursor = (900, 690)\<rparr>"

text \<open>One root with two children, the first removed.\<close>

definition demo_item :: "string \<Rightarrow> bool \<Rightarrow> win_data" where
  "demo_item name click = win_new_data (d_wide demo_desk) name name click False"

definition demo_root :: win_item where
  "demo_root = Win_Item ((demo_item ''m'' False)\<lparr>win_tray_id := 1\<rparr>)
     [Win_Item ((demo_item ''a'' True)\<lparr>win_removed := True\<rparr>) [], Win_Item (demo_item ''b'' True) []]"

definition demo_state :: win_state where
  "demo_state = win_start\<lparr>g_roots := [demo_root], g_next_tray_id := 2\<rparr>"

lemma demo_state_ok: "win_ok demo_state"
proof -
  have "demo_state = with_popups (length []) [] demo_state"
    by (simp add: demo_state_def win_start_def with_popups_def slots_def structs_def frames_def)
  moreover have "wins_ok demo_state []" by (simp add: wins_ok_no_popups demo_state_def win_start_def)
  ultimately show ?thesis unfolding win_ok_def by blast
qed

text \<open>The same with its menu open.\<close>

definition demo_entry :: entry where
  "demo_entry = new_entry demo_desk demo_state (0, [0]) demo_root 900 690 0 None"

definition demo_open :: win_state where
  "demo_open = with_popups 1 [demo_entry] (demo_state\<lparr>popup_fresh := 2, capture := Some 1\<rparr>)"

lemmas demo_defs = demo_state_def demo_root_def demo_item_def win_new_data_def demo_desk_def win_start_def
  item_visible_child_count_def is_shown_def label_text_def

lemma demo_open_ok: "win_ok demo_open" and demo_open_shown: "shown_popups demo_open = [demo_entry]"
proof -
  have start: "wins_ok demo_state []" by (simp add: wins_ok_no_popups demo_state_def win_start_def)
  have "wins_ok (demo_state\<lparr>popup_fresh := popup_fresh demo_state + 1\<rparr>) ([] @ [new_entry demo_desk demo_state (0, [0]) demo_root 900 690 (length ([] :: entry list)) None])"
    by (rule wins_ok_snoc [OF start]) (simp_all add: demo_defs DD_MAX_POPUPS_def)
  moreover have "popup_fresh demo_state + 1 = 2" by (simp add: demo_state_def win_start_def)
  ultimately have "wins_ok (demo_state\<lparr>popup_fresh := 2\<rparr>) [demo_entry]"
    by (simp only: demo_entry_def append_Nil list.size(3))
  moreover have "fst demo_entry = 1" by (simp add: demo_entry_def new_entry_def Let_def demo_state_def win_start_def)
  ultimately have ok: "wins_ok (demo_state\<lparr>popup_fresh := 2, capture := Some 1\<rparr>) [demo_entry]"
    by (auto simp: wins_ok_def capture_ok_def entry_wf_def)
  have "win_ok (with_popups (length [demo_entry]) [demo_entry] (demo_state\<lparr>popup_fresh := 2, capture := Some 1\<rparr>))"
    by (rule win_ok_with [OF ok])
  then show "win_ok demo_open" by (simp add: demo_open_def)
  have "shown_popups (with_popups (length [demo_entry]) [demo_entry] (demo_state\<lparr>popup_fresh := 2, capture := Some 1\<rparr>)) = [demo_entry]"
    by (rule shown_popups_with) (use ok in \<open>simp add: wins_ok_def\<close>)
  then show "shown_popups demo_open = [demo_entry]" by (simp add: demo_open_def)
qed

definition demo_run :: string where
  "demo_run = ''{'' @ QUO # ''op'' @ QUO # '':'' @ QUO # ''run'' @ QUO # '','' @ QUO # ''items'' @ QUO # '':[{'' @ QUO # ''name'' @ QUO # '':''
     @ QUO # ''m'' @ QUO # '','' @ QUO # ''icon'' @ QUO # '':'' @ QUO # ''M'' @ QUO # '','' @ QUO # ''click'' @ QUO # '':true}]}''"

definition demo_value :: jvalue where
  "demo_value = J_Object [(''name'', J_String ''m''), (''icon'', J_String ''M''), (''click'', J_Bool True)]"

lemma demo_parsed: "j_parse demo_run = Parsed (J_Object [(''op'', J_String ''run''), (''items'', J_Array [demo_value])])"
  by code_simp

lemma demo_close: "popup_close_all win_start = (Ret (), win_start)"
  by (simp add: popup_close_all_def close_all_def release_capture_def close_from_def win_start_def xs_simps)

lemma demo_item_read: "win_item_from_json w demo_value = Some (Win_Item (win_new_data w ''m'' ''M'' True False) [])"
  by (subst win_item_from_json.simps)
    (simp add: demo_value_def j_get_string_def j_get_bool_def menu_values_def c_str_def NUL_def)

lemma demo_clear: "clear_all win_start = (Ret (), win_start\<lparr>g_tree := 1\<rparr>)"
  unfolding clear_all_def xs_then_Ret [where m = popup_close_all, OF demo_close] by (simp add: win_start_def xs_simps)

definition demo_after :: "bool \<Rightarrow> (32 word \<Rightarrow> wide option option) \<Rightarrow> bool \<Rightarrow> win_state" where
  "demo_after tb tr told = win_start\<lparr>g_tree := 1, g_next_tray_id := 2, taskbar := tb, taskbar_told := told, tray := tr,
     g_roots := [Win_Item ((win_new_data (d_wide demo_desk) ''m'' ''M'' True False)\<lparr>win_tray_id := 1,
        win_tray_icon := Some (d_wide demo_desk ''M'')\<rparr>) []]\<rparr>"

definition demo_tray :: "32 word \<Rightarrow> wide option option" where
  "demo_tray = (\<lambda>_. None)(1 := Some (d_wide demo_desk ''M''))"

lemma demo_step: "win_step demo_desk (Ev_Command demo_run) win_start = (Ret (), demo_after True demo_tray True)"
proof -
  have "win_step demo_desk (Ev_Command demo_run) win_start = xs_then clear_all (win_install_loop demo_desk [demo_value]) win_start"
    by (simp add: win_step_def host_proc_def handle_command_line_def demo_parsed install_run_def xs_simps win_start_def
        j_get_string_def c_str_def NUL_def)
  also have "\<dots> = win_install_loop demo_desk [demo_value] (win_start\<lparr>g_tree := 1\<rparr>)"
    by (rule xs_then_Ret [where m = clear_all, OF demo_clear])
  also have "\<dots> = (Ret (), demo_after True demo_tray True)"
    by (simp add: demo_item_read xs_simps add_root_def add_or_modify_tray_def w_item_def change_item_def shell_notify_def win_start_def
        win_new_data_def demo_after_def demo_tray_def)
  finally show ?thesis .
qed

lemma demo_created: "win_step d Ev_Taskbar_Created (demo_after True (\<lambda>_. None) False) = (Ret (), demo_after True demo_tray True)"
  by (simp add: win_step_def host_proc_def xs_simps demo_after_def win_start_def w_item_def add_or_modify_tray_def change_item_def
      shell_notify_def win_new_data_def demo_tray_def)

section \<open>Properties\<close>

text \<open>The helper started in any well formed state ends with nothing left.\<close>

lemma win_main_run:
  assumes "win_ok s0"
  obtains s where "win_main es s0 = (Ret (), s)" and "g_roots s = []" and "windows s = (\<lambda>_. None)" and "popup_heap s = (\<lambda>_. None)"
proof -
  from win_loop_ok [OF assms, of es] obtain s where loop: "win_loop es s0 = (Ret (), s)" and "win_ok s" by blast
  then obtain ps where ps: "s = with_popups (length ps) ps s" "wins_ok s ps" by (auto simp: win_ok_def)
  obtain tr where clear: "clear_all (with_popups (length ps) ps s) = (Ret (), with_popups 0 [] (cleared s tr))"
    by (rule clear_all_run [OF ps(2)])
  have "clear_all s = (Ret (), with_popups 0 [] (cleared s tr))" by (subst ps(1)) (rule clear)
  then have "win_main es s0 = (Ret (), with_popups 0 [] (cleared s tr))"
    by (simp add: win_main_def xs_then_Ret [where m = "win_loop es", OF loop])
  then show ?thesis by (rule that) (simp_all add: cleared_def structs_def frames_def)
qed

text \<open>C29: Whatever messages arrive in whatever order, the Windows helper handles each one without
  touching freed memory, a null popup, a stale item or a slot outside its array, and without
  nesting handlers for ever; between messages the open popups form a chain in which each shows
  exactly the children of its owner that are not removed; and when the loop ends no popup
  struct, window or item is left.\<close>

theorem win_helper_safe:
  "list_all win_ok (win_states es win_start)
   \<and> (\<exists>s. win_main es win_start = (Ret (), s) \<and> g_roots s = [] \<and> windows s = (\<lambda>_. None) \<and> popup_heap s = (\<lambda>_. None))"
proof -
  obtain s where "win_main es win_start = (Ret (), s)" "g_roots s = []" "windows s = (\<lambda>_. None)" "popup_heap s = (\<lambda>_. None)"
    by (rule win_main_run [OF win_start_ok(1)])
  then show ?thesis using win_loop_ok [OF win_start_ok(1), of es] by blast
qed



text \<open>C32: A click while the menus are open goes to the topmost popup under the pointer: it writes
  the event of the item in the row there, exactly when that item is clickable and has nothing to open,
  and no other event; the menus close exactly as \<open>click_stay\<close> says, a click beside all menus closes
  them all, and otherwise the row under the pointer is the highlighted one.\<close>

theorem click_reaches_topmost:
  assumes "win_ok s"
  shows "\<exists>s1. handle_popup_mouse d pt True s = (Ret (), s1) \<and> win_ok s1
    \<and> g_out s1 = g_out s @ click_lines (clicked_item s pt (shown_popups s))
    \<and> (if click_closes s pt (shown_popups s) then shown_popups s1 = []
       else \<exists>i. topmost pt (shown_popups s) = Some i \<and> i < length (shown_popups s1)
         \<and> pop_hover (fst (snd (shown_popups s1 ! i))) = int (row_under pt (shown_popups s) i))"
proof -
  let ?ps = "shown_popups s"
  note ok = win_ok_shown [OF assms]
  show ?thesis
  proof (rule handle_popup_mouse_stack [OF ok(2), of d pt True])
    fix qs k c
    let ?ls = "if True then click_lines (clicked_item s pt ?ps) else []"
    let ?s = "with_popups (length qs) qs (moved s k c ?ls)"
    assume run: "handle_popup_mouse d pt True (with_popups (length ?ps) ?ps s) = (Ret (), ?s)"
      and win: "wins_ok (moved s k c []) qs" and closed: "True \<Longrightarrow> click_closes s pt ?ps \<Longrightarrow> qs = []"
      and hover: "\<And>i. topmost pt ?ps = Some i \<Longrightarrow> \<not> (True \<and> click_closes s pt ?ps) \<Longrightarrow>
        i < length qs \<and> pop_hover (fst (snd (qs ! i))) = int (row_under pt ?ps i)"
    have "handle_popup_mouse d pt True s = (Ret (), ?s)" by (subst ok(1)) (rule run)
    moreover have "win_ok ?s" by (rule win_ok_with) (use win wins_ok_moved [of s k c ?ls] in blast)
    moreover have shown: "shown_popups ?s = qs" by (rule shown_popups_with) (use win in \<open>simp add: wins_ok_def\<close>)
    moreover have "if click_closes s pt ?ps then qs = []
       else \<exists>i. topmost pt ?ps = Some i \<and> i < length qs \<and> pop_hover (fst (snd (qs ! i))) = int (row_under pt ?ps i)"
    proof (cases "click_closes s pt ?ps")
      case False
      then obtain i where "topmost pt ?ps = Some i" by (auto simp: click_closes_def)
      with hover [OF this] False show ?thesis by simp
    qed (use closed in simp)
    moreover have "g_out ?s = g_out s @ click_lines (clicked_item s pt ?ps)" by simp
    ultimately show ?thesis unfolding if_True by (intro exI [of _ ?s] conjI) (simp_all only: shown if_True)
  qed
qed

theorem click_reaches_topmost_witness:
  "\<exists>s1. handle_popup_mouse demo_desk (870, 680) True demo_open = (Ret (), s1) \<and> g_out s1 = emit_click_line ''b'' \<and> shown_popups s1 = []"
proof -
  have entry: "wnd_rect (snd (snd demo_entry)) = \<lparr>r_left = 860, r_top = 672, r_right = 1000, r_bottom = 700\<rparr>"
    and items: "pop_items (fst (snd demo_entry)) = [(0, [0, 1])]"
    by (simp_all add: demo_entry_def new_entry_def new_popup_def new_rect_def popup_measure_def popup_adjust_position_def
        DD_ROW_HEIGHT_def visible_children_def demo_defs Let_def)
  have top: "topmost (870, 680) [demo_entry] = Some 0" and row: "row_under (870, 680) [demo_entry] 0 = 0"
    by (simp_all add: topmost_def row_under_def in_rect_def entry DD_ROW_HEIGHT_def)
  have "row_item demo_open demo_entry 0 = Win_Item (demo_item ''b'' True) []"
    by (simp add: row_item_def items demo_open_def demo_state_def demo_root_def)
  then have clicked: "clicked_item demo_open (870, 680) [demo_entry] = Some (Win_Item (demo_item ''b'' True) [])"
    using top row by (simp add: clicked_item_def activates_def demo_item_def win_new_data_def item_visible_child_count_def)
  then have "click_closes demo_open (870, 680) [demo_entry]"
    by (simp add: click_closes_def demo_item_def win_new_data_def)
  with click_reaches_topmost [OF demo_open_ok, of demo_desk "(870, 680)"] clicked show ?thesis
    by (auto simp: demo_open_shown click_lines_def demo_item_def win_new_data_def) (simp add: demo_open_def demo_state_def win_start_def)
qed

text \<open>C31: From the notification area to an event: a click on the icon of a root that has a menu opens it, in a
  window that fits the screen rules, with one row per child that is not removed, and a click in the
  k-th of these rows then writes the event of exactly the k-th such child when it is clickable and
  has no menu of its own.\<close>

theorem tray_menu_click:
  assumes "win_ok s" and "\<not> quitting s" and "g_host s"
    and "root_from i 0 (g_roots s) = Some r" and "g_roots s ! r = t"
    and "d_create d (popup_fresh s)"
    and "k < item_visible_child_count t" and "filter is_shown (win_children t) ! k = child" and "activates child"
    and "new_rect d t (fst (d_cursor d)) (snd (d_cursor d)) 0 None = rect"
    and "r_left rect \<le> x" and "x < r_right rect"
    and "r_top rect + 28 * int k \<le> y" and "y < r_top rect + 28 * (int k + 1)"
  shows "\<exists>s1. win_loop [(d, Ev_Tray i True), (d1, Ev_Mouse (popup_fresh s) (x, y) True)] s = (Ret (), s1)
    \<and> g_out s1 = g_out s @ emit_click_line (win_name (win_data child))"
proof -
  let ?p = "popup_fresh s" and ?ptr = "(g_tree s, [r])" and ?cx = "fst (d_cursor d)" and ?cy = "snd (d_cursor d)"
  define e where "e = new_entry d s ?ptr t ?cx ?cy 0 None"
  obtain ps where ps: "s = with_popups (length ps) ps s" "wins_ok s ps" using assms(1) by (auto simp: win_ok_def)
  have visible: "item_visible_child_count t \<noteq> 0" using assms(7) by simp
  from tray_opens [OF ps(2) assms(2-5) visible assms(6), folded e_def] obtain n
    where step: "win_step d (Ev_Tray i True) s = (Ret (), with_popups (length [e]) [e] (moved s n (Some ?p) []))"
      and win: "wins_ok (moved s n (Some ?p) []) [e]" using ps(1) by metis
  have fst_e: "fst ([e] ! 0) = ?p" by (simp add: e_def new_entry_def Let_def)
  have rect: "wnd_rect (snd (snd e)) = rect" using assms(10) by (simp add: e_def new_entry_def Let_def)
  have bottom: "r_bottom rect = r_top rect + int (item_visible_child_count t) * 28"
    using new_rect_height [of d t ?cx ?cy 0 None] assms(10) by (simp add: DD_ROW_HEIGHT_def)
  have inside: "in_rect rect (x, y)" using assms(7,11-14) bottom by (simp add: in_rect_def)
  then have top: "topmost (x, y) [e] = Some 0" by (simp add: topmost_def rect)
  have "(y - r_top rect) div 28 = int k" by (rule int_div_pos_eq [where r = "y - r_top rect - 28 * int k"]) (use assms(13,14) in simp_all)
  then have row: "row_under (x, y) [e] 0 = k" by (simp add: row_under_def rect DD_ROW_HEIGHT_def)
  have r: "r < length (g_roots s)" using root_from_Some [OF assms(4)] by simp
  then have "item_in (snd (visible_children ?ptr t ! k)) (g_roots s) = Some child"
    using visible_children_nth [of "[r]" "g_roots s" t k "g_tree s"] assms(5,7,8) by simp
  then have "row_item (moved s n (Some ?p) []) e k = child" by (simp add: row_item_def e_def new_entry_def new_popup_def Let_def)
  then have clicked: "clicked_item (moved s n (Some ?p) []) (x, y) [e] = Some child"
    using top row assms(9) by (simp add: clicked_item_def)
  from mouse_clicks [OF win _ _, of d1 "(x, y)"] fst_e clicked obtain s1
    where mouse: "win_step d1 (Ev_Mouse ?p (x, y) True) (with_popups (length [e]) [e] (moved s n (Some ?p) [])) = (Ret (), s1)"
      and out: "g_out s1 = g_out s @ emit_click_line (win_name (win_data child))"
    by (auto simp: click_lines_def)
  have mouse: "win_step d1 (Ev_Mouse ?p (x, y) True) (with_popups (Suc 0) [e] (moved s n (Some ?p) [])) = (Ret (), s1)"
    using mouse by simp
  have "win_loop [(d, Ev_Tray i True), (d1, Ev_Mouse ?p (x, y) True)] s = (Ret (), s1)"
    using assms(2) by (simp add: xs_simps xs_then_Ret [where m = "win_step d (Ev_Tray i True)", OF step]
        xs_then_Ret [where m = "win_step d1 (Ev_Mouse ?p (x, y) True)", OF mouse])
  with out show ?thesis by blast
qed

theorem tray_menu_click_witness:
  "\<exists>s1. win_loop [(demo_desk, Ev_Tray 1 True), (demo_desk, Ev_Mouse 1 (870, 680) True)] demo_state = (Ret (), s1)
    \<and> g_out s1 = emit_click_line ''b''"
  using tray_menu_click [of demo_state 1 0 demo_root demo_desk 0 "Win_Item (demo_item ''b'' True) []"
      "\<lparr>r_left = 860, r_top = 672, r_right = 1000, r_bottom = 700\<rparr>" 870 680 demo_desk] demo_state_ok
  by (simp add: demo_state_def demo_root_def demo_item_def win_new_data_def demo_desk_def win_start_def item_visible_child_count_def
      is_shown_def activates_def new_rect_def popup_measure_def popup_adjust_position_def label_text_def DD_ROW_HEIGHT_def)

end
