(* ===== verification/Win_Icon.thy ===== *)
theory Win_Icon
  imports Win_Items "HOL-Library.Multiset"
begin

unbundle bit_operations_syntax

section \<open>Icons of the Windows helper (native/system_menu_helper_win.c)\<close>

text \<open>
  \<open>create_text_icon\<close> draws a text into a bitmap, makes the untouched pixels transparent and the others opaque, and
  turns the bitmap into an icon. The state is what the process holds of GDI: device contexts, bitmaps, fonts, icons
  and the mask bytes. Windows refuses to delete a bitmap or font that is selected into a device context.
  What \<open>DrawTextW\<close> paints is an argument.
\<close>

datatype gdi = Screen_DC | Memory_DC nat | Bitmap nat | Font nat | Icon nat | Mask_Bytes

record gdi_state =
  gd_live :: "gdi multiset"
  gd_bitmap :: "gdi option"
  gd_font :: "gdi option"

text \<open>The answers of one call; \<open>ia_section\<close> is the bitmap and whether its bits were given.\<close>

record icon_answers =
  ia_width :: int
  ia_height :: int
  ia_screen :: bool
  ia_dc :: "nat option"
  ia_section :: "nat option \<times> bool"
  ia_font :: "nat option"
  ia_draw :: "string \<Rightarrow> wide \<Rightarrow> 32 word list \<Rightarrow> 32 word list"
  ia_mask :: "nat option"
  ia_icon :: "nat option"
  ia_copy :: "nat option"

text \<open>The result: the icon of the system, shared by all; an icon of one's own with its pixels; a copy of the
  system's icon.\<close>

datatype icon_result = Shared_Icon | Own_Icon nat "32 word list" | Copied_Icon "nat option"

definition acquire :: "gdi option \<Rightarrow> (gdi_state, unit) xs" where
  "acquire r = (case r of None \<Rightarrow> xs_return () | Some r \<Rightarrow> xs_modify (\<lambda>s. s\<lparr>gd_live := add_mset r (gd_live s)\<rparr>))"

text \<open>Deleting \<open>NULL\<close> does nothing; deleting what is not there is a fault; what is selected stays.\<close>

definition release :: "gdi option \<Rightarrow> (gdi_state, unit) xs" where
  "release r s = (case r of None \<Rightarrow> (Ret (), s)
     | Some r \<Rightarrow> if r \<notin># gd_live s then (Fault, s)
                 else if gd_bitmap s = Some r \<or> gd_font s = Some r then (Ret (), s)
                 else (Ret (), s\<lparr>gd_live := gd_live s - {#r#}\<rparr>))"

text \<open>\<open>SelectObject\<close> with \<open>NULL\<close> fails and changes nothing. What was selected before is the stock object, \<open>None\<close>.\<close>

definition select_bitmap :: "gdi option \<Rightarrow> (gdi_state, unit) xs" where
  "select_bitmap b = xs_modify (\<lambda>s. s\<lparr>gd_bitmap := b\<rparr>)"

definition select_font :: "gdi option \<Rightarrow> (gdi_state, unit) xs" where
  "select_font f = xs_modify (\<lambda>s. s\<lparr>gd_font := f\<rparr>)"

definition RGB :: "32 word \<Rightarrow> 32 word \<Rightarrow> 32 word \<Rightarrow> 32 word" where
  "RGB r g b = r OR push_bit 8 g OR push_bit 16 b"

fun contains_non_ascii :: "wide \<Rightarrow> bool" where
  "contains_non_ascii [] = False"
| "contains_non_ascii (c # s) = (if c = 0 then False else if c > 127 then True else contains_non_ascii s)"

definition icon_face :: "wide option \<Rightarrow> string" where
  "icon_face text = (case text of None \<Rightarrow> ''Segoe UI'' | Some t \<Rightarrow> if contains_non_ascii t then ''Segoe UI Emoji'' else ''Segoe UI'')"

text \<open>The second loop over the pixels.\<close>

fun set_alpha :: "32 word list \<Rightarrow> 32 word list" where
  "set_alpha [] = []"
| "set_alpha (p # px) = (let rgb = p AND 0x00FFFFFF
     in (if rgb = RGB 1 2 3 AND 0x00FFFFFF then 0 else rgb OR 0xFF000000) # set_alpha px)"

definition mask_size :: "int \<Rightarrow> int \<Rightarrow> int" where
  "mask_size w h = (w + 15) div 16 * 2 * h"

definition icon_ready :: "icon_answers \<Rightarrow> bool" where
  "icon_ready ia \<longleftrightarrow> fst (ia_section ia) \<noteq> None \<and> snd (ia_section ia) \<and> ia_dc ia \<noteq> None"

text \<open>\<open>w * h\<close> is an \<open>int\<close>; \<open>xcalloc\<close> returns memory or ends the process.\<close>

definition create_text_icon :: "icon_answers \<Rightarrow> wide option \<Rightarrow> (gdi_state, icon_result) xs" where
  "create_text_icon ia text =
     (let w = max 16 (ia_width ia);
          h = max 16 (ia_height ia);
          screen = (if ia_screen ia then Some Screen_DC else None);
          dc = map_option Memory_DC (ia_dc ia);
          color = map_option Bitmap (fst (ia_section ia));
          font = map_option Font (ia_font ia);
          mask_bitmap = map_option Bitmap (ia_mask ia)
      in xs_then (acquire screen)
        (xs_then (acquire dc)
        (xs_then (acquire color)
        (xs_then (release screen)
        (if \<not> icon_ready ia then xs_return Shared_Icon
         else if w * h > int INT_MAX then xs_fault
         else let px = replicate (nat (w * h)) (RGB 1 2 3)
           in xs_then (select_bitmap color)
             (xs_then (acquire font)
             (xs_then (if font = None then xs_return () else select_font font)
             (let drawn = ia_draw ia (icon_face text) (case text of None \<Rightarrow> [] | Some t \<Rightarrow> t) px
              in if length drawn \<noteq> length px then xs_fault
                 else xs_then (if font = None then xs_return () else select_font None)
                   (xs_then (select_bitmap None)
                   (xs_then (release font)
                   (xs_then (release dc)
                   (xs_then (acquire (Some Mask_Bytes))
                   (xs_then (acquire mask_bitmap)
                   (xs_then (release (Some Mask_Bytes))
                   (xs_then (acquire (map_option Icon (ia_icon ia)))
                   (xs_then (release mask_bitmap)
                   (xs_then (release color)
                     (case ia_icon ia of
                        Some i \<Rightarrow> xs_return (Own_Icon i (set_alpha drawn))
                      | None \<Rightarrow> xs_then (acquire (map_option Icon (ia_copy ia))) (xs_return (Copied_Icon (ia_copy ia)))))))))))))))))))))"

subsection \<open>Window classes\<close>

datatype class_answer = Registered | Already_Exists | Class_Error

text \<open>The classes that are registered, in the order of the calls.\<close>

definition register_class :: "string \<Rightarrow> class_answer \<Rightarrow> (string list, bool) xs" where
  "register_class name a = xs_then (if a = Registered then xs_modify (\<lambda>cs. cs @ [name]) else xs_return ()) (xs_return (a \<noteq> Class_Error))"

definition register_classes :: "class_answer \<Rightarrow> class_answer \<Rightarrow> (string list, bool) xs" where
  "register_classes host popup =
     xs_bind (register_class ''DeveloperDashboardSystemMenuHost'' host) (\<lambda>ok.
       if \<not> ok then xs_return False else register_class ''DeveloperDashboardSystemMenuPopup'' popup)"

section \<open>Facts\<close>

lemma RGB_background: "RGB 1 2 3 = 0x00030201"
  by (simp add: RGB_def)

lemma set_alpha_map: "set_alpha px = map (\<lambda>p. if p AND 0xFFFFFF = 0x030201 then 0 else p AND 0xFFFFFF OR 0xFF000000) px"
  by (induction px) (simp_all add: RGB_background Let_def)

text \<open>The mask has a bit for every pixel, in rows of whole 16-bit units.\<close>

theorem mask_covers:
  "0 < w \<Longrightarrow> 0 < h \<Longrightarrow> w * h \<le> mask_size w h * 8 \<and> mask_size w h = 2 * ((w + 15) div 16) * h"
proof -
  assume wh: "0 < w" "0 < h"
  have "w \<le> (w + 15) div 16 * 16" by presburger
  then have "w * h \<le> (w + 15) div 16 * 16 * h" using wh(2) by (simp add: mult_right_mono)
  then show ?thesis by (simp add: mask_size_def algebra_simps)
qed

definition gdi_clean :: "gdi_state \<Rightarrow> bool" where
  "gdi_clean s \<longleftrightarrow> gd_bitmap s = None \<and> gd_font s = None"

definition of_opt :: "('a \<Rightarrow> gdi) \<Rightarrow> 'a option \<Rightarrow> gdi multiset" where
  "of_opt f x = (case x of None \<Rightarrow> {#} | Some a \<Rightarrow> {#f a#})"

text \<open>When the bitmap and the device context exist, a call keeps nothing but the icon it returns, and every pixel of that
  icon is either transparent, where nothing was drawn, or opaque. When one of the two is missing, the other one stays
  behind and the shared icon of the system is returned, which the caller later destroys.\<close>

theorem create_text_icon_accounts:
  assumes "gdi_clean s" and "max 16 (ia_width ia) * max 16 (ia_height ia) \<le> int INT_MAX"
    and "\<And>face text px. length (ia_draw ia face text px) = length px"
  shows "create_text_icon ia text s =
    (if icon_ready ia then
       (let drawn = ia_draw ia (icon_face text) (case text of None \<Rightarrow> [] | Some t \<Rightarrow> t)
              (replicate (nat (max 16 (ia_width ia) * max 16 (ia_height ia))) 0x030201)
        in case ia_icon ia of
             Some i \<Rightarrow> (Ret (Own_Icon i (map (\<lambda>p. if p AND 0xFFFFFF = 0x030201 then 0 else p AND 0xFFFFFF OR 0xFF000000) drawn)),
                        s\<lparr>gd_live := gd_live s + {#Icon i#}\<rparr>)
           | None \<Rightarrow> (Ret (Copied_Icon (ia_copy ia)), s\<lparr>gd_live := gd_live s + of_opt Icon (ia_copy ia)\<rparr>))
     else (Ret Shared_Icon, s\<lparr>gd_live := gd_live s + of_opt Memory_DC (ia_dc ia) + of_opt Bitmap (fst (ia_section ia))\<rparr>))"
proof -
  obtain live where s: "s = \<lparr>gd_live = live, gd_bitmap = None, gd_font = None\<rparr>" using assms(1) by (cases s) (simp add: gdi_clean_def)
  note ops = acquire_def release_def select_bitmap_def select_font_def of_opt_def xs_simps
  show ?thesis
  proof (cases "icon_ready ia")
    case False
    then show ?thesis unfolding s
      by (cases "ia_screen ia"; cases "ia_dc ia"; cases "fst (ia_section ia)") (simp_all add: create_text_icon_def ops Let_def)
  next
    case True
    then obtain d c where dc: "ia_dc ia = Some d" "fst (ia_section ia) = Some c" by (auto simp: icon_ready_def)
    have px: "RGB 1 2 3 = 0x030201" by (rule RGB_background)
    show ?thesis unfolding s
      using True dc assms(2,3)
      by (cases "ia_screen ia"; cases "ia_font ia"; cases "ia_mask ia"; cases "ia_icon ia"; cases "ia_copy ia")
        (simp_all add: create_text_icon_def ops Let_def px set_alpha_map)
  qed
qed

text \<open>The popup class is tried only after the host class; both are registered, or one of them failed.\<close>

theorem register_classes_order:
  "register_classes host popup [] =
     (if host = Class_Error then (Ret False, [])
      else (Ret (popup \<noteq> Class_Error), (if host = Registered then [''DeveloperDashboardSystemMenuHost''] else [])
             @ (if popup = Registered then [''DeveloperDashboardSystemMenuPopup''] else [])))"
  by (cases host; cases popup) (simp_all add: register_classes_def register_class_def xs_then_def xs_bind_def xs_defs)

end
