(* ===== verification/Win_Program.thy ===== *)
theory Win_Program
  imports Win_Safe Win_Icon
begin

section \<open>The program of the Windows helper (native/system_menu_helper_win.c, main)\<close>

text \<open>
  \<open>main\<close> around the message loop: the window classes, the font of the menus, the host window, the reader thread,
  and what is given back at the end. The fonts are those the program made itself; the stock font is no such font.
\<close>

record start_answers =
  sa_host_class :: class_answer
  sa_popup_class :: class_answer
  sa_metrics :: bool
  sa_font :: "nat option"
  sa_host :: bool
  sa_thread :: "nat option"

record program =
  pg_classes :: "string list"
  pg_fonts :: "nat multiset"
  pg_threads :: "nat multiset"
  pg_win :: win_state

definition program_start :: program where
  "program_start = \<lparr>pg_classes = [], pg_fonts = {#}, pg_threads = {#}, pg_win = win_start\<rparr>"

text \<open>\<open>g_menu_font\<close>, \<open>None\<close> when it is the stock font.\<close>

definition menu_font :: "start_answers \<Rightarrow> nat option" where
  "menu_font sa = (if sa_metrics sa then sa_font sa else None)"

definition on_classes :: "(string list, 'a) xs \<Rightarrow> (program, 'a) xs" where
  "on_classes m p = (case m (pg_classes p) of (out, cs) \<Rightarrow> (out, p\<lparr>pg_classes := cs\<rparr>))"

definition on_win :: "'a win \<Rightarrow> (program, 'a) xs" where
  "on_win m p = (case m (pg_win p) of (out, s) \<Rightarrow> (out, p\<lparr>pg_win := s\<rparr>))"

definition make_font :: "nat option \<Rightarrow> (program, unit) xs" where
  "make_font f = xs_modify (\<lambda>p. case f of None \<Rightarrow> p | Some f \<Rightarrow> p\<lparr>pg_fonts := add_mset f (pg_fonts p)\<rparr>)"

definition delete_font :: "nat option \<Rightarrow> (program, unit) xs" where
  "delete_font f p = (case f of None \<Rightarrow> (Ret (), p)
     | Some f \<Rightarrow> if f \<in># pg_fonts p then (Ret (), p\<lparr>pg_fonts := pg_fonts p - {#f#}\<rparr>) else (Fault, p))"

text \<open>The handle of the reader thread is closed at once; the thread goes on.\<close>

definition start_reader :: "nat option \<Rightarrow> (program, unit) xs" where
  "start_reader t = (case t of None \<Rightarrow> xs_return ()
     | Some t \<Rightarrow> xs_then (xs_modify (\<lambda>p. p\<lparr>pg_threads := add_mset t (pg_threads p)\<rparr>))
                   (xs_modify (\<lambda>p. p\<lparr>pg_threads := pg_threads p - {#t#}\<rparr>)))"

definition win_program :: "start_answers \<Rightarrow> (desk \<times> win_event) list \<Rightarrow> (program, int) xs" where
  "win_program sa es =
     xs_bind (on_classes (register_classes (sa_host_class sa) (sa_popup_class sa))) (\<lambda>ok.
       if \<not> ok then xs_return 2
       else xs_then (make_font (menu_font sa))
         (if \<not> sa_host sa then xs_return 3
          else xs_then (start_reader (sa_thread sa))
            (xs_then (on_win (win_main es))
              (xs_then (delete_font (menu_font sa)) (xs_return 0)))))"

text \<open>For any answers of Windows and any messages the program ends with an exit code that names what was missing; when it
  ran, no item, popup, window, font or handle is left.\<close>

theorem win_program_ends:
  "\<exists>p. win_program sa es program_start = (Ret (if sa_host_class sa = Class_Error \<or> sa_popup_class sa = Class_Error then 2
        else if \<not> sa_host sa then 3 else 0), p) \<and> pg_threads p = {#} \<and> g_roots (pg_win p) = []
     \<and> (sa_host sa \<longrightarrow> pg_fonts p = {#}) \<and> windows (pg_win p) = (\<lambda>_. None) \<and> popup_heap (pg_win p) = (\<lambda>_. None)"
proof -
  obtain s where main: "win_main es win_start = (Ret (), s)" and s: "g_roots s = []" "windows s = (\<lambda>_. None)" "popup_heap s = (\<lambda>_. None)"
    by (rule win_main_run [OF win_start_ok(1), of es])
  obtain cs where classes: "on_classes (register_classes (sa_host_class sa) (sa_popup_class sa)) program_start
      = (Ret (sa_host_class sa \<noteq> Class_Error \<and> sa_popup_class sa \<noteq> Class_Error), program_start\<lparr>pg_classes := cs\<rparr>)"
    using register_classes_order [of "sa_host_class sa" "sa_popup_class sa"]
    by (cases "sa_host_class sa = Class_Error") (simp_all add: on_classes_def program_start_def)
  have start: "g_roots win_start = []" "windows win_start = (\<lambda>_. None)" "popup_heap win_start = (\<lambda>_. None)"
    by (simp_all add: win_start_def)
  show ?thesis unfolding win_program_def xs_bind_Ret [where m = "on_classes (register_classes (sa_host_class sa) (sa_popup_class sa))", OF classes]
    using main s start
    by (cases "menu_font sa"; cases "sa_thread sa")
      (simp_all add: xs_then_def xs_bind_def xs_defs make_font_def delete_font_def start_reader_def on_win_def program_start_def)
qed

end
